(* ===== verification/Prelude.thy ===== *)
theory Prelude
  imports Main "HOL-Library.Word" "HOL-Library.Signed_Division"
begin

text \<open>
  Shared vocabulary of the development: the machine integers of
  include/comm/stdint.h, the faults a C function of the kernel can run into, and
  the little-endian byte layout of 32-bit values. Everything here is independent
  of any component of the kernel.
\<close>

unbundle bit_operations_syntax

section \<open>Machine integers\<close>

type_synonym u8 = "8 word"
type_synonym u16 = "16 word"
type_synonym u32 = "32 word"

named_theorems byte_layout "decoding after encoding, for the structures kept on disk and in memory"
named_theorems queue_simps "effect of the pid queue operations on the list a queue stands for"
named_theorems frame_simps "components of a state an operation leaves alone"

lemma word_nonzero_iff: "w \<noteq> 0 \<longleftrightarrow> (\<exists>k. bit w k)" for w :: "'a::len word"
  by (auto simp: bit_eq_iff dest: bit_imp_le_length)

lemma bit_u8_exp: "bit (2 ^ n :: u8) k \<longleftrightarrow> n < 8 \<and> k = n"
  by (auto simp: bit_exp_iff)

lemma sint_of_nat_small: "n < 2 ^ 31 \<Longrightarrow> sint (of_nat n :: u32) = int n"
  by (simp add: signed_of_nat signed_take_bit_int_eq_self)

lemma sint_high:
  fixes w :: u32
  assumes "2147483648 \<le> unat w"
  shows "sint w = int (unat w) - 4294967296"
proof -
  have "unat w < 4294967296" using unsigned_less [of w, where ?'a = nat] by simp
  then have b: "2147483648 \<le> int (unat w)" "int (unat w) < 4294967296" using assms by linarith+
  have "w = of_int (int (unat w) - 4294967296)" by simp
  then have "sint w = sint (of_int (int (unat w) - 4294967296) :: u32)" by (rule arg_cong)
  also have "\<dots> = signed_take_bit 31 (int (unat w) - 4294967296)" by (simp only: signed_of_int) simp
  also have "\<dots> = int (unat w) - 4294967296"
  proof (rule signed_take_bit_int_eq_self)
    have "(2 :: int) ^ 31 = 2147483648" by simp
    then show "- (2 ^ 31) \<le> int (unat w) - 4294967296" "int (unat w) - 4294967296 < 2 ^ 31"
      using b by linarith+
  qed
  finally show ?thesis .
qed

lemma sdiv_nonneg: "0 \<le> a \<Longrightarrow> 0 < b \<Longrightarrow> a sdiv b = a div b" for a b :: int
  by (cases "a = 0") (simp_all add: signed_divide_int_def)

lemma unat_of_nat_small:
  "n < 2 ^ 32 \<Longrightarrow> unat (of_nat n :: u32) = n"
  "n < 2 ^ 16 \<Longrightarrow> unat (of_nat n :: u16) = n"
  "n < 2 ^ 8 \<Longrightarrow> unat (of_nat n :: u8) = n"
  by (simp_all add: unat_of_nat)

lemma ucast_of_nat_u32 [simp]:
  "ucast (of_nat n :: u32) = (of_nat n :: u8)" "ucast (of_nat n :: u32) = (of_nat n :: u16)"
  "ucast (of_nat n :: u16) = (of_nat n :: u8)"
  by (simp_all add: unsigned_of_nat word_unat_eq_iff unat_of_nat take_bit_eq_mod mod_mod_cancel)

lemma low_byte_u16: "ucast (0xFF AND w) = (ucast w :: u8)" for w :: u16
proof -
  have m: "(0xFF :: u16) = mask 8" by (simp add: mask_eq_exp_minus_1)
  show ?thesis by (subst m, rule bit_word_eqI) (auto simp: bit_simps)
qed

lemma high_byte_u16:
  assumes "n < 2 ^ 16"
  shows "ucast (drop_bit 8 (of_nat n :: u16)) = (of_nat (n div 256) :: u8)"
proof -
  have "drop_bit 8 (of_nat n :: u16) = of_nat (n div 256)"
    using assms by (simp add: word_unat_eq_iff unat_div unat_of_nat drop_bit_eq_div less_mult_imp_div_less)
  then show ?thesis by simp
qed

lemma of_nat_div_mod_u32:
  assumes "n < 2 ^ 32" "0 < k" "k < 2 ^ 32"
  shows "(of_nat n :: u32) div of_nat k = of_nat (n div k)" "(of_nat n :: u32) mod of_nat k = of_nat (n mod k)"
proof -
  have "n div k < 2 ^ 32" "n mod k < 2 ^ 32"
    using assms div_le_dividend [of n k] mod_less_eq_dividend [of n k] by linarith+
  then show "(of_nat n :: u32) div of_nat k = of_nat (n div k)" "(of_nat n :: u32) mod of_nat k = of_nat (n mod k)"
    using assms by (simp_all add: word_unat_eq_iff unat_div unat_mod unat_of_nat)
qed

lemma div_mod_8_iff:
  fixes i j k :: int
  assumes "0 \<le> j" "j < 8"
  shows "k = 8 * i + j \<longleftrightarrow> k div 8 = i \<and> k mod 8 = j"
proof
  assume "k = 8 * i + j"
  then show "k div 8 = i \<and> k mod 8 = j" using assms by simp
next
  assume "k div 8 = i \<and> k mod 8 = j"
  then show "k = 8 * i + j" using mult_div_mod_eq [of 8 k] by simp
qed

section \<open>Faults\<close>

text \<open>
  \<open>Out_Of_Bounds\<close> is an access outside the C object it was meant for,
  \<open>Hang\<close> is one of the \<open>while (true) printf(...)\<close> loops the code enters when it
  detects an inconsistency (the Makefile compiles with _DEBUG), \<open>Div_Error\<close>
  a division by zero, \<open>Page_Fault\<close> an access through a page table that the model does not
  follow any further.
\<close>

datatype fault = Out_Of_Bounds | Hang | Div_Error | Page_Fault

type_synonym 'a res = "fault + 'a"

definition rbind :: "'a res \<Rightarrow> ('a \<Rightarrow> 'b res) \<Rightarrow> 'b res" where
  "rbind m f = (case m of Inl e \<Rightarrow> Inl e | Inr x \<Rightarrow> f x)"

lemma rbind_simps [simp]:
  "rbind (Inl e) f = Inl e"
  "rbind (Inr x) f = f x"
  by (simp_all add: rbind_def)

lemma rbind_eq_Inr: "rbind m f = Inr y \<longleftrightarrow> (\<exists>x. m = Inr x \<and> f x = Inr y)"
  by (cases m) simp_all

lemma rbind_assoc: "rbind (rbind m f) g = rbind m (\<lambda>x. rbind (f x) g)"
  by (cases m) simp_all

lemma rbind_split:
  "P (rbind m f) \<longleftrightarrow> (\<forall>e. m = Inl e \<longrightarrow> P (Inl e)) \<and> (\<forall>x. m = Inr x \<longrightarrow> P (f x))"
  by (cases m) simp_all

lemma rbind_split_asm:
  "P (rbind m f) \<longleftrightarrow> \<not> ((\<exists>e. m = Inl e \<and> \<not> P (Inl e)) \<or> (\<exists>x. m = Inr x \<and> \<not> P (f x)))"
  by (cases m) simp_all

lemma rbind_cong [fundef_cong]:
  "m = m' \<Longrightarrow> (\<And>x. m' = Inr x \<Longrightarrow> f x = f' x) \<Longrightarrow> rbind m f = rbind m' f'"
  by (cases m') simp_all

section \<open>Little-endian layout of 32-bit values\<close>

definition le32 :: "u32 \<Rightarrow> u8 list" where
  "le32 w = [ucast w, ucast (drop_bit 8 w), ucast (drop_bit 16 w), ucast (drop_bit 24 w)]"

definition join32 :: "u8 \<Rightarrow> u8 \<Rightarrow> u8 \<Rightarrow> u8 \<Rightarrow> u32" where
  "join32 a b c d = ucast a OR push_bit 8 (ucast b) OR push_bit 16 (ucast c) OR push_bit 24 (ucast d)"

fun un_le32 :: "u8 list \<Rightarrow> u32" where
  "un_le32 (a # b # c # d # _) = join32 a b c d"
| "un_le32 _ = 0"

lemma length_le32 [simp]: "length (le32 w) = 4"
  by (simp add: le32_def)

lemma join32_le32 [byte_layout, simp]:
  "join32 (ucast w) (ucast (drop_bit 8 w)) (ucast (drop_bit 16 w)) (ucast (drop_bit 24 w)) = w"
proof (rule bit_word_eqI)
  fix n assume "n < LENGTH(32)"
  then consider "n < 8" | "8 \<le> n \<and> n < 16" | "16 \<le> n \<and> n < 24" | "24 \<le> n \<and> n < 32"
    by fastforce
  then show "bit (join32 (ucast w) (ucast (drop_bit 8 w)) (ucast (drop_bit 16 w))
      (ucast (drop_bit 24 w))) n = bit w n"
    by cases (auto simp: join32_def bit_simps)
qed

lemma un_le32_le32 [byte_layout, simp]: "un_le32 (le32 w @ xs) = w"
  by (simp add: le32_def)

lemma un_le32_le32' [byte_layout, simp]: "un_le32 (le32 w) = w"
  using un_le32_le32 [of w "[]"] by simp

lemma bit_join32:
  "bit (join32 a b c d) k \<longleftrightarrow>
     (if k < 8 then bit a k else if k < 16 then bit b (k - 8)
      else if k < 24 then bit c (k - 16) else k < 32 \<and> bit d (k - 24))"
  by (auto simp: join32_def bit_simps dest: bit_imp_le_length)

lemma join32_bytes [simp]:
  "ucast (join32 a b c d) = a"
  "ucast (drop_bit 8 (join32 a b c d)) = b"
  "ucast (drop_bit 16 (join32 a b c d)) = c"
  "ucast (drop_bit 24 (join32 a b c d)) = d"
  by (rule bit_word_eqI; simp add: bit_join32 bit_simps)+

section \<open>Buffers\<close>

text \<open>
  A C buffer is the list of its bytes. \<open>slice off n\<close> reads \<open>n\<close> bytes at \<open>off\<close>;
  \<open>buf_write\<close> stores bytes at \<open>off\<close> and faults when they do not fit.
\<close>

definition slice :: "nat \<Rightarrow> nat \<Rightarrow> 'a list \<Rightarrow> 'a list" where
  "slice off n xs = take n (drop off xs)"

definition overwrite :: "'a list \<Rightarrow> nat \<Rightarrow> 'a list \<Rightarrow> 'a list" where
  "overwrite xs off ys = take off xs @ ys @ drop (off + length ys) xs"

definition buf_write :: "'a list \<Rightarrow> nat \<Rightarrow> 'a list \<Rightarrow> 'a list res" where
  "buf_write xs off ys =
     (if off + length ys \<le> length xs then Inr (overwrite xs off ys) else Inl Out_Of_Bounds)"

definition buf_read :: "'a list \<Rightarrow> nat \<Rightarrow> nat \<Rightarrow> 'a list res" where
  "buf_read xs off n = (if off + n \<le> length xs then Inr (slice off n xs) else Inl Out_Of_Bounds)"

lemma length_slice [simp]: "off + n \<le> length xs \<Longrightarrow> length (slice off n xs) = n"
  by (simp add: slice_def)

lemma length_overwrite [simp]:
  "off + length ys \<le> length xs \<Longrightarrow> length (overwrite xs off ys) = length xs"
  by (simp add: overwrite_def)

lemma slice_0 [simp]: "slice off 0 xs = []"
  by (simp add: slice_def)

lemma slice_all [simp]: "slice 0 (length xs) xs = xs"
  by (simp add: slice_def)

lemma slice_overwrite_same [simp]:
  "off + length ys \<le> length xs \<Longrightarrow> slice off (length ys) (overwrite xs off ys) = ys"
  by (simp add: slice_def overwrite_def)

lemma nth_overwrite:
  "off + length ys \<le> length xs \<Longrightarrow> i < length xs \<Longrightarrow>
   overwrite xs off ys ! i = (if off \<le> i \<and> i < off + length ys then ys ! (i - off) else xs ! i)"
  by (auto simp: overwrite_def nth_append min_def)

lemma nth_slice: "i < n \<Longrightarrow> off + n \<le> length xs \<Longrightarrow> slice off n xs ! i = xs ! (off + i)"
  by (simp add: slice_def)

lemma slice_append: "slice off (m + n) xs = slice off m xs @ slice (off + m) n xs"
  by (simp add: slice_def take_add add.commute)

end
