(* ===== verification/Bit_Ops.thy ===== *)
theory Bit_Ops
  imports Prelude
begin

text \<open>
  kernel/lib/bit.c: extraction of a bit field (\<open>testbits\<close>), of one bit
  (\<open>testbit\<close>) and assignment of one bit (\<open>setbit\<close>). A shift by 32 or more is
  undefined in C; the i386 code the Makefile's flags produce (\<open>shl\<close> and \<open>shr\<close> by
  \<open>cl\<close>, see kernel/kernel_dis.txt) takes the count modulo 32, and so do the
  definitions.
\<close>

unbundle bit_operations_syntax

definition shl32 :: "u32 \<Rightarrow> nat \<Rightarrow> u32" where
  "shl32 w n = push_bit (n mod 32) w"

definition shr32 :: "u32 \<Rightarrow> nat \<Rightarrow> u32" where
  "shr32 w n = drop_bit (n mod 32) w"

definition testbits :: "u32 \<Rightarrow> u8 \<Rightarrow> u8 \<Rightarrow> u32" where
  "testbits num start en =
     shr32 num (unat start) AND (shl32 1 (nat ((int (unat en) - int (unat start)) mod 32)) - 1)"

definition testbit :: "u32 \<Rightarrow> u8 \<Rightarrow> bool" where
  "testbit num digit \<longleftrightarrow> testbits num digit (digit + 1) \<noteq> 0"

definition setbit :: "u32 \<Rightarrow> int \<Rightarrow> bool \<Rightarrow> u32" where
  "setbit num index value =
     (if value then num OR shl32 1 (nat (index mod 32))
      else num AND NOT (shl32 1 (nat (index mod 32))))"

lemma bit_mask32: "n < 32 \<Longrightarrow> bit (2 ^ n - 1 :: u32) k \<longleftrightarrow> k < n"
  by (auto simp: bit_mask_iff simp flip: mask_eq_exp_minus_1)

text \<open>The field of a number: bits \<open>start\<close> up to, but not including, \<open>en\<close>.\<close>

lemma bit_testbits:
  assumes "unat start < unat en" "unat en \<le> 32" "unat en - unat start < 32"
  shows "bit (testbits num start en) k \<longleftrightarrow> k < unat en - unat start \<and> bit num (unat start + k)"
proof -
  have s: "unat start mod 32 = unat start" using assms by simp
  have "nat ((int (unat en) - int (unat start)) mod 32) = unat en - unat start"
  proof -
    have "int (unat en) - int (unat start) = int (unat en - unat start)"
      by (rule of_nat_diff [symmetric]) (use assms in simp)
    then show ?thesis using assms(3)
      by (simp only: nat_mod_distrib nat_int of_nat_0_le_iff nat_numeral mod_less)
  qed
  with assms show ?thesis
    by (auto simp: testbits_def shl32_def shr32_def s bit_and_iff bit_drop_bit_eq bit_mask32)
qed

lemma testbits_take:
  assumes "unat start < unat en" "unat en \<le> 32" "unat en - unat start < 32"
  shows "testbits num start en = take_bit (unat en - unat start) (drop_bit (unat start) num)"
  by (rule bit_word_eqI) (simp add: bit_testbits [OF assms] bit_take_bit_iff bit_drop_bit_eq)

lemma unat_testbits:
  assumes "unat start < unat en" "unat en \<le> 32" "unat en - unat start < 32"
  shows "unat (testbits num start en) = unat num div 2 ^ unat start mod 2 ^ (unat en - unat start)"
proof -
  have "unat (drop_bit (unat start) num) = drop_bit (unat start) (unat num)"
    by (rule bit_eqI) (auto simp: bit_unsigned_iff bit_drop_bit_eq)
  then have "unat (take_bit (unat en - unat start) (drop_bit (unat start) num)) =
      take_bit (unat en - unat start) (drop_bit (unat start) (unat num))"
    by (simp only: unsigned_take_bit_eq)
  then show ?thesis by (simp add: testbits_take [OF assms] take_bit_eq_mod drop_bit_eq_div)
qed

lemma bit_only_exp: "bit (2 ^ n :: u32) k \<longleftrightarrow> n < 32 \<and> k = n"
  by (auto simp: bit_exp_iff)

lemma bit_only: "bit (push_bit n (1::u32)) k \<longleftrightarrow> n < 32 \<and> k = n"
  by (simp add: bit_only_exp)

lemma unat_Suc_u8: "unat (d::u8) < 255 \<Longrightarrow> unat (d + 1) = unat d + 1"
  by (simp add: unat_word_ariths)

lemma testbit_iff: "unat d < 32 \<Longrightarrow> testbit num d \<longleftrightarrow> bit num (unat d)"
proof -
  assume d: "unat d < 32"
  then have sd: "unat (d + 1) = unat d + 1" by (intro unat_Suc_u8) simp
  have b: "bit (testbits num d (d + 1)) k \<longleftrightarrow> k = 0 \<and> bit num (unat d)" for k
    using d by (subst bit_testbits) (auto simp: sd)
  show ?thesis
  proof
    assume "testbit num d"
    then obtain k where "bit (testbits num d (d + 1)) k"
      by (auto simp: testbit_def word_nonzero_iff)
    then show "bit num (unat d)" by (simp add: b)
  next
    assume "bit num (unat d)"
    then have "bit (testbits num d (d + 1)) 0" by (simp only: b)
    then show "testbit num d" unfolding testbit_def by auto
  qed
qed

lemma bit_setbit:
  "0 \<le> i \<Longrightarrow> i < 32 \<Longrightarrow> bit (setbit num i v) k \<longleftrightarrow> (if k = nat i then v else bit num k)"
  by (auto simp: setbit_def shl32_def bit_or_iff bit_and_iff bit_not_iff bit_only bit_only_exp nat_less_iff
      dest: bit_imp_le_length)

end
