(* ===== verification/Bit_Allocation.thy ===== *)
theory Bit_Allocation
  imports Bit_Ops "HOL-Library.Signed_Division"
begin

text \<open>
  kernel/lib/bit_allocation.c: the bitmap that hands out physical pages
  (kernel/mm/memory.c) and disk blocks (kernel/fs/fs.c). The C code reads and writes
  one bit of byte \<open>i\<close> through a 32-bit access at that byte, which also touches the three
  bytes after it; the field \<open>bits\<close> is therefore the memory around the pointer, indexed
  by the byte offset, and not only the table. The interface the two clients use is the
  locale \<open>slot_allocator\<close>.
\<close>

unbundle bit_operations_syntax

section \<open>The bitmap and its operations\<close>

record bitmap_t =
  bits :: "int \<Rightarrow> u8"
  bsize :: int

definition load32_at :: "(int \<Rightarrow> u8) \<Rightarrow> int \<Rightarrow> u32" where
  "load32_at m i = join32 (m i) (m (i + 1)) (m (i + 2)) (m (i + 3))"

definition store32_at :: "(int \<Rightarrow> u8) \<Rightarrow> int \<Rightarrow> u32 \<Rightarrow> (int \<Rightarrow> u8)" where
  "store32_at m i w =
     m(i := ucast w, i + 1 := ucast (drop_bit 8 w), i + 2 := ucast (drop_bit 16 w),
       i + 3 := ucast (drop_bit 24 w))"

text \<open>\<open>setbit((uint32_t *)&bitmap->bits[i], j, v)\<close>\<close>

definition setbit_at :: "bitmap_t \<Rightarrow> int \<Rightarrow> int \<Rightarrow> bool \<Rightarrow> bitmap_t" where
  "setbit_at bm i j v =
     bm\<lparr>bits := store32_at (bits bm) i (setbit (load32_at (bits bm) i) j v)\<rparr>"

fun scan_byte :: "u8 \<Rightarrow> bool \<Rightarrow> nat list \<Rightarrow> nat option" where
  "scan_byte b want [] = None"
| "scan_byte b want (j # js) =
     (if testbit (ucast b) (of_nat j) = want then Some j else scan_byte b want js)"

function bit_alloc_from :: "bitmap_t \<Rightarrow> bool \<Rightarrow> int \<Rightarrow> bitmap_t \<times> int" where
  "bit_alloc_from bm want i =
     (if i < bsize bm sdiv 8 then
        (if want \<and> bits bm i \<noteq> 0 \<or> \<not> want \<and> bits bm i \<noteq> 0xFF then
           (case scan_byte (bits bm i) want [0..<8] of
              Some j \<Rightarrow> (setbit_at bm i (int j) (\<not> want), i * 8 + int j)
            | None \<Rightarrow> bit_alloc_from bm want (i + 1))
         else bit_alloc_from bm want (i + 1))
      else (bm, -1))"
  by pat_completeness auto
termination
  by (relation "measure (\<lambda>(bm, want, i). nat (bsize bm sdiv 8 - i))") auto

declare bit_alloc_from.simps [simp del]

definition bit_alloc :: "bitmap_t \<Rightarrow> bool \<Rightarrow> bitmap_t \<times> int" where
  "bit_alloc bm want = bit_alloc_from bm want 0"

definition bit_free :: "bitmap_t \<Rightarrow> int \<Rightarrow> bool \<Rightarrow> bitmap_t" where
  "bit_free bm index want = setbit_at bm (index div 8) (index mod 8) want"

definition bit_bind :: "(int \<Rightarrow> u8) \<Rightarrow> int \<Rightarrow> bitmap_t" where
  "bit_bind m sz = \<lparr>bits = m, bsize = sz\<rparr>"

section \<open>Bits of the table\<close>

text \<open>Bit number \<open>k\<close> of the memory the bitmap points to, and the number of slots.\<close>

definition bit_at :: "bitmap_t \<Rightarrow> int \<Rightarrow> bool" where
  "bit_at bm k \<longleftrightarrow> bit (bits bm (k div 8)) (nat (k mod 8))"

definition slots :: "bitmap_t \<Rightarrow> int" where
  "slots bm = 8 * (bsize bm sdiv 8)"

lemma bit_u8_setbit:
  assumes "0 \<le> j" "j < 8"
  shows "ucast (setbit (join32 a b c d) j v) = (if v then a OR push_bit (nat j) 1 else a AND NOT (push_bit (nat j) 1))"
  by (rule bit_word_eqI)
    (use assms in \<open>auto simp: bit_setbit bit_join32 bit_simps nat_less_iff nat_eq_iff\<close>)

lemma upper_bytes_setbit:
  assumes "0 \<le> j" "j < 8"
  shows "ucast (drop_bit 8 (setbit (join32 a b c d) j v)) = b"
    "ucast (drop_bit 16 (setbit (join32 a b c d) j v)) = c"
    "ucast (drop_bit 24 (setbit (join32 a b c d) j v)) = d"
  by (rule bit_word_eqI; use assms in \<open>auto simp: bit_setbit bit_join32 bit_simps\<close>)+

text \<open>
  The 32-bit access changes one byte only: the three bytes behind it are written back as
  they were read.
\<close>

lemma setbit_at_byte:
  assumes "0 \<le> j" "j < 8"
  shows "bits (setbit_at bm i j v) =
    (bits bm)(i := (if v then bits bm i OR push_bit (nat j) 1 else bits bm i AND NOT (push_bit (nat j) 1)))"
  using assms
  by (simp add: setbit_at_def load32_at_def store32_at_def upper_bytes_setbit bit_u8_setbit fun_eq_iff)

lemma bsize_setbit_at [simp, frame_simps]: "bsize (setbit_at bm i j v) = bsize bm"
  by (simp add: setbit_at_def)

lemma bit_at_setbit_at:
  assumes "0 \<le> j" "j < 8"
  shows "bit_at (setbit_at bm i j v) k \<longleftrightarrow> (if k = 8 * i + j then v else bit_at bm k)"
proof -
  from assms have "k = 8 * i + j \<longleftrightarrow> k div 8 = i \<and> k mod 8 = j" by (rule div_mod_8_iff)
  then have eq: "k = 8 * i + j \<longleftrightarrow> k div 8 = i \<and> nat (k mod 8) = nat j"
    using assms by (simp add: eq_nat_nat_iff)
  show ?thesis using assms unfolding eq
    by (auto simp: bit_at_def setbit_at_byte bit_or_iff bit_and_iff bit_not_iff bit_u8_exp nat_less_iff
        dest: bit_imp_le_length)
qed

lemma bit_at_bit_free: "bit_at (bit_free bm k v) m \<longleftrightarrow> (if m = k then v else bit_at bm m)"
  unfolding bit_free_def by (subst bit_at_setbit_at) auto

lemma bsize_bit_free [simp, frame_simps]: "bsize (bit_free bm k v) = bsize bm"
  by (simp add: bit_free_def)

lemma slots_bit_free [simp, frame_simps]: "slots (bit_free bm k v) = slots bm"
  by (simp add: slots_def)

section \<open>The scan\<close>

lemma testbit_u8: "j < 8 \<Longrightarrow> testbit (ucast (b::u8)) (of_nat j) \<longleftrightarrow> bit b j"
  by (subst testbit_iff) (auto simp: unat_of_nat bit_simps)

lemma scan_byte_Some:
  "\<forall>j \<in> set js. j < 8 \<Longrightarrow> scan_byte b want js = Some j \<Longrightarrow>
   \<exists>us vs. js = us @ j # vs \<and> bit b j = want \<and> (\<forall>i \<in> set us. bit b i \<noteq> want)"
proof (induction js)
  case (Cons i js)
  show ?case
  proof (cases "bit b i = want")
    case True
    with Cons.prems show ?thesis
      by (intro exI [of _ "[]"] exI [of _ js]) (auto simp: testbit_u8)
  next
    case False
    with Cons.prems have "scan_byte b want js = Some j" by (auto simp: testbit_u8)
    with Cons obtain us vs where
      "js = us @ j # vs" "bit b j = want" "\<forall>i \<in> set us. bit b i \<noteq> want" by auto
    with False show ?thesis by (intro exI [of _ "i # us"] exI [of _ vs]) auto
  qed
qed simp

lemma scan_byte_None:
  "\<forall>j \<in> set js. j < 8 \<Longrightarrow> scan_byte b want js = None \<longleftrightarrow> (\<forall>j \<in> set js. bit b j \<noteq> want)"
  by (induction js) (auto simp: testbit_u8)

lemma scan_byte_least:
  assumes "scan_byte b want [0..<8] = Some j"
  shows "j < 8" "bit b j = want" "i < j \<Longrightarrow> bit b i \<noteq> want"
proof -
  from scan_byte_Some [OF _ assms] obtain us vs where
    eq: "[0..<8] = us @ j # vs" and bj: "bit b j = want" and us: "\<forall>i \<in> set us. bit b i \<noteq> want"
    by auto
  have ju: "j = length us" "length us < 8" and "us = [0..<length us]"
    using arg_cong [OF eq, of "\<lambda>xs. xs ! length us"] arg_cong [OF eq, of length]
      arg_cong [OF eq, of "take (length us)"]
    by (simp_all add: take_upt)
  then show "j < 8" "i < j \<Longrightarrow> bit b i \<noteq> want" using us by (simp_all, metis atLeastLessThan_iff set_upt zero_le)
  show "bit b j = want" by (rule bj)
qed

lemma byte_all_ones: "b = 0xFF \<longleftrightarrow> (\<forall>j < 8. bit b j)" for b :: u8
proof -
  have "(0xFF :: u8) = mask 8" by (simp add: mask_eq_exp_minus_1)
  then show ?thesis by (auto simp: bit_eq_iff bit_mask_iff)
qed

text \<open>A byte the guard skips holds no bit equal to \<open>want\<close>, so the guard loses nothing.\<close>

lemma guard_iff:
  "(want \<and> b \<noteq> 0 \<or> \<not> want \<and> b \<noteq> 0xFF) \<longleftrightarrow> (\<exists>j < 8. bit b j = want)" for b :: u8
  using bit_imp_le_length [of b] by (auto simp: byte_all_ones word_nonzero_iff)

text \<open>
  The scan of the table from byte \<open>i\<close> on: the slot found is the first one whose bit is
  \<open>want\<close>; it is flipped, and no other bit changes.
\<close>

lemma bit_alloc_from_Some:
  assumes "bit_alloc_from bm want i = (bm', k)" "k \<noteq> -1" "0 \<le> i"
  shows "8 * i \<le> k \<and> k < slots bm \<and> bit_at bm k = want \<and>
    (\<forall>m. 8 * i \<le> m \<longrightarrow> m < k \<longrightarrow> bit_at bm m \<noteq> want) \<and> bm' = bit_free bm k (\<not> want)"
  using assms
proof (induction bm want i rule: bit_alloc_from.induct)
  case (1 bm want i)
  from "1.prems" have i: "i < bsize bm sdiv 8"
    by (subst (asm) bit_alloc_from.simps) (auto split: if_splits)
  show ?case
  proof (cases "scan_byte (bits bm i) want [0..<8]")
    case None
    then have none: "j < 8 \<Longrightarrow> bit (bits bm i) j \<noteq> want" for j by (subst (asm) scan_byte_None) auto
    with "1.prems" i None have rec: "bit_alloc_from bm want (i + 1) = (bm', k)"
      by (subst (asm) bit_alloc_from.simps) (auto split: if_splits)
    have IH: "8 * (i + 1) \<le> k \<and> k < slots bm \<and> bit_at bm k = want \<and>
      (\<forall>m. 8 * (i + 1) \<le> m \<longrightarrow> m < k \<longrightarrow> bit_at bm m \<noteq> want) \<and> bm' = bit_free bm k (\<not> want)"
      using "1.IH" [OF i] None none rec "1.prems" by (cases "want \<and> bits bm i \<noteq> 0 \<or> \<not> want \<and> bits bm i \<noteq> 0xFF") auto
    moreover have "bit_at bm m \<noteq> want" if "8 * i \<le> m" "m < 8 * (i + 1)" for m
    proof -
      from that have "m div 8 = i" by presburger
      then show ?thesis using none [of "nat (m mod 8)"] by (simp add: bit_at_def)
    qed
    ultimately show ?thesis by force
  next
    case (Some j)
    note L = scan_byte_least [OF Some]
    then have "\<exists>j < 8. bit (bits bm i) j = want" by blast
    with "1.prems" i Some have k: "k = i * 8 + int j" and bm': "bm' = setbit_at bm i (int j) (\<not> want)"
      by (subst (asm) bit_alloc_from.simps; simp add: guard_iff)+
    have dm: "(i * 8 + int t) div 8 = i" "(i * 8 + int t) mod 8 = int t" if "t < 8" for t
      using that by auto
    have "bit_at bm m \<noteq> want" if "8 * i \<le> m" "m < k" for m
    proof -
      define t where "t = m - 8 * i"
      with that k L(1) have t: "m = 8 * i + t" "0 \<le> t" "t < int j" "t < 8" by simp_all
      then have "m div 8 = i" "nat (m mod 8) < j" using div_mod_8_iff [of t m i] by auto
      then show ?thesis using L(3) [of "nat (m mod 8)"] by (simp add: bit_at_def)
    qed
    then show ?thesis using i L(1,2) by (auto simp: k bm' slots_def bit_at_def bit_free_def dm)
  qed
qed

lemma bit_alloc_from_None:
  assumes "bit_alloc_from bm want i = (bm', -1)" "0 \<le> i"
  shows "bm' = bm \<and> (\<forall>m. 8 * i \<le> m \<longrightarrow> m < slots bm \<longrightarrow> bit_at bm m \<noteq> want)"
  using assms
proof (induction bm want i rule: bit_alloc_from.induct)
  case (1 bm want i)
  show ?case
  proof (cases "i < bsize bm sdiv 8")
    case False
    with "1.prems" show ?thesis
      by (subst (asm) bit_alloc_from.simps) (auto simp: slots_def)
  next
    case i: True
    have none: "bit (bits bm i) j \<noteq> want" if "j < 8" for j
    proof (cases "scan_byte (bits bm i) want [0..<8]")
      case None
      then show ?thesis using that by (subst (asm) scan_byte_None) auto
    next
      case (Some t)
      with scan_byte_least [OF Some] have "\<exists>j < 8. bit (bits bm i) j = want" by blast
      with "1.prems" i Some show ?thesis
        by (subst (asm) bit_alloc_from.simps) (simp add: guard_iff)
    qed
    then have g: "scan_byte (bits bm i) want [0..<8] = None" by (subst scan_byte_None) auto
    with "1.prems" i have rec: "bit_alloc_from bm want (i + 1) = (bm', -1)"
      by (subst (asm) bit_alloc_from.simps) (auto split: if_splits)
    then have IH: "bm' = bm \<and> (\<forall>m. 8 * (i + 1) \<le> m \<longrightarrow> m < slots bm \<longrightarrow> bit_at bm m \<noteq> want)"
      using "1.IH" [OF i] g "1.prems"(2)
      by (cases "want \<and> bits bm i \<noteq> 0 \<or> \<not> want \<and> bits bm i \<noteq> 0xFF") auto
    moreover have "bit_at bm m \<noteq> want" if "8 * i \<le> m" "m < 8 * (i + 1)" for m
    proof -
      from that have "m div 8 = i" by presburger
      then show ?thesis using none [of "nat (m mod 8)"] by (simp add: bit_at_def)
    qed
    ultimately show ?thesis by force
  qed
qed

section \<open>The allocator interface\<close>

text \<open>
  What the page allocator and the disk block allocator rely on: an allocation yields the
  lowest free slot and marks it, \<open>-1\<close> means there is none, and releasing a slot frees that
  slot only. The laws are stated of the set of used slots, not of the bitmap.
\<close>

locale slot_allocator =
  fixes alloc :: "'s \<Rightarrow> 's \<times> int"
    and free :: "'s \<Rightarrow> int \<Rightarrow> 's"
    and used :: "'s \<Rightarrow> int \<Rightarrow> bool"
    and cap :: "'s \<Rightarrow> int"
  assumes alloc_slot: "alloc s = (s', k) \<Longrightarrow> k \<noteq> -1 \<Longrightarrow> 0 \<le> k \<and> k < cap s \<and> \<not> used s k"
    and alloc_lowest: "alloc s = (s', k) \<Longrightarrow> k \<noteq> -1 \<Longrightarrow> 0 \<le> m \<Longrightarrow> m < k \<Longrightarrow> used s m"
    and alloc_used: "alloc s = (s', k) \<Longrightarrow> k \<noteq> -1 \<Longrightarrow> used s' m \<longleftrightarrow> m = k \<or> used s m"
    and alloc_cap: "alloc s = (s', k) \<Longrightarrow> cap s' = cap s"
    and alloc_full: "alloc s = (s', -1) \<Longrightarrow> s' = s \<and> (\<forall>m. 0 \<le> m \<longrightarrow> m < cap s \<longrightarrow> used s m)"
    and free_used: "used (free s k) m \<longleftrightarrow> m \<noteq> k \<and> used s m"
    and free_cap: "cap (free s k) = cap s"

text \<open>\<open>n\<close> allocations in a row, and the slots they return.\<close>

fun alloc_many :: "('s \<Rightarrow> 's \<times> int) \<Rightarrow> nat \<Rightarrow> 's \<Rightarrow> 's \<times> int list" where
  "alloc_many al 0 s = (s, [])"
| "alloc_many al (Suc n) s =
     (case al s of (s', k) \<Rightarrow> (case alloc_many al n s' of (s'', ks) \<Rightarrow> (s'', k # ks)))"

context slot_allocator
begin

lemma alloc_fails_iff: "snd (alloc s) = -1 \<longleftrightarrow> (\<forall>m. 0 \<le> m \<longrightarrow> m < cap s \<longrightarrow> used s m)"
proof (cases "alloc s")
  case (Pair s' k)
  then show ?thesis using alloc_slot [OF Pair] alloc_full [of s s'] by (cases "k = -1") auto
qed

lemma alloc_many_used:
  "alloc_many alloc n s = (s', ks) \<Longrightarrow> -1 \<notin> set ks \<Longrightarrow> used s' m \<longleftrightarrow> m \<in> set ks \<or> used s m"
proof (induction n arbitrary: s ks)
  case (Suc n)
  then obtain t k ks' where t: "alloc s = (t, k)" "alloc_many alloc n t = (s', ks')" "ks = k # ks'"
    by (auto split: prod.splits)
  with Suc.IH [OF t(2)] Suc.prems(2) alloc_used [OF t(1)] show ?case by auto
qed simp

lemma alloc_many_fresh:
  "alloc_many alloc n s = (s', ks) \<Longrightarrow> -1 \<notin> set ks \<Longrightarrow>
   distinct ks \<and> length ks = n \<and> (\<forall>k \<in> set ks. 0 \<le> k \<and> k < cap s \<and> \<not> used s k)"
proof (induction n arbitrary: s ks)
  case (Suc n)
  then obtain t k ks' where t: "alloc s = (t, k)" "alloc_many alloc n t = (s', ks')" "ks = k # ks'"
    by (auto split: prod.splits)
  with Suc.prems(2) have k: "k \<noteq> -1" "-1 \<notin> set ks'" by auto
  from Suc.IH [OF t(2) k(2)] alloc_slot [OF t(1) k(1)] alloc_used [OF t(1) k(1)] alloc_cap [OF t(1)]
  show ?case by (auto simp: t(3))
qed simp

lemma free_alloc_restores:
  "alloc s = (s', k) \<Longrightarrow> k \<noteq> -1 \<Longrightarrow> used (free s' k) m \<longleftrightarrow> used s m"
  using alloc_used [of s s' k] alloc_slot [of s s' k] by (auto simp: free_used)

lemma alloc_not_in_used_prefix:
  "alloc s = (s', k) \<Longrightarrow> k \<noteq> -1 \<Longrightarrow> \<forall>m. 0 \<le> m \<longrightarrow> m < n \<longrightarrow> used s m \<Longrightarrow> n \<le> k"
  by (meson alloc_slot linorder_not_less)

end

interpretation bitmap: slot_allocator
  "\<lambda>bm. bit_alloc bm False" "\<lambda>bm k. bit_free bm k False" bit_at slots
proof unfold_locales
  fix bm bm' k m
  assume A: "bit_alloc bm False = (bm', k)" "k \<noteq> -1"
  note B = bit_alloc_from_Some [OF A(1) [unfolded bit_alloc_def] A(2) order_refl]
  then show "0 \<le> k \<and> k < slots bm \<and> \<not> bit_at bm k" by auto
  from B show "0 \<le> m \<Longrightarrow> m < k \<Longrightarrow> bit_at bm m" by auto
  from B show "bit_at bm' m \<longleftrightarrow> m = k \<or> bit_at bm m" by (auto simp: bit_at_bit_free)
next
  fix bm bm' k
  assume A: "bit_alloc bm False = (bm', k)"
  then show "slots bm' = slots bm"
    using bit_alloc_from_Some [of bm False 0 bm' k] bit_alloc_from_None [of bm False 0 bm']
    by (cases "k = -1") (auto simp: bit_alloc_def)
next
  fix bm bm'
  assume "bit_alloc bm False = (bm', -1)"
  then show "bm' = bm \<and> (\<forall>m. 0 \<le> m \<longrightarrow> m < slots bm \<longrightarrow> bit_at bm m)"
    using bit_alloc_from_None [of bm False 0 bm'] by (auto simp: bit_alloc_def)
qed (auto simp: bit_at_bit_free)

section \<open>Properties\<close>

lemma setbit_at_eq:
  assumes "0 \<le> j" "j < 8"
  shows "setbit_at bm i j v = bm\<lparr>bits := (bits bm)(i :=
    (if v then bits bm i OR push_bit (nat j) 1 else bits bm i AND NOT (push_bit (nat j) 1)))\<rparr>"
  using setbit_at_byte [OF assms, of bm i v] by (cases bm) (simp add: setbit_at_def)

lemma scan_byte_7: "scan_byte 7 False [0..<8] = Some 3" "scan_byte 15 False [0..<8] = Some 4"
  by (simp_all add: upt_rec testbit_def testbits_def shl32_def shr32_def)

text \<open>
  \<open>bit_alloc\<close> returns the lowest slot of the table whose bit is \<open>want\<close> and flips
  this bit and no other bit of memory (although it writes 32 bits); it returns \<open>-1\<close> and
  changes nothing exactly when the table has no such slot.
\<close>
theorem bit_alloc_lowest:
  assumes "bit_alloc bm want = (bm', k)"
  shows "if k = -1 then bm' = bm \<and> (\<forall>m. 0 \<le> m \<longrightarrow> m < slots bm \<longrightarrow> bit_at bm m \<noteq> want)
    else 0 \<le> k \<and> k < slots bm \<and> bit_at bm k = want \<and>
      (\<forall>m. 0 \<le> m \<longrightarrow> m < k \<longrightarrow> bit_at bm m \<noteq> want) \<and>
      (\<forall>m. bit_at bm' m \<longleftrightarrow> (if m = k then \<not> want else bit_at bm m))"
  using bit_alloc_from_Some [OF assms [unfolded bit_alloc_def]]
    bit_alloc_from_None [of bm want 0 bm'] assms
  by (auto simp: bit_at_bit_free bit_alloc_def)

theorem bit_alloc_lowest_witness:
  "\<exists>bm'. bit_alloc \<lparr>bits = (\<lambda>_. 0)(0 := 7), bsize = 8\<rparr> False = (bm', 3) \<and>
     bit_at bm' 3 \<and> \<not> bit_at bm' 4"
proof -
  let ?bm = "\<lparr>bits = (\<lambda>_. 0 :: u8)(0 := 7), bsize = 8\<rparr>"
  have A: "bit_alloc ?bm False = (setbit_at ?bm 0 3 True, 3)"
    by (simp add: bit_alloc_def bit_alloc_from.simps signed_divide_int_def scan_byte_7)
  have "\<not> bit_at ?bm 4" by (simp add: bit_at_def)
  with bit_alloc_lowest [OF A] have "bit_at (setbit_at ?bm 0 3 True) 3" "\<not> bit_at (setbit_at ?bm 0 3 True) 4"
    by simp_all
  with A show ?thesis by blast
qed

text \<open>
  Any number of allocations in a row, as long as none fails, return pairwise
  different slots that were free before, and release nothing: the slots in use afterwards
  are those in use before and the new ones.
\<close>
theorem bit_alloc_many_distinct:
  assumes "alloc_many (\<lambda>bm. bit_alloc bm False) n bm = (bm', ks)" "-1 \<notin> set ks"
  shows "distinct ks \<and> length ks = n \<and> (\<forall>k \<in> set ks. 0 \<le> k \<and> k < slots bm \<and> \<not> bit_at bm k) \<and>
    (\<forall>m. bit_at bm' m \<longleftrightarrow> m \<in> set ks \<or> bit_at bm m)"
  using bitmap.alloc_many_fresh [OF assms] bitmap.alloc_many_used [OF assms] by simp

theorem bit_alloc_many_distinct_witness:
  "snd (alloc_many (\<lambda>bm. bit_alloc bm False) (Suc (Suc 0)) \<lparr>bits = (\<lambda>_. 0)(0 := 7), bsize = 8\<rparr>) = [3, 4] \<and>
   distinct [3, 4 :: int] \<and> \<not> bit_at \<lparr>bits = (\<lambda>_. 0)(0 := 7), bsize = 8\<rparr> 4"
proof -
  have A: "alloc_many (\<lambda>bm. bit_alloc bm False) (Suc (Suc 0)) \<lparr>bits = (\<lambda>_. 0)(0 := 7), bsize = 8\<rparr>
      = (\<lparr>bits = (\<lambda>_. 0)(0 := 31), bsize = 8\<rparr>, [3, 4])"
    by (simp add: bit_alloc_def bit_alloc_from.simps signed_divide_int_def scan_byte_7 setbit_at_eq)
  from bit_alloc_many_distinct [OF A]
  have "\<not> bit_at \<lparr>bits = (\<lambda>_. 0)(0 := 7), bsize = 8\<rparr> 4" by simp
  then show ?thesis by (simp only: A snd_conv) simp
qed

end
