(* ===== verification/Descriptors.thy ===== *)
theory Descriptors
  imports Bit_Ops
begin

text \<open>
  The 8-byte descriptors of include/comm/gdt.h: the constructors
  \<open>make_idt_desc\<close> (kernel/interrupt/interrupt.c) and \<open>make_gdt_desc_for_tss\<close>
  (kernel/proc/task.c), the test \<open>is_a_tss_descriptor\<close> (include/comm/task.h), the kernel's GDT
  (kernel/init/main.c), the loader's temporary one (loader/loader_16.c), and the operand
  of \<open>lgdt\<close> and \<open>lidt\<close> (include/comm/asm.h). The layout they are checked against is
  the processor's, written as the decoding functions below.
\<close>

unbundle bit_operations_syntax

record gdt_desc =
  d_low :: u32
  d_high :: u32

type_synonym idt_desc = gdt_desc

abbreviation GDT_KERNEL_CODE_SEG :: u32 where "GDT_KERNEL_CODE_SEG \<equiv> 0x8"
abbreviation GDT_KERNEL_DATA_SEG :: u32 where "GDT_KERNEL_DATA_SEG \<equiv> 0x10"
abbreviation GDT_USER_CODE_SEG :: u32 where "GDT_USER_CODE_SEG \<equiv> 0x18 OR 3"
abbreviation GDT_USER_DATA_SEG :: u32 where "GDT_USER_DATA_SEG \<equiv> 0x20 OR 3"
abbreviation DPL_KERNEL :: u8 where "DPL_KERNEL \<equiv> 0"
abbreviation DPL_USER :: u8 where "DPL_USER \<equiv> 3"

section \<open>Constructors\<close>

definition make_idt_desc :: "u16 \<Rightarrow> u32 \<Rightarrow> idt_desc" where
  "make_idt_desc selector offset =
     (let offset_16_31 = (ucast (drop_bit 16 offset) :: u16);
          offset_0_15 = (ucast (offset mod 0x10000) :: u16)
      in \<lparr>d_low = push_bit 16 (ucast selector) + ucast offset_0_15,
          d_high = push_bit 16 (ucast offset_16_31) + 0x8E00\<rparr>)"

definition make_gdt_desc_for_tss :: "u32 \<Rightarrow> u8 \<Rightarrow> gdt_desc" where
  "make_gdt_desc_for_tss base_addr DPL =
     (let base_addr0_15 = base_addr AND 0xFFFF;
          base_addr16_23 = base_addr AND 0xFF0000; base_addr24_31 = base_addr AND 0xFF000000
      in \<lparr>d_low = push_bit 16 base_addr0_15 OR 0xFFFF,
          d_high = base_addr24_31 OR 0xF8900 OR drop_bit 16 base_addr16_23 OR push_bit 12 (ucast DPL)\<rparr>)"

definition IS_TSS :: "u32 \<Rightarrow> bool" where
  "IS_TSS type \<longleftrightarrow> type = 0b1001 \<or> type = 0b1011"

definition is_a_tss_descriptor :: "gdt_desc \<Rightarrow> bool" where
  "is_a_tss_descriptor desc \<longleftrightarrow>
     testbits (d_high desc) 12 13 = 0 \<and> IS_TSS (testbits (d_high desc) 8 12)"

definition initial_gdt :: "nat \<Rightarrow> gdt_desc" where
  "initial_gdt i =
     (if i = 1 then \<lparr>d_low = 0x0000FFFF, d_high = 0x00CF9A00\<rparr>
      else if i = 2 then \<lparr>d_low = 0x0000FFFF, d_high = 0x00CF9200\<rparr>
      else if i = 3 then \<lparr>d_low = 0x0000FFFF, d_high = 0x00CFFA00\<rparr>
      else if i = 4 then \<lparr>d_low = 0x0000FFFF, d_high = 0x00CFF200\<rparr>
      else \<lparr>d_low = 0, d_high = 0\<rparr>)"

definition gdt_temp :: "gdt_desc list" where
  "gdt_temp = [\<lparr>d_low = 0, d_high = 0\<rparr>, \<lparr>d_low = 0x0000FFFF, d_high = 0x00CF9A00\<rparr>,
     \<lparr>d_low = 0x0000FFFF, d_high = 0x00CF9200\<rparr>]"

text \<open>The operand of \<open>lgdt\<close> and \<open>lidt\<close>: limit and base; the size is a 16-bit parameter.\<close>

definition lgdt :: "u32 \<Rightarrow> u16 \<Rightarrow> u16 \<times> u32" where
  "lgdt base_addr sz = (sz - 1, base_addr)"

definition lidt :: "u32 \<Rightarrow> u16 \<Rightarrow> u16 \<times> u32" where
  "lidt base_addr sz = (sz - 1, base_addr)"

section \<open>The processor's reading of a descriptor\<close>

definition seg_base :: "gdt_desc \<Rightarrow> u32" where
  "seg_base d = (d_high d AND 0xFF000000) OR push_bit 16 (d_high d AND 0xFF) OR drop_bit 16 (d_low d)"

definition seg_limit :: "gdt_desc \<Rightarrow> u32" where
  "seg_limit d = (d_high d AND 0xF0000) OR (d_low d AND 0xFFFF)"

definition seg_type :: "gdt_desc \<Rightarrow> u32" where "seg_type d = drop_bit 8 (d_high d) AND 0xF"
definition seg_system :: "gdt_desc \<Rightarrow> bool" where "seg_system d \<longleftrightarrow> \<not> bit (d_high d) 12"
definition seg_dpl :: "gdt_desc \<Rightarrow> u32" where "seg_dpl d = drop_bit 13 (d_high d) AND 3"
definition seg_present :: "gdt_desc \<Rightarrow> bool" where "seg_present d \<longleftrightarrow> bit (d_high d) 15"
definition seg_pages :: "gdt_desc \<Rightarrow> bool" where "seg_pages d \<longleftrightarrow> bit (d_high d) 23"

definition gate_offset :: "idt_desc \<Rightarrow> u32" where
  "gate_offset d = (d_high d AND 0xFFFF0000) OR (d_low d AND 0xFFFF)"

definition gate_selector :: "idt_desc \<Rightarrow> u16" where
  "gate_selector d = ucast (drop_bit 16 (d_low d))"

lemmas desc_decode = seg_base_def seg_limit_def seg_type_def seg_system_def seg_dpl_def
  seg_present_def seg_pages_def gate_offset_def gate_selector_def

text \<open>Masks as bit patterns, for the word lemmas below.\<close>

lemma mask_shapes:
  "(0xFFFF :: u32) = mask 16" "(0xFF :: u32) = mask 8" "(0xFF0000 :: u32) = push_bit 16 (mask 8)"
  "(0xFF000000 :: u32) = push_bit 24 (mask 8)" "(0xFFFF0000 :: u32) = push_bit 16 (mask 16)"
  "(0xF0000 :: u32) = push_bit 16 (mask 4)" "(0xF :: u32) = mask 4"
  by (simp_all add: mask_eq_exp_minus_1 push_bit_eq_mult)

lemma bit_masks:
  "bit (0xFFFF :: u32) k \<longleftrightarrow> k < 16"
  "bit (0xFF :: u32) k \<longleftrightarrow> k < 8"
  "bit (0xFF0000 :: u32) k \<longleftrightarrow> 16 \<le> k \<and> k < 24"
  "bit (0xFF000000 :: u32) k \<longleftrightarrow> 24 \<le> k \<and> k < 32"
  "bit (0xFFFF0000 :: u32) k \<longleftrightarrow> 16 \<le> k \<and> k < 32"
  "bit (0xF0000 :: u32) k \<longleftrightarrow> 16 \<le> k \<and> k < 20"
  "bit (0xF :: u32) k \<longleftrightarrow> k < 4"
  unfolding mask_shapes by (auto simp: bit_push_bit_iff bit_mask_iff)

lemma bit_pattern: "bit w k \<longleftrightarrow> k \<in> set (filter (bit w) [0..<32])" for w :: u32
  by (auto dest: bit_imp_le_length)

lemma bit_tss_pattern: "bit (0xF8900 :: u32) k \<longleftrightarrow> k \<in> {8, 11, 15, 16, 17, 18, 19}"
  by (subst bit_pattern, simp add: upt_rec, simp add: eval_nat_numeral)

lemma bit_gate_pattern: "bit (0x8E00 :: u32) k \<longleftrightarrow> k \<in> {9, 10, 11, 15}"
  by (subst bit_pattern, simp add: upt_rec, simp add: eval_nat_numeral)

lemmas desc_bits = bit_or_iff bit_and_iff bit_push_bit_iff bit_drop_bit_eq bit_masks bit_tss_pattern
  bit_gate_pattern bit_take_bit_iff bit_unsigned_iff o_apply

lemma take_16: "w mod 0x10000 = take_bit 16 w" for w :: u32
  by (simp add: take_bit_eq_mod)

lemma make_idt_desc_or:
  "make_idt_desc selector offset =
     \<lparr>d_low = push_bit 16 (ucast selector) OR (offset AND 0xFFFF),
      d_high = (offset AND 0xFFFF0000) OR 0x8E00\<rparr>"
proof -
  have "push_bit 16 (ucast selector) + ucast (ucast (offset mod 0x10000) :: u16) =
      push_bit 16 (ucast selector) OR (ucast (ucast (offset mod 0x10000) :: u16) :: u32)"
    by (rule disjunctive_add) (simp only: desc_bits take_16, auto)
  also have "\<dots> = push_bit 16 (ucast selector) OR (offset AND 0xFFFF)"
    by (rule bit_word_eqI) (simp only: desc_bits take_16, auto)
  moreover have "push_bit 16 (ucast (ucast (drop_bit 16 offset) :: u16)) + 0x8E00 =
      push_bit 16 (ucast (ucast (drop_bit 16 offset) :: u16)) OR (0x8E00 :: u32)"
    by (rule disjunctive_add) (simp only: desc_bits, auto)
  moreover have "push_bit 16 (ucast (ucast (drop_bit 16 offset) :: u16)) OR (0x8E00 :: u32)
      = (offset AND 0xFFFF0000) OR 0x8E00"
    by (rule bit_word_eqI) (simp only: desc_bits, auto)
  ultimately show ?thesis by (simp add: make_idt_desc_def Let_def)
qed

lemma bit_small:
  "bit (14 :: u32) k \<longleftrightarrow> k \<in> {1, 2, 3}" "bit (9 :: u32) k \<longleftrightarrow> k \<in> {0, 3}"
  "bit (3 :: u32) k \<longleftrightarrow> k < 2"
proof -
  show "bit (14 :: u32) k \<longleftrightarrow> k \<in> {1, 2, 3}" "bit (9 :: u32) k \<longleftrightarrow> k \<in> {0, 3}"
    by (subst bit_pattern, simp add: upt_rec, simp add: eval_nat_numeral)+
  have "(3 :: u32) = mask 2" by (simp add: mask_eq_exp_minus_1)
  then show "bit (3 :: u32) k \<longleftrightarrow> k < 2" by (auto simp only: bit_mask_iff) simp
qed

lemma u32_eqI: "(\<And>k. k < 32 \<Longrightarrow> bit v k \<longleftrightarrow> bit w k) \<Longrightarrow> v = w" for v w :: u32
  by (rule bit_word_eqI) simp

lemma small_index: "k < 4 \<longleftrightarrow> k \<in> {0, 1, 2, 3 :: nat}" "k < 2 \<longleftrightarrow> k \<in> {0, 1 :: nat}"
  by auto

lemma bit_gate_high:
  "bit (d_high (make_idt_desc sel h)) k \<longleftrightarrow> (16 \<le> k \<and> k < 32 \<and> bit h k) \<or> k \<in> {9, 10, 11, 15}"
  unfolding make_idt_desc_or gdt_desc.select_convs by (simp only: desc_bits) auto

lemma bit_gate_low:
  "bit (d_low (make_idt_desc sel h)) k \<longleftrightarrow> (if k < 16 then bit h k else k < 32 \<and> bit sel (k - 16))"
  unfolding make_idt_desc_or gdt_desc.select_convs by (simp only: desc_bits) (auto dest: bit_imp_le_length)

lemma bit_tss_high:
  "bit (d_high (make_gdt_desc_for_tss base dpl)) k \<longleftrightarrow>
     (24 \<le> k \<and> k < 32 \<and> bit base k) \<or> k \<in> {8, 11, 15, 16, 17, 18, 19} \<or> (k < 8 \<and> bit base (16 + k)) \<or>
     (12 \<le> k \<and> bit dpl (k - 12))"
  unfolding make_gdt_desc_for_tss_def Let_def gdt_desc.select_convs
  by (simp only: desc_bits) (auto dest: bit_imp_le_length)

lemma bit_tss_low:
  "bit (d_low (make_gdt_desc_for_tss base dpl)) k \<longleftrightarrow> k < 16 \<or> (k < 32 \<and> bit base (k - 16))"
  unfolding make_gdt_desc_for_tss_def Let_def gdt_desc.select_convs
  by (simp only: desc_bits) auto

text \<open>The fields of a descriptor bit by bit.\<close>

lemma bit_fields:
  "bit (seg_base d) k \<longleftrightarrow> (if k < 16 then bit (d_low d) (k + 16) else if k < 24 then bit (d_high d) (k - 16)
     else k < 32 \<and> bit (d_high d) k)"
  "bit (seg_limit d) k \<longleftrightarrow> (if k < 16 then bit (d_low d) k else k < 20 \<and> bit (d_high d) k)"
  "bit (seg_type d) k \<longleftrightarrow> k < 4 \<and> bit (d_high d) (8 + k)"
  "bit (seg_dpl d) k \<longleftrightarrow> k < 2 \<and> bit (d_high d) (13 + k)"
  "bit (gate_offset d) k \<longleftrightarrow> (if k < 16 then bit (d_low d) k else k < 32 \<and> bit (d_high d) k)"
  "bit (gate_selector d) k \<longleftrightarrow> k < 16 \<and> bit (d_low d) (16 + k)"
proof -
  show "bit (seg_base d) k \<longleftrightarrow> (if k < 16 then bit (d_low d) (k + 16) else if k < 24 then bit (d_high d) (k - 16)
     else k < 32 \<and> bit (d_high d) k)"
    unfolding seg_base_def by (simp only: desc_bits) (auto simp: add.commute dest: bit_imp_le_length)
  show "bit (seg_limit d) k \<longleftrightarrow> (if k < 16 then bit (d_low d) k else k < 20 \<and> bit (d_high d) k)"
    unfolding seg_limit_def by (simp only: desc_bits) auto
  show "bit (seg_type d) k \<longleftrightarrow> k < 4 \<and> bit (d_high d) (8 + k)"
    unfolding seg_type_def by (simp only: desc_bits) auto
  show "bit (seg_dpl d) k \<longleftrightarrow> k < 2 \<and> bit (d_high d) (13 + k)"
    unfolding seg_dpl_def by (simp only: desc_bits bit_small) auto
  show "bit (gate_offset d) k \<longleftrightarrow> (if k < 16 then bit (d_low d) k else k < 32 \<and> bit (d_high d) k)"
    unfolding gate_offset_def by (simp only: desc_bits) auto
  show "bit (gate_selector d) k \<longleftrightarrow> k < 16 \<and> bit (d_low d) (16 + k)"
    unfolding gate_selector_def by (simp only: desc_bits) auto
qed

section \<open>Properties\<close>

text \<open>
  An interrupt gate built by \<open>make_idt_desc\<close> decodes to the handler and the
  selector it was given, for all handlers and selectors, and is a present 32-bit interrupt
  gate of privilege level 0.
\<close>
theorem make_idt_desc_decodes:
  "gate_offset (make_idt_desc selector handler) = handler \<and>
   gate_selector (make_idt_desc selector handler) = selector \<and>
   seg_present (make_idt_desc selector handler) \<and> seg_dpl (make_idt_desc selector handler) = 0 \<and>
   seg_type (make_idt_desc selector handler) = 0xE \<and> seg_system (make_idt_desc selector handler)"
proof (intro conjI)
  show "gate_selector (make_idt_desc selector handler) = selector"
    by (rule bit_word_eqI) (simp add: bit_fields bit_gate_low)
  show "gate_offset (make_idt_desc selector handler) = handler"
    by (rule u32_eqI) (auto simp: bit_fields bit_gate_low bit_gate_high)
  show "seg_dpl (make_idt_desc selector handler) = 0"
    by (rule u32_eqI) (auto simp: bit_fields bit_gate_high)
  show "seg_type (make_idt_desc selector handler) = 0xE"
    by (rule u32_eqI) (simp only: bit_fields bit_gate_high bit_small, auto)
qed (simp_all add: seg_present_def seg_system_def bit_gate_high)

lemma seg_base_tss: "seg_base (make_gdt_desc_for_tss base dpl) = base"
  if "\<And>k. bit dpl k \<Longrightarrow> k < 12"
proof (rule u32_eqI)
  fix k :: nat
  assume "k < 32"
  have "bit dpl (k - 12) \<Longrightarrow> k < 24" using that [of "k - 12"] by simp
  moreover have "bit dpl j \<Longrightarrow> j < 8" for j using bit_imp_le_length [of dpl j] by simp
  ultimately show "bit (seg_base (make_gdt_desc_for_tss base dpl)) k = bit base k"
    using \<open>k < 32\<close> by (auto simp: bit_fields bit_tss_high bit_tss_low)
qed

lemma bit_dpl_user: "bit (3 :: u8) k \<longleftrightarrow> k < 2"
proof -
  have "(3 :: u8) = mask 2" by (simp add: mask_eq_exp_minus_1)
  then show ?thesis by (auto simp only: bit_mask_iff) simp
qed

lemma bit_limit: "bit (0xFFFFF :: u32) k \<longleftrightarrow> k < 20"
proof -
  have "(0xFFFFF :: u32) = mask 20" by (simp add: mask_eq_exp_minus_1)
  then show ?thesis by (auto simp only: bit_mask_iff) simp
qed

lemma testbits_fields:
  "testbits (d_high d) 12 13 = 0 \<longleftrightarrow> seg_system d"
  "testbits (d_high d) 8 12 = seg_type d"
proof -
  have "bit (testbits (d_high d) 12 13) k \<longleftrightarrow> k = 0 \<and> bit (d_high d) 12" for k
    by (subst bit_testbits) auto
  then show "testbits (d_high d) 12 13 = 0 \<longleftrightarrow> seg_system d"
    using word_nonzero_iff [of "testbits (d_high d) 12 13"] by (auto simp: seg_system_def)
  show "testbits (d_high d) 8 12 = seg_type d"
    by (rule bit_word_eqI) (subst bit_testbits, auto simp: bit_fields)
qed

lemma is_a_tss_descriptor_iff: "is_a_tss_descriptor d \<longleftrightarrow> seg_system d \<and> seg_type d \<in> {9, 11}"
  by (simp add: is_a_tss_descriptor_def IS_TSS_def testbits_fields)

lemma seg_type_tss: "seg_type (make_gdt_desc_for_tss base dpl) = 9"
proof (rule u32_eqI)
  fix k :: nat
  have "bit dpl j \<Longrightarrow> j < 8" for j using bit_imp_le_length [of dpl j] by simp
  then show "bit (seg_type (make_gdt_desc_for_tss base dpl)) k = bit (9 :: u32) k"
    by (simp only: bit_fields bit_tss_high bit_small) auto
qed

text \<open>
  The TSS descriptors of the kernel (built with \<open>DPL_KERNEL\<close>, as \<open>create_task\<close>
  does) decode to the base address they were given, at every base; they are present
  system descriptors of limit 0xFFFFF and privilege level 0 and \<open>is_a_tss_descriptor\<close>, the
  kernel's own test, recognises them.
\<close>
theorem make_gdt_desc_for_tss_decodes:
  "seg_base (make_gdt_desc_for_tss base DPL_KERNEL) = base \<and>
   seg_limit (make_gdt_desc_for_tss base DPL_KERNEL) = 0xFFFFF \<and>
   seg_present (make_gdt_desc_for_tss base DPL_KERNEL) \<and> seg_system (make_gdt_desc_for_tss base DPL_KERNEL) \<and>
   seg_dpl (make_gdt_desc_for_tss base DPL_KERNEL) = 0 \<and>
   is_a_tss_descriptor (make_gdt_desc_for_tss base DPL_KERNEL)"
proof (intro conjI)
  show "seg_base (make_gdt_desc_for_tss base DPL_KERNEL) = base"
    by (rule seg_base_tss) simp
  show "seg_limit (make_gdt_desc_for_tss base DPL_KERNEL) = 0xFFFFF"
    by (rule u32_eqI) (simp only: bit_fields bit_tss_high bit_tss_low bit_limit, auto)
  show "seg_dpl (make_gdt_desc_for_tss base DPL_KERNEL) = 0"
    by (rule u32_eqI) (auto simp: bit_fields bit_tss_high)
  show "is_a_tss_descriptor (make_gdt_desc_for_tss base DPL_KERNEL)"
    by (simp add: is_a_tss_descriptor_iff seg_type_tss seg_system_def bit_tss_high)
qed (simp_all add: seg_present_def seg_system_def bit_tss_high)

text \<open>
  With \<open>DPL_USER\<close> the privilege level is shifted by 12 instead of 13: the
  descriptor is not a system descriptor any more, its privilege level is 1 instead of 3,
  and \<open>is_a_tss_descriptor\<close> rejects it. (No caller in the repository passes \<open>DPL_USER\<close>.)
\<close>
theorem make_gdt_desc_for_tss_user_broken:
  "\<not> seg_system (make_gdt_desc_for_tss base DPL_USER) \<and>
   seg_dpl (make_gdt_desc_for_tss base DPL_USER) = 1 \<and>
   \<not> is_a_tss_descriptor (make_gdt_desc_for_tss base DPL_USER)"
proof (intro conjI)
  show sys: "\<not> seg_system (make_gdt_desc_for_tss base DPL_USER)"
    by (simp add: seg_system_def bit_tss_high bit_dpl_user)
  show "seg_dpl (make_gdt_desc_for_tss base DPL_USER) = 1"
    by (rule u32_eqI) (auto simp: bit_fields bit_tss_high bit_dpl_user bit_1_iff)
  from sys show "\<not> is_a_tss_descriptor (make_gdt_desc_for_tss base DPL_USER)"
    by (simp add: is_a_tss_descriptor_iff)
qed

end
