(* ===== verification/Port_IO.thy ===== *)
theory Port_IO
  imports Prelude
begin

text \<open>
  The port instructions of include/comm/asm.h. \<open>outb\<close> appends to the trace of port
  writes; what \<open>inb\<close> answers is decided by the devices, which are not part of the
  repository: a \<open>port_env\<close>, a parameter of the definitions that read ports, gives the answer
  to a read after a trace of writes.
\<close>

type_synonym port_trace = "(u16 \<times> u8) list"
type_synonym port_env = "port_trace \<Rightarrow> u16 \<Rightarrow> u8"

definition outb :: "u16 \<Rightarrow> u8 \<Rightarrow> port_trace \<Rightarrow> port_trace" where
  "outb port data tr = tr @ [(port, data)]"

definition inb :: "port_env \<Rightarrow> u16 \<Rightarrow> port_trace \<Rightarrow> u8" where
  "inb env port tr = env tr port"

text \<open>The last value written to a port.\<close>

definition last_written :: "port_trace \<Rightarrow> u16 \<Rightarrow> u8 option" where
  "last_written tr port = map_of (rev tr) port"

lemma last_written_outb [simp]:
  "last_written (outb p v tr) q = (if q = p then Some v else last_written tr q)"
  by (simp add: last_written_def outb_def)

lemma last_written_Nil [simp]: "last_written [] p = None"
  by (simp add: last_written_def)

end
