(* ===== verification/Interrupt.thy ===== *)
theory Interrupt
  imports Descriptors Port_IO
begin

text \<open>
  kernel/interrupt/interrupt.c: the interrupt descriptor table and the two 8259A
  interrupt controllers. The table is a function from vector numbers to descriptors; the
  controllers see the trace of port writes. Interrupt numbers are C \<open>int\<close>s.
\<close>

unbundle bit_operations_syntax

record interrupt_state =
  idt :: "nat \<Rightarrow> idt_desc"
  idtr :: "u16 \<times> u32"
  iports :: port_trace

abbreviation PIC0_ICW1 :: u16 where "PIC0_ICW1 \<equiv> 0x20"
abbreviation PIC0_OCW2 :: u16 where "PIC0_OCW2 \<equiv> 0x20"
abbreviation PIC0_IMR :: u16 where "PIC0_IMR \<equiv> 0x21"
abbreviation PIC1_ICW1 :: u16 where "PIC1_ICW1 \<equiv> 0xA0"
abbreviation PIC1_OCW2 :: u16 where "PIC1_OCW2 \<equiv> 0xA0"
abbreviation PIC1_IMR :: u16 where "PIC1_IMR \<equiv> 0xA1"
abbreviation PIC_OCW2_EOI :: u8 where "PIC_OCW2_EOI \<equiv> 0x20"
abbreviation PIC_START :: int where "PIC_START \<equiv> 0x20"
abbreviation INTEL_INTRRUPT_TYPES :: nat where "INTEL_INTRRUPT_TYPES \<equiv> 256"
abbreviation PAGE_FAULT_INTERRUPT :: u8 where "PAGE_FAULT_INTERRUPT \<equiv> 0xE"
abbreviation TIMER_INTERRUPT :: int where "TIMER_INTERRUPT \<equiv> 0x20"
abbreviation KEYBOARD_INTERRUPT :: int where "KEYBOARD_INTERRUPT \<equiv> 0x21"

section \<open>The descriptor table\<close>

definition set_idt :: "u8 \<Rightarrow> u32 \<Rightarrow> interrupt_state \<Rightarrow> interrupt_state" where
  "set_idt interrupt_num handler st =
     st\<lparr>idt := (idt st)(unat interrupt_num := make_idt_desc (ucast GDT_KERNEL_CODE_SEG) handler)\<rparr>"

section \<open>The interrupt controllers\<close>

definition pic_init :: "port_trace \<Rightarrow> port_trace" where
  "pic_init tr = fold (\<lambda>(port, data). outb port data)
     [(PIC0_ICW1, 0x11), (0x21, 0x20), (0x21, 4), (0x21, 1),
      (PIC1_ICW1, 0x11), (0xA1, 0x20 + 8), (0xA1, 2), (0xA1, 1),
      (PIC0_IMR, 0xFF AND NOT (4)), (PIC1_IMR, 0xFF)] tr"

definition pic_send_eoi :: "int \<Rightarrow> port_trace \<Rightarrow> port_trace" where
  "pic_send_eoi interrupt_num tr =
     (let tr1 = (if interrupt_num - PIC_START \<ge> 8 then outb PIC1_OCW2 PIC_OCW2_EOI tr else tr)
      in outb PIC0_OCW2 PIC_OCW2_EOI tr1)"

text \<open>The mask is computed in a C \<open>int\<close> and cut to the byte that is written.\<close>

definition interrupt_enable :: "port_env \<Rightarrow> int \<Rightarrow> port_trace \<Rightarrow> port_trace" where
  "interrupt_enable env interrupt_num tr =
     (if interrupt_num < PIC_START then tr
      else let n = interrupt_num - PIC_START in
        if n < 8 then
          let mask = (ucast (ucast (inb env PIC0_IMR tr) AND NOT (shl32 1 (nat (n mod 32)))) :: u8)
          in outb PIC0_IMR mask tr
        else let n1 = n - 8; mask = (ucast (ucast (inb env PIC1_IMR tr) AND NOT (shl32 1 (nat (n1 mod 32)))) :: u8)
          in outb PIC1_IMR mask tr)"

definition interrupt_disable :: "port_env \<Rightarrow> int \<Rightarrow> port_trace \<Rightarrow> port_trace" where
  "interrupt_disable env interrupt_num tr =
     (if interrupt_num < PIC_START then tr
      else let n = interrupt_num - PIC_START in
        if n < 8 then
          let mask = (ucast (ucast (inb env PIC0_IMR tr) OR shl32 1 (nat (n mod 32))) :: u8)
          in outb PIC0_IMR mask tr
        else let n1 = n - 8; mask = (ucast (ucast (inb env PIC1_IMR tr) OR shl32 1 (nat (n1 mod 32))) :: u8)
          in outb PIC1_IMR mask tr)"

text \<open>
  The addresses of the table and of the assembly stub \<open>ignore_int\<close> come from the linker.
\<close>

definition interrupt_init :: "u32 \<Rightarrow> u32 \<Rightarrow> interrupt_state \<Rightarrow> interrupt_state" where
  "interrupt_init idt_addr ignore_int st =
     (let st1 = st\<lparr>idtr := lidt idt_addr (of_nat (8 * INTEL_INTRRUPT_TYPES))\<rparr>;
          st2 = st1\<lparr>iports := pic_init (iports st1)\<rparr>
      in fold (\<lambda>i. set_idt (of_nat i) ignore_int) [0..<INTEL_INTRRUPT_TYPES] st2)"

section \<open>Lemmas\<close>

lemma set_idt_simps [simp, frame_simps]:
  "iports (set_idt n h st) = iports st" "idtr (set_idt n h st) = idtr st"
  "idt (set_idt n h st) = (idt st)(unat n := make_idt_desc 8 h)"
  by (simp_all add: set_idt_def)

lemma fold_set_idt:
  "m \<le> 256 \<Longrightarrow>
   idt (fold (\<lambda>i. set_idt (of_nat i) h) [0..<m] st) v = (if v < m then make_idt_desc 8 h else idt st v) \<and>
   iports (fold (\<lambda>i. set_idt (of_nat i) h) [0..<m] st) = iports st \<and>
   idtr (fold (\<lambda>i. set_idt (of_nat i) h) [0..<m] st) = idtr st"
proof (induction m)
  case (Suc m)
  then have "unat (of_nat m :: u8) = m" by (intro unat_of_nat_small) simp
  with Suc show ?case by auto
qed simp

lemma interrupt_init_simps:
  "idt (interrupt_init a h st) v = (if v < 256 then make_idt_desc 8 h else idt st v)"
  "iports (interrupt_init a h st) = pic_init (iports st)"
  "idtr (interrupt_init a h st) = (2047, a)"
  by (simp_all add: interrupt_init_def Let_def fold_set_idt lidt_def del: upt_Suc)

lemma last_written_pic_init:
  "last_written (pic_init tr) PIC0_IMR = Some 0xFB" "last_written (pic_init tr) PIC1_IMR = Some 0xFF"
  by (simp_all add: pic_init_def)

section \<open>Properties\<close>

text \<open>The mask register a line belongs to, and its bit there.\<close>

definition irq_port :: "int \<Rightarrow> u16" where
  "irq_port n = (if n < 0x28 then PIC0_IMR else PIC1_IMR)"

definition irq_bit :: "int \<Rightarrow> nat" where
  "irq_bit n = nat (n - (if n < 0x28 then 0x20 else 0x28))"

lemma bit_clear_mask: "j < 8 \<Longrightarrow> bit (ucast ((ucast (b::u8) :: u32) AND NOT (shl32 1 j)) :: u8) k \<longleftrightarrow> k \<noteq> j \<and> bit b k"
  by (auto simp: shl32_def bit_simps bit_only_exp dest: bit_imp_le_length)

lemma bit_set_mask: "j < 8 \<Longrightarrow> bit (ucast ((ucast (b::u8) :: u32) OR shl32 1 j) :: u8) k \<longleftrightarrow> k = j \<or> bit b k"
  by (auto simp: shl32_def bit_simps bit_only_exp dest: bit_imp_le_length)

text \<open>
  For each of the sixteen lines, \<open>interrupt_enable\<close> writes to the mask register of
  the line's controller the mask it read there with exactly the line's bit cleared, and
  \<open>interrupt_disable\<close> with exactly the line's bit set; numbers below 0x20 (the processor's
  own exceptions) leave the controllers alone.
\<close>
theorem interrupt_mask_one_line:
  assumes "n < 0x30"
  shows "if n < 0x20 then interrupt_enable env n tr = tr \<and> interrupt_disable env n tr = tr
    else \<exists>m m'. interrupt_enable env n tr = tr @ [(irq_port n, m)] \<and>
           interrupt_disable env n tr = tr @ [(irq_port n, m')] \<and>
           (\<forall>k. bit m k \<longleftrightarrow> k \<noteq> irq_bit n \<and> bit (inb env (irq_port n) tr) k) \<and>
           (\<forall>k. bit m' k \<longleftrightarrow> k = irq_bit n \<or> bit (inb env (irq_port n) tr) k)"
proof (cases "n < 0x20")
  case False
  let ?b = "inb env (irq_port n) tr" and ?j = "irq_bit n"
  from assms False have j: "?j < 8" by (auto simp: irq_bit_def)
  from assms False have "(n - 32) mod 32 = n - 32" by (intro mod_pos_pos_trivial) auto
  then have n32: "n mod 32 = n - 32" by simp
  have "interrupt_enable env n tr = tr @ [(irq_port n, ucast ((ucast ?b :: u32) AND NOT (shl32 1 ?j)))]"
    using assms False by (simp add: interrupt_enable_def irq_port_def irq_bit_def outb_def Let_def n32)
  moreover have "interrupt_disable env n tr = tr @ [(irq_port n, ucast ((ucast ?b :: u32) OR shl32 1 ?j))]"
    using assms False by (simp add: interrupt_disable_def irq_port_def irq_bit_def outb_def Let_def n32)
  ultimately show ?thesis
    unfolding if_not_P [OF False] by (intro exI conjI allI) (assumption | rule bit_clear_mask [OF j] bit_set_mask [OF j])+
qed (simp add: interrupt_enable_def interrupt_disable_def)

theorem interrupt_mask_one_line_witness:
  "\<exists>m. interrupt_enable (\<lambda>_ _. 0xFF) 0x21 [] = [(0x21, m)] \<and> (\<forall>k. bit m k \<longleftrightarrow> k \<noteq> 1 \<and> bit (0xFF :: u8) k)"
  using interrupt_mask_one_line [where n = "0x21" and env = "\<lambda>_ _. 0xFF" and tr = "[]"]
  by (auto simp: irq_port_def irq_bit_def inb_def)

end
