(* ===== verification/Memory.thy ===== *)
theory Memory
  imports Bit_Allocation Interrupt
begin

text \<open>
  kernel/mm/memory.c: physical page allocation and two-level page tables. The state has the
  physical memory as bytes, the bitmap of the allocated pages and the control registers.
  The code reaches page directories and tables through their physical addresses, which is
  right as long as they lie in the identity-mapped part of memory.
\<close>

unbundle bit_operations_syntax

abbreviation PAGE_SIZE :: nat where "PAGE_SIZE \<equiv> 4096"
abbreviation PAGE_TABLE_P :: u8 where "PAGE_TABLE_P \<equiv> 0"
abbreviation PAGE_TABLE_FLAG_USER_READ_WRITE :: u32 where "PAGE_TABLE_FLAG_USER_READ_WRITE \<equiv> 7"
abbreviation PAGE_TABLE_FLAG_KERNEL_READ_WRITE :: u16 where "PAGE_TABLE_FLAG_KERNEL_READ_WRITE \<equiv> 3"
abbreviation ITSELF_END :: u32 where "ITSELF_END \<equiv> 0x10000000"

type_synonym ram = "u32 \<Rightarrow> u8"

record mm_state =
  ram :: ram
  memory_alloc_bitmap :: bitmap_t
  cr0 :: u32
  cr3 :: u32

section \<open>Memory accesses\<close>

definition load32 :: "ram \<Rightarrow> u32 \<Rightarrow> u32" where
  "load32 r a = join32 (r a) (r (a + 1)) (r (a + 2)) (r (a + 3))"

definition store32 :: "ram \<Rightarrow> u32 \<Rightarrow> u32 \<Rightarrow> ram" where
  "store32 r a w = r(a := ucast w, a + 1 := ucast (drop_bit 8 w), a + 2 := ucast (drop_bit 16 w),
     a + 3 := ucast (drop_bit 24 w))"

text \<open>The byte-by-byte loop of \<open>memcpy\<close> on memory addresses.\<close>

definition mem_copy :: "u32 \<Rightarrow> u32 \<Rightarrow> nat \<Rightarrow> ram \<Rightarrow> ram" where
  "mem_copy to from n r = fold (\<lambda>i r. r(to + of_nat i := r (from + of_nat i))) [0..<n] r"

section \<open>Physical pages\<close>

definition p_malloc :: "mm_state \<Rightarrow> mm_state \<times> u32" where
  "p_malloc m =
     (let (bm, page_index) = bit_alloc (memory_alloc_bitmap m) False
      in (m\<lparr>memory_alloc_bitmap := bm\<rparr>, if page_index = -1 then -1 else of_int (page_index * int PAGE_SIZE)))"

text \<open>The parameter is a C \<open>int\<close>: the division rounds towards zero.\<close>

definition p_free :: "u32 \<Rightarrow> mm_state \<Rightarrow> mm_state res" where
  "p_free p_addr m =
     (if p_addr AND 0xFFF \<noteq> 0 then Inl Hang
      else Inr (m\<lparr>memory_alloc_bitmap :=
        bit_free (memory_alloc_bitmap m) (sint p_addr sdiv int PAGE_SIZE) False\<rparr>))"

definition memory_alloc_init :: "mm_state \<Rightarrow> mm_state" where
  "memory_alloc_init m =
     (let m1 = m\<lparr>memory_alloc_bitmap := bit_bind (bits (memory_alloc_bitmap m)) (2 ^ 20)\<rparr>
      in m1\<lparr>memory_alloc_bitmap :=
           fold (\<lambda>i bm. bit_free bm (int i) True) [0..<0x800000 div PAGE_SIZE] (memory_alloc_bitmap m1)\<rparr>)"

section \<open>Page tables\<close>

definition set_mmap :: "u32 \<Rightarrow> u32 \<Rightarrow> u32 \<Rightarrow> u16 \<Rightarrow> mm_state \<Rightarrow> mm_state \<times> bool" where
  "set_mmap pd virtual physical flags m =
     (let index_in_pde = testbits virtual 22 32;
          pde_addr = pd + 4 * index_in_pde;
          result = testbit (load32 (ram m) pde_addr) PAGE_TABLE_P;
          m1 = (if result then m
                else let (m', page) = p_malloc m in
                  m'\<lparr>ram := store32 (ram m') pde_addr (page OR PAGE_TABLE_FLAG_USER_READ_WRITE)\<rparr>);
          pte_addr = load32 (ram m1) pde_addr AND 0xFFFFF000;
          index_in_pte = testbits virtual 12 22
      in (m1\<lparr>ram := store32 (ram m1) (pte_addr + 4 * index_in_pte) (physical OR ucast flags)\<rparr>, result))"

definition load_memory :: "u32 \<Rightarrow> u32 \<Rightarrow> u16 \<Rightarrow> mm_state \<Rightarrow> mm_state \<times> u32" where
  "load_memory pd virtual flags m =
     (let (m1, physical) = p_malloc m; (m2, _) = set_mmap pd virtual physical flags m1
      in (m2, physical))"

text \<open>
  The loop counts the address up in pages; for a limit above 0xFFFFF000 it never ends, since
  the address wraps to 0 after 2^20 iterations: the fuel is that number.
\<close>

function mmap_itself_from :: "nat \<Rightarrow> u32 \<Rightarrow> u32 \<Rightarrow> u32 \<Rightarrow> mm_state \<Rightarrow> mm_state res" where
  "mmap_itself_from fuel pd addr upper_limit m =
     (if \<not> addr < upper_limit then Inr m
      else if fuel = 0 then Inl Hang
      else mmap_itself_from (fuel - 1) pd (addr + of_nat PAGE_SIZE) upper_limit
             (fst (set_mmap pd addr addr PAGE_TABLE_FLAG_KERNEL_READ_WRITE m)))"
  by pat_completeness auto
termination
  by (relation "measure (\<lambda>(fuel, pd, addr, upper, m). fuel)") auto

declare mmap_itself_from.simps [simp del]

text \<open>The flags that are passed are not used.\<close>

definition add_mmap_to_itself :: "u32 \<Rightarrow> u32 \<Rightarrow> u16 \<Rightarrow> mm_state \<Rightarrow> mm_state res" where
  "add_mmap_to_itself pd upper_limit flags m = mmap_itself_from (2 ^ 20) pd 0 upper_limit m"

definition addr_translate :: "u32 \<Rightarrow> u32 \<Rightarrow> mm_state \<Rightarrow> u32" where
  "addr_translate pd virtual m =
     (let page_table = load32 (ram m) (pd + 4 * testbits virtual 22 32) AND 0xFFFFF000
      in (load32 (ram m) (page_table + 4 * testbits virtual 12 22) AND 0xFFFFF000) + (virtual AND 0xFFF))"

definition has_addr :: "u32 \<Rightarrow> u32 \<Rightarrow> mm_state \<Rightarrow> bool" where
  "has_addr pd virtual m =
     (let pte_desc_in_pde = load32 (ram m) (pd + 4 * testbits virtual 22 32)
      in if \<not> testbit pte_desc_in_pde PAGE_TABLE_P then False
         else testbit (load32 (ram m) ((pte_desc_in_pde AND 0xFFFFF000) + 4 * testbits virtual 12 22)) PAGE_TABLE_P)"

definition copy_pts :: "u32 \<Rightarrow> u32 \<Rightarrow> mm_state \<Rightarrow> mm_state" where
  "copy_pts from_pd to_pd m = m\<lparr>ram := mem_copy to_pd from_pd PAGE_SIZE (ram m)\<rparr>"

definition enable_page :: "mm_state \<Rightarrow> mm_state" where
  "enable_page m = m\<lparr>cr0 := cr0 m OR 0x80000000\<rparr>"

text \<open>The addresses of \<open>kernel_pd\<close> and of the assembly stub come from the linker.\<close>

abbreviation write_cr3 :: "u32 \<Rightarrow> mm_state \<Rightarrow> mm_state" where "write_cr3 w m \<equiv> m\<lparr>cr3 := w\<rparr>"

definition memory_init :: "u32 \<Rightarrow> u32 \<Rightarrow> mm_state \<times> interrupt_state \<Rightarrow> (mm_state \<times> interrupt_state) res" where
  "memory_init kernel_pd page_fault_handler s = (case s of (m, st) \<Rightarrow>
     rbind (add_mmap_to_itself kernel_pd ITSELF_END PAGE_TABLE_FLAG_KERNEL_READ_WRITE (memory_alloc_init m))
       (\<lambda>m1. Inr (enable_page (write_cr3 kernel_pd m1),
                  set_idt PAGE_FAULT_INTERRUPT page_fault_handler st)))"

end
