(* ===== verification/Paging.thy ===== *)
theory Paging
  imports Memory
begin

text \<open>
  The page tables of kernel/mm/memory.c as maps from virtual to physical pages: the entries
  of directories and tables, the invariant of a directory under construction (its tables are
  allocated pages, distinct from each other and from the directory), and the effect of
  \<open>set_mmap\<close>, \<open>add_mmap_to_itself\<close>, \<open>copy_pts\<close> and the page allocator on it.
\<close>

unbundle bit_operations_syntax

section \<open>Frames and entries\<close>

abbreviation frame :: "u32 \<Rightarrow> u32" where "frame w \<equiv> w AND 0xFFFFF000"

definition aligned :: "u32 \<Rightarrow> bool" where "aligned a \<longleftrightarrow> unat a mod 4096 = 0"

definition entry :: "ram \<Rightarrow> u32 \<Rightarrow> nat \<Rightarrow> u32" where "entry r t i = load32 r (t + 4 * of_nat i)"

definition pdi :: "u32 \<Rightarrow> nat" where "pdi v = unat v div 2 ^ 22"
definition pti :: "u32 \<Rightarrow> nat" where "pti v = unat v div 4096 mod 1024"

abbreviation present :: "u32 \<Rightarrow> bool" where "present w \<equiv> bit w 0"

definition table_of :: "ram \<Rightarrow> u32 \<Rightarrow> nat \<Rightarrow> u32" where "table_of r pd i = frame (entry r pd i)"

definition pte :: "ram \<Rightarrow> u32 \<Rightarrow> u32 \<Rightarrow> u32" where
  "pte r pd v = entry r (table_of r pd (pdi v)) (pti v)"

lemma unat_u32_less: "unat (w :: u32) < 4294967296"
  using unsigned_less [of w, where ?'a = nat] by simp

lemma unat_frame: "unat (frame w) = unat w div 4096 * 4096"
proof -
  have m: "(0xFFFFF000 :: u32) = push_bit 12 (mask 20)" by (simp add: mask_eq_exp_minus_1 push_bit_eq_mult)
  have "unat (frame w) = push_bit 12 (drop_bit 12 (unat w))"
    unfolding m
    by (rule bit_eqI)
      (auto simp: bit_unsigned_iff bit_and_iff bit_push_bit_iff bit_mask_iff bit_drop_bit_eq dest: bit_imp_le_length)
  then show ?thesis by (simp add: push_bit_eq_mult drop_bit_eq_div)
qed

lemma unat_offset: "unat (w AND 0xFFF) = unat w mod 4096" for w :: u32
proof -
  have m: "(0xFFF :: u32) = mask 12" by (simp add: mask_eq_exp_minus_1)
  have "unat (w AND 0xFFF) = take_bit 12 (unat w)"
    unfolding m by (rule bit_eqI) (auto simp: bit_unsigned_iff bit_and_iff bit_mask_iff bit_take_bit_iff)
  then show ?thesis by (simp add: take_bit_eq_mod)
qed

lemma aligned_frame [simp]: "aligned (frame w)"
  by (simp add: aligned_def unat_frame)

lemma aligned_frame_eq: "aligned a \<Longrightarrow> frame a = a"
  by (auto simp: aligned_def word_unat_eq_iff unat_frame)

lemma pdi_less [simp]: "pdi v < 1024"
  using unat_u32_less [of v] by (simp add: pdi_def less_mult_imp_div_less)

lemma pti_less [simp]: "pti v < 1024"
  by (simp add: pti_def)

lemma testbits_pdi: "testbits v 22 32 = of_nat (pdi v)"
  by (simp add: word_unat_eq_iff unat_testbits unat_of_nat pdi_def)
    (use pdi_less [of v] in \<open>simp add: pdi_def\<close>)

lemma testbits_pti: "testbits v 12 22 = of_nat (pti v)"
  by (simp add: word_unat_eq_iff unat_testbits unat_of_nat pti_def)

lemma testbit_present: "testbit w 0 = present w"
  by (simp add: testbit_iff)

lemma entry_addr:
  assumes "aligned t" "i < 1024" "j < 4"
  shows "unat (t + 4 * of_nat i + of_nat j) = unat t + 4 * i + j"
proof -
  have "unat t div 4096 < 1048576" using unat_u32_less [of t] by (simp add: less_mult_imp_div_less)
  moreover have "unat t = unat t div 4096 * 4096" using assms(1) by (auto simp: aligned_def)
  ultimately have b: "unat t + 4 * i + j < 4294967296" using assms(2,3) by linarith
  have "t + 4 * of_nat i + of_nat j = (of_nat (unat t + 4 * i + j) :: u32)" by simp
  moreover have "unat (of_nat (unat t + 4 * i + j) :: u32) = unat t + 4 * i + j"
    using b by (intro unat_of_nat_small) simp
  ultimately show ?thesis by metis
qed

lemma entry_addr_eq:
  assumes "aligned t" "aligned t'" "i < 1024" "i' < 1024" "j < 4" "j' < 4"
  shows "t + 4 * of_nat i + of_nat j = t' + 4 * of_nat i' + of_nat j' \<longleftrightarrow> t = t' \<and> i = i' \<and> j = j'"
proof
  assume "t + 4 * of_nat i + of_nat j = t' + 4 * of_nat i' + (of_nat j' :: u32)"
  then have e: "unat t + 4 * i + j = unat t' + 4 * i' + j'"
    using entry_addr [OF assms(1,3,5)] entry_addr [OF assms(2,4,6)] by metis
  have p: "unat t = 4096 * (unat t div 4096)" and q: "unat t' = 4096 * (unat t' div 4096)"
    using assms(1,2) by (auto simp: aligned_def)
  from e p q assms(3-6) have "unat t div 4096 = unat t' div 4096" by linarith
  with p q have "unat t = unat t'" by metis
  moreover from this e have e2: "4 * i + j = 4 * i' + j'" by simp
  moreover from e2 assms(3-6) have "i = i'" by linarith
  ultimately show "t = t' \<and> i = i' \<and> j = j'" by (simp add: word_unat_eq_iff)
qed simp

lemma load32_store32: "load32 (store32 r a w) a = w"
proof -
  have "a + 1 \<noteq> a" "a + 2 \<noteq> a" "a + 3 \<noteq> a" "a + 2 \<noteq> a + 1" "a + 3 \<noteq> a + 1" "a + 3 \<noteq> a + 2" by simp_all
  then show ?thesis by (simp add: load32_def store32_def)
qed

lemma entry_store:
  assumes "aligned t" "aligned t'" "i < 1024" "i' < 1024"
  shows "entry (store32 r (t + 4 * of_nat i) w) t' i' = (if t = t' \<and> i = i' then w else entry r t' i')"
proof (cases "t = t' \<and> i = i'")
  case False
  note ne = entry_addr_eq [OF assms]
  have "t' + 4 * of_nat i' + of_nat j' \<noteq> t + 4 * of_nat i + of_nat j" if "j < 4" "j' < 4" for j j'
    using ne [OF that] False by auto
  from this [of 0 0] this [of 0 1] this [of 0 2] this [of 0 3] this [of 1 0] this [of 1 1] this [of 1 2]
    this [of 1 3] this [of 2 0] this [of 2 1] this [of 2 2] this [of 2 3] this [of 3 0] this [of 3 1]
    this [of 3 2] this [of 3 3]
  show ?thesis unfolding if_not_P [OF False] by (simp add: entry_def load32_def store32_def)
qed (simp add: entry_def load32_store32)

section \<open>The operations on entries\<close>

lemma has_addr_walk:
  "has_addr pd v m \<longleftrightarrow> present (entry (ram m) pd (pdi v)) \<and> present (pte (ram m) pd v)"
  by (simp add: has_addr_def Let_def testbits_pdi testbits_pti testbit_present pte_def table_of_def entry_def)

lemma addr_translate_walk:
  "addr_translate pd v m = frame (pte (ram m) pd v) + (v AND 0xFFF)"
  by (simp add: addr_translate_def Let_def testbits_pdi testbits_pti pte_def table_of_def entry_def)

text \<open>A page is in use when its bit is set in the allocation bitmap.\<close>

definition page_used :: "mm_state \<Rightarrow> u32 \<Rightarrow> bool" where
  "page_used m a \<longleftrightarrow> bit_at (memory_alloc_bitmap m) (int (unat a div 4096))"

definition pages_ok :: "mm_state \<Rightarrow> bool" where
  "pages_ok m \<longleftrightarrow> slots (memory_alloc_bitmap m) = 2 ^ 20"

lemma p_malloc_simps [simp, frame_simps]:
  "ram (fst (p_malloc m)) = ram m" "cr0 (fst (p_malloc m)) = cr0 m" "cr3 (fst (p_malloc m)) = cr3 m"
  by (simp_all add: p_malloc_def Let_def split: prod.splits)

lemma unat_page: "k < 2 ^ 20 \<Longrightarrow> unat (of_nat (k * 4096) :: u32) = k * 4096"
  by (intro unat_of_nat_small) simp

lemma frame_eq_iff: "aligned a \<Longrightarrow> frame b = a \<longleftrightarrow> unat b div 4096 = unat a div 4096"
  by (auto simp: aligned_def word_unat_eq_iff unat_frame)

lemma frame_less_iff: "aligned a \<Longrightarrow> frame b < a \<longleftrightarrow> unat b div 4096 < unat a div 4096"
  by (auto simp: aligned_def word_less_nat_alt unat_frame)

lemma p_malloc_ok:
  assumes "p_malloc m = (m', a)" "pages_ok m" "a \<noteq> -1"
  shows "aligned a" "\<not> page_used m a" "\<And>b. page_used m' b \<longleftrightarrow> frame b = a \<or> page_used m b" "pages_ok m'"
    "\<And>b. frame b < a \<Longrightarrow> page_used m b"
proof -
  obtain bm k where B: "bit_alloc (memory_alloc_bitmap m) False = (bm, k)" by fastforce
  with assms(1,3) have m': "m' = m\<lparr>memory_alloc_bitmap := bm\<rparr>" and k: "k \<noteq> -1" and a: "a = of_int (k * 4096)"
    by (auto simp: p_malloc_def split: if_splits)
  note slot = bitmap.alloc_slot [OF B k] and used = bitmap.alloc_used [OF B k] and cap = bitmap.alloc_cap [OF B]
  from slot assms(2) have b: "nat k < 2 ^ 20" "0 \<le> k" by (auto simp: pages_ok_def)
  then have "a = of_nat (nat k * 4096)" by (simp add: a)
  with b have u: "unat a = nat k * 4096" using unat_page by metis
  then show al: "aligned a" by (simp add: aligned_def)
  from u b have d: "int (unat a div 4096) = k" by simp
  show "\<not> page_used m a" using slot by (simp add: page_used_def d)
  show "page_used m' c \<longleftrightarrow> frame c = a \<or> page_used m c" for c
    using used [of "int (unat c div 4096)"] d by (auto simp: page_used_def m' frame_eq_iff [OF al])
  show "pages_ok m'" using cap assms(2) by (simp add: pages_ok_def m')
  show "page_used m c" if "frame c < a" for c
    using that bitmap.alloc_lowest [OF B k, of "int (unat c div 4096)"] d
    by (simp add: page_used_def frame_less_iff [OF al])
qed

lemma unat_minus_1: "unat (-1 :: u32) = 4294967295"
  by (simp add: unsigned_minus_1_eq_mask mask_eq_exp_minus_1)

lemma page_not_max: "n * 4096 \<noteq> (4294967295 :: nat)"
proof
  assume "n * 4096 = (4294967295 :: nat)"
  then have "n * 4096 mod 4096 = 4294967295 mod (4096 :: nat)" by (rule arg_cong)
  then show False by simp
qed

lemma p_malloc_some:
  assumes "pages_ok m" "\<not> page_used m b"
  shows "snd (p_malloc m) \<noteq> -1"
proof -
  obtain bm k where B: "bit_alloc (memory_alloc_bitmap m) False = (bm, k)" by fastforce
  have "unat b div 4096 < 1048576" using unat_u32_less [of b] by (simp add: less_mult_imp_div_less)
  then have k: "k \<noteq> -1"
    using assms bitmap.alloc_full [of "memory_alloc_bitmap m" bm] B by (auto simp: page_used_def pages_ok_def)
  with bitmap.alloc_slot [OF B] assms(1) have b: "nat k < 2 ^ 20" "0 \<le> k" by (auto simp: pages_ok_def)
  have "unat (of_nat (nat k * 4096) :: u32) \<noteq> unat (-1 :: u32)"
    unfolding unat_page [OF b(1)] unat_minus_1 by (rule page_not_max)
  then have "(of_nat (nat k * 4096) :: u32) \<noteq> -1" by metis
  then show ?thesis using k b(2) by (simp add: p_malloc_def B)
qed

section \<open>The invariant of a directory\<close>

text \<open>
  The directory and its tables are allocated pages, and no two of them are the same page.
\<close>

definition pd_ok :: "mm_state \<Rightarrow> u32 \<Rightarrow> bool" where
  "pd_ok m pd \<longleftrightarrow> pages_ok m \<and> aligned pd \<and> page_used m pd \<and>
     (\<forall>i < 1024. present (entry (ram m) pd i) \<longrightarrow>
        page_used m (table_of (ram m) pd i) \<and> table_of (ram m) pd i \<noteq> pd \<and>
        (\<forall>j < 1024. j \<noteq> i \<longrightarrow> present (entry (ram m) pd j) \<longrightarrow> table_of (ram m) pd j \<noteq> table_of (ram m) pd i))"

text \<open>The first half of \<open>set_mmap\<close>: the table is allocated if it is missing.\<close>

definition with_table :: "u32 \<Rightarrow> nat \<Rightarrow> mm_state \<Rightarrow> mm_state" where
  "with_table pd i m =
     (if present (entry (ram m) pd i) then m
      else case p_malloc m of (m', a) \<Rightarrow> m'\<lparr>ram := store32 (ram m') (pd + 4 * of_nat i) (a OR 7)\<rparr>)"

definition table_room :: "u32 \<Rightarrow> nat \<Rightarrow> mm_state \<Rightarrow> bool" where
  "table_room pd i m \<longleftrightarrow> present (entry (ram m) pd i) \<or> snd (p_malloc m) \<noteq> -1"

lemma set_mmap_unfold:
  "set_mmap pd v p f m =
     (let m1 = with_table pd (pdi v) m in
      (m1\<lparr>ram := store32 (ram m1) (table_of (ram m1) pd (pdi v) + 4 * of_nat (pti v)) (p OR ucast f)\<rparr>,
       present (entry (ram m) pd (pdi v))))"
  by (simp add: set_mmap_def with_table_def Let_def testbits_pdi testbits_pti testbit_present
      entry_def table_of_def split: prod.splits)

lemma bit_7_u32: "bit (7 :: u32) k \<longleftrightarrow> k < 3"
proof -
  have "(7 :: u32) = mask 3" by (simp add: mask_eq_exp_minus_1)
  then show ?thesis by (auto simp only: bit_mask_iff) simp
qed

lemma bit_frame_mask: "bit (0xFFFFF000 :: u32) k \<longleftrightarrow> 12 \<le> k \<and> k < 32"
proof -
  have m: "(0xFFFFF000 :: u32) = push_bit 12 (mask 20)" by (simp add: mask_eq_exp_minus_1 push_bit_eq_mult)
  show ?thesis unfolding m by (auto simp: bit_push_bit_iff bit_mask_iff)
qed

lemma frame_or_low:
  assumes "aligned a" "\<And>k. bit w k \<Longrightarrow> k < 12"
  shows "frame (a OR w) = a"
proof -
  have "frame (a OR w) = frame a"
    by (rule bit_word_eqI) (simp only: bit_and_iff bit_or_iff bit_frame_mask, use assms(2) in fastforce)
  with aligned_frame_eq [OF assms(1)] show ?thesis by simp
qed

lemma bit_3_u32: "bit (3 :: u32) k \<longleftrightarrow> k < 2"
proof -
  have "(3 :: u32) = mask 2" by (simp add: mask_eq_exp_minus_1)
  then show ?thesis by (auto simp only: bit_mask_iff) simp
qed

lemma frame_or_7: "aligned a \<Longrightarrow> frame (a OR 7) = a"
  by (erule frame_or_low) (simp only: bit_7_u32)

lemma present_or_7 [simp]: "present (a OR 7)" for a :: u32
  by (simp only: bit_or_iff bit_7_u32) simp

lemma new_table_ok:
  assumes "pd_ok m pd" "i < 1024" "table_room pd i m" "\<not> present (entry (ram m) pd i)"
  shows "pd_ok (with_table pd i m) pd" "present (entry (ram (with_table pd i m)) pd i)"
    "\<And>j. j < 1024 \<Longrightarrow> j \<noteq> i \<Longrightarrow> entry (ram (with_table pd i m)) pd j = entry (ram m) pd j"
    "\<And>t j. aligned t \<Longrightarrow> t \<noteq> pd \<Longrightarrow> j < 1024 \<Longrightarrow> entry (ram (with_table pd i m)) t j = entry (ram m) t j"
    "\<And>b. page_used (with_table pd i m) b \<longleftrightarrow> page_used m b \<or> frame b = snd (p_malloc m)"
    "table_of (ram (with_table pd i m)) pd i = snd (p_malloc m)"
proof -
  obtain m' a where M: "p_malloc m = (m', a)" by fastforce
  with assms(3,4) have a: "a \<noteq> -1" by (simp add: table_room_def)
  from assms(1) have pd: "pages_ok m" "aligned pd" "page_used m pd" by (auto simp: pd_ok_def)
  note P = p_malloc_ok [OF M pd(1) a]
  have r: "ram m' = ram m" using M p_malloc_simps(1) [of m] by simp
  define m1 where "m1 = m'\<lparr>ram := store32 (ram m) (pd + 4 * of_nat i) (a OR 7)\<rparr>"
  have w: "with_table pd i m = m1" using assms(4) by (simp add: with_table_def M m1_def r)
  have e: "entry (ram m1) t j = (if pd = t \<and> i = j then a OR 7 else entry (ram m) t j)" if "aligned t" "j < 1024" for t j
    using entry_store [OF pd(2) that(1) assms(2) that(2)] by (simp add: m1_def)
  have t: "table_of (ram m1) pd j = (if j = i then a else table_of (ram m) pd j)" if "j < 1024" for j
    using that by (simp add: table_of_def e [OF pd(2)] frame_or_7 [OF P(1)])
  have u: "page_used m1 b \<longleftrightarrow> frame b = a \<or> page_used m b" for b
    using P(3) [of b] by (simp add: page_used_def m1_def)
  have ta: "table_of (ram m) pd j \<noteq> a" if "j < 1024" "present (entry (ram m) pd j)" for j
    using that assms(1) P(2) by (auto simp: pd_ok_def)
  have ok: "pages_ok m1" using P(4) by (simp add: pages_ok_def m1_def)
  have na: "pd \<noteq> a" using pd(3) P(2) by auto
  have "pd_ok m1 pd"
    using assms(1) ta na ok unfolding pd_ok_def by (simp add: u e t aligned_frame_eq [OF P(1)]) metis
  then show "pd_ok (with_table pd i m) pd" by (simp only: w)
  show "present (entry (ram (with_table pd i m)) pd i)" using assms(2) by (simp add: w e [OF pd(2)])
  show "\<And>j. j < 1024 \<Longrightarrow> j \<noteq> i \<Longrightarrow> entry (ram (with_table pd i m)) pd j = entry (ram m) pd j" by (simp add: w e [OF pd(2)])
  show "\<And>t j. aligned t \<Longrightarrow> t \<noteq> pd \<Longrightarrow> j < 1024 \<Longrightarrow> entry (ram (with_table pd i m)) t j = entry (ram m) t j" by (simp add: w e)
  show "\<And>b. page_used (with_table pd i m) b \<longleftrightarrow> page_used m b \<or> frame b = snd (p_malloc m)" by (auto simp: w u M)
  show "table_of (ram (with_table pd i m)) pd i = snd (p_malloc m)" using assms(2) by (simp add: w t M)
qed

lemma with_table_ok:
  assumes "pd_ok m pd" "i < 1024" "table_room pd i m"
  shows "pd_ok (with_table pd i m) pd" "present (entry (ram (with_table pd i m)) pd i)"
    "\<And>j. j < 1024 \<Longrightarrow> j \<noteq> i \<or> present (entry (ram m) pd i) \<Longrightarrow>
      entry (ram (with_table pd i m)) pd j = entry (ram m) pd j"
    "\<And>t j. aligned t \<Longrightarrow> t \<noteq> pd \<Longrightarrow> j < 1024 \<Longrightarrow> entry (ram (with_table pd i m)) t j = entry (ram m) t j"
    "\<And>b. page_used (with_table pd i m) b \<longleftrightarrow>
       page_used m b \<or> \<not> present (entry (ram m) pd i) \<and> frame b = snd (p_malloc m)"
    "\<not> present (entry (ram m) pd i) \<Longrightarrow> table_of (ram (with_table pd i m)) pd i = snd (p_malloc m)"
  by (cases "present (entry (ram m) pd i)"; use assms new_table_ok [OF assms] in \<open>auto simp: with_table_def\<close>)+

text \<open>The second half: the store into the table.\<close>

lemma store_pte:
  fixes x :: u32
  assumes "pd_ok m pd" "present (entry (ram m) pd i)" "i < 1024" "k < 1024"
  defines "m2 \<equiv> m\<lparr>ram := store32 (ram m) (table_of (ram m) pd i + 4 * of_nat k) x\<rparr>"
  shows "pd_ok m2 pd"
    "\<And>j. j < 1024 \<Longrightarrow> entry (ram m2) pd j = entry (ram m) pd j"
    "\<And>t j. aligned t \<Longrightarrow> j < 1024 \<Longrightarrow>
       entry (ram m2) t j = (if t = table_of (ram m) pd i \<and> j = k then x else entry (ram m) t j)"
proof -
  have e: "entry (ram m2) t j = (if t = table_of (ram m) pd i \<and> j = k then x else entry (ram m) t j)"
    if "aligned t" "j < 1024" for t j
    using entry_store [of "table_of (ram m) pd i" t k j] that assms(4) by (auto simp: m2_def table_of_def)
  have pd: "aligned pd" "table_of (ram m) pd i \<noteq> pd" using assms(1-3) by (auto simp: pd_ok_def)
  then have d: "entry (ram m2) pd j = entry (ram m) pd j" if "j < 1024" for j
    using e [OF pd(1) that] by auto
  then have t: "table_of (ram m2) pd j = table_of (ram m) pd j" if "j < 1024" for j
    using that by (simp add: table_of_def)
  have u: "page_used m2 b = page_used m b" "pages_ok m2 = pages_ok m" for b
    by (simp_all add: page_used_def pages_ok_def m2_def)
  show "pd_ok m2 pd" using assms(1) unfolding pd_ok_def by (simp add: u t d)
  show "\<And>j. j < 1024 \<Longrightarrow> entry (ram m2) pd j = entry (ram m) pd j" by (rule d)
  show "\<And>t j. aligned t \<Longrightarrow> j < 1024 \<Longrightarrow>
       entry (ram m2) t j = (if t = table_of (ram m) pd i \<and> j = k then x else entry (ram m) t j)" by (rule e)
qed

lemma with_table_pte:
  assumes "pd_ok m pd" "i < 1024" "table_room pd i m"
  shows "pdi w = i \<Longrightarrow> \<not> present (entry (ram m) pd i) \<Longrightarrow>
      pte (ram (with_table pd i m)) pd w = entry (ram m) (snd (p_malloc m)) (pti w)"
    "pdi w \<noteq> i \<Longrightarrow> present (entry (ram m) pd (pdi w)) \<Longrightarrow> pte (ram (with_table pd i m)) pd w = pte (ram m) pd w \<and>
      table_of (ram (with_table pd i m)) pd (pdi w) \<noteq> table_of (ram (with_table pd i m)) pd i"
proof -
  note W = with_table_ok [OF assms]
  have al: "aligned (table_of r pd j)" for r j by (simp add: table_of_def)
  { assume w: "pdi w = i" and np: "\<not> present (entry (ram m) pd i)"
    have "snd (p_malloc m) \<noteq> pd" using W(1,2) assms(2) W(6) [OF np] by (metis pd_ok_def)
    moreover have "aligned (snd (p_malloc m))" using al W(6) [OF np] by metis
    ultimately show "pte (ram (with_table pd i m)) pd w = entry (ram m) (snd (p_malloc m)) (pti w)"
      using w W(6) [OF np] W(4) [OF _ _ pti_less] by (simp add: pte_def) }
  { assume w: "pdi w \<noteq> i" "present (entry (ram m) pd (pdi w))"
    have e: "entry (ram (with_table pd i m)) pd (pdi w) = entry (ram m) pd (pdi w)" using W(3) [OF pdi_less] w(1) by simp
    then have t1: "table_of (ram (with_table pd i m)) pd (pdi w) = table_of (ram m) pd (pdi w)" by (simp add: table_of_def)
    have "table_of (ram (with_table pd i m)) pd (pdi w) \<noteq> table_of (ram (with_table pd i m)) pd i"
      "table_of (ram (with_table pd i m)) pd (pdi w) \<noteq> pd"
      using W(1,2) e w assms(2) unfolding pd_ok_def by (metis pdi_less)+
    then show "pte (ram (with_table pd i m)) pd w = pte (ram m) pd w \<and>
        table_of (ram (with_table pd i m)) pd (pdi w) \<noteq> table_of (ram (with_table pd i m)) pd i"
      using W(4) [OF al _ pti_less] by (simp add: pte_def t1) }
qed

text \<open>The second half of \<open>set_mmap\<close>: the entry is stored into the table.\<close>

lemma set_mmap_store:
  assumes "pd_ok m pd" "table_room pd (pdi v) m" "set_mmap pd v p f m = (m', ok)"
  defines "m1 \<equiv> with_table pd (pdi v) m"
  shows "pd_ok m' pd" "ok = present (entry (ram m) pd (pdi v))"
    "\<And>j. j < 1024 \<Longrightarrow> entry (ram m') pd j = entry (ram m1) pd j"
    "\<And>w. pte (ram m') pd w = (if table_of (ram m1) pd (pdi w) = table_of (ram m1) pd (pdi v) \<and> pti w = pti v
      then p OR ucast f else pte (ram m1) pd w)"
    "\<And>t j. aligned t \<Longrightarrow> t \<noteq> table_of (ram m') pd (pdi v) \<Longrightarrow> j < 1024 \<Longrightarrow> entry (ram m') t j = entry (ram m1) t j"
    "\<And>b. page_used m' b = page_used m1 b"
proof -
  note W = with_table_ok [OF assms(1) pdi_less assms(2), folded m1_def]
  note S = store_pte [OF W(1,2) pdi_less pti_less [of v], where x = "p OR ucast f"]
  have m': "m' = m1\<lparr>ram := store32 (ram m1) (table_of (ram m1) pd (pdi v) + 4 * of_nat (pti v)) (p OR ucast f)\<rparr>"
    and ok: "ok = present (entry (ram m) pd (pdi v))"
    using assms(3) by (simp_all add: set_mmap_unfold m1_def Let_def)
  note S = S [folded m']
  have t: "table_of (ram m') pd j = table_of (ram m1) pd j" if "j < 1024" for j
    using S(2) [OF that] by (simp add: table_of_def)
  have al: "aligned (table_of r pd j)" for r j by (simp add: table_of_def)
  show "pd_ok m' pd" "ok = present (entry (ram m) pd (pdi v))" by (rule S(1), rule ok)
  show "entry (ram m') pd j = entry (ram m1) pd j" if "j < 1024" for j by (rule S(2) [OF that])
  show "pte (ram m') pd w = (if table_of (ram m1) pd (pdi w) = table_of (ram m1) pd (pdi v) \<and> pti w = pti v
      then p OR ucast f else pte (ram m1) pd w)" for w
    using S(3) [OF al pti_less, of "ram m1" "pdi w" w] by (simp add: pte_def t)
  show "entry (ram m') t' j = entry (ram m1) t' j" if "aligned t'" "t' \<noteq> table_of (ram m') pd (pdi v)" "j < 1024" for t' j
    using S(3) [OF that(1,3)] that(2) t [OF pdi_less] by simp
  show "page_used m' b = page_used m1 b" for b by (simp add: page_used_def m')
qed

lemma set_mmap_ok:
  assumes "pd_ok m pd" "table_room pd (pdi v) m" "set_mmap pd v p f m = (m', ok)"
  shows "pd_ok m' pd" "present (entry (ram m') pd (pdi v))" "pte (ram m') pd v = p OR ucast f"
    "ok = present (entry (ram m) pd (pdi v))"
    "\<And>j. j < 1024 \<Longrightarrow> j \<noteq> pdi v \<or> ok \<Longrightarrow> entry (ram m') pd j = entry (ram m) pd j"
    "\<And>w. pdi w = pdi v \<Longrightarrow> pti w \<noteq> pti v \<Longrightarrow>
       pte (ram m') pd w = (if ok then pte (ram m) pd w else entry (ram m) (snd (p_malloc m)) (pti w))"
    "\<And>w. pdi w \<noteq> pdi v \<Longrightarrow> present (entry (ram m) pd (pdi w)) \<Longrightarrow> pte (ram m') pd w = pte (ram m) pd w"
    "\<And>t j. aligned t \<Longrightarrow> t \<noteq> pd \<Longrightarrow> t \<noteq> table_of (ram m') pd (pdi v) \<Longrightarrow> j < 1024 \<Longrightarrow>
       entry (ram m') t j = entry (ram m) t j"
    "\<And>b. page_used m' b \<longleftrightarrow> page_used m b \<or> \<not> ok \<and> frame b = snd (p_malloc m)"
proof -
  note W = with_table_ok [OF assms(1) pdi_less assms(2)]
  note T = with_table_pte [OF assms(1) pdi_less assms(2)]
  note S = set_mmap_store [OF assms]
  show "pd_ok m' pd" "pte (ram m') pd v = p OR ucast f" "ok = present (entry (ram m) pd (pdi v))"
    "present (entry (ram m') pd (pdi v))"
    using S W(2) by simp_all
  show "entry (ram m') pd j = entry (ram m) pd j" if "j < 1024" "j \<noteq> pdi v \<or> ok" for j
    using S(3) [OF that(1)] W(3) [OF that(1)] that(2) S(2) by simp
  show "pte (ram m') pd w = (if ok then pte (ram m) pd w else entry (ram m) (snd (p_malloc m)) (pti w))"
    if "pdi w = pdi v" "pti w \<noteq> pti v" for w
    using S(2,4) T(1) [OF that(1)] that(2) by (simp add: with_table_def)
  show "pte (ram m') pd w = pte (ram m) pd w" if "pdi w \<noteq> pdi v" "present (entry (ram m) pd (pdi w))" for w
    using S(4) T(2) [OF that] by simp
  show "entry (ram m') t' j = entry (ram m) t' j"
    if "aligned t'" "t' \<noteq> pd" "t' \<noteq> table_of (ram m') pd (pdi v)" "j < 1024" for t' j
    using S(5) [OF that(1,3,4)] W(4) [OF that(1,2,4)] by simp
  show "page_used m' b \<longleftrightarrow> page_used m b \<or> \<not> ok \<and> frame b = snd (p_malloc m)" for b
    using W(5) [of b] S(2,6) by simp
qed

section \<open>Copying a directory\<close>

lemma byte_addr:
  assumes "aligned t" "j < 4096"
  shows "unat (t + of_nat j) = unat t + j"
proof -
  have "unat t div 4096 < 1048576" using unat_u32_less [of t] by (simp add: less_mult_imp_div_less)
  moreover have "unat t = unat t div 4096 * 4096" using assms(1) by (auto simp: aligned_def)
  ultimately have b: "unat t + j < 4294967296" using assms(2) by linarith
  have "unat (of_nat (unat t + j) :: u32) = unat t + j"
    using b by (intro unat_of_nat_small) simp
  then show ?thesis by simp
qed

lemma byte_addr_other:
  assumes "aligned t" "aligned t'" "t \<noteq> t'" "j < 4096"
  shows "4096 \<le> unat (t + of_nat j - t')"
proof (rule ccontr)
  assume "\<not> 4096 \<le> unat (t + of_nat j - t')"
  then have k: "unat (t + of_nat j - t') < 4096" by simp
  have "t + of_nat j = t' + of_nat (unat (t + of_nat j - t'))" by simp
  then have "unat t + j = unat t' + unat (t + of_nat j - t')"
    using byte_addr [OF assms(1,4)] byte_addr [OF assms(2) k] by metis
  moreover have p: "unat t = 4096 * (unat t div 4096)" and q: "unat t' = 4096 * (unat t' div 4096)"
    using assms(1,2) by (auto simp: aligned_def)
  ultimately have "unat t div 4096 = unat t' div 4096" using assms(4) k by linarith
  with p q have "unat t = unat t'" by metis
  then show False using assms(3) by (simp add: word_unat_eq_iff)
qed

lemma mem_copy_apart:
  assumes "\<forall>k < N. N \<le> unat (from + of_nat k - to)" "N \<le> 4096" "n \<le> N"
  shows "mem_copy to from n r x = (if unat (x - to) < n then r (from + (x - to)) else r x)"
  using assms(3)
proof (induction n arbitrary: x)
  case (Suc n)
  have n: "unat (of_nat n :: u32) = n" using Suc.prems assms(2) by (intro unat_of_nat_small) simp
  have "N \<le> unat (from + of_nat n - to)" using Suc.prems assms(1) by simp
  then have o: "\<not> unat (from + of_nat n - to) < n" using Suc.prems by linarith
  have IH: "mem_copy to from n r y = (if unat (y - to) < n then r (from + (y - to)) else r y)" for y
    using Suc by simp
  have "mem_copy to from (Suc n) r x =
      (if x = to + of_nat n then mem_copy to from n r (from + of_nat n) else mem_copy to from n r x)"
    by (simp add: mem_copy_def)
  also have "x = to + of_nat n \<longleftrightarrow> unat (x - to) = n"
    using n word_unat_eq_iff [of "x - to" "of_nat n"] by (auto simp: diff_eq_eq add.commute)
  finally show ?case using o n by (auto simp: IH less_Suc_eq)
qed (simp add: mem_copy_def)

lemma mem_copy_at:
  assumes "aligned to" "aligned from" "to \<noteq> from" "n \<le> 4096"
  shows "mem_copy to from n r x = (if unat (x - to) < n then r (from + (x - to)) else r x)"
proof (rule mem_copy_apart [OF _ _ assms(4)])
  show "\<forall>k < 4096. 4096 \<le> unat (from + of_nat k - to)"
    using byte_addr_other [OF assms(2,1) assms(3) [symmetric]] by blast
qed simp

lemma entry_copy:
  assumes "aligned to" "aligned from" "to \<noteq> from" "aligned t" "i < 1024"
  shows "entry (mem_copy to from 4096 r) t i = (if t = to then entry r from i else entry r t i)"
proof -
  have b: "mem_copy to from 4096 r (t + of_nat k) = (if t = to then r (from + of_nat k) else r (t + of_nat k))"
    if "k < 4096" for k
  proof (cases "t = to")
    case True
    have "unat (of_nat k :: u32) = k" using that by (intro unat_of_nat_small) simp
    then show ?thesis using that True by (simp add: mem_copy_at [OF assms(1-3)])
  next
    case False
    then show ?thesis using byte_addr_other [OF assms(4,1) False that] by (simp add: mem_copy_at [OF assms(1-3)])
  qed
  have e: "t + 4 * of_nat i = t + of_nat (4 * i)" "t + 4 * of_nat i + 1 = t + of_nat (4 * i + 1)"
    "t + 4 * of_nat i + 2 = t + of_nat (4 * i + 2)" "t + 4 * of_nat i + 3 = t + of_nat (4 * i + 3)" for t :: u32
    by simp_all
  have c: "4 * i < 4096" "4 * i + 1 < 4096" "4 * i + 2 < 4096" "4 * i + 3 < 4096"
    using assms(5) by linarith+
  show ?thesis
    unfolding entry_def load32_def e(2-4) unfolding e(1) b [OF c(1)] b [OF c(2)] b [OF c(3)] b [OF c(4)] by simp
qed

lemma copy_pts_ok:
  assumes "aligned to" "aligned from" "to \<noteq> from"
  shows "i < 1024 \<Longrightarrow> entry (ram (copy_pts from to m)) to i = entry (ram m) from i"
    "aligned t \<Longrightarrow> t \<noteq> to \<Longrightarrow> i < 1024 \<Longrightarrow> entry (ram (copy_pts from to m)) t i = entry (ram m) t i"
  using entry_copy [OF assms] assms(1) by (simp_all add: copy_pts_def)

section \<open>The identity mapping\<close>

lemma fold_bit_free:
  "bit_at (fold (\<lambda>i bm. bit_free bm (int i) v) [0..<n] bm) k \<longleftrightarrow>
     (if 0 \<le> k \<and> k < int n then v else bit_at bm k)"
  "slots (fold (\<lambda>i bm. bit_free bm (int i) v) [0..<n] bm) = slots bm"
  by (induction n) (auto simp: bit_at_bit_free)

lemma memory_alloc_init_ok:
  "page_used (memory_alloc_init m) a \<longleftrightarrow> unat a < 0x800000 \<or> page_used m a"
  "pages_ok (memory_alloc_init m)" "ram (memory_alloc_init m) = ram m"
proof -
  have b: "bit_at (bit_bind (bits bm) n) k = bit_at bm k" for bm n k
    by (simp add: bit_at_def bit_bind_def)
  have "unat a div 4096 < 2048 \<longleftrightarrow> unat a < 0x800000"
    by (simp add: div_less_iff_less_mult)
  then show "page_used (memory_alloc_init m) a \<longleftrightarrow> unat a < 0x800000 \<or> page_used m a"
    by (auto simp: memory_alloc_init_def Let_def page_used_def fold_bit_free b)
  show "pages_ok (memory_alloc_init m)"
    by (simp add: memory_alloc_init_def Let_def pages_ok_def fold_bit_free)
      (simp add: slots_def bit_bind_def signed_divide_int_def)
qed (simp add: memory_alloc_init_def Let_def)

text \<open>The first \<open>k\<close> pages are mapped to themselves, with tables taken from page 2048 on.\<close>

definition mapped_upto :: "mm_state \<Rightarrow> u32 \<Rightarrow> nat \<Rightarrow> bool" where
  "mapped_upto m pd k \<longleftrightarrow> pd_ok m pd \<and>
     (\<forall>i < 1024. present (entry (ram m) pd i) \<longleftrightarrow> i * 1024 < k) \<and>
     (\<forall>b. page_used m b \<longleftrightarrow> unat b div 4096 < 2048 + (k + 1023) div 1024) \<and>
     (\<forall>w. unat w div 4096 < k \<longrightarrow> pte (ram m) pd w = frame w OR 3)"

lemma pdi_alt: "pdi v = unat v div 4096 div 1024"
  by (simp add: pdi_def div_mult2_eq [symmetric])

lemma same_page: "unat w div 4096 = unat v div 4096 \<longleftrightarrow> pdi w = pdi v \<and> pti w = pti v"
  by (metis pdi_alt pti_def div_mult_mod_eq)

lemma flag_bits:
  fixes f :: u16
  assumes "unat f < 4096" "bit (ucast f :: u32) k"
  shows "k < 12"
proof -
  have "take_bit 12 f = f" using assms(1) by (simp add: word_unat_eq_iff unsigned_take_bit_eq take_bit_nat_eq_self)
  then have "bit f k \<Longrightarrow> k < 12" by (metis bit_take_bit_iff)
  with assms(2) show ?thesis by (auto simp: bit_unsigned_iff)
qed

lemma set_mmap_others:
  assumes "pd_ok m pd" "table_room pd (pdi v) m" "set_mmap pd v p f m = (m', ok)"
    "unat w div 4096 \<noteq> unat v div 4096" "has_addr pd w m"
  shows "has_addr pd w m'" "addr_translate pd w m' = addr_translate pd w m"
proof -
  note S = set_mmap_ok [OF assms(1-3)]
  have pr: "present (entry (ram m) pd (pdi w))" using assms(5) by (simp add: has_addr_walk)
  have pte: "pte (ram m') pd w = pte (ram m) pd w"
    using S(4) S(6,7) [of w] pr assms(4) same_page [of w v] by (cases "pdi w = pdi v") auto
  have "present (entry (ram m') pd (pdi w))"
    using S(2) S(5) [of "pdi w"] pr by (cases "pdi w = pdi v") auto
  with pte assms(5) show "has_addr pd w m'" "addr_translate pd w m' = addr_translate pd w m"
    by (simp_all add: has_addr_walk addr_translate_walk)
qed

lemma floor_less_iff: "k div 1024 * 1024 < k \<longleftrightarrow> 0 < k mod 1024" for k :: nat
  using div_mult_mod_eq [of k 1024] by (cases "k mod 1024 = 0") linarith+

lemma ceil_div: "(k + 1023) div 1024 = (if k mod 1024 = 0 then k div 1024 else k div 1024 + 1)" for k :: nat
proof -
  define r where "r = k mod 1024"
  have r: "r < 1024" by (simp add: r_def)
  have "(k + 1023) div 1024 = (r + 1023 + k div 1024 * 1024) div 1024"
    using div_mult_mod_eq [of k 1024] by (simp add: r_def add.commute add.left_commute)
  also have "\<dots> = k div 1024 + (r + 1023) div 1024" by (rule div_mult_self1) simp
  also have "(r + 1023) div 1024 = (if r = 0 then 0 else 1)"
    using r by (auto intro: div_nat_eqI)
  finally show ?thesis by (simp add: r_def)
qed

lemma page_number: "k < 1048576 \<Longrightarrow> unat (of_nat (k * 4096) :: u32) = k * 4096"
  by (intro unat_of_nat_small) simp

lemma p_malloc_mapped:
  assumes "mapped_upto m pd k" "k < 65536"
  defines "t \<equiv> 2048 + (k + 1023) div 1024"
  shows "snd (p_malloc m) = of_nat (t * 4096)" "unat (of_nat (t * 4096) :: u32) = t * 4096"
    "\<not> page_used m (of_nat (t * 4096))"
proof -
  from assms(1) have pages: "pages_ok m"
    and used: "\<And>b. page_used m b \<longleftrightarrow> unat b div 4096 < 2048 + (k + 1023) div 1024"
    by (auto simp: mapped_upto_def pd_ok_def)
  have t: "t < 4096" using assms(2) unfolding t_def by (simp add: less_mult_imp_div_less)
  then show tn: "unat (of_nat (t * 4096) :: u32) = t * 4096" by (intro page_number) simp
  then show free: "\<not> page_used m (of_nat (t * 4096))" using used by (simp add: t_def)
  show "snd (p_malloc m) = of_nat (t * 4096)"
  proof -
    obtain m1 a where A: "p_malloc m = (m1, a)" by fastforce
    have na: "a \<noteq> -1" using p_malloc_some [OF pages free] A by simp
    note P = p_malloc_ok [OF A pages na]
    have "\<not> unat a div 4096 < t" using P(2) used by (simp add: t_def)
    moreover have "\<not> t < unat a div 4096"
      using P(5) [of "of_nat (t * 4096)"] free tn by (auto simp: frame_less_iff [OF P(1)])
    ultimately have "unat a = t * 4096" using P(1) by (auto simp: aligned_def)
    then show ?thesis using A tn by (simp add: word_unat_eq_iff)
  qed
qed

lemma identity_page:
  "k < 65536 \<Longrightarrow> v = of_nat (k * 4096) \<Longrightarrow> unat v div 4096 = k \<and> pdi v = k div 1024 \<and> pti v = k mod 1024 \<and> aligned v"
  using page_number [of k] by (simp add: pdi_alt pti_def aligned_def)

lemma mapped_room: "mapped_upto m pd k \<Longrightarrow> k < 65536 \<Longrightarrow> table_room pd i m"
proof -
  assume "mapped_upto m pd k" "k < 65536"
  moreover from this(1) have "pages_ok m" by (simp add: mapped_upto_def pd_ok_def)
  ultimately show ?thesis using p_malloc_some [OF _ p_malloc_mapped(3)] by (simp add: table_room_def)
qed

lemma mapped_step_pte:
  assumes "mapped_upto m pd k" "k < 65536" "v = of_nat (k * 4096)" "set_mmap pd v v 3 m = (m', ok)" "unat w div 4096 < Suc k"
  shows "pte (ram m') pd w = frame w OR 3"
proof -
  from assms(1) have ok: "pd_ok m pd" and pres: "\<And>i. i < 1024 \<Longrightarrow> present (entry (ram m) pd i) \<longleftrightarrow> i * 1024 < k"
    and mapped: "\<And>w. unat w div 4096 < k \<Longrightarrow> pte (ram m) pd w = frame w OR 3"
    by (auto simp: mapped_upto_def)
  have vk: "unat v div 4096 = k" "aligned v" using identity_page [OF assms(2,3)] by simp_all
  note S = set_mmap_ok [OF ok mapped_room [OF assms(1,2)] assms(4)]
  show ?thesis
  proof (cases "unat w div 4096 = k")
    case True
    then have "pdi w = pdi v" "pti w = pti v" using same_page [of w v] vk(1) by auto
    moreover have "frame w = v" using True vk(1) by (simp add: frame_eq_iff [OF vk(2)])
    ultimately show ?thesis using S(3) by (simp add: pte_def)
  next
    case False
    with assms(5) have lt: "unat w div 4096 < k" by simp
    then have "pdi w * 1024 < k" by (simp add: pdi_alt)
    then have pw: "present (entry (ram m) pd (pdi w))" using pres by simp
    from False same_page [of w v] vk(1) have "pdi w \<noteq> pdi v \<or> pti w \<noteq> pti v" by auto
    then have "pte (ram m') pd w = pte (ram m) pd w"
      using S(6,7) [of w] pw S(4) by (cases "pdi w = pdi v") auto
    with mapped [OF lt] show ?thesis by simp
  qed
qed

lemma mapped_step:
  assumes "mapped_upto m pd k" "k < 65536"
  defines "v \<equiv> of_nat (k * 4096) :: u32"
  shows "mapped_upto (fst (set_mmap pd v v 3 m)) pd (Suc k)"
proof -
  obtain m' ok where M: "set_mmap pd v v 3 m = (m', ok)" by fastforce
  from assms(1) have ok: "pd_ok m pd" and pres: "\<And>i. i < 1024 \<Longrightarrow> present (entry (ram m) pd i) \<longleftrightarrow> i * 1024 < k"
    and used: "\<And>b. page_used m b \<longleftrightarrow> unat b div 4096 < 2048 + (k + 1023) div 1024"
    by (auto simp: mapped_upto_def)
  have vk: "pdi v = k div 1024" "v = of_nat (k * 4096)" using identity_page [OF assms(2)] by (simp_all add: v_def)
  define t where "t = 2048 + (k + 1023) div 1024"
  note alloc = p_malloc_mapped [OF assms(1,2), folded t_def]
  note S = set_mmap_ok [OF ok mapped_room [OF assms(1,2)] M]
  have okk: "ok \<longleftrightarrow> k mod 1024 \<noteq> 0"
    using pres [OF pdi_less, of v] floor_less_iff [of k] by (simp add: S(4) vk(1))
  have ceil: "(k + 1023) div 1024 = (if k mod 1024 = 0 then k div 1024 else k div 1024 + 1)"
    "(Suc k + 1023) div 1024 = k div 1024 + 1"
    by (rule ceil_div) simp
  have present': "present (entry (ram m') pd i) \<longleftrightarrow> i * 1024 < Suc k" if "i < 1024" for i
  proof (cases "i = pdi v")
    case True
    then show ?thesis using S(2) by (simp add: vk(1))
  next
    case False
    then have "i * 1024 \<noteq> k" by (auto simp: vk(1))
    then show ?thesis using False S(5) [OF that] pres [OF that] by simp linarith
  qed
  have used': "page_used m' b \<longleftrightarrow> unat b div 4096 < 2048 + (Suc k + 1023) div 1024" for b
  proof -
    have "aligned (of_nat (t * 4096))" using alloc(2) by (simp add: aligned_def)
    then have "frame b = of_nat (t * 4096) \<longleftrightarrow> unat b div 4096 = t"
      using alloc(2) by (simp add: frame_eq_iff)
    then show ?thesis using S(9) [of b] used [of b] by (auto simp: okk alloc(1) t_def ceil)
  qed
  then show ?thesis
    using S(1) present' mapped_step_pte [OF assms(1,2) vk(2) M] by (simp add: M mapped_upto_def)
qed

lemma mmap_itself_from_ok:
  "mapped_upto m pd k \<Longrightarrow> k \<le> 65536 \<Longrightarrow> 65536 - k \<le> fuel \<Longrightarrow>
   \<exists>m'. mmap_itself_from fuel pd (of_nat (k * 4096)) ITSELF_END m = Inr m' \<and> mapped_upto m' pd 65536"
proof (induction "65536 - k" arbitrary: k m fuel)
  case 0
  then have k: "k = 65536" by simp
  have "\<not> (of_nat (k * 4096) :: u32) < ITSELF_END" by (simp add: k)
  with 0 k show ?case by (subst mmap_itself_from.simps) simp
next
  case (Suc n)
  then have k: "k < 65536" "fuel \<noteq> 0" by simp_all
  then have "(of_nat (k * 4096) :: u32) < ITSELF_END"
    using page_number [of k] by (simp add: word_less_nat_alt)
  moreover have "(of_nat (k * 4096) :: u32) + of_nat 4096 = of_nat (Suc k * 4096)" by simp
  moreover have "\<exists>m'. mmap_itself_from (fuel - 1) pd (of_nat (Suc k * 4096)) ITSELF_END
      (fst (set_mmap pd (of_nat (k * 4096)) (of_nat (k * 4096)) 3 m)) = Inr m' \<and> mapped_upto m' pd 65536"
    using Suc.hyps(2) Suc.prems by (intro Suc.hyps(1) mapped_step [OF Suc.prems(1) k(1)]) auto
  ultimately show ?case using k(2) by (subst mmap_itself_from.simps) (simp add: add.commute)
qed

lemma mapped_upto_0:
  assumes "aligned pd" "unat pd < 0x800000" "\<And>i. i < 1024 \<Longrightarrow> entry (ram m) pd i = 0" "\<And>a. \<not> page_used m a"
  shows "mapped_upto (memory_alloc_init m) pd 0"
proof -
  have "unat a < 0x800000 \<longleftrightarrow> unat a div 4096 < 2048" for a :: u32
    by (simp add: div_less_iff_less_mult)
  then show ?thesis
    using assms by (simp add: mapped_upto_def pd_ok_def memory_alloc_init_ok)
qed

lemma mapped_upto_identity:
  assumes "mapped_upto m pd 65536"
  shows "has_addr pd v m \<longleftrightarrow> v < ITSELF_END" "v < ITSELF_END \<Longrightarrow> addr_translate pd v m = v"
proof -
  have lt: "v < ITSELF_END \<longleftrightarrow> unat v div 4096 < 65536"
    by (simp add: word_less_nat_alt div_less_iff_less_mult)
  have "unat v div 4096 < 65536 \<longleftrightarrow> pdi v * 1024 < 65536"
    by (simp add: pdi_alt div_less_iff_less_mult)
  then have "present (entry (ram m) pd (pdi v)) \<longleftrightarrow> v < ITSELF_END"
    using assms by (simp add: mapped_upto_def lt)
  moreover have pte: "pte (ram m) pd v = frame v OR 3" if "v < ITSELF_END"
    using assms that by (simp add: mapped_upto_def lt)
  moreover have "present (frame v OR 3)" by (simp only: bit_or_iff bit_3_u32) simp
  ultimately show "has_addr pd v m \<longleftrightarrow> v < ITSELF_END" by (auto simp: has_addr_walk)
  show "addr_translate pd v m = v" if "v < ITSELF_END"
  proof -
    have "frame (frame v OR 3) = frame v"
      by (rule frame_or_low [OF aligned_frame]) (simp only: bit_3_u32)
    moreover have "frame v + (v AND 0xFFF) = v"
    proof -
      have "frame v + (v AND 0xFFF) = of_nat (unat (frame v) + unat (v AND 0xFFF))" by simp
      also have "\<dots> = of_nat (unat v)" by (simp only: unat_frame unat_offset div_mult_mod_eq)
      finally show ?thesis by simp
    qed
    ultimately show ?thesis by (simp add: addr_translate_walk pte [OF that])
  qed
qed

lemma memory_init_ok:
  assumes "aligned pd" "unat pd < 0x800000" "\<And>i. i < 1024 \<Longrightarrow> entry (ram m) pd i = 0" "\<And>a. \<not> page_used m a"
  obtains m' where "memory_init pd h (m, st) = Inr (m', set_idt PAGE_FAULT_INTERRUPT h st)"
    "mapped_upto m' pd 65536" "cr3 m' = pd" "bit (cr0 m') 31"
proof -
  from mmap_itself_from_ok [OF mapped_upto_0 [OF assms], of "2 ^ 20"] obtain m1 where
    m1: "add_mmap_to_itself pd ITSELF_END 3 (memory_alloc_init m) = Inr m1" "mapped_upto m1 pd 65536"
    by (auto simp: add_mmap_to_itself_def)
  let ?m' = "enable_page (m1\<lparr>cr3 := pd\<rparr>)"
  have "ram ?m' = ram m1" "page_used ?m' b = page_used m1 b" "pages_ok ?m' = pages_ok m1" for b
    by (simp_all add: enable_page_def page_used_def pages_ok_def)
  then have "mapped_upto ?m' pd 65536 = mapped_upto m1 pd 65536"
    by (simp only: mapped_upto_def pd_ok_def)
  with m1(2) have "mapped_upto ?m' pd 65536" by simp
  moreover have "bit (cr0 ?m') 31" by (simp add: enable_page_def bit_or_iff)
  ultimately show ?thesis using that [of ?m'] m1(1) by (simp add: memory_init_def enable_page_def)
qed

section \<open>A machine for the examples\<close>

definition blank_machine :: "u8 \<Rightarrow> mm_state" where
  "blank_machine b = \<lparr>ram = (\<lambda>a. if a < 0x800000 then 0 else b),
     memory_alloc_bitmap = \<lparr>bits = (\<lambda>_. 0), bsize = 0\<rparr>, cr0 = 0, cr3 = 0\<rparr>"

lemma blank_used: "\<not> page_used (blank_machine b) a"
  by (simp add: page_used_def blank_machine_def bit_at_def)

lemma blank_entry: "i < 1024 \<Longrightarrow> entry (ram (blank_machine b)) 0x1000 i = 0"
proof -
  assume i: "i < 1024"
  have "(0x1000 :: u32) + 4 * of_nat i + of_nat j < 0x800000" if "j < 4" for j
    using entry_addr [of "0x1000" i j] i that by (simp add: aligned_def word_less_nat_alt)
  from this [of 0] this [of 1] this [of 2] this [of 3] show ?thesis
    by (simp add: entry_def load32_def blank_machine_def join32_def)
qed

lemma blank_mapped: "mapped_upto (memory_alloc_init (blank_machine b)) 0x1000 0"
  by (rule mapped_upto_0) (simp_all add: blank_entry blank_used aligned_def)

lemma blank_pd_ok: "pd_ok (memory_alloc_init (blank_machine b)) 0x1000"
  using blank_mapped by (simp add: mapped_upto_def)

lemma blank_alloc: "snd (p_malloc (memory_alloc_init (blank_machine b))) = 0x800000"
  using p_malloc_mapped(1) [OF blank_mapped] by simp

lemma blank_room: "table_room 0x1000 i (memory_alloc_init (blank_machine b))"
  by (simp add: table_room_def blank_alloc)

section \<open>Properties\<close>

text \<open>
  After \<open>set_mmap\<close> every address of the virtual page is translated to the physical
  page with the same offset, every other page that was mapped is translated as before, and
  the directory stays well-formed, whether the page table existed or had to be allocated.
\<close>
theorem set_mmap_translates:
  assumes "pd_ok m pd" "table_room pd (pdi v) m" "set_mmap pd v p f m = (m', ok)"
    "aligned p" "unat f < 4096" "bit f 0"
  shows "pd_ok m' pd \<and>
    (\<forall>w. unat w div 4096 = unat v div 4096 \<longrightarrow>
       has_addr pd w m' \<and> addr_translate pd w m' = p + (w AND 0xFFF)) \<and>
    (\<forall>w. unat w div 4096 \<noteq> unat v div 4096 \<longrightarrow> has_addr pd w m \<longrightarrow>
       has_addr pd w m' \<and> addr_translate pd w m' = addr_translate pd w m)"
proof (intro conjI allI impI)
  note S = set_mmap_ok [OF assms(1-3)]
  show "pd_ok m' pd" by (rule S(1))
  fix w :: u32
  {
    assume "unat w div 4096 = unat v div 4096"
    then have w: "pdi w = pdi v" "pti w = pti v" by (simp_all add: same_page)
    then have e: "pte (ram m') pd w = p OR ucast f" using S(3) by (simp add: pte_def)
    show "has_addr pd w m'"
      using S(2) assms(6) by (simp add: has_addr_walk e w bit_or_iff bit_unsigned_iff)
    show "addr_translate pd w m' = p + (w AND 0xFFF)"
      by (simp add: addr_translate_walk e frame_or_low [OF assms(4) flag_bits [OF assms(5)]])
  next
    assume "unat w div 4096 \<noteq> unat v div 4096" "has_addr pd w m"
    then show "has_addr pd w m'" "addr_translate pd w m' = addr_translate pd w m"
      by (rule set_mmap_others [OF assms(1-3)])+
  }
qed

theorem set_mmap_translates_witness:
  "addr_translate 0x1000 0x80000123
     (fst (set_mmap 0x1000 0x80000000 0x900000 3 (memory_alloc_init (blank_machine 0)))) = 0x900123"
proof -
  let ?m = "memory_alloc_init (blank_machine 0)"
  obtain m' ok where M: "set_mmap 0x1000 0x80000000 0x900000 3 ?m = (m', ok)" by fastforce
  have "unat (0x80000123 :: u32) div 4096 = unat (0x80000000 :: u32) div 4096" by simp
  with set_mmap_translates [OF blank_pd_ok blank_room M]
  have "addr_translate 0x1000 0x80000123 m' = 0x900000 + (0x80000123 AND 0xFFF)"
    by (simp add: aligned_def)
  then show ?thesis by (simp add: M)
qed

text \<open>
  A new page table is used as the allocator returned it, without being cleared:
  mapping one page of a 4 MiB region that had no table also maps the other 1023 pages of the
  region, to whatever the bytes left in the physical page say.
\<close>
theorem set_mmap_stale_table:
  assumes "pd_ok m pd" "\<not> present (entry (ram m) pd (pdi v))" "p_malloc m = (m1, a)" "a \<noteq> -1"
    "pdi w = pdi v" "pti w \<noteq> pti v"
  shows "\<not> has_addr pd w m \<and>
    (has_addr pd w (fst (set_mmap pd v p f m)) \<longleftrightarrow> present (entry (ram m) a (pti w))) \<and>
    addr_translate pd w (fst (set_mmap pd v p f m)) = frame (entry (ram m) a (pti w)) + (w AND 0xFFF)"
proof -
  obtain m' ok where M: "set_mmap pd v p f m = (m', ok)" by fastforce
  have "table_room pd (pdi v) m" using assms(3,4) by (simp add: table_room_def)
  note S = set_mmap_ok [OF assms(1) this M]
  have "pte (ram m') pd w = entry (ram m) a (pti w)"
    using S(6) [OF assms(5,6)] S(4) assms(2,3) by simp
  then show ?thesis
    using assms(2,5) S(2) by (simp add: M has_addr_walk addr_translate_walk)
qed

theorem set_mmap_stale_table_witness:
  "has_addr 0x1000 0x80001000
     (fst (set_mmap 0x1000 0x80000000 0x900000 3 (memory_alloc_init (blank_machine 0xFF))))"
proof -
  let ?m = "memory_alloc_init (blank_machine 0xFF)"
  obtain m1 a where A: "p_malloc ?m = (m1, a)" by fastforce
  then have a: "a = 0x800000" using blank_alloc [of "0xFF"] by simp
  have np: "\<not> present (entry (ram ?m) 0x1000 (pdi 0x80000000))"
    by (simp add: memory_alloc_init_ok blank_entry)
  have x: "pdi 0x80001000 = pdi 0x80000000" "pti 0x80001000 = 1" "pti 0x80000000 = 0"
    by (simp_all add: pdi_def pti_def)
  have "present (entry (ram ?m) a (pti 0x80001000))"
    by (simp add: a x memory_alloc_init_ok entry_def load32_def blank_machine_def) (simp add: bit_join32)
  with set_mmap_stale_table [OF blank_pd_ok np A _ x(1)] x a show ?thesis by simp
qed

text \<open>
  Claim C27: \<open>memory_init\<close> returns, switches paging on with the kernel's directory, installs
  the page fault handler, and leaves exactly the first 256 MiB mapped, each address to
  itself, with a well-formed directory.
\<close>
theorem memory_init_identity:
  assumes "aligned kernel_pd" "unat kernel_pd < 0x800000"
    "\<And>i. i < 1024 \<Longrightarrow> entry (ram m) kernel_pd i = 0" "\<And>a. \<not> page_used m a"
  shows "\<exists>m'. memory_init kernel_pd h (m, st) = Inr (m', set_idt PAGE_FAULT_INTERRUPT h st) \<and>
    pd_ok m' kernel_pd \<and> cr3 m' = kernel_pd \<and> bit (cr0 m') 31 \<and>
    (\<forall>v. has_addr kernel_pd v m' \<longleftrightarrow> v < ITSELF_END) \<and>
    (\<forall>v. v < ITSELF_END \<longrightarrow> addr_translate kernel_pd v m' = v)"
proof -
  obtain m' where m': "memory_init kernel_pd h (m, st) = Inr (m', set_idt PAGE_FAULT_INTERRUPT h st)"
    "mapped_upto m' kernel_pd 65536" "cr3 m' = kernel_pd" "bit (cr0 m') 31"
    using memory_init_ok [OF assms] by blast
  moreover have "pd_ok m' kernel_pd" using m'(2) by (simp add: mapped_upto_def)
  ultimately show ?thesis using mapped_upto_identity [OF m'(2)] by auto
qed

theorem memory_init_identity_witness:
  "\<forall>h st. \<exists>m' st'. memory_init 0x1000 h (blank_machine 7, st) = Inr (m', st') \<and>
    addr_translate 0x1000 0xB8000 m' = 0xB8000 \<and> \<not> has_addr 0x1000 0x80000000 m'"
proof (intro allI)
  fix h st
  have k: "aligned 0x1000" "unat (0x1000 :: u32) < 0x800000" by (simp_all add: aligned_def)
  from memory_init_identity [OF k blank_entry blank_used]
  show "\<exists>m' st'. memory_init 0x1000 h (blank_machine 7, st) = Inr (m', st') \<and>
    addr_translate 0x1000 0xB8000 m' = 0xB8000 \<and> \<not> has_addr 0x1000 0x80000000 m'"
    by (fastforce simp: word_less_nat_alt)
qed

lemma copy_pts_shared:
  assumes "pd_ok m from" "aligned to" "to \<noteq> from" "page_used m to"
    "\<And>i. i < 1024 \<Longrightarrow> present (entry (ram m) from i) \<Longrightarrow> table_of (ram m) from i \<noteq> to"
    "has_addr from v m"
  shows "\<exists>m'. m' = copy_pts from to m \<and> pd_ok m' to \<and> pd_ok m' from \<and>
    (\<forall>w. has_addr to w m' = has_addr from w m \<and> has_addr from w m' = has_addr from w m) \<and>
    (\<forall>w. has_addr from w m \<longrightarrow>
       addr_translate to w m' = addr_translate from w m \<and> addr_translate from w m' = addr_translate from w m) \<and>
    pte (ram (fst (set_mmap to v p f m'))) from v = p OR ucast f"
proof -
  define m' where "m' = copy_pts from to m"
  have al: "aligned from" using assms(1) by (simp add: pd_ok_def)
  note C = copy_pts_ok [OF assms(2) al assms(3), where m = m, folded m'_def]
  have to: "entry (ram m') to i = entry (ram m) from i" if "i < 1024" for i using C(1) [OF that] .
  have fr: "entry (ram m') from i = entry (ram m) from i" if "i < 1024" for i
    using C(2) [OF al assms(3) [symmetric] that] .
  have tt: "table_of (ram m') to i = table_of (ram m) from i" "table_of (ram m') from i = table_of (ram m) from i"
    if "i < 1024" for i using to [OF that] fr [OF that] by (simp_all add: table_of_def)
  have u: "page_used m' b = page_used m b" "pages_ok m' = pages_ok m" for b
    by (simp_all add: page_used_def pages_ok_def m'_def copy_pts_def)
  have ok: "pd_ok m' to" "pd_ok m' from"
    using assms(1,2,4,5) unfolding pd_ok_def by (simp_all add: u tt to fr)
  have p: "pte (ram m') to w = pte (ram m) from w" "pte (ram m') from w = pte (ram m) from w"
    if "present (entry (ram m) from (pdi w))" for w
    using assms(5) [OF pdi_less that] C(2) [OF _ _ pti_less, of "table_of (ram m) from (pdi w)"]
    by (simp_all add: pte_def tt) (simp_all add: table_of_def)
  have pr: "present (entry (ram m) from (pdi v))" using assms(6) by (simp add: has_addr_walk)
  then have "table_room to (pdi v) m'" by (simp add: table_room_def to)
  moreover obtain m2 ok2 where M: "set_mmap to v p f m' = (m2, ok2)" by fastforce
  ultimately have S: "pte (ram m2) to v = p OR ucast f" "entry (ram m2) to (pdi v) = entry (ram m') to (pdi v)"
    "\<And>t j. aligned t \<Longrightarrow> t \<noteq> to \<Longrightarrow> t \<noteq> table_of (ram m2) to (pdi v) \<Longrightarrow> j < 1024 \<Longrightarrow>
       entry (ram m2) t j = entry (ram m') t j"
    using set_mmap_ok(3,4,5,8) [OF ok(1) _ M] pr to by auto
  have tv: "table_of (ram m2) to (pdi v) = table_of (ram m) from (pdi v)"
    using S(2) tt(1) [of "pdi v"] by (simp add: table_of_def)
  have "table_of (ram m) from (pdi v) \<noteq> from" using assms(1) pr by (auto simp: pd_ok_def)
  then have "entry (ram m2) from (pdi v) = entry (ram m') from (pdi v)"
    using S(3) [OF al assms(3) [symmetric] _ pdi_less] tv by metis
  then have "pte (ram m2) from v = pte (ram m2) to v"
    using tv tt(2) [of "pdi v"] by (simp add: pte_def) (simp add: table_of_def)
  then have "pte (ram (fst (set_mmap to v p f m'))) from v = p OR ucast f" using S(1) M by simp
  moreover have "has_addr to w m' = has_addr from w m \<and> has_addr from w m' = has_addr from w m" for w
    using p [of w] by (auto simp: has_addr_walk to fr)
  moreover have "addr_translate to w m' = addr_translate from w m \<and> addr_translate from w m' = addr_translate from w m"
    if "has_addr from w m" for w
    using p [of w] that by (simp add: has_addr_walk addr_translate_walk)
  ultimately show ?thesis using ok m'_def by blast
qed

text \<open>
  \<open>copy_pts\<close> gives the new directory every mapping of the old one and leaves the
  old one as it was; but the page tables themselves are shared, so a later \<open>set_mmap\<close>
  through the new directory, at an address that is mapped, changes the old one too.
\<close>
theorem copy_pts_shares_tables:
  assumes "pd_ok m from" "p_malloc m = (m1, to)" "to \<noteq> -1" "has_addr from v m"
  shows "\<exists>m'. m' = copy_pts from to m1 \<and> pd_ok m' to \<and> pd_ok m' from \<and>
    (\<forall>w. has_addr to w m' = has_addr from w m \<and> has_addr from w m' = has_addr from w m) \<and>
    (\<forall>w. has_addr from w m \<longrightarrow>
       addr_translate to w m' = addr_translate from w m \<and> addr_translate from w m' = addr_translate from w m) \<and>
    pte (ram (fst (set_mmap to v p f m'))) from v = p OR ucast f"
proof -
  have pages: "pages_ok m" using assms(1) by (simp add: pd_ok_def)
  note P = p_malloc_ok [OF assms(2) pages assms(3)]
  have r: "ram m1 = ram m" using assms(2) p_malloc_simps(1) [of m] by simp
  have ok: "pd_ok m1 from" using assms(1) P(3,4) by (auto simp: pd_ok_def r)
  have "to \<noteq> from" "page_used m1 to"
    using assms(1) P(1,2,3) by (auto simp: pd_ok_def aligned_frame_eq)
  moreover have "table_of (ram m1) from i \<noteq> to" if "i < 1024" "present (entry (ram m1) from i)" for i
    using assms(1) P(2) that by (auto simp: pd_ok_def r)
  moreover have h: "has_addr from w m1 = has_addr from w m" "addr_translate from w m1 = addr_translate from w m" for w
    by (simp_all add: has_addr_walk addr_translate_walk r)
  ultimately show ?thesis
    using copy_pts_shared [OF ok P(1), of v p f] assms(4) by (simp add: h)
qed

theorem copy_pts_shares_tables_witness:
  "\<exists>m m1 to. p_malloc m = (m1, to) \<and> has_addr 0x1000 0x80000000 m \<and>
     pte (ram (fst (set_mmap to 0x80000000 0xA00000 3 (copy_pts 0x1000 to m1)))) 0x1000 0x80000000 = 0xA00003"
proof -
  obtain m ok where M: "set_mmap 0x1000 0x80000000 0x900000 3 (memory_alloc_init (blank_machine 0)) = (m, ok)"
    by fastforce
  note S = set_mmap_ok [OF blank_pd_ok blank_room M]
  have h: "has_addr 0x1000 0x80000000 m"
    using S(2,3) by (simp add: has_addr_walk)
  have "\<not> page_used m 0x900000"
    using S(9) [of "0x900000"] by (simp add: memory_alloc_init_ok blank_used blank_alloc word_unat_eq_iff unat_frame)
  with S(1) have "snd (p_malloc m) \<noteq> -1" by (intro p_malloc_some) (simp_all add: pd_ok_def)
  moreover obtain m1 to where A: "p_malloc m = (m1, to)" by fastforce
  ultimately have "to \<noteq> -1" by simp
  from copy_pts_shares_tables [OF S(1) A this h, of "0xA00000" "3"] show ?thesis
    using A h by auto
qed

text \<open>
  As long as the kernel's pages are marked, \<open>p_malloc\<close> never hands one out: what it
  returns is the lowest free page, page aligned and above the kernel, from then on marked as
  used; freeing it again (below 2 GiB) gives back the old set of used pages.
\<close>
theorem page_allocation_safe:
  assumes "p_malloc m = (m', a)" "pages_ok m" "a \<noteq> -1" "\<And>b. unat b < 0x800000 \<Longrightarrow> page_used m b"
  shows "aligned a \<and> 0x800000 \<le> a \<and> \<not> page_used m a \<and> (\<forall>b. frame b < a \<longrightarrow> page_used m b) \<and>
    (\<forall>b. page_used m' b \<longleftrightarrow> frame b = a \<or> page_used m b) \<and>
    (a < 0x80000000 \<longrightarrow> (\<exists>m''. p_free a m' = Inr m'' \<and> (\<forall>b. page_used m'' b = page_used m b)))"
proof (intro conjI impI allI)
  note P = p_malloc_ok [OF assms(1-3)]
  show "aligned a" "\<not> page_used m a" by (rule P(1), rule P(2))
  show "0x800000 \<le> a" using P(2) assms(4) [of a] by (force simp: word_le_nat_alt not_less)
  show "page_used m b" if "frame b < a" for b by (rule P(5) [OF that])
  show "page_used m' b \<longleftrightarrow> frame b = a \<or> page_used m b" for b by (rule P(3))
  show "\<exists>m''. p_free a m' = Inr m'' \<and> (\<forall>b. page_used m'' b = page_used m b)" if "a < 0x80000000"
  proof -
    have "unat a < 2 ^ 31" using that by (simp add: word_less_nat_alt)
    then have "sint a = int (unat a)" using sint_of_nat_small [of "unat a"] by simp
    then have q: "sint a sdiv 4096 = int (unat a div 4096)"
      using sdiv_nonneg [of "int (unat a)" 4096] by (simp add: zdiv_int)
    have "a AND 0xFFF = 0" using P(1) unat_offset [of a] by (simp add: aligned_def word_unat_eq_iff)
    then show ?thesis
      using P(2,3) by (auto simp: p_free_def q page_used_def bit_at_bit_free frame_eq_iff [OF P(1)])
  qed
qed

theorem page_allocation_safe_witness:
  "\<exists>m' a m''. p_malloc (memory_alloc_init (blank_machine 0)) = (m', a) \<and> 0x800000 \<le> a \<and> p_free a m' = Inr m''"
proof -
  let ?m = "memory_alloc_init (blank_machine 0)"
  obtain m' a where A: "p_malloc ?m = (m', a)" by fastforce
  then have a: "a = 0x800000" using blank_alloc [of "0"] by simp
  have "pages_ok ?m" by (rule memory_alloc_init_ok)
  from page_allocation_safe [OF A this] show ?thesis
    using A a by (auto simp: memory_alloc_init_ok word_less_nat_alt)
qed

text \<open>
  \<open>p_free\<close> takes the address as an \<open>int\<close>: a page at 2 GiB or above is not freed at
  all; instead a bit in front of the allocation table is cleared.
\<close>
theorem p_free_high_page_leaks:
  assumes "aligned a" "0x80000000 \<le> a"
  shows "\<exists>m' k. p_free a m = Inr m' \<and> (\<forall>b. page_used m' b = page_used m b) \<and>
    k < 0 \<and> \<not> bit_at (memory_alloc_bitmap m') k"
proof -
  define k where "k = sint a sdiv 4096"
  have h: "2147483648 \<le> unat a" using assms(2) by (simp add: word_le_nat_alt)
  have "unat a + 4096 \<le> 4294967296"
    using unat_u32_less [of a] assms(1) by (auto simp: aligned_def elim!: dvdE)
  with sint_high [OF h] have "sint a < 0" "4096 \<le> - sint a" by linarith+
  then have "k < 0" by (simp add: k_def signed_divide_int_def pos_imp_zdiv_pos_iff)
  have "a AND 0xFFF = 0" using assms(1) unat_offset [of a] by (simp add: aligned_def word_unat_eq_iff)
  then show ?thesis
    using \<open>k < 0\<close> by (auto simp: p_free_def k_def page_used_def bit_at_bit_free intro!: exI [of _ k])
qed

theorem p_free_high_page_leaks_witness:
  "\<exists>m' k. p_free 0x90000000 (blank_machine 0) = Inr m' \<and> (\<forall>b. page_used m' b = page_used (blank_machine 0) b) \<and>
    k < 0 \<and> \<not> bit_at (memory_alloc_bitmap m') k"
  by (rule p_free_high_page_leaks) (simp_all add: aligned_def word_le_nat_alt)

lemma page_below_limit:
  assumes "aligned a" "\<not> limit \<le> 0xFFFFF000"
  shows "a < limit"
proof -
  have "unat a = 4096 * (unat a div 4096)" using assms(1) by (auto simp: aligned_def)
  moreover have "unat a div 4096 < 1048576" using unat_u32_less [of a] by (simp add: less_mult_imp_div_less)
  ultimately have "unat a \<le> 4294963200" by linarith
  then show ?thesis using assms(2) by (simp add: word_less_nat_alt word_le_nat_alt)
qed

text \<open>
  Claim C31: the loop of \<open>add_mmap_to_itself\<close> ends exactly when its limit is at most 0xFFFFF000; above,
  the address wraps around to 0 before it reaches the limit, and 2^20 rounds of fuel are enough
  whenever it ends.
\<close>
theorem add_mmap_terminates_iff:
  "((\<exists>m'. add_mmap_to_itself pd limit f m = Inr m') \<longleftrightarrow> limit \<le> 0xFFFFF000) \<and>
   (\<not> limit \<le> 0xFFFFF000 \<longrightarrow> mmap_itself_from fuel pd 0 limit m = Inl Hang)"
proof -
  have ends: "\<exists>m'. mmap_itself_from fuel pd (of_nat (k * 4096)) limit m = Inr m'"
    if "limit \<le> 0xFFFFF000" "k \<le> 1048575" "1048575 - k \<le> fuel" for fuel k m
    using that(2,3)
  proof (induction fuel arbitrary: k m)
    case 0
    then have "k = 1048575" by simp
    with that(1) show ?case by (subst mmap_itself_from.simps) (simp add: not_less)
  next
    case (Suc fuel)
    show ?case
    proof (cases "(of_nat (k * 4096) :: u32) < limit")
      case True
      then have "k < 1048575" using Suc.prems(1) that(1) by (cases "k = 1048575") auto
      then have "\<exists>m'. mmap_itself_from fuel pd (of_nat (Suc k * 4096)) limit m2 = Inr m'" for m2
        using Suc.prems(2) by (intro Suc.IH) auto
      then show ?thesis using True by (subst mmap_itself_from.simps) (simp add: add.commute)
    qed (subst mmap_itself_from.simps, simp)
  qed
  have hangs: "mmap_itself_from fuel pd a limit m = Inl Hang" if l: "\<not> limit \<le> 0xFFFFF000" and "aligned a" for fuel a m
    using that(2)
  proof (induction fuel arbitrary: a m)
    case 0
    then show ?case using page_below_limit [OF _ l] by (subst mmap_itself_from.simps) simp
  next
    case (Suc fuel)
    have "aligned (a + 4096)" using Suc.prems by (simp add: aligned_def unat_word_ariths mod_mod_cancel)
    then show ?case using page_below_limit [OF Suc.prems l] Suc.IH by (subst mmap_itself_from.simps) simp
  qed
  have "aligned 0" by (simp add: aligned_def)
  note h = hangs [OF _ this]
  show ?thesis
  proof (cases "limit \<le> 0xFFFFF000")
    case True
    then show ?thesis using ends [of 0 "2 ^ 20" m] by (simp add: add_mmap_to_itself_def)
  next
    case False
    then show ?thesis using h [OF False] by (simp add: add_mmap_to_itself_def)
  qed
qed

theorem add_mmap_terminates_iff_witness:
  "(\<exists>m'. add_mmap_to_itself 0x1000 0x2000 7 (blank_machine 7) = Inr m') \<and>
   mmap_itself_from 5 0x1000 0 0xFFFFFFFF (blank_machine 7) = Inl Hang"
  using add_mmap_terminates_iff [of "0x1000" "0x2000" 7 "blank_machine 7"]
    add_mmap_terminates_iff [of "0x1000" "0xFFFFFFFF" 7 "blank_machine 7" 5]
  by (simp add: word_le_nat_alt)

end
