(* ===== verification/Address_Space.thy ===== *)
theory Address_Space
  imports Paging
begin

text \<open>
  What the page tables promise their users, as an interface: mapping pages is updating a map
  from virtual to physical addresses, and loading pages gives each of them a frame of its own. The locales hold
  the laws of one operation and what follows for sequences of them; they are interpreted on
  \<open>set_mmap\<close> and \<open>load_memory\<close> of kernel/mm/memory.c. A new page table is used without being cleared,
  so the invariant includes that free pages have no entry that is marked present.
\<close>

section \<open>Counting free pages\<close>

definition free_pages :: "mm_state \<Rightarrow> u32 set" where
  "free_pages m = {a. aligned a \<and> \<not> page_used m a}"

lemma p_malloc_free:
  assumes "pages_ok m" "0 < card (free_pages m)"
  shows "snd (p_malloc m) \<noteq> -1" "card (free_pages (fst (p_malloc m))) = card (free_pages m) - 1"
    "free_pages (fst (p_malloc m)) = free_pages m - {snd (p_malloc m)}" "snd (p_malloc m) \<in> free_pages m"
proof -
  obtain b where "b \<in> free_pages m" using assms(2) by (auto simp: card_gt_0_iff)
  then show a: "snd (p_malloc m) \<noteq> -1" using assms(1) by (intro p_malloc_some [of m b]) (auto simp: free_pages_def)
  obtain m1 x where M: "p_malloc m = (m1, x)" by fastforce
  note P = p_malloc_ok [OF M assms(1)]
  have x: "x \<noteq> -1" using a M by simp
  have "b \<in> free_pages m1 \<longleftrightarrow> b \<in> free_pages m - {x}" for b
    using P(3) [OF x, of b] by (simp add: free_pages_def) (metis aligned_frame_eq)
  then have e: "free_pages m1 = free_pages m - {x}" by blast
  moreover have f: "x \<in> free_pages m" using P(1,2) [OF x] by (simp add: free_pages_def)
  ultimately show "card (free_pages (fst (p_malloc m))) = card (free_pages m) - 1" by (simp add: M)
  show "free_pages (fst (p_malloc m)) = free_pages m - {snd (p_malloc m)}" "snd (p_malloc m) \<in> free_pages m"
    using e f by (simp_all add: M)
qed

lemma free_pages_grow:
  assumes "\<And>c. page_used m' c \<Longrightarrow> page_used m c \<or> frame c \<in> A" "finite A"
  shows "card (free_pages m) - card A \<le> card (free_pages m')"
proof -
  have "free_pages m - A \<subseteq> free_pages m'" using assms(1) aligned_frame_eq unfolding free_pages_def by fastforce
  then have "card (free_pages m - A) \<le> card (free_pages m')" by (intro card_mono) simp
  moreover have "card (free_pages m) - card A \<le> card (free_pages m - A)" by (rule diff_card_le_card_Diff [OF assms(2)])
  ultimately show ?thesis by linarith
qed

lemma free_pages_cong: "(\<And>c. page_used m' c = page_used m c) \<Longrightarrow> free_pages m' = free_pages m"
  by (simp add: free_pages_def)

section \<open>The interface\<close>

text \<open>An address space as a partial function on addresses, and the update for one page.\<close>

type_synonym addr_space = "u32 \<Rightarrow> u32 option"

definition remap :: "u32 \<Rightarrow> u32 \<Rightarrow> addr_space \<Rightarrow> addr_space" where
  "remap v p g = (\<lambda>w. if unat w div 4096 = unat v div 4096 then Some (p + (w AND 0xFFF)) else g w)"

text \<open>Several updates in the order of the list; the last one for a page counts.\<close>

definition remaps :: "(u32 \<times> u32) list \<Rightarrow> addr_space \<Rightarrow> addr_space" where
  "remaps vps g = (\<lambda>w. case map_of (rev (map (\<lambda>(v, p). (unat v div 4096, p)) vps)) (unat w div 4096) of
     Some p \<Rightarrow> Some (p + (w AND 0xFFF)) | None \<Rightarrow> g w)"

lemma remaps_Nil [simp]: "remaps [] g = g"
  by (simp add: remaps_def)

lemma remaps_Cons [simp]: "remaps ((v, p) # vps) g = remaps vps (remap v p g)"
  by (rule ext) (auto simp: remaps_def remap_def map_add_def split: option.splits)

lemma remaps_at:
  assumes "distinct (map (\<lambda>v. unat v div 4096) vs)" "length as = length vs" "i < length vs" "unat w div 4096 = unat (vs ! i) div 4096"
  shows "remaps (zip vs as) g w = Some (as ! i + (w AND 0xFFF))"
proof -
  let ?l = "map (\<lambda>(v, p). (unat v div 4096, p)) (zip vs as)"
  have "map fst ?l = map (\<lambda>v. unat v div 4096) vs" using assms(2) by (simp add: list_eq_iff_nth_eq)
  then have "distinct (map fst (rev ?l))" using assms(1) by (simp add: rev_map [symmetric])
  moreover have "(unat w div 4096, as ! i) \<in> set (rev ?l)"
    using assms(2-4) by (simp add: set_zip image_iff) (metis prod.inject)
  ultimately have "map_of (rev ?l) (unat w div 4096) = Some (as ! i)" by (rule map_of_is_SomeI)
  then show ?thesis by (simp add: remaps_def)
qed

lemma remaps_other:
  assumes "unat w div 4096 \<notin> (\<lambda>v. unat v div 4096) ` set vs"
  shows "remaps (zip vs as) g w = g w"
proof -
  have "unat w div 4096 \<notin> fst ` set (rev (map (\<lambda>(v, p). (unat v div 4096, p)) (zip vs as)))"
    using assms by (auto dest: set_zip_leftD)
  then have "map_of (rev (map (\<lambda>(v, p). (unat v div 4096, p)) (zip vs as))) (unat w div 4096) = None"
    by (simp only: map_of_eq_None_iff not_False_eq_True)
  then show ?thesis by (simp add: remaps_def)
qed

text \<open>A frame, and flags that mark the entry as present and stay below the frame.\<close>

definition page_flags :: "u16 \<Rightarrow> bool" where
  "page_flags f \<longleftrightarrow> unat f < 4096 \<and> bit f 0"

locale page_map =
  fixes inv :: "'s \<Rightarrow> bool"
    and room :: "'s \<Rightarrow> nat"
    and space :: "'s \<Rightarrow> addr_space"
    and put :: "u32 \<Rightarrow> u32 \<Rightarrow> u16 \<Rightarrow> 's \<Rightarrow> 's"
  assumes put_inv: "inv s \<Longrightarrow> 0 < room s \<Longrightarrow> inv (put v p f s)"
    and put_room: "inv s \<Longrightarrow> 0 < room s \<Longrightarrow> room s \<le> Suc (room (put v p f s))"
    and put_space: "inv s \<Longrightarrow> 0 < room s \<Longrightarrow> aligned p \<Longrightarrow> page_flags f \<Longrightarrow> space (put v p f s) = remap v p (space s)"
begin

lemma put_all:
  assumes "inv s" "length ms \<le> room s" "\<forall>(v, p, f) \<in> set ms. aligned p \<and> page_flags f"
  shows "inv (fold (\<lambda>(v, p, f). put v p f) ms s)"
    "space (fold (\<lambda>(v, p, f). put v p f) ms s) = remaps (map (\<lambda>(v, p, f). (v, p)) ms) (space s)"
  using assms
proof (induction ms arbitrary: s)
  case (Cons x ms)
  obtain v p f where x: "x = (v, p, f)" by (cases x) auto
  { case 1
    then have "0 < room s" by simp
    note P = put_inv [OF 1(1) this, of v p f] put_room [OF 1(1) this, of v p f]
    show ?case using Cons.IH(1) [OF P(1)] P(2) 1 by (simp add: x) }
  { case 2
    then have r: "0 < room s" by simp
    note P = put_inv [OF 2(1) r, of v p f] put_room [OF 2(1) r, of v p f]
    have "space (put v p f s) = remap v p (space s)" using put_space [OF 2(1) r] 2(3) by (simp add: x)
    then show ?case using Cons.IH(2) [OF P(1)] P(2) 2 by (simp add: x) }
qed simp_all

end

text \<open>Loading takes a frame that nobody uses and maps it.\<close>

locale page_loader = page_map +
  fixes used :: "'a \<Rightarrow> u32 set"
    and grab :: "'a \<Rightarrow> 'a \<times> u32"
    and load :: "u32 \<Rightarrow> u16 \<Rightarrow> 'a \<Rightarrow> 'a \<times> u32"
  assumes grab_inv: "inv s \<Longrightarrow> 0 < room s \<Longrightarrow> grab s = (t, a) \<Longrightarrow> inv t"
    and grab_room: "inv s \<Longrightarrow> 0 < room s \<Longrightarrow> grab s = (t, a) \<Longrightarrow> room s = Suc (room t)"
    and grab_space: "grab s = (t, a) \<Longrightarrow> space t = space s"
    and grab_fresh: "inv s \<Longrightarrow> 0 < room s \<Longrightarrow> grab s = (t, a) \<Longrightarrow> aligned a \<and> a \<notin> used s"
    and grab_used: "inv s \<Longrightarrow> 0 < room s \<Longrightarrow> grab s = (t, a) \<Longrightarrow> used t = insert a (used s)"
    and put_used: "inv s \<Longrightarrow> 0 < room s \<Longrightarrow> used s \<subseteq> used (put v p f s)"
    and load_grab: "grab s = (t, a) \<Longrightarrow> load v f s = (put v a f t, a)"

text \<open>Pages loaded one after the other, and their frames.\<close>

fun load_all :: "(u32 \<Rightarrow> 's \<Rightarrow> 's \<times> u32) \<Rightarrow> u32 list \<Rightarrow> 's \<Rightarrow> 's \<times> u32 list" where
  "load_all ld [] s = (s, [])"
| "load_all ld (v # vs) s = (case ld v s of (t, a) \<Rightarrow> case load_all ld vs t of (t', as) \<Rightarrow> (t', a # as))"

context page_loader
begin

lemma load_ok:
  assumes "inv s" "2 \<le> room s" "page_flags f" "load v f s = (s', a)"
  shows "inv s'" "room s \<le> room s' + 2" "a \<notin> used s" "insert a (used s) \<subseteq> used s'" "space s' = remap v a (space s)"
proof -
  obtain t where g: "grab s = (t, a)" and s': "s' = put v a f t"
    using assms(4) load_grab [of s _ _ v f] by (cases "grab s") simp
  have r: "0 < room s" using assms(2) by simp
  note G = grab_inv [OF assms(1) r g] grab_room [OF assms(1) r g] grab_fresh [OF assms(1) r g] grab_used [OF assms(1) r g]
  have t: "0 < room t" using G(2) assms(2) by simp
  show "inv s'" "a \<notin> used s" using put_inv [OF G(1) t] G(3) by (simp_all add: s')
  show "room s \<le> room s' + 2" using put_room [OF G(1) t, of v a f] G(2) by (simp add: s')
  show "insert a (used s) \<subseteq> used s'" using put_used [OF G(1) t] G(4) by (auto simp: s')
  show "space s' = remap v a (space s)" using put_space [OF G(1) t _ assms(3)] G(3) grab_space [OF g] by (simp add: s')
qed

lemma load_all_ok:
  assumes "inv s" "2 * length vs \<le> room s" "page_flags f" "load_all (\<lambda>v. load v f) vs s = (s', as)"
  shows "inv s' \<and> length as = length vs \<and> distinct as \<and> set as \<inter> used s = {} \<and> used s \<union> set as \<subseteq> used s' \<and>
    space s' = remaps (zip vs as) (space s)"
  using assms(1,2,4)
proof (induction vs arbitrary: s as)
  case (Cons v vs)
  obtain t a bs where l: "load v f s = (t, a)" "load_all (\<lambda>v. load v f) vs t = (s', bs)" "as = a # bs"
    using Cons.prems(3) by (auto split: prod.splits)
  have "2 \<le> room s" using Cons.prems(2) by simp
  note L = load_ok [OF Cons.prems(1) this assms(3) l(1)]
  have "2 * length vs \<le> room t" using L(2) Cons.prems(2) by simp
  from Cons.IH [OF L(1) this l(2)] L(3,4,5) show ?case by (auto simp: l(3))
qed simp

end

section \<open>The page tables keep the promises\<close>

text \<open>
  The directory is well-formed, and no free page has an entry marked present: it could become
  a table.
\<close>

definition clean_pd :: "u32 \<Rightarrow> mm_state \<Rightarrow> bool" where
  "clean_pd pd m \<longleftrightarrow> pd_ok m pd \<and> (\<forall>a \<in> free_pages m. \<forall>j < 1024. \<not> present (entry (ram m) a j))"

definition space_of :: "u32 \<Rightarrow> mm_state \<Rightarrow> addr_space" where
  "space_of pd m = (\<lambda>w. if has_addr pd w m then Some (addr_translate pd w m) else None)"

definition used_pages :: "mm_state \<Rightarrow> u32 set" where
  "used_pages m = {a. aligned a \<and> page_used m a}"

lemma room_for_table: "pd_ok m pd \<Longrightarrow> 0 < card (free_pages m) \<Longrightarrow> table_room pd i m"
  using p_malloc_free(1) by (simp add: table_room_def pd_ok_def)

lemma set_mmap_unmapped:
  assumes "clean_pd pd m" "0 < card (free_pages m)" "set_mmap pd v p f m = (m', ok)"
    "unat w div 4096 \<noteq> unat v div 4096" "\<not> has_addr pd w m"
  shows "\<not> has_addr pd w m'"
proof -
  have pd: "pd_ok m pd" "pages_ok m" using assms(1) by (simp_all add: clean_pd_def pd_ok_def)
  note S = set_mmap_ok [OF pd(1) room_for_table [OF pd(1) assms(2)] assms(3)]
  have z: "\<not> present (entry (ram m) (snd (p_malloc m)) (pti w))"
    using assms(1) p_malloc_free(4) [OF pd(2) assms(2)] by (simp add: clean_pd_def)
  show ?thesis
  proof (cases "pdi w = pdi v")
    case True
    then have "pti w \<noteq> pti v" using assms(4) same_page [of w v] by simp
    with True show ?thesis using S(4) S(6) [of w] z assms(5) by (auto simp: has_addr_walk)
  next
    case False
    then show ?thesis using S(5) [OF pdi_less, of w] S(7) [of w] assms(5) by (auto simp: has_addr_walk)
  qed
qed

lemma set_mmap_space:
  assumes "clean_pd pd m" "0 < card (free_pages m)" "aligned p" "page_flags f"
  shows "space_of pd (fst (set_mmap pd v p f m)) = remap v p (space_of pd m)"
proof (rule ext)
  fix w
  obtain m' ok where M: "set_mmap pd v p f m = (m', ok)" by fastforce
  have pd: "pd_ok m pd" using assms(1) by (simp add: clean_pd_def)
  note R = room_for_table [OF pd assms(2)]
  note S = set_mmap_ok [OF pd R M]
  show "space_of pd (fst (set_mmap pd v p f m)) w = remap v p (space_of pd m) w"
  proof (cases "unat w div 4096 = unat v div 4096")
    case True
    then have w: "pdi w = pdi v" "pti w = pti v" by (simp_all add: same_page)
    then have "pte (ram m') pd w = p OR ucast f" using S(3) by (simp add: pte_def)
    moreover have "frame (p OR ucast f) = p" "bit f 0"
      using frame_or_low [OF assms(3) flag_bits [of f]] assms(4) by (simp_all add: page_flags_def)
    ultimately show ?thesis using S(2) True
      by (simp add: M space_of_def remap_def has_addr_walk addr_translate_walk w bit_or_iff bit_unsigned_iff)
  next
    case False
    show ?thesis
    proof (cases "has_addr pd w m")
      case True
      with set_mmap_others [OF pd R M False True] False show ?thesis by (simp add: M space_of_def remap_def)
    next
      case unmapped: False
      with set_mmap_unmapped [OF assms(1,2) M False unmapped] False show ?thesis by (simp add: M space_of_def remap_def)
    qed
  qed
qed

lemma set_mmap_clean:
  assumes "clean_pd pd m" "0 < card (free_pages m)"
  shows "clean_pd pd (fst (set_mmap pd v p f m))" "card (free_pages m) \<le> Suc (card (free_pages (fst (set_mmap pd v p f m))))"
    "used_pages m \<subseteq> used_pages (fst (set_mmap pd v p f m))"
proof -
  obtain m' ok where M: "set_mmap pd v p f m = (m', ok)" by fastforce
  have pd: "pd_ok m pd" using assms(1) by (simp add: clean_pd_def)
  note S = set_mmap_ok [OF pd room_for_table [OF pd assms(2)] M]
  have fr: "free_pages m' \<subseteq> free_pages m" using S(9) by (auto simp: free_pages_def)
  have "\<not> present (entry (ram m') a j)" if "a \<in> free_pages m'" "j < 1024" for a j
  proof -
    have "a \<noteq> pd" "a \<noteq> table_of (ram m') pd (pdi v)" "aligned a"
      using that S(1,2) by (auto simp: pd_ok_def free_pages_def)
    with S(8) that fr assms(1) show ?thesis by (auto simp: clean_pd_def)
  qed
  then show "clean_pd pd (fst (set_mmap pd v p f m))" using S(1) by (simp add: M clean_pd_def)
  show "card (free_pages m) \<le> Suc (card (free_pages (fst (set_mmap pd v p f m))))"
  proof -
    have "card (free_pages m) - card {snd (p_malloc m)} \<le> card (free_pages m')" using S(9) by (intro free_pages_grow) auto
    then show ?thesis by (simp add: M)
  qed
  show "used_pages m \<subseteq> used_pages (fst (set_mmap pd v p f m))" using S(9) by (auto simp: M used_pages_def)
qed

lemma p_malloc_clean:
  assumes "clean_pd pd m" "0 < card (free_pages m)" "p_malloc m = (m1, a)"
  shows "clean_pd pd m1" "card (free_pages m) = Suc (card (free_pages m1))" "aligned a \<and> a \<notin> used_pages m"
    "used_pages m1 = insert a (used_pages m)"
proof -
  have pd: "pd_ok m pd" "pages_ok m" using assms(1) by (simp_all add: clean_pd_def pd_ok_def)
  note F = p_malloc_free [OF pd(2) assms(2), unfolded assms(3) fst_conv snd_conv]
  note P = p_malloc_ok [OF assms(3) pd(2) F(1)]
  have r: "ram m1 = ram m" using p_malloc_simps(1) [of m] by (simp add: assms(3))
  have "pd_ok m1 pd" using pd(1) P(3,4) by (auto simp: pd_ok_def r)
  then show "clean_pd pd m1" using assms(1) F(3) by (auto simp: clean_pd_def r)
  show "card (free_pages m) = Suc (card (free_pages m1))" using F(2) assms(2) by simp
  show "aligned a \<and> a \<notin> used_pages m" using P(1,2) by (simp add: used_pages_def)
  show "used_pages m1 = insert a (used_pages m)" using P(1,3) aligned_frame_eq by (auto simp: used_pages_def)
qed

lemma p_malloc_space: "p_malloc m = (m1, a) \<Longrightarrow> space_of pd m1 = space_of pd m"
  using p_malloc_simps(1) [of m] by (intro ext) (simp add: space_of_def has_addr_walk addr_translate_walk)

interpretation tables: page_loader "clean_pd pd" "\<lambda>m. card (free_pages m)" "space_of pd"
  "\<lambda>v p f m. fst (set_mmap pd v p f m)" used_pages p_malloc "load_memory pd" for pd
proof unfold_locales
  show "load_memory pd v f s = (fst (set_mmap pd v a f t), a)" if "p_malloc s = (t, a)" for s t v a f
    using that by (simp add: load_memory_def split: prod.splits)
qed (fact set_mmap_clean set_mmap_space p_malloc_clean p_malloc_space)+

section \<open>Properties\<close>

lemma blank_clean: "clean_pd 0x1000 (memory_alloc_init (blank_machine 0))"
proof -
  have "\<not> present (entry (ram (blank_machine 0)) a j)" for a j
    by (simp add: entry_def load32_def blank_machine_def) (simp add: bit_join32)
  then show ?thesis using blank_pd_ok by (simp add: clean_pd_def memory_alloc_init_ok)
qed

lemma blank_free: "5 \<le> card (free_pages (memory_alloc_init (blank_machine b)))"
proof -
  have "{0x800000, 0x801000, 0x802000, 0x803000, 0x804000} \<subseteq> free_pages (memory_alloc_init (blank_machine b))"
    by (simp add: free_pages_def aligned_def memory_alloc_init_ok blank_used)
  from card_mono [OF _ this] show ?thesis by simp
qed

text \<open>
  Claim C12: any sequence of \<open>set_mmap\<close> acts on the translation of addresses as the same
  sequence of updates acts on a map: a page has the frame of its last mapping, every other
  page is translated, or not mapped, as before. There have to be as many free pages as
  mappings (for the tables), and free pages must not look like tables with present entries.
\<close>
theorem set_mmap_refines_map:
  assumes "clean_pd pd m" "length ms \<le> card (free_pages m)" "\<forall>(v, p, f) \<in> set ms. aligned p \<and> page_flags f"
  shows "space_of pd (fold (\<lambda>(v, p, f) m. fst (set_mmap pd v p f m)) ms m) =
    remaps (map (\<lambda>(v, p, f). (v, p)) ms) (space_of pd m)"
  by (rule tables.put_all(2) [OF assms])

theorem set_mmap_refines_map_witness:
  "space_of 0x1000 (fold (\<lambda>(v, p, f) m. fst (set_mmap 0x1000 v p f m))
     [(0x80000000, 0x900000, 3), (0x80001000, 0x902000, 7), (0x80000000, 0x901000, 3)] (memory_alloc_init (blank_machine 0)))
     0x80000123 = Some 0x901123"
  using set_mmap_refines_map [OF blank_clean, of "[(0x80000000, 0x900000, 3), (0x80001000, 0x902000, 7), (0x80000000, 0x901000, 3)]"]
    blank_free [of 0]
  by (simp add: remap_def aligned_def page_flags_def)

text \<open>
  Claim C13: pages that \<open>load_memory\<close> loads one after the other get frames of their own: no two
  get the same one, none gets a frame that was in use, and afterwards each page of the list is
  translated into its frame and every page not in the list as before.
\<close>
theorem loaded_pages_isolated:
  assumes "clean_pd pd m" "2 * length vs \<le> card (free_pages m)" "page_flags f" "distinct (map (\<lambda>v. unat v div 4096) vs)"
    "load_all (\<lambda>v. load_memory pd v f) vs m = (m', as)"
  shows "distinct as \<and> length as = length vs \<and> set as \<inter> used_pages m = {} \<and> set as \<subseteq> used_pages m' \<and>
    (\<forall>i < length vs. \<forall>w. unat w div 4096 = unat (vs ! i) div 4096 \<longrightarrow> space_of pd m' w = Some (as ! i + (w AND 0xFFF))) \<and>
    (\<forall>w. unat w div 4096 \<notin> (\<lambda>v. unat v div 4096) ` set vs \<longrightarrow> space_of pd m' w = space_of pd m w)"
proof -
  note L = tables.load_all_ok [OF assms(1-3,5)]
  have "remaps (zip vs as) (space_of pd m) w = Some (as ! i + (w AND 0xFFF))"
    if "i < length vs" "unat w div 4096 = unat (vs ! i) div 4096" for i w
    by (rule remaps_at [OF assms(4) _ that]) (use L in simp)
  moreover have "remaps (zip vs as) (space_of pd m) w = space_of pd m w" if "unat w div 4096 \<notin> (\<lambda>v. unat v div 4096) ` set vs" for w
    by (rule remaps_other [OF that])
  ultimately show ?thesis using L by auto
qed

theorem loaded_pages_isolated_witness:
  "\<exists>m' a b. load_all (\<lambda>v. load_memory 0x1000 v 3) [0x80000000, 0xFFFFE000] (memory_alloc_init (blank_machine 0)) = (m', [a, b]) \<and>
     a \<noteq> b \<and> space_of 0x1000 m' 0x80000004 = Some (a + 4) \<and> space_of 0x1000 m' 0xFFFFEFFC = Some (b + 0xFFC)"
proof -
  let ?vs = "[0x80000000, 0xFFFFE000] :: u32 list" and ?m = "memory_alloc_init (blank_machine 0)"
  obtain m' as where L: "load_all (\<lambda>v. load_memory 0x1000 v 3) ?vs ?m = (m', as)" by fastforce
  have h: "2 * length ?vs \<le> card (free_pages ?m)" "page_flags 3" "distinct (map (\<lambda>v. unat v div 4096) ?vs)"
    using blank_free [of 0] by (simp_all add: page_flags_def)
  note T = loaded_pages_isolated [OF blank_clean h L]
  then obtain a b where as: "as = [a, b]" by (auto simp: length_Suc_conv)
  have "space_of 0x1000 m' 0x80000004 = Some (as ! 0 + (0x80000004 AND 0xFFF))"
    "space_of 0x1000 m' 0xFFFFEFFC = Some (as ! 1 + (0xFFFFEFFC AND 0xFFF))"
    using T by auto
  with T L show ?thesis by (simp add: as)
qed

end
