(* ===== verification/Disk.thy ===== *)
theory Disk
  imports Prelude
begin

text \<open>
  include/comm/disk.h: reading and writing sectors through the ATA ports. The controller is
  hardware and a parameter: a \<open>device\<close> says how the port instructions act on its state, and the
  locale \<open>ata_disk\<close> holds what the ATA standard promises about the two LBA48 commands. The
  driver is then shown to implement the plain \<open>disk_read\<close> on an array of sectors, and \<open>disk_write\<close> up to the flush command, which it
  sends without waiting for the controller. The file system and the swap area are modelled over these two.
\<close>

unbundle bit_operations_syntax

abbreviation SECTOR_SIZE :: nat where "SECTOR_SIZE \<equiv> 512"
abbreviation KERNEL_DEST :: u32 where "KERNEL_DEST \<equiv> 128"
abbreviation KERNEL_MAX_SIZE :: u32 where "KERNEL_MAX_SIZE \<equiv> 512"

section \<open>The disk as an array of sectors\<close>

type_synonym disk = "nat \<Rightarrow> u8 list"

definition disk_ok :: "disk \<Rightarrow> bool" where
  "disk_ok dk \<longleftrightarrow> (\<forall>i. length (dk i) = SECTOR_SIZE)"

definition disk_read :: "disk \<Rightarrow> nat \<Rightarrow> nat \<Rightarrow> u8 list" where
  "disk_read dk s n = concat (map dk [s..<s + n])"

definition disk_write :: "nat \<Rightarrow> u8 list \<Rightarrow> disk \<Rightarrow> disk" where
  "disk_write s bs dk =
     (\<lambda>i. if s \<le> i \<and> i < s + length bs div SECTOR_SIZE then slice (SECTOR_SIZE * (i - s)) SECTOR_SIZE bs else dk i)"

lemma length_disk_read: "disk_ok dk \<Longrightarrow> length (disk_read dk s n) = SECTOR_SIZE * n"
  by (induction n) (simp_all add: disk_read_def disk_ok_def)

lemma disk_read_one: "disk_read dk s (Suc 0) = dk s"
  by (simp add: disk_read_def)

lemma disk_write_one: "length bs = SECTOR_SIZE \<Longrightarrow> disk_write s bs dk = dk(s := bs)"
  by (auto simp: disk_write_def fun_eq_iff slice_def)

lemma disk_write_ok:
  assumes "disk_ok dk" "length bs = SECTOR_SIZE * n"
  shows "disk_ok (disk_write s bs dk)"
  unfolding disk_ok_def
proof
  fix i
  have "SECTOR_SIZE * (i - s) + SECTOR_SIZE \<le> length bs" if "s \<le> i" "i < s + n"
    using that mult_le_mono2 [of "Suc (i - s)" n SECTOR_SIZE] by (simp add: assms(2))
  then show "length (disk_write s bs dk i) = SECTOR_SIZE"
    using assms by (simp add: disk_write_def disk_ok_def)
qed

lemma disk_write_other:
  "i < s \<or> s + length bs div SECTOR_SIZE \<le> i \<Longrightarrow> disk_write s bs dk i = dk i"
  by (auto simp: disk_write_def)

lemma disk_read_cong: "(\<And>i. s \<le> i \<Longrightarrow> i < s + n \<Longrightarrow> dk i = dk' i) \<Longrightarrow> disk_read dk s n = disk_read dk' s n"
  unfolding disk_read_def by (rule arg_cong [where f = concat]) simp

lemma disk_read_write_disjoint:
  "s + n \<le> t \<or> t + length bs div SECTOR_SIZE \<le> s \<Longrightarrow> disk_read (disk_write t bs dk) s n = disk_read dk s n"
  by (rule disk_read_cong) (auto simp: disk_write_other)

lemma disk_read_write_same:
  assumes "length bs = SECTOR_SIZE * n"
  shows "disk_read (disk_write s bs dk) s n = bs"
proof -
  have "concat (map (\<lambda>i. slice (SECTOR_SIZE * (i - s)) SECTOR_SIZE bs) [s..<s + m]) = take (SECTOR_SIZE * m) bs" for m
  proof (induction m)
    case (Suc m)
    have "take (512 * m) bs @ take 512 (drop (512 * m) bs) = take (512 * m + 512) bs" by (simp add: take_add)
    then show ?case using Suc by (simp add: slice_def add.commute)
  qed simp
  from this [of n] have *: "concat (map (\<lambda>i. slice (SECTOR_SIZE * (i - s)) SECTOR_SIZE bs) [s..<s + n]) = bs"
    by (simp add: assms)
  have "map (disk_write s bs dk) [s..<s + n] = map (\<lambda>i. slice (SECTOR_SIZE * (i - s)) SECTOR_SIZE bs) [s..<s + n]"
    by (simp add: disk_write_def assms)
  then show ?thesis unfolding disk_read_def * by (simp only: *)
qed

lemma disk_read_nth:
  assumes "disk_ok dk" "k < SECTOR_SIZE * n"
  shows "disk_read dk s n ! k = dk (s + k div SECTOR_SIZE) ! (k mod SECTOR_SIZE)"
  using assms(2)
proof (induction n)
  case (Suc n)
  have l: "length (disk_read dk s n) = SECTOR_SIZE * n" by (rule length_disk_read [OF assms(1)])
  have e: "disk_read dk s (Suc n) = disk_read dk s n @ dk (s + n)" by (simp add: disk_read_def)
  show ?case
  proof (cases "k < SECTOR_SIZE * n")
    case True
    then show ?thesis using Suc.IH l by (simp add: e nth_append)
  next
    case False
    then obtain j where j: "k = j + n * SECTOR_SIZE" "j < SECTOR_SIZE"
      using Suc.prems by (auto simp: not_less dest!: le_Suc_ex intro: that [of "k - n * SECTOR_SIZE"])
    then show ?thesis using l by (simp add: e nth_append)
  qed
qed simp

section \<open>The driver\<close>

record 'd device =
  dev_outb :: "u16 \<Rightarrow> u8 \<Rightarrow> 'd \<Rightarrow> 'd"
  dev_outw :: "u16 \<Rightarrow> u16 \<Rightarrow> 'd \<Rightarrow> 'd"
  dev_inb :: "u16 \<Rightarrow> 'd \<Rightarrow> u8 \<times> 'd"
  dev_inw :: "u16 \<Rightarrow> 'd \<Rightarrow> u16 \<times> 'd"

abbreviation inw :: "'d device \<Rightarrow> u16 \<Rightarrow> 'd \<Rightarrow> u16 \<times> 'd" where "inw \<equiv> dev_inw"
abbreviation outw :: "'d device \<Rightarrow> u16 \<Rightarrow> u16 \<Rightarrow> 'd \<Rightarrow> 'd" where "outw \<equiv> dev_outw"

definition outbs :: "'d device \<Rightarrow> (u16 \<times> u8) list \<Rightarrow> 'd \<Rightarrow> 'd" where
  "outbs dev ps d = fold (\<lambda>(p, v). dev_outb dev p v) ps d"

text \<open>A 16-bit transfer, the byte at the lower address in the low half.\<close>

definition join16 :: "u8 \<Rightarrow> u8 \<Rightarrow> u16" where
  "join16 a b = ucast a OR push_bit 8 (ucast b)"

text \<open>The writes both commands begin with, in the order of the code; \<open>cmd\<close> is 0x24 or 0x34.\<close>

definition disk_command :: "u8 \<Rightarrow> u32 \<Rightarrow> u32 \<Rightarrow> (u16 \<times> u8) list" where
  "disk_command cmd sector sector_count =
     [(0x1F6, 0xE0),
      (0x1F2, ucast (drop_bit 8 sector_count)), (0x1F3, ucast (drop_bit 24 sector)), (0x1F4, 0), (0x1F5, 0),
      (0x1F2, ucast sector_count), (0x1F3, ucast sector), (0x1F4, ucast (drop_bit 8 sector)),
      (0x1F5, ucast (drop_bit 16 sector)),
      (0x1F7, cmd)]"

text \<open>The loop on the status register can be endless; the fuel bounds the number of polls.\<close>

primrec poll :: "nat \<Rightarrow> 'd device \<Rightarrow> 'd \<Rightarrow> 'd res" where
  "poll 0 dev d = Inl Hang"
| "poll (Suc fuel) dev d =
     (case dev_inb dev 0x1F7 d of (v, d1) \<Rightarrow> if v AND 0x88 \<noteq> 0x8 then poll fuel dev d1 else Inr d1)"

primrec read_words :: "nat \<Rightarrow> 'd device \<Rightarrow> 'd \<Rightarrow> u8 list \<times> 'd" where
  "read_words 0 dev d = ([], d)"
| "read_words (Suc n) dev d =
     (case inw dev 0x1F0 d of (w, d1) \<Rightarrow>
      case read_words n dev d1 of (bs, d2) \<Rightarrow> (ucast w # ucast (drop_bit 8 w) # bs, d2))"

primrec read_sectors :: "nat \<Rightarrow> nat \<Rightarrow> 'd device \<Rightarrow> 'd \<Rightarrow> (u8 list \<times> 'd) res" where
  "read_sectors fuel 0 dev d = Inr ([], d)"
| "read_sectors fuel (Suc n) dev d =
     rbind (poll fuel dev d) (\<lambda>d1. case read_words (SECTOR_SIZE div 2) dev d1 of (bs, d2) \<Rightarrow>
       rbind (read_sectors fuel n dev d2) (\<lambda>(cs, d3). Inr (bs @ cs, d3)))"

text \<open>The result is what the code stores from \<open>buf\<close> on.\<close>

definition read_disk :: "nat \<Rightarrow> 'd device \<Rightarrow> u32 \<Rightarrow> u32 \<Rightarrow> 'd \<Rightarrow> (u8 list \<times> 'd) res" where
  "read_disk fuel dev sector sector_count d =
     read_sectors fuel (unat sector_count) dev (outbs dev (disk_command 0x24 sector sector_count) d)"

fun write_words :: "nat \<Rightarrow> 'd device \<Rightarrow> u8 list \<Rightarrow> 'd \<Rightarrow> 'd res" where
  "write_words 0 dev bs d = Inr d"
| "write_words (Suc n) dev (a # b # bs) d =
     write_words n dev bs (outw dev 0x1F0 (join16 a b) d)"
| "write_words (Suc n) dev _ d = Inl Out_Of_Bounds"

primrec write_sectors :: "nat \<Rightarrow> nat \<Rightarrow> 'd device \<Rightarrow> u8 list \<Rightarrow> 'd \<Rightarrow> 'd res" where
  "write_sectors fuel 0 dev bs d = Inr d"
| "write_sectors fuel (Suc n) dev bs d =
     rbind (poll fuel dev d) (\<lambda>d1. rbind (write_words (SECTOR_SIZE div 2) dev bs d1)
       (write_sectors fuel n dev (drop SECTOR_SIZE bs)))"

definition write_disk :: "nat \<Rightarrow> 'd device \<Rightarrow> u32 \<Rightarrow> u32 \<Rightarrow> u8 list \<Rightarrow> 'd \<Rightarrow> 'd res" where
  "write_disk fuel dev sector sector_count buf d =
     rbind (write_sectors fuel (unat sector_count) dev buf (outbs dev (disk_command 0x34 sector sector_count) d))
       (\<lambda>d1. Inr (dev_outb dev 0x1F7 0xE7 d1))"

section \<open>What the ATA standard promises\<close>

text \<open>
  Of the two values written to each of the ports 0x1F2 to 0x1F5 the first is the high and the
  second the low half: together a 16-bit count, 0 standing for 65536, and a 48-bit address.
\<close>

definition lba48 :: "u8 \<Rightarrow> u8 \<Rightarrow> u8 \<Rightarrow> u8 \<Rightarrow> u8 \<Rightarrow> u8 \<Rightarrow> nat" where
  "lba48 b0 b1 b2 b3 b4 b5 =
     unat b0 + 2 ^ 8 * unat b1 + 2 ^ 16 * unat b2 + 2 ^ 24 * unat b3 + 2 ^ 32 * unat b4 + 2 ^ 40 * unat b5"

definition count48 :: "u8 \<Rightarrow> u8 \<Rightarrow> nat" where
  "count48 lo hi = (if unat lo + 2 ^ 8 * unat hi = 0 then 65536 else unat lo + 2 ^ 8 * unat hi)"

definition lba_command :: "u8 \<Rightarrow> u8 \<Rightarrow> u8 \<Rightarrow> u8 \<Rightarrow> u8 \<Rightarrow> u8 \<Rightarrow> u8 \<Rightarrow> u8 \<Rightarrow> u8 \<Rightarrow> (u16 \<times> u8) list" where
  "lba_command cmd c0 c1 b0 b1 b2 b3 b4 b5 =
     [(0x1F6, 0xE0), (0x1F2, c1), (0x1F3, b3), (0x1F4, b4), (0x1F5, b5),
      (0x1F2, c0), (0x1F3, b0), (0x1F4, b1), (0x1F5, b2), (0x1F7, cmd)]"

text \<open>Waiting until the busy bit is clear, which the driver never does: it only waits for data requests.\<close>

primrec wait_done :: "nat \<Rightarrow> 'd device \<Rightarrow> 'd \<Rightarrow> 'd res" where
  "wait_done 0 dev d = Inl Hang"
| "wait_done (Suc fuel) dev d =
     (case dev_inb dev 0x1F7 d of (v, d1) \<Rightarrow> if v AND 0x80 \<noteq> 0 then wait_done fuel dev d1 else Inr d1)"

text \<open>
  A controller that reports no errors and has all the sectors. \<open>idle d dk\<close>: no command is running and the disk holds
  \<open>dk\<close>; \<open>reading d dk r bs\<close>: the bytes \<open>bs\<close> are still to be fetched; \<open>writing d dk r s n bs\<close>: of the \<open>n\<close> sectors
  to be stored from sector \<open>s\<close> on, the bytes \<open>bs\<close> have arrived; in both, \<open>r\<close> says that the next word can be transferred at
  once, which the status has to confirm before every sector. \<open>storing d dk\<close>: all data have arrived, and the controller is busy
  making \<open>dk\<close> the content of the disk; while it is, the standard does not allow another command. \<open>patience\<close> polls of the status are enough.
\<close>

locale ata_disk =
  fixes dev :: "'d device" and patience :: nat
    and idle :: "'d \<Rightarrow> disk \<Rightarrow> bool"
    and reading :: "'d \<Rightarrow> disk \<Rightarrow> bool \<Rightarrow> u8 list \<Rightarrow> bool"
    and writing :: "'d \<Rightarrow> disk \<Rightarrow> bool \<Rightarrow> nat \<Rightarrow> nat \<Rightarrow> u8 list \<Rightarrow> bool"
    and storing :: "'d \<Rightarrow> disk \<Rightarrow> bool"
  assumes read_start: "idle d dk \<Longrightarrow>
      reading (outbs dev (lba_command 0x24 c0 c1 b0 b1 b2 b3 b4 b5) d) dk False
        (disk_read dk (lba48 b0 b1 b2 b3 b4 b5) (count48 c0 c1))"
    and read_ready: "reading d dk r bs \<Longrightarrow> bs \<noteq> [] \<Longrightarrow> \<exists>d'. poll patience dev d = Inr d' \<and> reading d' dk True bs"
    and read_word: "reading d dk True (a # b # bs) \<Longrightarrow>
      \<exists>d'. dev_inw dev 0x1F0 d = (join16 a b, d') \<and> reading d' dk (length bs mod SECTOR_SIZE \<noteq> 0) bs"
    and read_done: "reading d dk r [] \<Longrightarrow> idle d dk"
    and write_start: "idle d dk \<Longrightarrow>
      writing (outbs dev (lba_command 0x34 c0 c1 b0 b1 b2 b3 b4 b5) d) dk False
        (lba48 b0 b1 b2 b3 b4 b5) (count48 c0 c1) []"
    and write_ready: "writing d dk r s n bs \<Longrightarrow> length bs < SECTOR_SIZE * n \<Longrightarrow>
      \<exists>d'. poll patience dev d = Inr d' \<and> writing d' dk True s n bs"
    and write_word: "writing d dk True s n bs \<Longrightarrow> length bs < SECTOR_SIZE * n \<Longrightarrow>
      writing (dev_outw dev 0x1F0 (join16 a b) d) dk (length (bs @ [a, b]) mod SECTOR_SIZE \<noteq> 0) s n (bs @ [a, b])"
    and write_done: "writing d dk r s n bs \<Longrightarrow> length bs = SECTOR_SIZE * n \<Longrightarrow> storing d (disk_write s bs dk)"
    and stored: "storing d dk \<Longrightarrow> \<exists>d'. wait_done patience dev d = Inr d' \<and> idle d' dk"

lemma disk_command_lba:
  "disk_command cmd sector n = lba_command cmd (ucast n) (ucast (drop_bit 8 n)) (ucast sector)
     (ucast (drop_bit 8 sector)) (ucast (drop_bit 16 sector)) (ucast (drop_bit 24 sector)) 0 0"
  by (simp add: disk_command_def lba_command_def)

lemma unat_byte: "unat (ucast (drop_bit k w) :: u8) = unat w div 2 ^ k mod 256" for w :: u32
  using unsigned_less [of w, where ?'a = nat]
  by (simp only: unsigned_ucast_eq unsigned_drop_bit_eq) (simp add: take_bit_eq_mod drop_bit_eq_div)

text \<open>Every 32-bit sector number reaches the controller unchanged, and every count below 65536.\<close>

lemma lba48_sector:
  "lba48 (ucast w) (ucast (drop_bit 8 w)) (ucast (drop_bit 16 w)) (ucast (drop_bit 24 w)) 0 0 = unat w"
  for w :: u32
proof -
  have "unat w < 2 ^ 32" using unsigned_less [of w, where ?'a = nat] by simp
  moreover have "unat (ucast w :: u8) = unat w mod 256" using unat_byte [of 0 w] by simp
  moreover have "x mod 256 + 256 * (x div 256 mod 256) = x mod 65536"
    "x mod 65536 + 65536 * (x div 65536 mod 256) = x mod 16777216"
    "x mod 16777216 + 16777216 * (x div 16777216) = x" for x :: nat
    using mod_mult2_eq [of x 256 256] mod_mult2_eq [of x 65536 256] mult_div_mod_eq [of 16777216 x] by simp_all
  ultimately show ?thesis by (simp add: lba48_def unat_byte)
qed

lemma count48_sectors:
  fixes w :: u32
  assumes "0 < unat w" "unat w < 65536"
  shows "count48 (ucast w) (ucast (drop_bit 8 w)) = unat w"
proof -
  have "unat (ucast w :: u8) = unat w mod 256" using unat_byte [of 0 w] by simp
  with assms show ?thesis by (simp add: count48_def unat_byte)
qed

lemma join16_bytes [simp, byte_layout]: "ucast (join16 a b) = a" "ucast (drop_bit 8 (join16 a b)) = b"
  by (rule bit_word_eqI; auto simp: join16_def bit_simps dest: bit_imp_le_length)+

context ata_disk
begin

text \<open>A sector is read in one go once its first word is ready.\<close>

lemma read_words_ok:
  "reading d dk True (xs @ ys) \<Longrightarrow> length xs = 2 * n \<Longrightarrow> 0 < n \<Longrightarrow> 2 * n \<le> SECTOR_SIZE \<Longrightarrow> length ys mod SECTOR_SIZE = 0 \<Longrightarrow>
   \<exists>d'. read_words n dev d = (xs, d') \<and> reading d' dk False ys"
proof (induction n arbitrary: d xs)
  case (Suc n)
  then obtain a b zs where xs: "xs = a # b # zs" "length zs = 2 * n"
    by (auto simp: length_Suc_conv)
  with Suc.prems read_word [of d dk a b "zs @ ys"] obtain d1 where
    d1: "dev_inw dev 0x1F0 d = (join16 a b, d1)" "reading d1 dk (length (zs @ ys) mod SECTOR_SIZE \<noteq> 0) (zs @ ys)" by auto
  have "length (zs @ ys) mod SECTOR_SIZE = 2 * n"
    using Suc.prems(4,5) xs(2) mod_add_right_eq [of "2 * n" "length ys" 512] by simp
  then show ?case
    using Suc.IH [of d1 zs] Suc.prems(4,5) d1 xs by (cases "n = 0") auto
qed simp

lemma read_sectors_ok:
  "reading d dk r xs \<Longrightarrow> length xs = SECTOR_SIZE * n \<Longrightarrow>
   \<exists>d' r. read_sectors patience n dev d = Inr (xs, d') \<and> reading d' dk r []"
proof (induction n arbitrary: d r xs)
  case (Suc n)
  then obtain d1 where d1: "poll patience dev d = Inr d1" "reading d1 dk True (take 512 xs @ drop 512 xs)"
    using read_ready [of d dk r xs] by fastforce
  from read_words_ok [OF d1(2), of 256] Suc.prems(2) obtain d2 where
    d2: "read_words 256 dev d1 = (take 512 xs, d2)" "reading d2 dk False (drop 512 xs)" by auto
  with Suc.IH [of d2 False "drop 512 xs"] Suc.prems(2) d1(1) show ?case by auto
qed auto

lemma driver_read:
  assumes "idle d dk" "disk_ok dk" "0 < unat n" "unat n < 65536"
  shows "\<exists>d'. read_disk patience dev sector n d = Inr (disk_read dk (unat sector) (unat n), d') \<and> idle d' dk"
  using read_start [OF assms(1)] read_sectors_ok length_disk_read [OF assms(2)] read_done
  unfolding read_disk_def disk_command_lba lba48_sector [symmetric, of sector] count48_sectors [OF assms(3,4), symmetric]
  by metis

lemma write_words_ok:
  "writing d dk True s m acc \<Longrightarrow> length acc mod SECTOR_SIZE + 2 * n = SECTOR_SIZE \<Longrightarrow> 0 < n \<Longrightarrow>
   length acc + 2 * n \<le> SECTOR_SIZE * m \<Longrightarrow> 2 * n \<le> length bs \<Longrightarrow>
   \<exists>d'. write_words n dev bs d = Inr d' \<and> writing d' dk False s m (acc @ take (2 * n) bs)"
proof (induction n arbitrary: d acc bs)
  case (Suc n)
  from Suc.prems(5) obtain a b zs where bs: "bs = a # b # zs" "2 * n \<le> length zs"
    by (cases bs; cases "tl bs") auto
  have w: "writing (dev_outw dev 0x1F0 (join16 a b) d) dk (length (acc @ [a, b]) mod SECTOR_SIZE \<noteq> 0) s m (acc @ [a, b])"
    by (rule write_word [OF Suc.prems(1)]) (use Suc.prems(4) in simp)
  have "length (acc @ [a, b]) mod SECTOR_SIZE = (length acc mod SECTOR_SIZE + 2) mod SECTOR_SIZE"
    using mod_add_left_eq [of "length acc" SECTOR_SIZE "length [a, b]", symmetric] by (simp only: length_append) simp
  moreover have "length acc mod SECTOR_SIZE + 2 = SECTOR_SIZE - 2 * n" "2 * n < SECTOR_SIZE" using Suc.prems(2) by simp_all
  ultimately have l: "length (acc @ [a, b]) mod SECTOR_SIZE = (if n = 0 then 0 else length acc mod SECTOR_SIZE + 2)"
    by (cases "n = 0") simp_all
  show ?case
  proof (cases "n = 0")
    case True
    then show ?thesis using w l bs(1) by simp
  next
    case False
    then show ?thesis using Suc.IH [of "dev_outw dev 0x1F0 (join16 a b) d" "acc @ [a, b]" zs] w l bs Suc.prems(2,4) by simp
  qed
qed simp

lemma write_sectors_ok:
  "writing d dk r s m acc \<Longrightarrow> length acc mod SECTOR_SIZE = 0 \<Longrightarrow> length acc + SECTOR_SIZE * n \<le> SECTOR_SIZE * m \<Longrightarrow>
   SECTOR_SIZE * n \<le> length bs \<Longrightarrow>
   \<exists>d' r. write_sectors patience n dev bs d = Inr d' \<and> writing d' dk r s m (acc @ take (SECTOR_SIZE * n) bs)"
proof (induction n arbitrary: d r acc bs)
  case (Suc n)
  then obtain d1 where d1: "poll patience dev d = Inr d1" "writing d1 dk True s m acc"
    using write_ready [of d dk r s m acc] by auto
  from write_words_ok [OF d1(2), of 256 bs] Suc.prems obtain d2 where
    d2: "write_words 256 dev bs d1 = Inr d2" "writing d2 dk False s m (acc @ take 512 bs)" by auto
  have l: "length (take 512 bs) = 512" using Suc.prems(4) by simp
  have "length (acc @ take 512 bs) mod 512 = 0" "length (acc @ take 512 bs) + 512 * n \<le> 512 * m" "512 * n \<le> length (drop 512 bs)"
    using Suc.prems(2-4) l by simp_all
  from Suc.IH [OF d2(2) this] obtain d3 r3 where
    "write_sectors patience n dev (drop 512 bs) d2 = Inr d3"
    "writing d3 dk r3 s m ((acc @ take 512 bs) @ take (512 * n) (drop 512 bs))" by auto
  with d1(1) d2(1) show ?case by (auto simp: take_add)
qed auto

lemma driver_write:
  assumes "idle d dk" "0 < unat n" "unat n < 65536" "SECTOR_SIZE * unat n \<le> length bs"
  shows "\<exists>d1. write_disk patience dev sector n bs d = Inr (dev_outb dev 0x1F7 0xE7 d1) \<and>
    storing d1 (disk_write (unat sector) (take (SECTOR_SIZE * unat n) bs) dk)"
proof -
  let ?d0 = "outbs dev (disk_command 0x34 sector n) d"
  have "writing ?d0 dk False (unat sector) (unat n) []"
    using write_start [OF assms(1)]
    unfolding disk_command_lba lba48_sector [symmetric, of sector] count48_sectors [OF assms(2,3), symmetric] by simp
  from write_sectors_ok [OF this _ _ assms(4)] obtain d1 r where d1:
    "write_sectors patience (unat n) dev bs ?d0 = Inr d1"
    "writing d1 dk r (unat sector) (unat n) (take (SECTOR_SIZE * unat n) bs)" by auto
  with write_done [OF d1(2)] assms(4) show ?thesis by (intro exI [of _ d1]) (simp add: write_disk_def)
qed

end

section \<open>A controller\<close>

text \<open>
  A controller that keeps the promises, as the instance of the locale. It is busy for two polls after every command and
  every sector, transfers data only when it has said so, and stores the sectors when all have arrived.
\<close>

datatype ata_mode = A_Idle | A_Read "u8 list" | A_Write nat nat "u8 list" | A_Store nat "u8 list"

record ata =
  a_disk :: disk
  a_mode :: ata_mode
  a_busy :: nat
  a_low :: "u16 \<Rightarrow> u8"
  a_high :: "u16 \<Rightarrow> u8"

definition ata_address :: "ata \<Rightarrow> nat" where
  "ata_address d = lba48 (a_low d 0x1F3) (a_low d 0x1F4) (a_low d 0x1F5) (a_high d 0x1F3) (a_high d 0x1F4) (a_high d 0x1F5)"

definition pause :: "nat \<Rightarrow> nat" where
  "pause n = (if n mod SECTOR_SIZE = 0 then 2 else 0)"

definition ata_outb :: "u16 \<Rightarrow> u8 \<Rightarrow> ata \<Rightarrow> ata" where
  "ata_outb p v d =
     (if p = 0x1F7 then
        (if v = 0x24 then d\<lparr>a_mode := A_Read (disk_read (a_disk d) (ata_address d) (count48 (a_low d 0x1F2) (a_high d 0x1F2))), a_busy := 2\<rparr>
         else if v = 0x34 then d\<lparr>a_mode := A_Write (ata_address d) (count48 (a_low d 0x1F2) (a_high d 0x1F2)) [], a_busy := 2\<rparr>
         else d)
      else d\<lparr>a_high := (a_high d)(p := a_low d p), a_low := (a_low d)(p := v)\<rparr>)"

definition ata_outw :: "u16 \<Rightarrow> u16 \<Rightarrow> ata \<Rightarrow> ata" where
  "ata_outw p w d =
     (case a_mode d of
        A_Write s n bs \<Rightarrow> if a_busy d \<noteq> 0 then d else
          (let cs = bs @ [ucast w, ucast (drop_bit 8 w)] in
           d\<lparr>a_mode := (if length cs = SECTOR_SIZE * n then A_Store s cs else A_Write s n cs), a_busy := pause (length cs)\<rparr>)
      | _ \<Rightarrow> d)"

definition ata_inb :: "u16 \<Rightarrow> ata \<Rightarrow> u8 \<times> ata" where
  "ata_inb p d =
     (if a_busy d \<noteq> 0 then (0x80, d\<lparr>a_busy := a_busy d - 1\<rparr>)
      else case a_mode d of
        A_Idle \<Rightarrow> (0x50, d)
      | A_Store s bs \<Rightarrow> (0x50, d\<lparr>a_disk := disk_write s bs (a_disk d), a_mode := A_Idle\<rparr>)
      | _ \<Rightarrow> (0x58, d))"

definition ata_inw :: "u16 \<Rightarrow> ata \<Rightarrow> u16 \<times> ata" where
  "ata_inw p d =
     (case a_mode d of
        A_Read (a # b # bs) \<Rightarrow> if a_busy d \<noteq> 0 then (0, d) else (join16 a b, d\<lparr>a_mode := A_Read bs, a_busy := pause (length bs)\<rparr>)
      | _ \<Rightarrow> (0, d))"

definition ata_device :: "ata device" where
  "ata_device = \<lparr>dev_outb = ata_outb, dev_outw = ata_outw, dev_inb = ata_inb, dev_inw = ata_inw\<rparr>"

definition ata_idle :: "ata \<Rightarrow> disk \<Rightarrow> bool" where
  "ata_idle d dk \<longleftrightarrow> a_disk d = dk \<and> a_mode d \<in> {A_Idle, A_Read []}"

definition ata_reading :: "ata \<Rightarrow> disk \<Rightarrow> bool \<Rightarrow> u8 list \<Rightarrow> bool" where
  "ata_reading d dk r bs \<longleftrightarrow> a_disk d = dk \<and> a_mode d = A_Read bs \<and> a_busy d \<le> (if r then 0 else 2)"

definition ata_writing :: "ata \<Rightarrow> disk \<Rightarrow> bool \<Rightarrow> nat \<Rightarrow> nat \<Rightarrow> u8 list \<Rightarrow> bool" where
  "ata_writing d dk r s n bs \<longleftrightarrow> a_disk d = dk \<and> a_busy d \<le> (if r then 0 else 2) \<and>
     a_mode d = (if length bs = SECTOR_SIZE * n then A_Store s bs else A_Write s n bs)"

definition ata_storing :: "ata \<Rightarrow> disk \<Rightarrow> bool" where
  "ata_storing d dk \<longleftrightarrow> a_busy d \<le> 2 \<and> (\<exists>s bs. a_mode d = A_Store s bs \<and> dk = disk_write s bs (a_disk d))"

lemma ata_command:
  "outbs ata_device (lba_command cmd c0 c1 b0 b1 b2 b3 b4 b5) d =
   ata_outb 0x1F7 cmd (d\<lparr>a_high := (a_high d)(0x1F6 := a_low d 0x1F6, 0x1F2 := c1, 0x1F3 := b3, 0x1F4 := b4, 0x1F5 := b5),
     a_low := (a_low d)(0x1F6 := 0xE0, 0x1F2 := c0, 0x1F3 := b0, 0x1F4 := b1, 0x1F5 := b2)\<rparr>)"
  by (simp add: outbs_def lba_command_def ata_device_def ata_outb_def fun_upd_twist)

lemma ata_poll:
  assumes "a_busy d \<le> 2"
  shows "a_mode d = A_Read bs \<or> a_mode d = A_Write s n bs \<Longrightarrow> poll 3 ata_device d = Inr (d\<lparr>a_busy := 0\<rparr>)"
    and "a_mode d = A_Store s bs \<Longrightarrow> wait_done 3 ata_device d = Inr (d\<lparr>a_busy := 0, a_disk := disk_write s bs (a_disk d), a_mode := A_Idle\<rparr>)"
proof -
  have p: "poll (3 + 0) ata_device d = poll (Suc (Suc (Suc 0))) ata_device d"
    "wait_done (3 + 0) ata_device d = wait_done (Suc (Suc (Suc 0))) ata_device d" by (simp_all only: numeral_3_eq_3 add_0_right)
  consider "a_busy d = 0" "d\<lparr>a_busy := 0\<rparr> = d" | "a_busy d = 1" | "a_busy d = 2" using assms by fastforce
  then show "a_mode d = A_Read bs \<or> a_mode d = A_Write s n bs \<Longrightarrow> poll 3 ata_device d = Inr (d\<lparr>a_busy := 0\<rparr>)"
    "a_mode d = A_Store s bs \<Longrightarrow> wait_done 3 ata_device d = Inr (d\<lparr>a_busy := 0, a_disk := disk_write s bs (a_disk d), a_mode := A_Idle\<rparr>)"
    using p by (cases; auto simp: ata_device_def ata_inb_def)+
qed

lemma count48_pos: "0 < count48 lo hi"
  by (simp add: count48_def)

interpretation ata: ata_disk ata_device 3 ata_idle ata_reading ata_writing ata_storing
proof unfold_locales
  fix d dk c0 c1 b0 b1 b2 b3 b4 b5
  assume "ata_idle d dk"
  then show "ata_reading (outbs ata_device (lba_command 0x24 c0 c1 b0 b1 b2 b3 b4 b5) d) dk False
      (disk_read dk (lba48 b0 b1 b2 b3 b4 b5) (count48 c0 c1))"
    and "ata_writing (outbs ata_device (lba_command 0x34 c0 c1 b0 b1 b2 b3 b4 b5) d) dk False
      (lba48 b0 b1 b2 b3 b4 b5) (count48 c0 c1) []"
    using count48_pos [of c0 c1] unfolding ata_command
    by (simp_all add: ata_idle_def ata_reading_def ata_writing_def ata_outb_def ata_address_def)
next
  fix d dk r bs assume "ata_reading d dk r bs"
  then show "\<exists>d'. poll 3 ata_device d = Inr d' \<and> ata_reading d' dk True bs"
    using ata_poll(1) [of d bs] by (auto simp: ata_reading_def split: if_splits)
next
  fix d dk r s n bs assume "ata_writing d dk r s n bs" "length bs < SECTOR_SIZE * n"
  then show "\<exists>d'. poll 3 ata_device d = Inr d' \<and> ata_writing d' dk True s n bs"
    using ata_poll(1) [of d bs s n] by (auto simp: ata_writing_def split: if_splits)
next
  fix d dk assume "ata_storing d dk"
  then obtain s bs where S: "a_busy d \<le> 2" "a_mode d = A_Store s bs" "dk = disk_write s bs (a_disk d)"
    by (auto simp: ata_storing_def)
  then show "\<exists>d'. wait_done 3 ata_device d = Inr d' \<and> ata_idle d' dk"
    using ata_poll(2) [OF S(1,2)] by (simp add: ata_idle_def)
next
  fix d dk a b bs assume "ata_reading d dk True (a # b # bs)"
  then show "\<exists>d'. dev_inw ata_device 0x1F0 d = (join16 a b, d') \<and> ata_reading d' dk (length bs mod SECTOR_SIZE \<noteq> 0) bs"
    by (simp add: ata_reading_def ata_device_def ata_inw_def pause_def)
next
  fix d dk s n bs a b assume "ata_writing d dk True s n bs" "length bs < SECTOR_SIZE * n"
  then show "ata_writing (dev_outw ata_device 0x1F0 (join16 a b) d) dk (length (bs @ [a, b]) mod SECTOR_SIZE \<noteq> 0) s n (bs @ [a, b])"
    by (simp add: ata_writing_def ata_device_def ata_outw_def pause_def Let_def)
next
  fix d dk r assume "ata_reading d dk r []"
  then show "ata_idle d dk" by (simp add: ata_reading_def ata_idle_def)
next
  fix d dk r s n bs assume "ata_writing d dk r s n bs" "length bs = SECTOR_SIZE * n"
  then show "ata_storing d (disk_write s bs dk)" by (auto simp: ata_writing_def ata_storing_def split: if_splits)
qed

section \<open>Properties\<close>

text \<open>
  Claim C25: the driver implements an array of sectors: with every controller that behaves as the
  ATA standard says, \<open>read_disk\<close> ends and fetches exactly the sectors asked for, for every
  32-bit sector number, and leaves the disk unchanged. (The controller reports no errors and has all the sectors.)
\<close>
theorem read_disk_correct:
  assumes "ata_disk dev patience idle reading writing storing" "idle d dk" "disk_ok dk" "0 < unat n" "unat n < 65536"
  shows "\<exists>d'. read_disk patience dev sector n d = Inr (disk_read dk (unat sector) (unat n), d') \<and> idle d' dk"
  using assms(2-5) by (rule ata_disk.driver_read [OF assms(1)])

definition demo_ata :: ata where
  "demo_ata = \<lparr>a_disk = (\<lambda>i. replicate 512 (of_nat i)), a_mode = A_Idle, a_busy = 0, a_low = (\<lambda>_. 0), a_high = (\<lambda>_. 0)\<rparr>"

lemma demo_ata_idle: "ata_idle demo_ata (\<lambda>i. replicate 512 (of_nat i))" "disk_ok (\<lambda>i. replicate 512 (of_nat i))"
  by (simp_all add: demo_ata_def ata_idle_def disk_ok_def)

theorem read_disk_correct_witness:
  "\<exists>d'. read_disk 3 ata_device 1027 1 demo_ata = Inr (replicate 512 3, d')"
proof -
  from read_disk_correct [OF ata.ata_disk_axioms demo_ata_idle, of 1 1027] obtain d' where
    "read_disk 3 ata_device 1027 1 demo_ata = Inr (disk_read (\<lambda>i. replicate 512 (of_nat i)) 1027 1, d')" by auto
  then show ?thesis by (simp add: disk_read_def)
qed

text \<open>
  Claim C26: \<open>write_disk\<close> hands over the buffer to exactly the sectors asked for, for every controller that behaves as the
  ATA standard says, and then sends the flush command too early: when it does, all data have arrived and the controller is
  still storing them. Had the driver waited for the busy bit to clear at this point, as it has to before another command, the
  disk would hold the buffer in these sectors and be unchanged elsewhere; what a controller makes of a command while it is busy is not specified.
\<close>
theorem write_disk_correct:
  assumes "ata_disk dev patience idle reading writing storing" "idle d dk" "0 < unat n" "unat n < 65536" "512 * unat n = length bs"
  shows "\<exists>d1 dk'. write_disk patience dev sector n bs d = Inr (dev_outb dev 0x1F7 0xE7 d1) \<and> storing d1 dk' \<and>
    (\<exists>d2. wait_done patience dev d1 = Inr d2 \<and> idle d2 dk') \<and>
    disk_read dk' (unat sector) (unat n) = bs \<and> (\<forall>i. i < unat sector \<or> unat sector + unat n \<le> i \<longrightarrow> dk' i = dk i)"
proof -
  from ata_disk.driver_write [OF assms(1-4), of bs sector] assms(5) obtain d1 where
    d1: "write_disk patience dev sector n bs d = Inr (dev_outb dev 0x1F7 0xE7 d1)" "storing d1 (disk_write (unat sector) bs dk)" by auto
  have "length bs div 512 = unat n" using assms(5) by simp
  then show ?thesis
    using d1 ata_disk.stored [OF assms(1) d1(2)] disk_read_write_same [of bs "unat n" "unat sector" dk] assms(5)
    by (intro exI [of _ d1] exI [of _ "disk_write (unat sector) bs dk"]) (auto simp: disk_write_other)
qed

theorem write_disk_correct_witness:
  "\<exists>d1 d2 dk'. write_disk 3 ata_device 1024 1 (replicate 512 7) demo_ata = Inr (dev_outb ata_device 0x1F7 0xE7 d1) \<and>
     wait_done 3 ata_device d1 = Inr d2 \<and> ata_idle d2 dk' \<and> dk' 1024 = replicate 512 7 \<and> dk' 1025 = replicate 512 1"
proof -
  from write_disk_correct [OF ata.ata_disk_axioms demo_ata_idle(1), of 1 "replicate 512 7" 1024] obtain d1 d2 dk' where
    k: "write_disk 3 ata_device 1024 1 (replicate 512 7) demo_ata = Inr (dev_outb ata_device 0x1F7 0xE7 d1)"
      "wait_done 3 ata_device d1 = Inr d2" "ata_idle d2 dk'"
      "disk_read dk' 1024 1 = replicate 512 7" "\<forall>i. i < 1024 \<or> 1025 \<le> i \<longrightarrow> dk' i = replicate 512 (of_nat i)" by auto
  then have "dk' 1024 = replicate 512 7" "dk' 1025 = replicate 512 1" by (simp_all add: disk_read_def)
  with k(1-3) show ?thesis by blast
qed

end
