(* ===== verification/C_String.thy ===== *)
theory C_String
  imports Prelude "HOL-Library.Signed_Division"
begin

text \<open>
  kernel/lib/string.c. A pointer into a buffer is the list of the bytes from there to the
  end of the object; reading or writing past the end is the fault \<open>Out_Of_Bounds\<close>. The
  destination buffers are returned updated. \<open>strcpy\<close>, \<open>memcpy\<close> and \<open>memset\<close> are declared
  with a result but return none, and no caller uses it.
\<close>

section \<open>Strings and memory\<close>

fun strlen :: "u8 list \<Rightarrow> nat res" where
  "strlen [] = Inl Out_Of_Bounds"
| "strlen (c # cs) = (if c \<noteq> 0 then rbind (strlen cs) (\<lambda>i. Inr (Suc i)) else Inr 0)"

text \<open>The copying loop of \<open>memcpy\<close> (and of \<open>strcpy\<close>), from index \<open>i\<close> up to \<open>n\<close>.\<close>

function copy_loop :: "u8 list \<Rightarrow> u8 list \<Rightarrow> nat \<Rightarrow> nat \<Rightarrow> u8 list res" where
  "copy_loop dest src i n =
     (if i < n then
        if i < length src \<and> i < length dest
        then copy_loop (dest[i := src ! i]) src (i + 1) n
        else Inl Out_Of_Bounds
      else Inr dest)"
  by pat_completeness auto
termination
  by (relation "measure (\<lambda>(dest, src, i, n). n - i)") auto

declare copy_loop.simps [simp del]

definition memcpy :: "u8 list \<Rightarrow> u8 list \<Rightarrow> nat \<Rightarrow> u8 list res" where
  "memcpy dest source n = copy_loop dest source 0 n"

definition strcpy :: "u8 list \<Rightarrow> u8 list \<Rightarrow> u8 list res" where
  "strcpy dest src = rbind (strlen src) (\<lambda>len. copy_loop dest src 0 (len + 1))"

fun differ_upto :: "u8 list \<Rightarrow> u8 list \<Rightarrow> nat \<Rightarrow> nat \<Rightarrow> int" where
  "differ_upto s1 s2 i 0 = 0"
| "differ_upto s1 s2 i (Suc k) = (if s1 ! i \<noteq> s2 ! i then 1 else differ_upto s1 s2 (i + 1) k)"

definition strcmp :: "u8 list \<Rightarrow> u8 list \<Rightarrow> int res" where
  "strcmp str1 str2 =
     rbind (strlen str1) (\<lambda>n1. rbind (strlen str2) (\<lambda>n2.
       if n1 \<noteq> n2 then Inr 1 else Inr (differ_upto str1 str2 0 n1)))"

function set_loop :: "u8 list \<Rightarrow> u8 \<Rightarrow> nat \<Rightarrow> nat \<Rightarrow> u8 list res" where
  "set_loop s c i n =
     (if i < n then if i < length s then set_loop (s[i := c]) c (i + 1) n else Inl Out_Of_Bounds
      else Inr s)"
  by pat_completeness auto
termination
  by (relation "measure (\<lambda>(s, c, i, n). n - i)") auto

declare set_loop.simps [simp del]

definition memset :: "u8 list \<Rightarrow> u32 \<Rightarrow> nat \<Rightarrow> u8 list res" where
  "memset s c n = set_loop s (ucast c) 0 n"

text \<open>The search for the last slash below index \<open>n\<close>, \<open>-1\<close> if there is none.\<close>

fun last_slash :: "u8 list \<Rightarrow> nat \<Rightarrow> int" where
  "last_slash path 0 = -1"
| "last_slash path (Suc i) = (if path ! i = 47 then int i else last_slash path i)"

definition get_parent_dir_name :: "u8 list \<Rightarrow> u8 list \<Rightarrow> u8 list res" where
  "get_parent_dir_name path parent_dir_name =
     rbind (strlen path) (\<lambda>len.
       if len = 0 then buf_write parent_dir_name 0 [0]
       else let new_len = len - 1; pos = last_slash path new_len in
         if pos = -1 then buf_write parent_dir_name 0 [0]
         else rbind (memcpy parent_dir_name path (nat pos + 1)) (\<lambda>out.
           buf_write out (nat pos + 1) [0]))"

section \<open>Numbers\<close>

function reverse_loop :: "u8 list \<Rightarrow> int \<Rightarrow> int \<Rightarrow> u8 list" where
  "reverse_loop str start en =
     (if start < en
      then reverse_loop (str[nat start := str ! nat en, nat en := str ! nat start]) (start + 1) (en - 1)
      else str)"
  by pat_completeness auto
termination
  by (relation "measure (\<lambda>(str, start, en). nat (en - start))") auto

declare reverse_loop.simps [simp del]

definition reverse_buf :: "u8 list \<Rightarrow> nat \<Rightarrow> u8 list" where
  "reverse_buf str len = reverse_loop str 0 (int len - 1)"

definition digit_char :: "int \<Rightarrow> u8" where
  "digit_char r = (if r > 9 then of_int (r - 10 + 97) else of_int (r + 48))"

text \<open>
  The digit loop of \<open>itoa\<close>. \<open>buffer\<close> has 32 bytes; the list \<open>buf\<close> is its part written so
  far, so \<open>i\<close> is its length.
\<close>

function itoa_digits :: "int \<Rightarrow> int \<Rightarrow> u8 list \<Rightarrow> u8 list res" where
  "itoa_digits num radix buf =
     (if num \<noteq> 0 then
        if radix = 0 then Inl Div_Error
        else if length buf < 32
        then itoa_digits (num sdiv radix) radix (buf @ [digit_char (num smod radix)])
        else Inl Out_Of_Bounds
      else Inr buf)"
  by pat_completeness auto
termination
  by (relation "measure (\<lambda>(num, radix, buf). 32 - length buf)") auto

declare itoa_digits.simps [simp del]

definition push_buf :: "u8 \<Rightarrow> u8 list \<Rightarrow> u8 list res" where
  "push_buf b buf = (if length buf < 32 then Inr (buf @ [b]) else Inl Out_Of_Bounds)"

text \<open>\<open>-num\<close> on 32 bits: the least integer is its own negation.\<close>

definition neg32 :: "int \<Rightarrow> int" where
  "neg32 num = sint (of_int (- num) :: u32)"

definition itoa :: "int \<Rightarrow> u8 \<Rightarrow> u8 list \<Rightarrow> u8 list res" where
  "itoa num radix text =
     (if num = 0 then buf_write text 0 [48, 0]
      else rbind (itoa_digits (if num < 0 then neg32 num else num) (int (unat radix)) []) (\<lambda>buf.
        rbind (if num < 0 then push_buf 45 buf else Inr buf) (\<lambda>buf.
        rbind (push_buf 0 buf) (\<lambda>buf0.
          buf_write text 0 (take (length buf) (reverse_buf buf0 (length buf)) @ [0])))))"

text \<open>\<open>get_itoa\<close> converts its unsigned argument to the signed parameter of \<open>itoa\<close>.\<close>

definition get_itoa :: "u32 \<Rightarrow> u8 \<Rightarrow> u8 list \<Rightarrow> u8 list res" where
  "get_itoa num radix text = itoa (sint num) radix text"

section \<open>What they compute\<close>

text \<open>The string a buffer holds, and the condition that it holds one at all.\<close>

definition c_str :: "u8 list \<Rightarrow> u8 list" where
  "c_str buf = takeWhile (\<lambda>c. c \<noteq> 0) buf"

lemma strlen_eq: "strlen buf = (if 0 \<in> set buf then Inr (length (c_str buf)) else Inl Out_Of_Bounds)"
  by (induction buf) (auto simp: c_str_def)

lemma c_str_append [simp]: "0 \<notin> set s \<Longrightarrow> c_str (s @ 0 # t) = s"
  by (simp add: c_str_def takeWhile_tail) (metis (full_types) takeWhile_eq_all_conv)

lemma length_c_str_less: "0 \<in> set buf \<Longrightarrow> length (c_str buf) < length buf"
  by (induction buf) (auto simp: c_str_def)

lemma c_str_nth_0: "0 \<in> set buf \<Longrightarrow> buf ! length (c_str buf) = 0"
  by (induction buf) (auto simp: c_str_def)

lemma c_str_take: "c_str buf = take (length (c_str buf)) buf"
  unfolding c_str_def by (rule takeWhile_eq_take)

lemma copy_loop_ok:
  "i \<le> n \<Longrightarrow> n \<le> length src \<Longrightarrow> n \<le> length dest \<Longrightarrow>
   copy_loop dest src i n = Inr (take i dest @ take (n - i) (drop i src) @ drop n dest)"
proof (induction dest src i n rule: copy_loop.induct)
  case (1 dest src i n)
  show ?case
  proof (cases "i < n")
    case True
    have "copy_loop (dest[i := src ! i]) src (i + 1) n = Inr (take (i + 1) (dest[i := src ! i]) @
        take (n - (i + 1)) (drop (i + 1) src) @ drop n (dest[i := src ! i]))"
      using "1.IH" "1.prems" True by simp
    moreover have "take (n - i) (drop i src) = src ! i # take (n - (i + 1)) (drop (i + 1) src)"
      using True "1.prems" by (simp add: Cons_nth_drop_Suc [symmetric] take_Cons' del: Cons_nth_drop_Suc)
    ultimately show ?thesis
      using True "1.prems" by (subst copy_loop.simps) (simp add: take_Suc_conv_app_nth)
  next
    case False
    with "1.prems" show ?thesis by (subst copy_loop.simps) simp
  qed
qed

lemma copy_loop_fault:
  "i \<le> n \<Longrightarrow> \<not> (n \<le> length src \<and> n \<le> length dest) \<Longrightarrow> i \<le> length src \<Longrightarrow> i \<le> length dest \<Longrightarrow>
   copy_loop dest src i n = Inl Out_Of_Bounds"
proof (induction dest src i n rule: copy_loop.induct)
  case (1 dest src i n)
  then show ?case by (subst copy_loop.simps) auto
qed

lemma memcpy_ok:
  "memcpy dest src n = (if n \<le> length src \<and> n \<le> length dest
     then Inr (take n src @ drop n dest) else Inl Out_Of_Bounds)"
  by (simp add: memcpy_def copy_loop_ok copy_loop_fault)

lemma strcpy_ok:
  assumes "0 \<notin> set s"
  shows "strcpy dest (s @ 0 # t) =
    (if length s < length dest then Inr (s @ 0 # drop (Suc (length s)) dest) else Inl Out_Of_Bounds)"
  using assms by (simp add: strcpy_def strlen_eq copy_loop_ok copy_loop_fault)

lemma differ_upto_0_iff: "differ_upto s1 s2 i k = 0 \<longleftrightarrow> (\<forall>j. i \<le> j \<and> j < i + k \<longrightarrow> s1 ! j = s2 ! j)"
proof (induction k arbitrary: i)
  case (Suc k)
  have "(\<forall>j. i \<le> j \<and> j < i + Suc k \<longrightarrow> s1 ! j = s2 ! j) \<longleftrightarrow>
      s1 ! i = s2 ! i \<and> (\<forall>j. Suc i \<le> j \<and> j < Suc i + k \<longrightarrow> s1 ! j = s2 ! j)"
    by (metis Suc_leD Suc_leI add_Suc add_Suc_right le_neq_implies_less le_refl less_add_Suc1)
  then show ?case by (simp add: Suc.IH)
qed auto

lemma differ_upto_01: "differ_upto s1 s2 i k \<in> {0, 1}"
  by (induction k arbitrary: i) auto

lemma strcmp_ok:
  assumes "0 \<in> set b1" "0 \<in> set b2"
  shows "strcmp b1 b2 = Inr (if c_str b1 = c_str b2 then 0 else 1)"
proof -
  let ?n = "length (c_str b1)"
  have "differ_upto b1 b2 0 ?n = 0 \<longleftrightarrow> c_str b1 = c_str b2" if len: "?n = length (c_str b2)"
  proof -
    have "c_str b1 = take ?n b1" "c_str b2 = take ?n b2"
      using c_str_take [of b1] c_str_take [of b2] len by simp_all
    moreover have "?n < length b1" "?n < length b2"
      using length_c_str_less [OF assms(1)] length_c_str_less [OF assms(2)] len by simp_all
    ultimately show ?thesis
      by (auto simp: differ_upto_0_iff list_eq_iff_nth_eq)
  qed
  moreover have "differ_upto b1 b2 0 ?n \<in> {0, 1}" by (rule differ_upto_01)
  ultimately show ?thesis
    using assms by (auto simp: strcmp_def strlen_eq)
qed

section \<open>Reversal\<close>

lemma reverse_loop_ok:
  "length a = nat i \<Longrightarrow> 0 \<le> i \<Longrightarrow> reverse_loop (a @ xs @ b) i (i + int (length xs) - 1) = a @ rev xs @ b"
proof (induction "length xs" arbitrary: a xs b i rule: less_induct)
  case less
  show ?case
  proof (cases "length xs \<le> 1")
    case True
    then have "rev xs = xs" by (cases xs) (auto simp: le_Suc_eq)
    with True show ?thesis by (subst reverse_loop.simps) auto
  next
    case False
    then obtain x ys y where xs: "xs = x # ys @ [y]"
      by (cases xs; cases "tl xs" rule: rev_cases) auto
    have n: "nat (i + 1 + int (length ys)) = Suc (length a + length ys)" "nat i = length a"
      using less.prems by (simp_all add: nat_add_distrib)
    have swap: "(a @ xs @ b)[nat i := (a @ xs @ b) ! nat (i + 1 + int (length ys)),
        nat (i + 1 + int (length ys)) := (a @ xs @ b) ! nat i] = (a @ [y]) @ ys @ (x # b)"
      by (simp add: n xs nth_append list_update_append)
    have "reverse_loop ((a @ [y]) @ ys @ (x # b)) (i + 1) ((i + 1) + int (length ys) - 1)
        = (a @ [y]) @ rev ys @ (x # b)"
      using less.prems by (intro less.hyps) (simp_all add: xs)
    then show ?thesis using swap
      by (subst reverse_loop.simps) (simp add: xs algebra_simps)
  qed
qed

lemma reverse_buf_ok: "n \<le> length str \<Longrightarrow> reverse_buf str n = rev (take n str) @ drop n str"
  using reverse_loop_ok [of "[]" 0 "take n str" "drop n str"] by (simp add: reverse_buf_def)

section \<open>Printing and reading numbers\<close>

text \<open>The number a text denotes: least significant digit first, and as it is printed.\<close>

definition digit_val :: "u8 \<Rightarrow> int" where
  "digit_val c = (if 97 \<le> unat c then int (unat c) - 87 else int (unat c) - 48)"

fun lsb_value :: "int \<Rightarrow> u8 list \<Rightarrow> int" where
  "lsb_value radix [] = 0"
| "lsb_value radix (c # cs) = digit_val c + radix * lsb_value radix cs"

definition parse_int :: "int \<Rightarrow> u8 list \<Rightarrow> int" where
  "parse_int radix text =
     (case text of [] \<Rightarrow> 0
      | c # cs \<Rightarrow> if c = 45 then - lsb_value radix (rev cs) else lsb_value radix (rev text))"

lemma digit_char_val:
  assumes "0 \<le> r" "r < 36"
  shows "digit_val (digit_char r) = r" "digit_char r \<noteq> 0" "digit_char r \<noteq> 45"
proof -
  obtain n where n: "r = int n" "n < 36" using assms by (metis nonneg_int_cases of_nat_less_iff of_nat_numeral)
  then have "digit_char r = of_nat (if n > 9 then n + 87 else n + 48)" by (simp add: digit_char_def)
  then have "unat (digit_char r) = (if n > 9 then n + 87 else n + 48)" using n by (simp add: unat_of_nat)
  then show "digit_val (digit_char r) = r" "digit_char r \<noteq> 0" "digit_char r \<noteq> 45"
    using n by (auto simp: digit_val_def split: if_splits)
qed

lemma sdiv_smod_nonneg: "0 \<le> a \<Longrightarrow> 0 < b \<Longrightarrow> a sdiv b = a div b \<and> a smod b = a mod b" for a b :: int
  by (auto simp: signed_divide_int_def signed_modulo_int_def sgn_if)

lemma itoa_digits_ok:
  assumes "2 \<le> radix" "radix \<le> 36" "0 \<le> num" "num < radix ^ k" "length buf + k \<le> 32"
  shows "\<exists>ds. itoa_digits num radix buf = Inr (buf @ ds) \<and> length ds \<le> k \<and> lsb_value radix ds = num \<and>
    0 \<notin> set ds \<and> 45 \<notin> set ds \<and> (num \<noteq> 0 \<longrightarrow> ds \<noteq> [])"
  using assms(3-)
proof (induction k arbitrary: num buf)
  case 0
  then show ?case by (subst itoa_digits.simps) auto
next
  case (Suc k)
  show ?case
  proof (cases "num = 0")
    case True
    then show ?thesis by (subst itoa_digits.simps) auto
  next
    case False
    let ?b = "buf @ [digit_char (num mod radix)]"
    have "num div radix < radix ^ k"
    proof (rule ccontr)
      assume "\<not> num div radix < radix ^ k"
      then have "radix * radix ^ k \<le> radix * (num div radix)" using assms(1) by simp
      also have "\<dots> \<le> num" using assms(1) pos_mod_sign [of radix num] mult_div_mod_eq [of radix num] by linarith
      finally show False using Suc.prems(2) by simp
    qed
    moreover have "0 \<le> num div radix" using Suc.prems(1) assms(1) by (simp add: pos_imp_zdiv_nonneg_iff)
    ultimately obtain ds where ds: "itoa_digits (num div radix) radix ?b = Inr (?b @ ds)"
        "length ds \<le> k" "lsb_value radix ds = num div radix" "0 \<notin> set ds" "45 \<notin> set ds"
      using Suc.IH [of "num div radix" ?b] Suc.prems(3) by auto
    have r: "0 \<le> num mod radix" "num mod radix < 36"
      using assms(1,2) pos_mod_bound [of radix num] pos_mod_sign [of radix num] by linarith+
    have "itoa_digits num radix buf = Inr (buf @ digit_char (num mod radix) # ds)"
      using False ds(1) Suc.prems(1,3) assms(1)
      by (subst itoa_digits.simps) (simp add: sdiv_smod_nonneg)
    then show ?thesis
      using ds digit_char_val [OF r] by (intro exI [of _ "digit_char (num mod radix) # ds"]) simp
  qed
qed

lemma neg32_ok: "- (2 ^ 31) < num \<Longrightarrow> num < 0 \<Longrightarrow> neg32 num = - num"
  using sint_of_nat_small [of "nat (- num)"] by (simp add: neg32_def nat_less_iff)

lemma parse_digits:
  assumes "0 \<notin> set ds" "45 \<notin> set ds" "ds \<noteq> []"
  shows "parse_int radix (rev ds) = lsb_value radix ds" "parse_int radix (45 # rev ds) = - lsb_value radix ds"
  using assms by (auto simp: parse_int_def split: list.splits)

section \<open>Properties\<close>

lemma itoa_ok:
  assumes "3 \<le> unat radix" "unat radix \<le> 36" "- (2 ^ 31) < num" "num < 2 ^ 31" "length text = 32"
  shows "\<exists>text'. itoa num radix text = Inr text' \<and> length text' = 32 \<and> 0 \<in> set text' \<and>
    parse_int (int (unat radix)) (c_str text') = num"
proof (cases "num = 0")
  case True
  have "overwrite text 0 [48, 0] = [48] @ 0 # drop 2 text"
    by (simp add: overwrite_def numeral_2_eq_2)
  with True assms(5) show ?thesis
    by (simp add: itoa_def buf_write_def parse_int_def digit_val_def del: append_Cons)
next
  case False
  let ?m = "\<bar>num\<bar>"
  obtain r where r: "uint radix = r" by blast
  then have r3: "3 \<le> r" "r \<le> 36"
    using assms(1,2) of_nat_le_iff [of 3 "unat radix"] of_nat_le_iff [of "unat radix" 36] by auto
  have "(2 :: int) ^ 31 < 3 ^ 20" by simp
  also have "(3 :: int) ^ 20 \<le> r ^ 20" using r3 by (intro power_mono) auto
  finally have "?m < r ^ 20" using assms(3,4) by simp
  then obtain ds where ds: "itoa_digits ?m r [] = Inr ds" "length ds \<le> 20" "lsb_value r ds = ?m"
      "0 \<notin> set ds" "45 \<notin> set ds" "ds \<noteq> []"
    using itoa_digits_ok [of r ?m 20 "[]"] r3 False by auto
  show ?thesis
  proof (cases "num < 0")
    case True
    have e: "overwrite text 0 (45 # rev ds @ [0]) = (45 # rev ds) @ 0 # drop (length ds + 2) text"
      by (simp add: overwrite_def)
    have "itoa num radix text = Inr ((45 # rev ds) @ 0 # drop (length ds + 2) text)"
      using True ds assms(3,5) False
      by (simp add: itoa_def r neg32_ok push_buf_def reverse_buf_ok buf_write_def e)
    moreover have "c_str ((45 # rev ds) @ 0 # drop (length ds + 2) text) = 45 # rev ds"
      using ds(4) by (intro c_str_append) auto
    ultimately show ?thesis
      using True ds assms(5) parse_digits(2) [OF ds(4,5,6), of r] by (simp add: r)
  next
    case nn: False
    have e: "overwrite text 0 (rev ds @ [0]) = rev ds @ 0 # drop (length ds + 1) text"
      by (simp add: overwrite_def)
    have "itoa num radix text = Inr (rev ds @ 0 # drop (length ds + 1) text)"
      using nn ds assms(5) False
      by (simp add: itoa_def r push_buf_def reverse_buf_ok buf_write_def e)
    then show ?thesis
      using nn ds assms(5) parse_digits(1) [OF ds(4,5,6), of r] by (simp add: r)
  qed
qed

text \<open>
  Claim C30: \<open>itoa\<close> prints every integer but the least one, in every base from 3 to 36: the
  text it leaves in a buffer of 32 bytes is a C string that reads back as the number, and
  neither the internal buffer nor the target overflows.
\<close>
theorem itoa_roundtrip:
  assumes "3 \<le> unat radix" "unat radix \<le> 36" "- (2 ^ 31) < num" "num < 2 ^ 31" "length text = 32"
  shows "\<exists>text'. itoa num radix text = Inr text' \<and> length text' = 32 \<and> 0 \<in> set text' \<and>
    parse_int (int (unat radix)) (c_str text') = num"
  by (rule itoa_ok [OF assms])

theorem itoa_roundtrip_witness:
  "\<exists>text'. itoa (- 255) 16 (replicate 32 0) = Inr text' \<and> parse_int 16 (c_str text') = - 255"
  using itoa_roundtrip [of 16 "- 255" "replicate 32 0"] by auto

text \<open>
  The least 32-bit integer is not printed as a number: \<open>-num\<close> is the same
  negative number, its remainders are negative, and the text is a minus sign followed by
  characters below '0'.
\<close>
theorem itoa_least_integer_garbled:
  "itoa (- (2 ^ 31)) 10 (replicate 32 0) = Inr ([45, 46, 47, 44, 41, 44, 40, 45, 42, 44, 40] @ replicate 21 0)"
proof -
  have "neg32 (- (2 ^ 31)) = - (2 ^ 31)" by (simp add: neg32_def)
  moreover have "itoa_digits (- (2 ^ 31)) 10 [] = Inr [40, 44, 42, 45, 40, 44, 41, 44, 47, 46]"
    by (simp add: itoa_digits.simps signed_divide_int_def signed_modulo_int_def digit_char_def)
  ultimately show ?thesis
    by (simp add: itoa_def push_buf_def reverse_buf_ok buf_write_def overwrite_def Cons_replicate_eq)
qed

text \<open>
  \<open>strcmp\<close> decides equality of the two strings (0 for equal, 1 for different, the
  reduced contract its comment announces) and never reads behind a terminator, for every
  two buffers that hold a string.
\<close>
theorem strcmp_decides_equality:
  assumes "0 \<in> set b1" "0 \<in> set b2"
  shows "strcmp b1 b2 = Inr (if c_str b1 = c_str b2 then 0 else 1)"
  using assms by (rule strcmp_ok)

theorem strcmp_decides_equality_witness:
  "strcmp [117, 115, 114, 0, 9] [117, 115, 114, 0] = Inr 0"
  using strcmp_decides_equality [of "[117, 115, 114, 0, 9]" "[117, 115, 114, 0]"] by (simp add: c_str_def)

text \<open>
  \<open>strcpy\<close> copies the string with its terminator and leaves the rest of the target
  as it was; it stays inside the target exactly when the target is longer than the string,
  which it does not check.
\<close>
theorem strcpy_copies:
  assumes "0 \<notin> set s"
  shows "strcpy dest (s @ 0 # t) =
    (if length s < length dest then Inr (s @ 0 # drop (length s + 1) dest) else Inl Out_Of_Bounds)"
  using strcpy_ok [OF assms] by simp

theorem strcpy_copies_witness:
  "strcpy [1, 2, 3, 4] ([114, 0] :: u8 list) = Inr [114, 0, 3, 4] \<and> strcpy [1] ([114, 0] :: u8 list) = Inl Out_Of_Bounds"
  using strcpy_copies [of "[114]" "[1, 2, 3, 4]" "[]"] strcpy_copies [of "[114]" "[1]" "[]"] by simp

section \<open>Path names\<close>

lemma last_slash_unfold:
  "last_slash path n = (case n of 0 \<Rightarrow> -1 | Suc i \<Rightarrow> if path ! i = 47 then int i else last_slash path i)"
  by (cases n) simp_all

lemma last_slash_append:
  "47 \<notin> set s \<Longrightarrow> last_slash (p @ s @ t) (length p + length s) = last_slash (p @ s @ t) (length p)"
proof (induction s arbitrary: t rule: rev_induct)
  case (snoc c s)
  then show ?case using snoc.IH [of "c # t"] by (auto simp: nth_append)
qed simp

lemma get_parent_ok:
  assumes "0 \<notin> set p" "p = [] \<or> last p = 47" "0 \<notin> set nm" "47 \<notin> set nm" "length p < length dest"
  shows "get_parent_dir_name (p @ nm @ 47 # 0 # t) dest = Inr (p @ 0 # drop (length p + 1) dest)"
proof -
  let ?path = "p @ nm @ 47 # 0 # t"
  have cs: "c_str ?path = p @ nm @ [47]" using assms c_str_append [of "p @ nm @ [47]" t] by simp
  have len: "strlen ?path = Inr (length p + length nm + 1)" by (simp add: strlen_eq cs)
  have sl: "last_slash ?path (length p + length nm) = last_slash ?path (length p)"
    using last_slash_append [OF assms(4), of p "47 # 0 # t"] by simp
  show ?thesis
  proof (cases p rule: rev_cases)
    case Nil
    with len sl assms(5) show ?thesis
      by (simp add: get_parent_dir_name_def buf_write_def overwrite_def Suc_le_eq)
  next
    case (snoc q c)
    with assms(2) have c: "c = 47" by simp
    with snoc sl have pos: "last_slash ?path (length p + length nm) = int (length q)" by simp
    have w: "buf_write (p @ drop (Suc (length q)) dest) (Suc (length q)) [0] = Inr (p @ 0 # drop (length p + 1) dest)"
      using snoc assms(5) by (simp add: buf_write_def overwrite_def)
    show ?thesis
      using len pos snoc c assms(5) w by (simp add: get_parent_dir_name_def Let_def memcpy_ok)
  qed
qed

text \<open>
  For a path in the reference format, a parent part that is empty or ends in a
  slash followed by one name and a slash, \<open>get_parent_dir_name\<close> delivers the parent part,
  provided the target has room for it.
\<close>
theorem get_parent_dir_name_splits:
  assumes "0 \<notin> set p" "p = [] \<or> last p = 47" "0 \<notin> set nm" "47 \<notin> set nm" "length p < length dest"
  shows "get_parent_dir_name (p @ nm @ 47 # 0 # t) dest = Inr (p @ 0 # drop (length p + 1) dest)"
  using assms by (rule get_parent_ok)

theorem get_parent_dir_name_splits_witness:
  "get_parent_dir_name [97, 47, 98, 47, 0] [1, 1, 1, 1] = Inr [97, 47, 0, 1]"
  using get_parent_dir_name_splits [of "[97, 47]" "[98]" "[1, 1, 1, 1]" "[]"] by simp

end
