(* ===== verification/Console.thy ===== *)
theory Console
  imports Port_IO C_String
begin

text \<open>
  kernel/dev/console.c: the text console. The state is the cursor (a pointer into the
  text-mode video memory and the row and column it stands for), the video memory as bytes,
  and the trace of the port writes that move the hardware cursor. A character cell is two
  bytes, the character first. Sizes are those of include/comm/console.h.
\<close>

unbundle bit_operations_syntax

abbreviation VIDEO_MEM_TEXT_MODE_START :: u32 where "VIDEO_MEM_TEXT_MODE_START \<equiv> 0xB8000"
abbreviation ROWS :: nat where "ROWS \<equiv> 25"
abbreviation COLS :: nat where "COLS \<equiv> 80"
abbreviation CURSOR_CONTROL_PORT :: u16 where "CURSOR_CONTROL_PORT \<equiv> 0x3D4"
abbreviation CURSOR_DATA_PORT :: u16 where "CURSOR_DATA_PORT \<equiv> 0x3D5"

record cursor_state =
  p_last_char :: u32
  cursor_col :: u8
  cursor_row :: u8

record console =
  cursor :: cursor_state
  vmem :: "u32 \<Rightarrow> u8"
  ports :: port_trace

section \<open>Operations\<close>

definition gotoxy :: "u8 \<Rightarrow> u8 \<Rightarrow> console \<Rightarrow> console" where
  "gotoxy col row c =
     (let pos = (of_nat (unat row * COLS + unat col) :: u16) in
      c\<lparr>ports :=
          outb CURSOR_DATA_PORT (ucast (0xFF AND pos))
            (outb CURSOR_CONTROL_PORT 0xF
              (outb CURSOR_DATA_PORT (ucast (drop_bit 8 pos))
                (outb CURSOR_CONTROL_PORT 0xE (ports c))))\<rparr>)"

text \<open>
  The pointer difference is signed and counts 16-bit cells; it is then stored in an
  unsigned 32-bit variable.
\<close>

definition cell_offset :: "u32 \<Rightarrow> u32" where
  "cell_offset p = of_int (sint (p - VIDEO_MEM_TEXT_MODE_START) div 2)"

definition set_cursor_state :: "u32 \<Rightarrow> console \<Rightarrow> console" where
  "set_cursor_state p c =
     (let offset = cell_offset p; col = ucast (offset mod 80); row = ucast (offset div 80) in
      gotoxy col row
        (c\<lparr>cursor := \<lparr>p_last_char = p, cursor_col = col, cursor_row = row\<rparr>\<rparr>))"

definition cursor_state_init :: "console \<Rightarrow> console" where
  "cursor_state_init c = set_cursor_state VIDEO_MEM_TEXT_MODE_START c"

definition cursor_state_inc :: "console \<Rightarrow> console" where
  "cursor_state_inc c =
     (let c' = c\<lparr>cursor := (cursor c)\<lparr>p_last_char := p_last_char (cursor c) + 2\<rparr>\<rparr>
      in set_cursor_state (p_last_char (cursor c')) c')"

text \<open>One iteration of the loop of \<open>scroll_up\<close>: \<open>*ptr = *(ptr + COLS)\<close>.\<close>

definition copy_cell :: "u32 \<Rightarrow> (u32 \<Rightarrow> u8) \<Rightarrow> (u32 \<Rightarrow> u8)" where
  "copy_cell ptr m = m(ptr := m (ptr + 160), ptr + 1 := m (ptr + 161))"

definition scroll_up :: "console \<Rightarrow> console" where
  "scroll_up c =
     set_cursor_state (p_last_char (cursor c) - 160)
       (c\<lparr>vmem := fold (\<lambda>i. copy_cell (VIDEO_MEM_TEXT_MODE_START + 2 * of_nat i))
                   [0..<ROWS * COLS] (vmem c)\<rparr>)"

lemma p_last_char_set [simp]: "p_last_char (cursor (set_cursor_state p c)) = p"
  by (simp add: set_cursor_state_def gotoxy_def Let_def)

lemma p_last_char_scroll_up [simp]: "p_last_char (cursor (scroll_up c)) = p_last_char (cursor c) - 160"
  by (simp add: scroll_up_def)

function check_scroll_up :: "console \<Rightarrow> console" where
  "check_scroll_up c =
     (if p_last_char (cursor c) > VIDEO_MEM_TEXT_MODE_START + 4000
      then check_scroll_up (scroll_up c) else c)"
  by pat_completeness auto
termination
proof (relation "measure (\<lambda>c :: console. unat (p_last_char (cursor c)))")
  fix c :: console
  assume "p_last_char (cursor c) > VIDEO_MEM_TEXT_MODE_START + 4000"
  then have "unat (p_last_char (cursor c)) > unat (VIDEO_MEM_TEXT_MODE_START + 4000)"
    by (simp only: word_less_nat_alt)
  then have "160 \<le> unat (p_last_char (cursor c))" by simp
  then have "unat (p_last_char (cursor c) - 160) = unat (p_last_char (cursor c)) - 160"
    by (subst unat_sub) (simp_all add: word_le_nat_alt)
  with \<open>160 \<le> unat (p_last_char (cursor c))\<close>
  show "(scroll_up c, c) \<in> measure (\<lambda>c :: console. unat (p_last_char (cursor c)))" by simp
qed simp

declare check_scroll_up.simps [simp del]

definition println :: "console \<Rightarrow> console" where
  "println c =
     (let row = (p_last_char (cursor c) - VIDEO_MEM_TEXT_MODE_START) div 160
      in check_scroll_up (set_cursor_state (VIDEO_MEM_TEXT_MODE_START + 2 * ((row + 1) * 80)) c))"

definition put_byte :: "u8 \<Rightarrow> console \<Rightarrow> console" where
  "put_byte b c = c\<lparr>vmem := (vmem c)(p_last_char (cursor c) := b)\<rparr>"

definition print_back :: "console \<Rightarrow> console" where
  "print_back c = put_byte 32 (set_cursor_state (p_last_char (cursor c) - 2) c)"

definition putchar :: "u32 \<Rightarrow> console \<Rightarrow> console" where
  "putchar ch c =
     (if ch = 10 then println c
      else if ch = 8 then print_back c
      else check_scroll_up (cursor_state_inc (put_byte (ucast ch) c)))"

text \<open>\<open>write\<close>: a \<open>char\<close> is signed, so it is sign-extended to the parameter of \<open>putchar\<close>.\<close>

definition console_write :: "u8 list \<Rightarrow> console \<Rightarrow> console" where
  "console_write buf c = fold (\<lambda>b. putchar (scast b)) buf c"

text \<open>\<open>printf\<close> ignores its further arguments and writes the format up to its terminator.\<close>

definition printf :: "u8 list \<Rightarrow> console \<Rightarrow> console res" where
  "printf fmt c = rbind (strlen fmt) (\<lambda>n. Inr (console_write (take n fmt) c))"

text \<open>
  \<open>emphasize\<close> prints its text for ever: after any number of rounds it has not returned. The
  other theories have the result \<open>Hang\<close> where the code calls it or has the same loop in place.
\<close>

primrec emphasize :: "nat \<Rightarrow> u8 list \<Rightarrow> console \<Rightarrow> console res" where
  "emphasize 0 text c = Inl Hang"
| "emphasize (Suc n) text c = rbind (printf text c) (emphasize n text)"

definition cls :: "console \<Rightarrow> console" where
  "cls c = (let c' = cursor_state_init c in
     c'\<lparr>vmem := fold (\<lambda>i m. m(VIDEO_MEM_TEXT_MODE_START + 2 * of_nat i := 32)) [0..<ROWS * COLS] (vmem c')\<rparr>)"

lemma emphasize_never_returns: "\<exists>e. emphasize n text c = Inl e"
  by (induction n arbitrary: c) (auto simp: printf_def rbind_def split: sum.split)

section \<open>The cursor as a cell number\<close>

text \<open>\<open>cell_ptr n\<close> points to cell \<open>n\<close>; the screen has cells 0 to 1999.\<close>

definition cell_ptr :: "nat \<Rightarrow> u32" where
  "cell_ptr n = VIDEO_MEM_TEXT_MODE_START + 2 * of_nat n"

definition cell_cursor :: "nat \<Rightarrow> cursor_state" where
  "cell_cursor n = \<lparr>p_last_char = cell_ptr n, cursor_col = of_nat (n mod 80), cursor_row = of_nat (n div 80)\<rparr>"

lemma p_last_char_cell [simp]: "p_last_char (cell_cursor n) = cell_ptr n"
  by (simp add: cell_cursor_def)

lemma unat_cell_ptr: "n \<le> 100000 \<Longrightarrow> unat (cell_ptr n) = 0xB8000 + 2 * n"
  by (simp add: cell_ptr_def unat_word_ariths unat_of_nat)

lemma cell_ptr_diff: "n \<le> 100000 \<Longrightarrow> unat (cell_ptr n - VIDEO_MEM_TEXT_MODE_START) = 2 * n"
  by (simp add: cell_ptr_def unat_word_ariths unat_of_nat)

lemma cell_offset_ptr: "n \<le> 100000 \<Longrightarrow> cell_offset (cell_ptr n) = of_nat n"
proof -
  assume n: "n \<le> 100000"
  have "cell_ptr n - VIDEO_MEM_TEXT_MODE_START = of_nat (2 * n)" by (simp add: cell_ptr_def)
  moreover have "sint (of_nat (2 * n) :: u32) = int (2 * n)"
    using n by (intro sint_of_nat_small) simp
  ultimately show ?thesis by (simp add: cell_offset_def)
qed

lemma cursor_set_cell [simp]:
  "n \<le> 100000 \<Longrightarrow> cursor (set_cursor_state (cell_ptr n) c) = cell_cursor n"
  using of_nat_div_mod_u32 [of n 80]
  by (simp add: set_cursor_state_def gotoxy_def Let_def cell_offset_ptr unat_of_nat_small cell_cursor_def)

lemma vmem_set [simp, frame_simps]: "vmem (set_cursor_state p c) = vmem c"
  by (simp add: set_cursor_state_def gotoxy_def Let_def)

lemma cell_ptr_Suc: "cell_ptr n + 2 = cell_ptr (Suc n)"
  by (simp add: cell_ptr_def)

lemma cell_ptr_add: "cell_ptr m + 2 * of_nat k = cell_ptr (m + k)"
  by (simp add: cell_ptr_def distrib_left)

lemma cell_ptr_less_iff:
  "m \<le> 100000 \<Longrightarrow> n \<le> 100000 \<Longrightarrow> cell_ptr m < cell_ptr n \<longleftrightarrow> m < n"
  by (simp add: word_less_nat_alt unat_cell_ptr)

lemma cell_ptr_eq_iff:
  "m \<le> 100000 \<Longrightarrow> n \<le> 100000 \<Longrightarrow> cell_ptr m = cell_ptr n \<longleftrightarrow> m = n"
  by (simp add: word_unat_eq_iff unat_cell_ptr)

lemma cell_ptr_2000: "VIDEO_MEM_TEXT_MODE_START + 4000 = cell_ptr 2000"
  by (simp add: cell_ptr_def)

lemma cell_ptr_minus: "k \<le> n \<Longrightarrow> cell_ptr n - of_nat (2 * k) = cell_ptr (n - k)"
  by (simp add: cell_ptr_def algebra_simps)

section \<open>Scrolling\<close>

text \<open>
  The loop copies forward from one row further on, so it never reads a cell it has already
  overwritten: after \<open>n\<close> iterations the first \<open>n\<close> cells hold the old contents one row below.
\<close>

lemma scroll_loop:
  "n \<le> 100000 \<Longrightarrow>
   fold (\<lambda>i. copy_cell (VIDEO_MEM_TEXT_MODE_START + 2 * of_nat i)) [0..<n] m a =
     (if unat (a - VIDEO_MEM_TEXT_MODE_START) < 2 * n then m (a + 160) else m a)"
proof (induction n arbitrary: a)
  case (Suc n)
  let ?S = "VIDEO_MEM_TEXT_MODE_START" and ?p = "VIDEO_MEM_TEXT_MODE_START + 2 * of_nat n :: u32"
  let ?f = "\<lambda>n. fold (\<lambda>i. copy_cell (VIDEO_MEM_TEXT_MODE_START + 2 * of_nat i)) [0..<n] m"
  have d: "unat (?p - ?S) = 2 * n" "unat (?p + 1 - ?S) = 2 * n + 1"
      "unat (?p + 160 - ?S) = 2 * n + 160" "unat (?p + 161 - ?S) = 2 * n + 161"
    using Suc.prems by (simp_all add: unat_word_ariths unat_of_nat)
  have eq: "a = b \<longleftrightarrow> unat (a - ?S) = unat (b - ?S)" for b
    by (simp add: word_unat_eq_iff [symmetric])
  have IH: "?f n b = (if unat (b - ?S) < 2 * n then m (b + 160) else m b)" for b
    using Suc.prems by (intro Suc.IH) simp
  have "?f (Suc n) a = copy_cell ?p (?f n) a" by simp
  also have "\<dots> = (if a = ?p + 1 then ?f n (?p + 161) else if a = ?p then ?f n (?p + 160) else ?f n a)"
    by (simp only: copy_cell_def fun_upd_apply)
  also have "\<dots> = (if a = ?p + 1 then m (?p + 161) else if a = ?p then m (?p + 160) else ?f n a)"
    by (simp only: IH d) simp
  also have "\<dots> = (if unat (a - ?S) < 2 * Suc n then m (a + 160) else m a)"
  proof (cases "a = ?p \<or> a = ?p + 1")
    case True
    then show ?thesis using d by (auto simp: add.assoc)
  next
    case False
    then have "unat (a - ?S) \<noteq> 2 * n" "unat (a - ?S) \<noteq> 2 * n + 1"
      using eq [of ?p] eq [of "?p + 1"] d by (metis (no_types, lifting))+
    with False show ?thesis by (simp only: IH) auto
  qed
  finally show ?case .
qed simp

definition cell :: "console \<Rightarrow> nat \<Rightarrow> u8" where
  "cell c k = vmem c (cell_ptr k)"

lemma cell_scroll_up:
  "k \<le> 90000 \<Longrightarrow> cell (scroll_up c) k = (if k < 2000 then cell c (k + 80) else cell c k)"
  using cell_ptr_add [of k 80] by (simp add: cell_def scroll_up_def scroll_loop cell_ptr_diff)

lemma cursor_scroll_up:
  "p_last_char (cursor c) = cell_ptr n \<Longrightarrow> 80 \<le> n \<Longrightarrow> n \<le> 100000 \<Longrightarrow>
   cursor (scroll_up c) = cell_cursor (n - 80)"
  using cell_ptr_minus [of 80 n] by (simp add: scroll_up_def)

lemma check_scroll_up_id:
  "p_last_char (cursor c) = cell_ptr n \<Longrightarrow> n \<le> 2000 \<Longrightarrow> check_scroll_up c = c"
  by (subst check_scroll_up.simps) (simp only: cell_ptr_2000, simp add: cell_ptr_less_iff)

lemma check_scroll_up_once:
  assumes "p_last_char (cursor c) = cell_ptr n" "2000 < n" "n \<le> 2080"
  shows "check_scroll_up c = scroll_up c"
proof -
  have "check_scroll_up (scroll_up c) = scroll_up c"
    using assms by (intro check_scroll_up_id [of _ "n - 80"]) (simp_all only: cursor_scroll_up, simp_all)
  then show ?thesis
    using assms by (subst check_scroll_up.simps) (simp only: cell_ptr_2000, simp add: cell_ptr_less_iff)
qed

section \<open>Characters\<close>

text \<open>Where the cursor goes: a newline to the next row, a backspace one cell back.\<close>

definition cursor_step :: "u32 \<Rightarrow> nat \<Rightarrow> nat" where
  "cursor_step ch n =
     (if ch = 10 then min 2000 ((n div 80 + 1) * 80)
      else if ch = 8 then n - 1
      else if n < 2000 then n + 1 else 1921)"

lemma cursor_put_byte [simp]: "cursor (put_byte b c) = cursor c"
  by (simp add: put_byte_def)

lemma cell_put_byte:
  "cursor c = cell_cursor n \<Longrightarrow> n \<le> 100000 \<Longrightarrow> k \<le> 100000 \<Longrightarrow>
   cell (put_byte b c) k = (if k = n then b else cell c k)"
  by (simp add: put_byte_def cell_def cell_ptr_eq_iff)

lemma cell_set [simp]: "cell (set_cursor_state p c) k = cell c k"
  by (simp add: cell_def)

lemma inc_cell:
  "cursor c = cell_cursor n \<Longrightarrow> n < 100000 \<Longrightarrow>
   cursor (cursor_state_inc c) = cell_cursor (Suc n) \<and> cell (cursor_state_inc c) k = cell c k"
  by (simp add: cursor_state_inc_def Let_def cell_ptr_Suc) (simp add: cell_def)

lemma println_ptr:
  assumes "cursor c = cell_cursor n" "n \<le> 2000"
  shows "println c = check_scroll_up (set_cursor_state (cell_ptr ((n div 80 + 1) * 80)) c)"
proof -
  have "cell_ptr n - VIDEO_MEM_TEXT_MODE_START = of_nat (2 * n)" by (simp add: cell_ptr_def)
  moreover have "(of_nat (2 * n) :: u32) div of_nat 160 = of_nat (2 * n div 160)"
    by (rule of_nat_div_mod_u32(1)) (use assms(2) in simp_all)
  moreover have "2 * n div 160 = n div 80" using div_mult_mult1 [of 2 n 80] by simp
  ultimately have "(cell_ptr n - VIDEO_MEM_TEXT_MODE_START) div 160 = of_nat (n div 80)"
    by (simp only: of_nat_numeral)
  moreover have "VIDEO_MEM_TEXT_MODE_START + 2 * ((of_nat (n div 80) + 1) * 80) = cell_ptr ((n div 80 + 1) * 80)"
    by (simp only: cell_ptr_def of_nat_mult of_nat_add of_nat_1 of_nat_numeral)
  ultimately show ?thesis
    using assms(1) by (simp only: println_def Let_def p_last_char_cell)
qed

lemma next_row:
  fixes n :: nat
  assumes "n \<le> 2000"
  shows "(n div 80 + 1) * 80 \<le> 2080 \<and> n < (n div 80 + 1) * 80 \<and> (2000 < (n div 80 + 1) * 80 \<longleftrightarrow> n = 2000)"
proof -
  define d r where "d = n div 80" and "r = n mod 80"
  have "n = d * 80 + r" "r < 80" by (simp_all add: d_def r_def)
  then have "(d + 1) * 80 \<le> 2080 \<and> n < (d + 1) * 80 \<and> (2000 < (d + 1) * 80 \<longleftrightarrow> n = 2000)"
    using assms by (cases "d \<le> 24") auto
  then show ?thesis by (simp only: d_def)
qed

lemma println_cell:
  assumes "cursor c = cell_cursor n" "n \<le> 2000"
  shows "cursor (println c) = cell_cursor (cursor_step 10 n)"
    "k \<le> 90000 \<Longrightarrow> cell (println c) k = (if n = 2000 \<and> k < 2000 then cell c (k + 80) else cell c k)"
proof -
  let ?m = "(n div 80 + 1) * 80" and ?c = "set_cursor_state (cell_ptr ((n div 80 + 1) * 80)) c"
  have m: "?m \<le> 2080" "n < ?m" "2000 < ?m \<longleftrightarrow> n = 2000"
    using next_row [OF assms(2)] by blast+
  note pr = println_ptr [OF assms]
  have "cursor (println c) = cell_cursor (cursor_step 10 n) \<and>
    (k \<le> 90000 \<longrightarrow> cell (println c) k = (if n = 2000 \<and> k < 2000 then cell c (k + 80) else cell c k))"
  proof (cases "n = 2000")
    case True
    have "check_scroll_up ?c = scroll_up ?c"
      using m True by (intro check_scroll_up_once [of _ ?m]) auto
    moreover have "cursor (scroll_up ?c) = cell_cursor (?m - 80)"
      using m True by (intro cursor_scroll_up) auto
    ultimately show ?thesis
      using True by (simp add: pr cell_scroll_up cursor_step_def)
  next
    case False
    have "check_scroll_up ?c = ?c"
      using m False by (intro check_scroll_up_id [of _ ?m]) auto
    then show ?thesis using m False by (simp add: pr cursor_step_def min_def)
  qed
  then show "cursor (println c) = cell_cursor (cursor_step 10 n)"
    "k \<le> 90000 \<Longrightarrow> cell (println c) k = (if n = 2000 \<and> k < 2000 then cell c (k + 80) else cell c k)"
    by simp_all
qed

lemma putchar_cell:
  assumes "cursor c = cell_cursor n" "n \<le> 2000" "ch = 8 \<Longrightarrow> 0 < n"
  shows "cursor (putchar ch c) = cell_cursor (cursor_step ch n)"
    "ch \<noteq> 10 \<Longrightarrow> ch \<noteq> 8 \<Longrightarrow> n < 2000 \<Longrightarrow> k \<le> 90000 \<Longrightarrow>
       cell (putchar ch c) k = (if k = n then ucast ch else cell c k)"
    "ch \<noteq> 10 \<Longrightarrow> ch \<noteq> 8 \<Longrightarrow> n = 2000 \<Longrightarrow> k < 2000 \<Longrightarrow>
       cell (putchar ch c) k = (if k = 1920 then ucast ch else cell c (k + 80))"
proof -
  let ?c = "cursor_state_inc (put_byte (ucast ch) c)"
  have inc: "cursor ?c = cell_cursor (Suc n)" "\<And>k. cell ?c k = cell (put_byte (ucast ch) c) k"
    using inc_cell [of "put_byte (ucast ch) c" n] assms(1,2) by simp_all
  have bk: "cursor (print_back c) = cell_cursor (n - 1)" if "0 < n"
    using cell_ptr_minus [of 1 n] that assms(1,2) by (simp add: print_back_def)
  have low: "check_scroll_up ?c = ?c" if "n < 2000"
    using that inc by (intro check_scroll_up_id [of _ "Suc n"]) auto
  have high: "check_scroll_up ?c = scroll_up ?c" if "n = 2000"
    using that inc by (intro check_scroll_up_once [of _ "Suc n"]) auto
  show "cursor (putchar ch c) = cell_cursor (cursor_step ch n)"
    using println_cell(1) [OF assms(1,2)] bk low high inc assms
      cursor_scroll_up [of ?c "Suc n"]
    by (auto simp: putchar_def cursor_step_def)
  show "cell (putchar ch c) k = (if k = n then ucast ch else cell c k)"
    if "ch \<noteq> 10" "ch \<noteq> 8" "n < 2000" "k \<le> 90000"
    using that assms(1,2) by (simp add: putchar_def low inc cell_put_byte)
  show "cell (putchar ch c) k = (if k = 1920 then ucast ch else cell c (k + 80))"
    if "ch \<noteq> 10" "ch \<noteq> 8" "n = 2000" "k < 2000"
    using that assms(1,2) by (auto simp: putchar_def high inc cell_scroll_up cell_put_byte)
qed

text \<open>Writing a whole text, as long as no backspace is written at cell 0.\<close>

fun text_ok :: "u8 list \<Rightarrow> nat \<Rightarrow> bool" where
  "text_ok [] n = True"
| "text_ok (b # bs) n = ((scast b = (8 :: u32) \<longrightarrow> 0 < n) \<and> text_ok bs (cursor_step (scast b) n))"

definition cursor_run :: "u8 list \<Rightarrow> nat \<Rightarrow> nat" where
  "cursor_run bs n = fold (\<lambda>b. cursor_step (scast b)) bs n"

lemma cursor_step_le: "n \<le> 2000 \<Longrightarrow> cursor_step ch n \<le> 2000"
  by (auto simp: cursor_step_def)

lemma cls_cursor: "cursor (cls c) = cell_cursor 0"
  using cursor_set_cell [of 0 c] by (simp add: cls_def cursor_state_init_def cell_ptr_def)

lemma console_write_cursor:
  "cursor c = cell_cursor n \<Longrightarrow> n \<le> 2000 \<Longrightarrow> text_ok bs n \<Longrightarrow>
   cursor (console_write bs c) = cell_cursor (cursor_run bs n) \<and> cursor_run bs n \<le> 2000"
proof (induction bs arbitrary: c n)
  case (Cons b bs)
  have "cursor (putchar (scast b) c) = cell_cursor (cursor_step (scast b) n)"
    using Cons.prems by (intro putchar_cell(1)) auto
  from Cons.IH [OF this cursor_step_le] Cons.prems show ?case
    by (simp add: console_write_def cursor_run_def)
qed (simp add: console_write_def cursor_run_def)

section \<open>Properties\<close>

text \<open>
  The three fields of the cursor stay synchronised and the cursor stays on the
  cells 0 to 2000, whatever text is written (newlines, scrolling and backspaces included,
  as long as no backspace is written at the first cell): writing a text moves the cursor
  exactly as the abstract cursor \<open>cursor_run\<close> says. Cell 2000, just past the 80 x 25
  screen, is reachable, since \<open>check_scroll_up\<close> compares with \<open>>\<close>.
\<close>
theorem console_cursor_refines:
  assumes "cursor c = cell_cursor n" "n \<le> 2000" "text_ok text n"
  shows "cursor (console_write text c) = cell_cursor (cursor_run text n) \<and> cursor_run text n \<le> 2000"
  using assms by (rule console_write_cursor)

theorem console_cursor_refines_witness:
  "\<forall>c. cursor (console_write [72, 105, 8, 10] (cls c)) = cell_cursor 80"
proof
  show "cursor (console_write [72, 105, 8, 10] (cls c)) = cell_cursor 80" for c
    using console_cursor_refines [OF cls_cursor, of "[72, 105, 8, 10]" c]
    by (simp add: cursor_step_def cursor_run_def)
qed

text \<open>
  A printable character appears in the cell under the cursor and changes no other
  cell of the screen; in cell 2000 it makes the screen scroll: every row shows the row below
  it, and the character is the first one of the last row.
\<close>
theorem putchar_screen:
  assumes "cursor c = cell_cursor n" "n \<le> 2000" "ch \<noteq> 10" "ch \<noteq> 8" "k < 2000"
  shows "cell (putchar ch c) k =
    (if n < 2000 then if k = n then ucast ch else cell c k
     else if k = 1920 then ucast ch else cell c (k + 80))"
  using putchar_cell [OF assms(1,2)] assms by (cases "n < 2000") auto

theorem putchar_screen_witness:
  "cell (putchar 65 (cls c)) 0 = 65"
  using putchar_screen [OF cls_cursor, of 65 0 c] by simp

text \<open>
  A backspace at the first cell moves the cursor in front of the video memory and
  stores a blank at 0xB7FFE, outside the screen.
\<close>
theorem backspace_at_origin_leaves_screen:
  assumes "cursor c = cell_cursor 0"
  shows "p_last_char (cursor (putchar 8 c)) = 0xB7FFE \<and> vmem (putchar 8 c) 0xB7FFE = 32 \<and>
    (\<forall>a. a \<noteq> 0xB7FFE \<longrightarrow> vmem (putchar 8 c) a = vmem c a)"
  using assms by (simp add: putchar_def print_back_def put_byte_def cell_ptr_def)

theorem backspace_at_origin_leaves_screen_witness:
  "vmem (putchar 8 (cls c)) 0xB7FFE = 32"
  using backspace_at_origin_leaves_screen [OF cls_cursor, of c] by simp

text \<open>
  The hardware cursor follows: after every \<open>set_cursor_state\<close> on the cells 0 to
  2000 the last two bytes sent to the data port of the CRT controller, selected by index
  0xE and 0xF, are the high and the low byte of the cell number.
\<close>
theorem hardware_cursor_position:
  assumes "n \<le> 2000"
  shows "\<exists>hi lo. ports (set_cursor_state (cell_ptr n) c) =
      ports c @ [(CURSOR_CONTROL_PORT, 0xE), (CURSOR_DATA_PORT, hi), (CURSOR_CONTROL_PORT, 0xF), (CURSOR_DATA_PORT, lo)]
    \<and> unat hi * 256 + unat lo = n"
proof -
  have r: "(of_nat (n div 80) :: u8) = ucast ((of_nat n :: u32) div 80)"
      "(of_nat (n mod 80) :: u8) = ucast ((of_nat n :: u32) mod 80)"
    using of_nat_div_mod_u32 [of n 80] assms by simp_all
  have u: "unat (of_nat (n div 80) :: u8) = n div 80" "unat (of_nat (n mod 80) :: u8) = n mod 80"
    using assms by (simp_all add: unat_of_nat_small less_mult_imp_div_less)
  have lo: "unat (ucast (0xFF AND (of_nat n :: u16)) :: u8) = n mod 256"
    by (simp add: low_byte_u16 unat_of_nat)
  have hi: "unat (ucast (drop_bit 8 (of_nat n :: u16)) :: u8) = n div 256"
    using assms by (simp add: high_byte_u16 unat_of_nat_small)
  have "unat (of_nat (n div 80) :: u8) * 80 + unat (of_nat (n mod 80) :: u8) = n" by (simp only: u) simp
  then have "ports (set_cursor_state (cell_ptr n) c) = ports c @
      [(CURSOR_CONTROL_PORT, 0xE), (CURSOR_DATA_PORT, ucast (drop_bit 8 (of_nat n :: u16))),
       (CURSOR_CONTROL_PORT, 0xF), (CURSOR_DATA_PORT, ucast (0xFF AND (of_nat n :: u16)))]"
    using assms
    by (simp add: set_cursor_state_def gotoxy_def Let_def cell_offset_ptr outb_def r [symmetric]
        del: of_nat_add of_nat_mult)
  moreover have "n div 256 * 256 + n mod 256 = n" by simp
  ultimately show ?thesis using lo hi by auto
qed

theorem hardware_cursor_position_witness:
  "\<exists>hi lo. ports (set_cursor_state (cell_ptr 1999) c) =
      ports c @ [(CURSOR_CONTROL_PORT, 0xE), (CURSOR_DATA_PORT, hi), (CURSOR_CONTROL_PORT, 0xF), (CURSOR_DATA_PORT, lo)]
    \<and> unat hi * 256 + unat lo = 1999"
  by (rule hardware_cursor_position) simp

end
