(* ===== verification/File_System.thy ===== *)
theory File_System
  imports Disk Bit_Allocation C_String Console
begin

text \<open>
  kernel/fs/fs.c and include/comm/fs.h: the file system, in the order of its layers: the
  structures and their bytes on disk, the allocation of sectors, reading, overwriting,
  expanding, directories, and the two calls \<open>sys_create\<close> and \<open>sys_write\<close>.

  A C \<open>int\<close> is an \<open>int\<close>; the macros that divide by \<open>SECTOR_SIZE - sizeof(uint32_t)\<close> convert to
  unsigned, which \<open>uint32\<close> writes out. Sector numbers are only ever passed on, as 32 bits. The
  functions without a \<open>return\<close> whose result no caller uses give the new state only.
\<close>

unbundle bit_operations_syntax

section \<open>Structures\<close>

abbreviation FILE_NAME_MAXLENGTH :: nat where "FILE_NAME_MAXLENGTH \<equiv> 64"
abbreviation FILE_PATH_MAXLENGTH :: nat where "FILE_PATH_MAXLENGTH \<equiv> 512"
abbreviation SECTOR_WITH_ROOT_FCB :: u32 where "SECTOR_WITH_ROOT_FCB \<equiv> 1024"
abbreviation VALID_DATA_SIZE_IN_BLOCK :: nat where "VALID_DATA_SIZE_IN_BLOCK \<equiv> 508"
abbreviation FILE_TYPE_NORMAL :: u32 where "FILE_TYPE_NORMAL \<equiv> 0"
abbreviation FILE_TYPE_DIRECTORY :: u32 where "FILE_TYPE_DIRECTORY \<equiv> 1"
abbreviation FILE_TYPE_SOFT_LINK :: u32 where "FILE_TYPE_SOFT_LINK \<equiv> 2"
abbreviation NO_SECTOR :: u32 where "NO_SECTOR \<equiv> 0xFFFFFFFF"
abbreviation FILE_T_SIZE :: nat where "FILE_T_SIZE \<equiv> 84"

record file_t =
  file_name :: "u8 list"
  first_sector :: u32
  last_sector :: u32
  sector_count :: u32
  file_size :: int
  file_type :: u32

record file_io_state_t =
  read_seek :: int
  write_seek :: int
  read_sector :: u32
  write_sector :: u32

record file_path_state_t =
  parent_dir_name :: "u8 list"
  index_in_parent_dir :: int
  has_parent :: bool

record file_cached_t =
  fcb :: file_t
  io_state :: file_io_state_t
  path_state :: file_path_state_t

datatype file_result_t =
    FILE_RESULT_SUCCESS | FILE_RESULT_NO_MORE_DISK_SPACE | FILE_RESULT_ALREADY_EXISTING
  | FILE_RESULT_NOT_EXISTING | FILE_RESULT_DIR_NOT_EXISTING | FILE_RESULT_OUT_OF_INDEX
  | FILE_RESULT_TYPE_ERROR

text \<open>
  The state: the disk, the bitmap of the allocated sectors, the console the debug output goes to,
  and what uninitialised local variables hold, an arbitrary content for each of them: buffers
  in \<open>fs_stack\<close>, \<open>file_cached_t\<close> structures in \<open>fs_cached\<close>.
\<close>

record fs_state =
  fs_disk :: disk
  file_alloc_bitmap :: bitmap_t
  fs_console :: console
  fs_stack :: "nat \<Rightarrow> nat \<Rightarrow> u8"
  fs_cached :: "nat \<Rightarrow> file_cached_t"

definition uninit :: "nat \<Rightarrow> nat \<Rightarrow> fs_state \<Rightarrow> u8 list" where
  "uninit var n s = map (fs_stack s var) [0..<n]"

section \<open>Bytes of the structures\<close>

text \<open>A \<open>file_t\<close> is 84 bytes: the name, then five 32-bit fields.\<close>

definition encode_file :: "file_t \<Rightarrow> u8 list" where
  "encode_file f =
     file_name f @ le32 (first_sector f) @ le32 (last_sector f) @ le32 (sector_count f) @
     le32 (of_int (file_size f)) @ le32 (file_type f)"

definition decode_file :: "u8 list \<Rightarrow> file_t" where
  "decode_file bs =
     \<lparr>file_name = take 64 bs, first_sector = un_le32 (drop 64 bs), last_sector = un_le32 (drop 68 bs),
      sector_count = un_le32 (drop 72 bs), file_size = sint (un_le32 (drop 76 bs)), file_type = un_le32 (drop 80 bs)\<rparr>"

text \<open>A block is 508 bytes of data and the number of the next sector.\<close>

definition next_sector :: "u8 list \<Rightarrow> u32" where
  "next_sector b = un_le32 (drop VALID_DATA_SIZE_IN_BLOCK b)"

definition set_next_sector :: "u32 \<Rightarrow> u8 list \<Rightarrow> u8 list" where
  "set_next_sector w b = take VALID_DATA_SIZE_IN_BLOCK b @ le32 w"

definition uint32 :: "int \<Rightarrow> int" where
  "uint32 x = x mod 2 ^ 32"

definition NTH_BLOCK :: "int \<Rightarrow> int" where
  "NTH_BLOCK x = uint32 x div int VALID_DATA_SIZE_IN_BLOCK"

definition IN_BLOCK_OFFSET :: "int \<Rightarrow> int" where
  "IN_BLOCK_OFFSET x = uint32 x mod int VALID_DATA_SIZE_IN_BLOCK"

text \<open>One sector from and to the disk; the driver is that of include/comm/disk.h.\<close>

definition read_block :: "fs_state \<Rightarrow> u32 \<Rightarrow> u8 list" where
  "read_block s sector = disk_read (fs_disk s) (unat sector) 1"

definition write_block :: "u32 \<Rightarrow> u8 list \<Rightarrow> fs_state \<Rightarrow> fs_state res" where
  "write_block sector bs s =
     (if SECTOR_SIZE \<le> length bs
      then Inr (s\<lparr>fs_disk := disk_write (unat sector) (take SECTOR_SIZE bs) (fs_disk s)\<rparr>)
      else Inl Out_Of_Bounds)"

text \<open>\<open>memcpy(dest + i, src + j, n)\<close>; the length becomes unsigned.\<close>

definition memcpy_at :: "u8 list \<Rightarrow> nat \<Rightarrow> u8 list \<Rightarrow> nat \<Rightarrow> int \<Rightarrow> u8 list res" where
  "memcpy_at dest i src j n =
     rbind (memcpy (drop i dest) (drop j src) (nat (uint32 n))) (\<lambda>d. Inr (take i dest @ d))"

section \<open>Allocation\<close>

definition load_alloc_table :: "fs_state \<Rightarrow> fs_state" where
  "load_alloc_table s =
     (let bs = disk_read (fs_disk s) (unat (KERNEL_DEST + KERNEL_MAX_SIZE)) (1024 - 640) in
      s\<lparr>file_alloc_bitmap := (file_alloc_bitmap s)\<lparr>bits :=
         (\<lambda>i. if 0 \<le> i \<and> i < int (length bs) then bs ! nat i else bits (file_alloc_bitmap s) i)\<rparr>\<rparr>)"

definition save_alloc_table :: "fs_state \<Rightarrow> fs_state" where
  "save_alloc_table s =
     s\<lparr>fs_disk := disk_write (unat (KERNEL_DEST + KERNEL_MAX_SIZE))
        (map (\<lambda>i. bits (file_alloc_bitmap s) (int i)) [0..<(1024 - 640) * SECTOR_SIZE]) (fs_disk s)\<rparr>"

text \<open>
  \<open>file_alloc\<close> has no \<open>return\<close>; compiled without optimisation it leaves the result of
  \<open>bit_alloc\<close> in the result register, and its callers use it.
\<close>

definition file_alloc :: "fs_state \<Rightarrow> fs_state \<times> u32" where
  "file_alloc s =
     (let (bm, n) = bit_alloc (file_alloc_bitmap s) False in (s\<lparr>file_alloc_bitmap := bm\<rparr>, of_int n))"

text \<open>The FCB of the root lies in front of an uninitialised rest of its block.\<close>

definition root_init :: "fs_state \<Rightarrow> fs_state res" where
  "root_init s =
     rbind (strcpy (take FILE_NAME_MAXLENGTH (uninit 0 SECTOR_SIZE s)) [114, 111, 111, 116, 0]) (\<lambda>name.
       let fcb = \<lparr>file_name = name, first_sector = 1025, last_sector = 1025, sector_count = 1,
                  file_size = int FILE_T_SIZE, file_type = FILE_TYPE_DIRECTORY\<rparr>;
           block = set_next_sector NO_SECTOR (encode_file fcb @ drop FILE_T_SIZE (uninit 0 SECTOR_SIZE s));
           bm1 = bit_free (file_alloc_bitmap s) 1024 True;
           bm2 = bit_free bm1 1025 True
       in write_block 1024 block (s\<lparr>file_alloc_bitmap := bm2\<rparr>))"

definition fs_init :: "fs_state \<Rightarrow> fs_state res" where
  "fs_init s =
     (let bm = bit_bind (bits (file_alloc_bitmap s)) ((1024 - 640) * 512 * 8);
          bm1 = fold (\<lambda>i bm. bit_free bm (int i) True) [0..<unat SECTOR_WITH_ROOT_FCB] bm
      in root_init (s\<lparr>file_alloc_bitmap := bm1\<rparr>))"

section \<open>Reading\<close>

text \<open>
  The loop over whole blocks reads each of them straight into the caller's buffer, all 512
  bytes, and takes the number of the next sector from there.
\<close>

primrec read_whole :: "nat \<Rightarrow> file_cached_t \<Rightarrow> u8 list \<Rightarrow> nat \<Rightarrow> fs_state \<Rightarrow> (file_cached_t \<times> u8 list \<times> nat) res" where
  "read_whole 0 f buf off s = Inr (f, buf, off)"
| "read_whole (Suc n) f buf off s =
     rbind (buf_write buf off (read_block s (read_sector (io_state f)))) (\<lambda>buf1.
       read_whole n
         (f\<lparr>io_state := (io_state f)\<lparr>read_sector := next_sector (drop off buf1),
            read_seek := read_seek (io_state f) + int VALID_DATA_SIZE_IN_BLOCK\<rparr>\<rparr>)
         buf1 (off + VALID_DATA_SIZE_IN_BLOCK) s)"

definition sys_read :: "file_cached_t \<Rightarrow> u8 list \<Rightarrow> nat \<Rightarrow> int \<Rightarrow> fs_state \<Rightarrow> (file_result_t \<times> file_cached_t \<times> u8 list) res" where
  "sys_read f buf off len s =
     (let seek = read_seek (io_state f) in
      if seek + len \<le> file_size (fcb f) then
        let temp = read_block s (read_sector (io_state f)) in
        if NTH_BLOCK (seek + len) - NTH_BLOCK seek = 0 then
          rbind (memcpy_at buf off temp (nat (IN_BLOCK_OFFSET seek)) len) (\<lambda>buf1.
            Inr (FILE_RESULT_SUCCESS, f\<lparr>io_state := (io_state f)\<lparr>read_seek := seek + len\<rparr>\<rparr>, buf1))
        else
          let remain = int VALID_DATA_SIZE_IN_BLOCK - IN_BLOCK_OFFSET seek in
          rbind (memcpy_at buf off temp (nat (IN_BLOCK_OFFSET seek)) remain) (\<lambda>buf1.
            let f1 = f\<lparr>io_state := (io_state f)\<lparr>read_seek := seek + remain, read_sector := next_sector temp\<rparr>\<rparr>;
                len1 = len - remain; off1 = off + nat remain; sectors = NTH_BLOCK len1
            in rbind (read_whole (nat sectors) f1 buf1 off1 s) (\<lambda>(f2, buf2, off2).
                 let scattered = IN_BLOCK_OFFSET len1; temp = read_block s (read_sector (io_state f2))
                 in rbind (memcpy_at buf2 off2 temp 0 scattered) (\<lambda>buf3. Inr (FILE_RESULT_SUCCESS, f2, buf3))))
      else Inr (FILE_RESULT_OUT_OF_INDEX, f, buf))"

definition read_all :: "file_t \<Rightarrow> u8 list \<Rightarrow> fs_state \<Rightarrow> u8 list res" where
  "read_all f buf s =
     (let u = fs_cached s 0;
          c = u\<lparr>fcb := f, io_state := (io_state u)\<lparr>read_sector := first_sector f, read_seek := 0\<rparr>\<rparr>
      in rbind (sys_read c buf 0 (file_size f) s) (\<lambda>(_, _, buf1). Inr buf1))"

definition read_remains :: "file_cached_t \<Rightarrow> u8 list \<Rightarrow> fs_state \<Rightarrow> (file_cached_t \<times> u8 list) res" where
  "read_remains f buf s =
     (let remain = file_size (fcb f) - read_seek (io_state f)
      in rbind (sys_read f buf 0 remain s) (\<lambda>(_, f1, buf1). Inr (f1, buf1)))"

section \<open>Moving the pointers\<close>

text \<open>The walk along the chain of sectors, \<open>n\<close> links from \<open>sector\<close>.\<close>

primrec walk :: "nat \<Rightarrow> u32 \<Rightarrow> fs_state \<Rightarrow> u32" where
  "walk 0 sector s = sector"
| "walk (Suc n) sector s = walk n (next_sector (read_block s sector)) s"

definition sys_rseek :: "file_cached_t \<Rightarrow> int \<Rightarrow> fs_state \<Rightarrow> file_result_t \<times> file_cached_t" where
  "sys_rseek f seek s =
     (if seek < file_size (fcb f) then
        (FILE_RESULT_SUCCESS,
         f\<lparr>io_state := (io_state f)\<lparr>read_sector := walk (nat (NTH_BLOCK seek)) (first_sector (fcb f)) s, read_seek := seek\<rparr>\<rparr>)
      else (FILE_RESULT_OUT_OF_INDEX, f))"

definition sys_wseek :: "file_cached_t \<Rightarrow> int \<Rightarrow> fs_state \<Rightarrow> file_result_t \<times> file_cached_t" where
  "sys_wseek f seek s =
     (FILE_RESULT_SUCCESS,
      f\<lparr>io_state := (io_state f)\<lparr>write_sector := walk (nat (NTH_BLOCK seek)) (first_sector (fcb f)) s, write_seek := seek\<rparr>\<rparr>)"

section \<open>Overwriting\<close>

text \<open>
  The loop over whole blocks: 512 bytes of the caller's buffer go to the sector, its link
  included, and the number of the next sector is taken from the buffer.
\<close>

primrec write_whole :: "nat \<Rightarrow> file_cached_t \<Rightarrow> u8 list \<Rightarrow> nat \<Rightarrow> fs_state \<Rightarrow> (file_cached_t \<times> nat \<times> fs_state) res" where
  "write_whole 0 f buf off s = Inr (f, off, s)"
| "write_whole (Suc n) f buf off s =
     rbind (write_block (write_sector (io_state f)) (drop off buf) s) (\<lambda>s1.
       write_whole n
         (f\<lparr>io_state := (io_state f)\<lparr>write_sector := next_sector (drop off buf),
            write_seek := write_seek (io_state f) + int VALID_DATA_SIZE_IN_BLOCK\<rparr>\<rparr>)
         buf (off + VALID_DATA_SIZE_IN_BLOCK) s1)"

definition covering_write :: "file_cached_t \<Rightarrow> u8 list \<Rightarrow> int \<Rightarrow> fs_state \<Rightarrow> (file_cached_t \<times> fs_state) res" where
  "covering_write f buf len s =
     (let seek = write_seek (io_state f); temp = read_block s (write_sector (io_state f)) in
      if NTH_BLOCK (seek + len) - NTH_BLOCK seek = 0 then
        rbind (memcpy_at temp (nat (IN_BLOCK_OFFSET seek)) buf 0 len) (\<lambda>temp1.
        rbind (write_block (write_sector (io_state f)) temp1 s) (\<lambda>s1.
          Inr (f\<lparr>io_state := (io_state f)\<lparr>write_seek := seek + len\<rparr>\<rparr>, s1)))
      else
        let remain = int VALID_DATA_SIZE_IN_BLOCK - IN_BLOCK_OFFSET seek in
        rbind (memcpy_at temp (nat (IN_BLOCK_OFFSET seek)) buf 0 remain) (\<lambda>temp1.
        rbind (write_block (write_sector (io_state f)) temp1 s) (\<lambda>s1.
          let f1 = f\<lparr>io_state := (io_state f)\<lparr>write_seek := seek + remain, write_sector := next_sector temp1\<rparr>\<rparr>;
              len1 = len - remain; sectors = NTH_BLOCK len1
          in rbind (write_whole (nat sectors) f1 buf (nat remain) s1) (\<lambda>(f2, off, s2).
               let scattered = IN_BLOCK_OFFSET len1; temp = read_block s2 (write_sector (io_state f2))
               in rbind (memcpy_at temp 0 buf off scattered) (\<lambda>temp1.
                  rbind (write_block (write_sector (io_state f2)) temp1 s2) (\<lambda>s3.
                    Inr (f2\<lparr>io_state := (io_state f2)\<lparr>write_seek := write_seek (io_state f2) + scattered\<rparr>\<rparr>, s3)))))))"

section \<open>Directories\<close>

text \<open>
  The entries of a directory are compared one after the other; \<open>files\<close> is the buffer they have
  been read into.
\<close>

function search_from :: "nat \<Rightarrow> nat \<Rightarrow> u8 list \<Rightarrow> u8 list \<Rightarrow> nat option res" where
  "search_from i n files name =
     (if i < n then
        rbind (strcmp (drop (FILE_T_SIZE * i) files) name) (\<lambda>c.
          if c = 0 then Inr (Some i) else search_from (i + 1) n files name)
      else Inr None)"
  by pat_completeness auto
termination
  by (relation "measure (\<lambda>(i, n, files, name). n - i)") auto

declare search_from.simps [simp del]

text \<open>The target and the index are passed back when the file is found.\<close>

definition dir_search_file :: "file_t \<Rightarrow> u8 list \<Rightarrow> fs_state \<Rightarrow> (file_result_t \<times> (file_t \<times> int) option) res" where
  "dir_search_file dir name s =
     rbind (read_all dir (uninit 1 (512 * FILE_T_SIZE) s) s) (\<lambda>files.
     rbind (search_from 0 (nat (uint32 (file_size dir) div int FILE_T_SIZE)) files name) (\<lambda>r.
       case r of
         Some i \<Rightarrow> Inr (FILE_RESULT_SUCCESS, Some (decode_file (slice (FILE_T_SIZE * i) FILE_T_SIZE files), int i))
       | None \<Rightarrow> Inr (FILE_RESULT_NOT_EXISTING, None)))"

text \<open>
  The loop of \<open>load_file_cached\<close> over the path. \<open>temp\<close> has 64 bytes, and \<open>j\<close> is not checked
  against its length. The result is the return value when the loop returns.
\<close>

function load_from :: "u8 list \<Rightarrow> nat \<Rightarrow> nat \<Rightarrow> u8 list \<Rightarrow> nat \<Rightarrow> file_cached_t \<Rightarrow> fs_state \<Rightarrow>
    (file_result_t option \<times> file_cached_t) res" where
  "load_from path len i temp j f s =
     (if i < len then
        if path ! i = 47 then
          rbind (buf_write temp j [0]) (\<lambda>temp1.
          rbind (dir_search_file (fcb f) temp1 s) (\<lambda>(r, found).
            case found of
              None \<Rightarrow> Inr (Some (if int i \<ge> int len - 1 then FILE_RESULT_NOT_EXISTING else FILE_RESULT_DIR_NOT_EXISTING), f)
            | Some (target, index) \<Rightarrow>
                load_from path len (i + 1) temp1 0
                  (f\<lparr>fcb := target, path_state := (path_state f)\<lparr>index_in_parent_dir := index\<rparr>\<rparr>) s))
        else rbind (buf_write temp j [path ! i]) (\<lambda>temp1. load_from path len (i + 1) temp1 (j + 1) f s)
      else Inr (None, f))"
  by pat_completeness auto
termination
  by (relation "measure (\<lambda>(path, len, i, temp, j, f, s). len - i)") auto

declare load_from.simps [simp del]

definition load_file_cached :: "u8 list \<Rightarrow> file_cached_t \<Rightarrow> fs_state \<Rightarrow> (file_result_t \<times> file_cached_t) res" where
  "load_file_cached path f s =
     rbind (strlen path) (\<lambda>len.
       let root_buf = read_block s SECTOR_WITH_ROOT_FCB;
           f1 = f\<lparr>fcb := decode_file (take FILE_T_SIZE root_buf)\<rparr>
       in rbind (load_from path len 0 (uninit 2 FILE_NAME_MAXLENGTH s) 0 f1 s) (\<lambda>(r, f2).
         case r of
           Some e \<Rightarrow> Inr (e, f2)
         | None \<Rightarrow>
             let sector = first_sector (fcb f2);
                 f3 = f2\<lparr>io_state := \<lparr>read_seek = 0, write_seek = 0, read_sector = sector, write_sector = sector\<rparr>\<rparr>
             in rbind (strcmp path [0]) (\<lambda>c.
               if c = 0 then Inr (FILE_RESULT_SUCCESS, f3\<lparr>path_state := (path_state f3)\<lparr>has_parent := False\<rparr>\<rparr>)
               else
                 rbind (get_parent_dir_name path (uninit 3 FILE_PATH_MAXLENGTH s)) (\<lambda>parent.
                 rbind (strcpy (parent_dir_name (path_state f3)) parent) (\<lambda>name.
                   Inr (FILE_RESULT_SUCCESS,
                     f3\<lparr>path_state := (path_state f3)\<lparr>has_parent := True, parent_dir_name := name\<rparr>\<rparr>))))))"

definition store_file_cached :: "file_cached_t \<Rightarrow> fs_state \<Rightarrow> fs_state res" where
  "store_file_cached f s =
     rbind (load_file_cached (parent_dir_name (path_state f)) (fs_cached s 1) s) (\<lambda>(r, parent_dir).
       if r = FILE_RESULT_SUCCESS then
         if has_parent (path_state f) then
           let (_, parent_dir1) = sys_wseek parent_dir (int FILE_T_SIZE * index_in_parent_dir (path_state f)) s
           in rbind (covering_write parent_dir1 (encode_file (fcb f)) (int FILE_T_SIZE) s) (\<lambda>(_, s1). Inr s1)
         else
           rbind (memcpy (uninit 4 SECTOR_SIZE s) (encode_file (fcb f)) FILE_T_SIZE) (\<lambda>temp.
             write_block SECTOR_WITH_ROOT_FCB temp s)
       else Inr s)"

section \<open>Growing, creating, writing\<close>

primrec expand_loop :: "nat \<Rightarrow> file_cached_t \<Rightarrow> fs_state \<Rightarrow> (file_cached_t \<times> fs_state) res" where
  "expand_loop 0 f s = Inr (f, s)"
| "expand_loop (Suc n) f s =
     (let (s0, new_last_sector) = file_alloc s;
          old_last_sector = last_sector (fcb f)
      in rbind (write_block old_last_sector (set_next_sector new_last_sector (read_block s0 old_last_sector)) s0) (\<lambda>s1.
         rbind (write_block new_last_sector (set_next_sector NO_SECTOR (read_block s1 new_last_sector)) s1) (\<lambda>s2.
           expand_loop n (f\<lparr>fcb := (fcb f)\<lparr>last_sector := new_last_sector\<rparr>\<rparr>) s2)))"

definition file_expand :: "file_cached_t \<Rightarrow> int \<Rightarrow> fs_state \<Rightarrow> (file_cached_t \<times> fs_state) res" where
  "file_expand f need s =
     rbind (expand_loop (nat need) f s) (\<lambda>(f1, s1).
       let f2 = f1\<lparr>fcb := (fcb f1)\<lparr>sector_count := sector_count (fcb f1) + of_int need\<rparr>\<rparr>
       in rbind (store_file_cached f2 s1) (\<lambda>s2. Inr (f2, s2)))"

text \<open>
  The debug output of \<open>sys_write\<close>: a label, the first 64 bytes of the buffer, a line break.
\<close>

definition dump :: "u8 \<Rightarrow> u8 list \<Rightarrow> fs_state \<Rightarrow> fs_state res" where
  "dump label temp s =
     rbind (printf [label, 58, 0] (fs_console s)) (\<lambda>c.
       Inr (s\<lparr>fs_console := println (fold (\<lambda>i. putchar (scast (temp ! i))) [0..<64] c)\<rparr>))"

text \<open>The loop that shifts the rest of the file up, from its last byte to its first.\<close>

primrec shift_up :: "nat \<Rightarrow> int \<Rightarrow> u8 list \<Rightarrow> u8 list res" where
  "shift_up 0 len temp = Inr temp"
| "shift_up (Suc i) len temp =
     (if i < length temp then
        if 0 \<le> len + int i then
          rbind (buf_write temp (nat (len + int i)) [temp ! i]) (shift_up i len)
        else Inl Out_Of_Bounds
      else Inl Out_Of_Bounds)"

definition sys_write :: "file_cached_t \<Rightarrow> u8 list \<Rightarrow> int \<Rightarrow> fs_state \<Rightarrow> (file_cached_t \<times> fs_state) res" where
  "sys_write f buf len s =
     (let blocks = uint32 (NTH_BLOCK (file_size (fcb f) + len) + 1) in
      rbind
        (if blocks > int (unat (sector_count (fcb f))) then
           let need = sint (of_int (blocks - int (unat (sector_count (fcb f)))) :: u32) in
           if need \<le> 0 then Inl Hang else file_expand f need s
         else Inr (f, s)) (\<lambda>(f1, s1).
       let temp = uninit 5 4096 s1;
           old_read_seek = read_seek (io_state f1);
           old_write_seek = write_seek (io_state f1) + len;
           remain = file_size (fcb f1) - write_seek (io_state f1);
           (_, f2) = sys_rseek f1 (write_seek (io_state f1)) s1
       in rbind (read_remains f2 temp s1) (\<lambda>(f3, temp1).
          rbind (dump 65 temp1 s1) (\<lambda>s2.
          rbind (shift_up (nat remain) len temp1) (\<lambda>temp2.
          rbind (dump 66 temp2 s2) (\<lambda>s3.
          rbind (memcpy temp2 buf (nat (uint32 len))) (\<lambda>temp3.
          rbind (dump 67 temp3 s3) (\<lambda>s4.
          rbind (covering_write f3 temp3 (remain + len) s4) (\<lambda>(f4, s5).
            let (_, f5) = sys_wseek f4 old_write_seek s5;
                (_, f6) = sys_rseek f5 old_read_seek s5;
                f7 = f6\<lparr>fcb := (fcb f6)\<lparr>file_size := file_size (fcb f6) + len\<rparr>\<rparr>
            in rbind (store_file_cached f7 s5) (\<lambda>s6. Inr (f7, s6)))))))))))"

text \<open>
  \<open>sys_create\<close> marks the end of the new chain with 0xFFFFFFF, one digit short; its result is
  not set.
\<close>

definition sys_create :: "file_cached_t \<Rightarrow> u8 list \<Rightarrow> u32 \<Rightarrow> fs_state \<Rightarrow> (file_cached_t \<times> fs_state) res" where
  "sys_create dir name ftype s =
     rbind (strcpy (uninit 6 FILE_NAME_MAXLENGTH s) name) (\<lambda>fname.
       let (s1, sector) = file_alloc s;
           new_file = \<lparr>file_name = fname, first_sector = sector, last_sector = sector, sector_count = 1,
                       file_size = 0, file_type = ftype\<rparr>
       in rbind (write_block sector (set_next_sector 0xFFFFFFF (uninit 7 SECTOR_SIZE s1)) s1) (\<lambda>s2.
            sys_write dir (encode_file new_file) (int FILE_T_SIZE) s2))"

section \<open>Debug output\<close>

definition print_hex :: "u32 \<Rightarrow> console \<Rightarrow> console res" where
  "print_hex w c = rbind (get_itoa w 16 (replicate 32 0)) (\<lambda>text. printf text c)"

text \<open>A string constant as the code passes it, with its terminator.\<close>

definition c_lit :: "string \<Rightarrow> u8 list" where
  "c_lit t = map (\<lambda>c. of_nat (of_char c)) t @ [0]"

definition print_file_cached_info :: "file_cached_t \<Rightarrow> fs_state \<Rightarrow> fs_state res" where
  "print_file_cached_info f s =
     rbind (printf (c_lit ''{'') (fs_console s)) (\<lambda>c.
     rbind (printf (c_lit ''first sector:'') c) (\<lambda>c. rbind (print_hex (first_sector (fcb f)) c) (\<lambda>c.
     rbind (printf (c_lit '',read sector:'') c) (\<lambda>c. rbind (print_hex (read_sector (io_state f)) c) (\<lambda>c.
     rbind (printf (c_lit '',write sector:'') c) (\<lambda>c. rbind (print_hex (write_sector (io_state f)) c) (\<lambda>c.
     rbind (printf (c_lit '',read seek:'') c) (\<lambda>c. rbind (print_hex (of_int (read_seek (io_state f))) c) (\<lambda>c.
     rbind (printf (c_lit '',write seek:'') c) (\<lambda>c. rbind (print_hex (of_int (write_seek (io_state f))) c) (\<lambda>c.
     rbind (printf (c_lit '',parent_dir_name:'') c) (\<lambda>c. rbind (printf (parent_dir_name (path_state f)) c) (\<lambda>c.
     rbind (printf (c_lit '',index in parent dir:'') c) (\<lambda>c.
     rbind (print_hex (of_int (index_in_parent_dir (path_state f))) c) (\<lambda>c.
     rbind (printf (c_lit ''}'') c) (\<lambda>c. Inr (s\<lparr>fs_console := c\<rparr>)))))))))))))))))"

end
