(* ===== verification/File_Read.thy ===== *)
theory File_Read
  imports File_System
begin

text \<open>
  Reading. A file is a chain of blocks on the disk (\<open>chain\<close>); its bytes are the 508 data bytes
  of each, joined. The lemmas relate \<open>sys_read\<close>, \<open>sys_rseek\<close> and \<open>sys_wseek\<close> to these bytes, and
  the 84 bytes of a \<open>file_t\<close> to its fields.
\<close>

section \<open>Layout\<close>

definition wf_file :: "file_t \<Rightarrow> bool" where
  "wf_file f \<longleftrightarrow> length (file_name f) = FILE_NAME_MAXLENGTH \<and> - (2 ^ 31) \<le> file_size f \<and> file_size f < 2 ^ 31"

lemma length_encode [simp]: "wf_file f \<Longrightarrow> length (encode_file f) = FILE_T_SIZE"
  by (simp add: wf_file_def encode_file_def)

lemma sint_of_int_u32: "- (2 ^ 31) \<le> x \<Longrightarrow> x < 2 ^ 31 \<Longrightarrow> sint (of_int x :: u32) = x"
  by (simp add: signed_of_int signed_take_bit_int_eq_self)

lemma decode_encode [byte_layout]: "wf_file f \<Longrightarrow> decode_file (encode_file f @ xs) = f"
  by (simp add: wf_file_def decode_file_def encode_file_def sint_of_int_u32)

lemma le32_un_le32: "length bs = 4 \<Longrightarrow> le32 (un_le32 bs) = bs"
proof -
  assume "length bs = 4"
  then have "length bs = Suc (Suc (Suc (Suc 0)))" by simp
  then show ?thesis by (auto simp: le32_def length_Suc_conv)
qed

lemma un_le32_take: "4 \<le> length bs \<Longrightarrow> un_le32 (take 4 bs) = un_le32 bs"
  by (rule un_le32.cases [of bs]) (auto simp: eval_nat_numeral)

lemma le32_drop: "k + 4 \<le> length bs \<Longrightarrow> le32 (un_le32 (drop k bs)) = slice k 4 bs"
  using le32_un_le32 [of "take 4 (drop k bs)"] un_le32_take [of "drop k bs"] by (simp add: slice_def)

lemma encode_decode [byte_layout]: "length bs = FILE_T_SIZE \<Longrightarrow> encode_file (decode_file bs) = bs"
proof -
  assume n: "length bs = FILE_T_SIZE"
  have "encode_file (decode_file bs) = slice 0 64 bs @ slice 64 4 bs @ slice 68 4 bs @ slice 72 4 bs @ slice 76 4 bs @ slice 80 4 bs"
    using n by (simp add: encode_file_def decode_file_def le32_drop) (simp add: slice_def)
  also have "\<dots> = slice 0 84 bs" using slice_append [of 0 64 20 bs] slice_append [of 64 4 16 bs]
    slice_append [of 68 4 12 bs] slice_append [of 72 4 8 bs] slice_append [of 76 4 4 bs] by simp
  finally show ?thesis using n slice_all [of bs] by simp
qed

lemma wf_decode: "FILE_NAME_MAXLENGTH \<le> length bs \<Longrightarrow> wf_file (decode_file bs)"
  using sint_ge [of "un_le32 (drop 76 bs)"] sint_lt [of "un_le32 (drop 76 bs)"]
  by (simp add: wf_file_def decode_file_def)

lemma next_set_next [simp, byte_layout]: "508 \<le> length b \<Longrightarrow> next_sector (set_next_sector w b) = w"
  by (simp add: next_sector_def set_next_sector_def)

lemma length_set_next [simp]: "508 \<le> length b \<Longrightarrow> length (set_next_sector w b) = 512"
  by (simp add: set_next_sector_def)

lemma un_le32_append: "4 \<le> length bs \<Longrightarrow> un_le32 (bs @ xs) = un_le32 bs"
  by (rule un_le32.cases [of bs]) (auto simp: eval_nat_numeral)

lemma next_sector_append: "length b = 512 \<Longrightarrow> next_sector (b @ xs) = next_sector b"
  by (simp add: next_sector_def un_le32_append)

lemma read_block_eq: "read_block s w = fs_disk s (unat w)"
  using disk_read_one [of "fs_disk s" "unat w"] by (simp add: read_block_def)

lemma write_block_eq: "length bs = 512 \<Longrightarrow> write_block w bs s = Inr (s\<lparr>fs_disk := (fs_disk s)(unat w := bs)\<rparr>)"
  by (simp add: write_block_def disk_write_one)

lemma uint32_of_nat: "n < 2 ^ 32 \<Longrightarrow> uint32 (int n) = int n"
  by (simp add: uint32_def)

lemma NTH_BLOCK_of_nat: "n < 2 ^ 32 \<Longrightarrow> NTH_BLOCK (int n) = int (n div 508)"
  by (simp add: NTH_BLOCK_def uint32_def zdiv_int)

lemma IN_BLOCK_OFFSET_of_nat: "n < 2 ^ 32 \<Longrightarrow> IN_BLOCK_OFFSET (int n) = int (n mod 508)"
  by (simp add: IN_BLOCK_OFFSET_def uint32_def zmod_int)

lemma memcpy_at_ok:
  assumes "n < 2 ^ 32" "j + n \<le> length src" "i + n \<le> length dest"
  shows "memcpy_at dest i src j (int n) = Inr (overwrite dest i (slice j n src))"
proof -
  have "n \<le> length src - j" "n \<le> length dest - i" using assms(2,3) by linarith+
  with assms(1) show ?thesis by (simp add: memcpy_at_def uint32_of_nat memcpy_ok overwrite_def slice_def add.commute)
qed

lemma buf_write_ok: "off + length xs \<le> length buf \<Longrightarrow> buf_write buf off xs = Inr (overwrite buf off xs)"
  by (simp add: buf_write_def)

section \<open>Chains of blocks\<close>

fun chain :: "disk \<Rightarrow> u32 \<Rightarrow> u32 list \<Rightarrow> bool" where
  "chain dk w [] \<longleftrightarrow> True"
| "chain dk w (x # xs) \<longleftrightarrow> w = x \<and> chain dk (next_sector (dk (unat x))) xs"

definition block_data :: "disk \<Rightarrow> u32 \<Rightarrow> u8 list" where
  "block_data dk w = take VALID_DATA_SIZE_IN_BLOCK (dk (unat w))"

definition file_bytes :: "disk \<Rightarrow> u32 list \<Rightarrow> u8 list" where
  "file_bytes dk ss = concat (map (block_data dk) ss)"

lemma length_block [simp]: "disk_ok dk \<Longrightarrow> length (dk i) = 512"
  by (simp add: disk_ok_def)

lemma length_block_data [simp]: "disk_ok dk \<Longrightarrow> length (block_data dk w) = 508"
  by (simp add: block_data_def)

lemma length_file_bytes [simp]: "disk_ok dk \<Longrightarrow> length (file_bytes dk ss) = 508 * length ss"
  by (induction ss) (simp_all add: file_bytes_def)

lemma chain_next: "chain dk w ss \<Longrightarrow> Suc k < length ss \<Longrightarrow> next_sector (dk (unat (ss ! k))) = ss ! Suc k"
proof (induction ss arbitrary: w k)
  case (Cons x xs)
  then show ?case by (cases k) (auto simp: neq_Nil_conv)
qed simp

lemma chain_first: "chain dk w ss \<Longrightarrow> 0 < length ss \<Longrightarrow> w = ss ! 0"
  by (cases ss) auto

lemma walk_chain:
  "chain (fs_disk s) w ss \<Longrightarrow> k < length ss \<Longrightarrow> walk k w s = ss ! k"
proof (induction k arbitrary: w ss)
  case 0
  then show ?case using chain_first [of "fs_disk s" w ss] by simp
next
  case (Suc k)
  then obtain x xs where "ss = x # xs" "w = x" "chain (fs_disk s) (next_sector (fs_disk s (unat x))) xs" "k < length xs"
    by (cases ss) auto
  with Suc.IH show ?case by (simp add: read_block_eq)
qed

lemma slice_concat:
  assumes "\<forall>b \<in> set bs. length b = m" "k < length bs" "off + n \<le> m"
  shows "slice (m * k + off) n (concat bs) = slice off n (bs ! k)"
  using assms
proof (induction bs arbitrary: k)
  case (Cons b bs)
  show ?case
  proof (cases k)
    case 0
    with Cons.prems show ?thesis by (simp add: slice_def)
  next
    case (Suc l)
    with Cons.prems Cons.IH [of l] have "slice (m * l + off) n (concat bs) = slice off n (bs ! l)" by simp
    then show ?thesis using Suc Cons.prems by (simp add: slice_def add.assoc)
  qed
qed simp

lemma slice_file_bytes:
  assumes "disk_ok dk" "k < length ss" "off + n \<le> 508"
  shows "slice (508 * k + off) n (file_bytes dk ss) = slice off n (dk (unat (ss ! k)))"
proof -
  have "slice (508 * k + off) n (file_bytes dk ss) = slice off n (map (block_data dk) ss ! k)"
    unfolding file_bytes_def by (rule slice_concat) (use assms in auto)
  then show ?thesis using assms by (simp add: block_data_def slice_def drop_take min_def)
qed

section \<open>Reading into a buffer\<close>

text \<open>
  \<open>buf'\<close> is \<open>buf\<close> with \<open>xs\<close> at \<open>off\<close>; the four bytes behind \<open>xs\<close> may have changed as well, since
  whole blocks are read with their link.
\<close>

definition reads_to :: "u8 list \<Rightarrow> nat \<Rightarrow> u8 list \<Rightarrow> u8 list \<Rightarrow> bool" where
  "reads_to buf off xs buf' \<longleftrightarrow> length buf' = length buf \<and> take off buf' = take off buf \<and>
     slice off (length xs) buf' = xs \<and> drop (off + length xs + 4) buf' = drop (off + length xs + 4) buf"

lemma reads_to_Nil: "off \<le> length buf \<Longrightarrow> reads_to buf off [] buf"
  by (simp add: reads_to_def)

lemma reads_to_length: "reads_to buf off xs buf' \<Longrightarrow> length buf' = length buf"
  by (simp add: reads_to_def)

lemma reads_to_overwrite: "off + length xs \<le> length buf \<Longrightarrow> reads_to buf off xs (overwrite buf off xs)"
  by (simp add: reads_to_def) (simp add: overwrite_def add.commute)

lemma reads_to_overwrite4:
  "off + length xs + 4 \<le> length buf \<Longrightarrow> length ys = 4 \<Longrightarrow> reads_to buf off xs (overwrite buf off (xs @ ys))"
  by (simp add: reads_to_def overwrite_def slice_def add.assoc)

lemma slice_take: "a + n \<le> k \<Longrightarrow> slice a n (take k xs) = slice a n xs"
  by (simp add: slice_def drop_take min_def)

lemma reads_to_trans:
  assumes "reads_to buf off xs b1" "reads_to b1 (off + length xs) ys b2"
  shows "reads_to buf off (xs @ ys) b2"
proof -
  from assms(2) have t: "take (off + length xs) b2 = take (off + length xs) b1" by (simp add: reads_to_def)
  have "take off b2 = take off b1" using arg_cong [OF t, of "take off"] by simp
  moreover have "slice off (length xs) b2 = slice off (length xs) b1"
    using arg_cong [OF t, of "slice off (length xs)"] by (simp add: slice_take)
  moreover have "drop (off + (length xs + length ys) + 4) b1 = drop (off + (length xs + length ys) + 4) buf"
  proof -
    from assms(1) have "drop (off + length xs + 4) b1 = drop (off + length xs + 4) buf" by (simp add: reads_to_def)
    from arg_cong [OF this, of "drop (length ys)"] show ?thesis by (simp add: ac_simps)
  qed
  ultimately show ?thesis
    using assms unfolding reads_to_def by (simp add: slice_append add.assoc)
qed

lemma read_whole_ok:
  assumes "disk_ok (fs_disk s)" "chain (fs_disk s) w ss" "k + m < length ss" "read_sector (io_state f) = ss ! k"
    "off \<le> length buf" "m = 0 \<or> off + 508 * m + 4 \<le> length buf"
  shows "\<exists>buf'. read_whole m f buf off s =
      Inr (f\<lparr>io_state := (io_state f)\<lparr>read_sector := ss ! (k + m), read_seek := read_seek (io_state f) + int (508 * m)\<rparr>\<rparr>,
           buf', off + 508 * m) \<and>
    reads_to buf off (slice (508 * k) (508 * m) (file_bytes (fs_disk s) ss)) buf'"
  using assms(3-6)
proof (induction m arbitrary: k f buf off)
  case 0
  then have "f = f\<lparr>io_state := (io_state f)\<lparr>read_sector := ss ! k\<rparr>\<rparr>" by simp
  with 0 reads_to_Nil [of off buf] show ?case by simp
next
  case (Suc m)
  let ?dk = "fs_disk s" and ?D = "file_bytes (fs_disk s) ss"
  let ?b = "?dk (unat (ss ! k))"
  let ?buf1 = "overwrite buf off ?b"
  have room: "off + 508 + 4 \<le> length buf" using Suc.prems(4) by simp
  then have w: "buf_write buf off ?b = Inr ?buf1" using assms(1) by (intro buf_write_ok) simp
  have b: "?b = slice (508 * k) 508 ?D @ drop 508 ?b"
    using slice_file_bytes [OF assms(1), of k ss 0 508] Suc.prems(1) by (simp add: slice_def)
  have l: "length (slice (508 * k) 508 ?D) = 508"
    using Suc.prems(1) assms(1) by (intro length_slice) simp
  have r1: "reads_to buf off (slice (508 * k) 508 ?D) ?buf1"
    by (subst b, rule reads_to_overwrite4) (use room l assms(1) in simp_all)
  have "drop off ?buf1 = ?b @ drop (off + 512) buf" using room assms(1) by (simp add: overwrite_def)
  then have nx: "next_sector (drop off ?buf1) = ss ! Suc k"
    using chain_next [OF assms(2), of k] Suc.prems(1) assms(1)
    by (simp add: next_sector_append)
  define f1 where "f1 = f\<lparr>io_state := (io_state f)\<lparr>read_sector := ss ! Suc k, read_seek := read_seek (io_state f) + 508\<rparr>\<rparr>"
  have "length ?buf1 = length buf" using room assms(1) by simp
  then have P: "Suc k + m < length ss" "read_sector (io_state f1) = ss ! Suc k" "off + 508 \<le> length ?buf1"
    "m = 0 \<or> off + 508 + 508 * m + 4 \<le> length ?buf1"
    using Suc.prems(1,4) room by (simp_all add: f1_def)
  obtain buf' where b': "read_whole m f1 ?buf1 (off + 508) s =
      Inr (f1\<lparr>io_state := (io_state f1)\<lparr>read_sector := ss ! (Suc k + m), read_seek := read_seek (io_state f1) + int (508 * m)\<rparr>\<rparr>,
        buf', off + 508 + 508 * m)"
      "reads_to ?buf1 (off + 508) (slice (508 * Suc k) (508 * m) ?D) buf'"
    using Suc.IH [OF P] by blast
  have "read_whole (Suc m) f buf off s = read_whole m f1 ?buf1 (off + 508) s"
    using Suc.prems(2) by (simp add: read_block_eq w nx f1_def)
  moreover have "reads_to buf off (slice (508 * k) (508 + 508 * m) ?D) buf'"
    using reads_to_trans [OF r1] b'(2) l by (simp add: slice_append ac_simps)
  ultimately show ?case using b'(1) by (simp add: f1_def ac_simps)
qed

lemma read_whole_last:
  "read_whole (Suc l) f buf off s =
   rbind (read_whole l f buf off s) (\<lambda>x. read_whole (Suc 0) (fst x) (fst (snd x)) (snd (snd x)) s)"
proof (induction l arbitrary: f buf off)
  case (Suc l)
  let ?K = "\<lambda>x. read_whole (Suc 0) (fst x) (fst (snd x)) (snd (snd x)) s"
  let ?f = "\<lambda>buf1. f\<lparr>io_state := (io_state f)\<lparr>read_sector := next_sector (drop off buf1),
            read_seek := read_seek (io_state f) + int VALID_DATA_SIZE_IN_BLOCK\<rparr>\<rparr>"
  have "read_whole (Suc (Suc l)) f buf off s =
      rbind (buf_write buf off (read_block s (read_sector (io_state f)))) (\<lambda>buf1. read_whole (Suc l) (?f buf1) buf1 (off + 508) s)"
    by (rule read_whole.simps(2))
  also have "\<dots> = rbind (buf_write buf off (read_block s (read_sector (io_state f))))
      (\<lambda>buf1. rbind (read_whole l (?f buf1) buf1 (off + 508) s) ?K)"
    by (simp only: Suc.IH)
  also have "\<dots> = rbind (read_whole (Suc l) f buf off s) ?K"
    by (simp only: read_whole.simps(2) [of l] rbind_assoc)
  finally show ?case .
qed simp

lemma read_whole_overrun:
  assumes "disk_ok (fs_disk s)" "chain (fs_disk s) w ss" "k + m < length ss" "read_sector (io_state f) = ss ! k"
    "0 < m" "length buf < off + 508 * m + 4" "off + 508 * m \<le> length buf"
  shows "read_whole m f buf off s = Inl Out_Of_Bounds"
proof -
  obtain l where m: "m = Suc l" using assms(5) by (cases m) auto
  from read_whole_ok [OF assms(1,2), of k l f off buf] assms obtain f1 buf1 where
    f1: "read_whole l f buf off s = Inr (f1, buf1, off + 508 * l)" "reads_to buf off (slice (508 * k) (508 * l) (file_bytes (fs_disk s) ss)) buf1"
    by (auto simp: m)
  have "read_whole m f buf off s = read_whole (Suc 0) f1 buf1 (off + 508 * l) s"
    unfolding m by (subst read_whole_last) (simp add: f1(1) del: read_whole.simps)
  then show ?thesis
    using f1(2) assms(1,6) m by (simp add: reads_to_def buf_write_def read_block_eq)
qed

section \<open>\<open>sys_read\<close>\<close>

text \<open>
  A cached file is consistent with the disk when its pointers are: the sector numbers are those of
  the chain at the positions, and the chain has a block for the position behind the last byte.
\<close>

definition file_on :: "disk \<Rightarrow> file_t \<Rightarrow> u32 list \<Rightarrow> bool" where
  "file_on dk f ss \<longleftrightarrow> chain dk (first_sector f) ss \<and> 0 \<le> file_size f \<and> file_size f < 2 ^ 31 \<and>
     nat (file_size f) div 508 < length ss"

lemma block_split: "(p + n) div 508 = p div 508 + (p mod 508 + n) div (508 :: nat)"
proof -
  have "p + n = (p mod 508 + n) + 508 * (p div 508)" using mult_div_mod_eq [of 508 p] by linarith
  then show ?thesis using div_mult_self2 [of 508 "p mod 508 + n" "p div 508"] by simp
qed

lemma nat_same_block: "(p + n) div 508 = p div (508 :: nat) \<Longrightarrow> p mod 508 + n < 508"
  unfolding block_split [of p n] by (simp add: div_eq_0_iff)

lemma past_block: "y < 508 \<Longrightarrow> 508 - y \<le> n \<Longrightarrow> p = 508 * x + y \<Longrightarrow> p + n = 508 * Suc x + (n - (508 - y))"
  for n p x y :: nat
  by simp

lemma nat_next_block:
  assumes "(p + n) div 508 \<noteq> p div (508 :: nat)"
  shows "508 - p mod 508 \<le> n" "(n - (508 - p mod 508)) div 508 + Suc (p div 508) = (p + n) div 508"
    "(n - (508 - p mod 508)) mod 508 = (p + n) mod 508"
    "508 - p mod 508 + 508 * ((n - (508 - p mod 508)) div 508) + (p + n) mod 508 = n"
proof -
  have "\<not> p mod 508 + n < 508" using assms unfolding block_split [of p n] by simp
  then show le: "508 - p mod 508 \<le> n" by linarith
  define q where "q = n - (508 - p mod 508)"
  have e: "p + n = 508 * Suc (p div 508) + q" unfolding q_def
    by (rule past_block) (use le in simp_all)
  show d: "(n - (508 - p mod 508)) div 508 + Suc (p div 508) = (p + n) div 508"
    unfolding q_def [symmetric] e by simp
  show m: "(n - (508 - p mod 508)) mod 508 = (p + n) mod 508"
    unfolding q_def [symmetric] e by (rule mod_mult_self4 [symmetric])
  show "508 - p mod 508 + 508 * ((n - (508 - p mod 508)) div 508) + (p + n) mod 508 = n"
    unfolding m [symmetric] using le by simp
qed

lemma read_pieces:
  assumes "(p + n) div 508 \<noteq> p div (508 :: nat)"
  obtains r m t where "r = 508 - p mod 508" "m = (n - r) div 508" "t = (n - r) mod 508" "t < 508"
    "p mod 508 + r = 508" "n = r + 508 * m + t" "508 * Suc (p div 508) = p + r"
    "Suc (p div 508) + m = (p + n) div 508" "508 * ((p + n) div 508) = p + r + 508 * m"
proof -
  define r where "r = 508 - p mod 508"
  note B = nat_next_block [OF assms, folded r_def]
  have r: "p mod 508 + r = 508" by (simp add: r_def)
  have d: "508 * Suc (p div 508) = p + r" unfolding mult_Suc_right using mult_div_mod_eq [of 508 p] r by linarith
  have q: "Suc (p div 508) + (n - r) div 508 = (p + n) div 508" using B(2) by simp
  show ?thesis
  proof (rule that [OF r_def refl refl _ r _ d q])
    show "508 * ((p + n) div 508) = p + r + 508 * ((n - r) div 508)"
      unfolding q [symmetric] add_mult_distrib2 d by (rule refl)
  qed (use B(3,4) in simp_all)
qed

lemma slice_pieces: "slice p (a + b + c) xs = slice p a xs @ slice (p + a) b xs @ slice (p + a + b) c xs"
  by (simp add: slice_append add.assoc)

text \<open>The first and the last, partial block are copied out of a temporary buffer.\<close>

lemma copy_from_block:
  assumes "disk_ok dk" "k < length ss" "j + n \<le> 508" "off + n \<le> length buf"
  shows "\<exists>b. memcpy_at buf off (dk (unat (ss ! k))) j (int n) = Inr b \<and>
    reads_to buf off (slice (508 * k + j) n (file_bytes dk ss)) b"
proof -
  note e = slice_file_bytes [OF assms(1-3)]
  have "memcpy_at buf off (dk (unat (ss ! k))) j (int n) = Inr (overwrite buf off (slice (508 * k + j) n (file_bytes dk ss)))"
    using memcpy_at_ok [of n j "dk (unat (ss ! k))" off buf] assms e by simp
  moreover have "length (slice (508 * k + j) n (file_bytes dk ss)) = n" using assms(1,3) by (simp add: e)
  ultimately show ?thesis using reads_to_overwrite assms(4) by simp
qed

lemma seek_numbers:
  assumes "p + n < 2 ^ 32"
  shows "NTH_BLOCK (int p) = int (p div 508)" "IN_BLOCK_OFFSET (int p) = int (p mod 508)"
    "NTH_BLOCK (int p + int n) = int ((p + n) div 508)" "NTH_BLOCK (int n) = int (n div 508)" "IN_BLOCK_OFFSET (int n) = int (n mod 508)"
proof -
  have "p < 2 ^ 32" "n < 2 ^ 32" "p + n < 2 ^ 32" using assms by simp_all
  then show "NTH_BLOCK (int p) = int (p div 508)" "IN_BLOCK_OFFSET (int p) = int (p mod 508)"
    "NTH_BLOCK (int p + int n) = int ((p + n) div 508)" "NTH_BLOCK (int n) = int (n div 508)" "IN_BLOCK_OFFSET (int n) = int (n mod 508)"
    using NTH_BLOCK_of_nat [of p] IN_BLOCK_OFFSET_of_nat [of p] NTH_BLOCK_of_nat [of "p + n"] NTH_BLOCK_of_nat [of n] IN_BLOCK_OFFSET_of_nat [of n]
    by simp_all
qed

lemma reads_to_slices:
  assumes "reads_to buf off (slice p a xs) b1" "reads_to b1 (off + a) (slice (p + a) b xs) b2"
    "reads_to b2 (off + a + b) (slice (p + a + b) c xs) b3" "p + a + b \<le> length xs"
  shows "reads_to buf off (slice p (a + b + c) xs) b3"
proof -
  have l: "length (slice p a xs) = a" "length (slice (p + a) b xs) = b" using assms(4) by simp_all
  have "reads_to buf off (slice p a xs @ slice (p + a) b xs) b2" using reads_to_trans [OF assms(1)] assms(2) l by simp
  from reads_to_trans [OF this, of "slice (p + a + b) c xs" b3] assms(3) show ?thesis
    unfolding slice_pieces by (simp add: l add.assoc)
qed

lemma read_in_block:
  assumes "disk_ok (fs_disk s)" "read_seek (io_state f) = int p" "int p + int n \<le> file_size (fcb f)" "int p + int n < 2 ^ 31"
    "p div 508 < length ss" "read_sector (io_state f) = ss ! (p div 508)" "off + n \<le> length buf" "(p + n) div 508 = p div 508"
  shows "\<exists>b. sys_read f buf off (int n) s = Inr (FILE_RESULT_SUCCESS,
      f\<lparr>io_state := (io_state f)\<lparr>read_seek := int (p + n)\<rparr>\<rparr>, b) \<and> reads_to buf off (slice p n (file_bytes (fs_disk s) ss)) b"
proof -
  have "p + n < 2 ^ 32" using assms(4) by simp
  note N = seek_numbers [OF this]
  have "p mod 508 + n \<le> 508" using nat_same_block [OF assms(8)] by simp
  from copy_from_block [OF assms(1,5) this assms(7)] obtain b where
    "memcpy_at buf off (fs_disk s (unat (ss ! (p div 508)))) (p mod 508) (int n) = Inr b"
    "reads_to buf off (slice p n (file_bytes (fs_disk s) ss)) b" by auto
  then show ?thesis using assms(2,3,6,8) by (simp add: sys_read_def Let_def N read_block_eq)
qed

lemma read_over_blocks:
  assumes D: "disk_ok (fs_disk s)" "chain (fs_disk s) (first_sector (fcb f)) ss" "(p + n) div 508 < length ss"
    and f: "read_seek (io_state f) = int p" "int p + int n \<le> file_size (fcb f)" "int p + int n < 2 ^ 31"
      "read_sector (io_state f) = ss ! (p div 508)"
    and b: "off + n \<le> length buf" "off + n + 4 \<le> length buf \<or> (p + n) div 508 \<le> Suc (p div 508)"
    and ne: "(p + n) div 508 \<noteq> p div 508"
  shows "\<exists>b. sys_read f buf off (int n) s = Inr (FILE_RESULT_SUCCESS,
      f\<lparr>io_state := (io_state f)\<lparr>read_sector := ss ! ((p + n) div 508), read_seek := int ((p + n) div 508 * 508)\<rparr>\<rparr>, b) \<and>
    reads_to buf off (slice p n (file_bytes (fs_disk s) ss)) b"
proof -
  let ?D = "file_bytes (fs_disk s) ss" and ?k = "Suc (p div 508)" and ?q = "(p + n) div 508"
  obtain r m t where P: "r = 508 - p mod 508" "m = (n - r) div 508" "t = (n - r) mod 508" "t < 508" "p mod 508 + r = 508"
    "n = r + 508 * m + t" "508 * ?k = p + r" "?k + m = ?q" "508 * ?q = p + r + 508 * m"
    using read_pieces [OF ne] .
  have k: "p div 508 < length ss" "Suc (p div 508) < length ss" using D(3) P(8) by simp_all
  define f1 where "f1 = f\<lparr>io_state := (io_state f)\<lparr>read_seek := int p + int r, read_sector := ss ! ?k\<rparr>\<rparr>"
  have "p mod 508 + r \<le> 508" "off + r \<le> length buf" using P(5,6) b(1) by simp_all
  from copy_from_block [OF D(1) k(1) this] obtain b1 where
    b1: "memcpy_at buf off (fs_disk s (unat (ss ! (p div 508)))) (p mod 508) (int r) = Inr b1" "reads_to buf off (slice p r ?D) b1"
    by auto
  note l1 = reads_to_length [OF b1(2)]
  have "m = 0 \<or> (off + r) + 508 * m + 4 \<le> length b1" using b(2) P(6,8) l1 by auto
  from read_whole_ok [OF D(1,2), of ?k m f1 "off + r" b1] this D(3) P(6,8) b(1) l1 obtain b2 where
    b2: "read_whole m f1 b1 (off + r) s = Inr (f1\<lparr>io_state := (io_state f1)\<lparr>read_sector := ss ! ?q,
        read_seek := read_seek (io_state f1) + int (508 * m)\<rparr>\<rparr>, b2, off + r + 508 * m)"
      "reads_to b1 (off + r) (slice (p + r) (508 * m) ?D) b2"
    unfolding P(7) by (auto simp: f1_def)
  have "0 + t \<le> 508" "off + r + 508 * m + t \<le> length b2" using P(4,6) b(1) l1 reads_to_length [OF b2(2)] by simp_all
  from copy_from_block [OF D(1,3) this] obtain b3 where
    b3: "memcpy_at b2 (off + r + 508 * m) (fs_disk s (unat (ss ! ?q))) 0 (int t) = Inr b3"
      "reads_to b2 (off + r + 508 * m) (slice (p + r + 508 * m) t ?D) b3"
    unfolding P(9) by auto
  have "p + r + 508 * m \<le> length ?D" using D(1,3) unfolding P(9) [symmetric] by simp
  from reads_to_slices [OF b1(2) b2(2) b3(2) this] have R: "reads_to buf off (slice p n ?D) b3" by (simp add: P(6))
  have "p + n < 2 ^ 32" "0 + (n - r) < 2 ^ 32" using f(3) by simp_all
  note N = seek_numbers [OF this(1)] and N2 = seek_numbers(4,5) [OF this(2), folded P(2,3)]
  have i: "508 - int (p mod 508) = int r" "int n - int r = int (n - r)" using P(5,6) by linarith+
  have nx: "next_sector (fs_disk s (unat (ss ! (p div 508)))) = ss ! ?k" using chain_next [OF D(2) k(2)] .
  have "read_seek (io_state f1) + int (508 * m) = int (?q * 508)" using P(9) by (simp add: f1_def)
  then show ?thesis
    using ne b1(1) b2(1) b3(1) f(2) R
    by (simp add: sys_read_def Let_def N read_block_eq f(1,4) i N2 nx f1_def [symmetric]) (simp add: f1_def)
qed

lemma sys_read_ok:
  assumes "disk_ok (fs_disk s)" "file_on (fs_disk s) (fcb f) ss" "read_seek (io_state f) = int p"
    "int p + int n \<le> file_size (fcb f)" "read_sector (io_state f) = ss ! (p div 508)"
    "off + n \<le> length buf" "off + n + 4 \<le> length buf \<or> (p + n) div 508 \<le> Suc (p div 508)"
  shows "\<exists>buf'. sys_read f buf off (int n) s = Inr (FILE_RESULT_SUCCESS,
      f\<lparr>io_state := (io_state f)\<lparr>read_sector := ss ! ((p + n) div 508),
        read_seek := (if (p + n) div 508 = p div 508 then int (p + n) else int ((p + n) div 508 * 508))\<rparr>\<rparr>, buf') \<and>
    reads_to buf off (slice p n (file_bytes (fs_disk s) ss)) buf'"
proof -
  from assms(2) have c: "chain (fs_disk s) (first_sector (fcb f)) ss" and z: "file_size (fcb f) < 2 ^ 31"
    "nat (file_size (fcb f)) div 508 < length ss" by (auto simp: file_on_def)
  have small: "int p + int n < 2 ^ 31" using assms(4) z(1) by linarith
  have "(p + n) div 508 \<le> nat (file_size (fcb f)) div 508" using assms(4) by (intro div_le_mono) linarith
  then have last: "(p + n) div 508 < length ss" using z(2) by linarith
  then have first: "p div 508 < length ss" using div_le_mono [of p "p + n" 508] by linarith
  have same: "f\<lparr>io_state := (io_state f)\<lparr>read_sector := ss ! (p div 508), read_seek := x\<rparr>\<rparr> = f\<lparr>io_state := (io_state f)\<lparr>read_seek := x\<rparr>\<rparr>" for x
    by (simp add: assms(5) [symmetric])
  show ?thesis
  proof (cases "(p + n) div 508 = p div 508")
    case True
    then show ?thesis using read_in_block [OF assms(1,3,4) small first assms(5,6) True] by (simp add: same)
  next
    case False
    then show ?thesis using read_over_blocks [OF assms(1) c last assms(3,4) small assms(5-7) False] by simp
  qed
qed

lemma reads_to_slice: "reads_to buf off xs buf' \<Longrightarrow> slice off (length xs) buf' = xs"
  by (simp add: reads_to_def)

lemma file_on_room:
  assumes "file_on dk f ss" "disk_ok dk" "int p + int n \<le> file_size f"
  shows "p + n < 508 * length ss" "(p + n) div 508 < length ss" "p div 508 < length ss"
    "length (slice p n (file_bytes dk ss)) = n"
proof -
  have "p + n \<le> nat (file_size f)" using assms(3) by linarith
  then have "(p + n) div 508 \<le> nat (file_size f) div 508" by (rule div_le_mono)
  then show l: "(p + n) div 508 < length ss" using assms(1) by (simp add: file_on_def)
  then show "p div 508 < length ss" using div_le_mono [of p "p + n" 508] by linarith
  show r: "p + n < 508 * length ss" using l by (simp add: div_less_iff_less_mult mult.commute)
  show "length (slice p n (file_bytes dk ss)) = n" using r assms(2) by simp
qed

lemma sys_rseek_ok:
  assumes "file_on (fs_disk s) (fcb f) ss" "disk_ok (fs_disk s)" "int p < file_size (fcb f)"
  shows "sys_rseek f (int p) s =
    (FILE_RESULT_SUCCESS, f\<lparr>io_state := (io_state f)\<lparr>read_sector := ss ! (p div 508), read_seek := int p\<rparr>\<rparr>)"
proof -
  have "int p < 2 ^ 31" using assms(1,3) unfolding file_on_def by linarith
  then have "p < 2 ^ 32" by simp
  moreover have "p div 508 < length ss" using file_on_room(3) [OF assms(1,2), of p 0] assms(3) by simp
  moreover have "chain (fs_disk s) (first_sector (fcb f)) ss" using assms(1) by (simp add: file_on_def)
  ultimately show ?thesis
    using assms(3) by (simp add: sys_rseek_def NTH_BLOCK_of_nat walk_chain)
qed

lemma sys_wseek_ok:
  assumes "chain (fs_disk s) (first_sector (fcb f)) ss" "p < 2 ^ 32" "p div 508 < length ss"
  shows "sys_wseek f (int p) s =
    (FILE_RESULT_SUCCESS, f\<lparr>io_state := (io_state f)\<lparr>write_sector := ss ! (p div 508), write_seek := int p\<rparr>\<rparr>)"
  using assms by (simp add: sys_wseek_def NTH_BLOCK_of_nat walk_chain)

lemma read_all_ok:
  assumes "disk_ok (fs_disk s)" "file_on (fs_disk s) f ss" "nat (file_size f) + 4 \<le> length buf"
  shows "\<exists>buf'. read_all f buf s = Inr buf' \<and>
    reads_to buf 0 (take (nat (file_size f)) (file_bytes (fs_disk s) ss)) buf'"
proof -
  define c where "c = (fs_cached s 0)\<lparr>fcb := f, io_state := (io_state (fs_cached s 0))\<lparr>read_sector := first_sector f, read_seek := 0\<rparr>\<rparr>"
  let ?n = "nat (file_size f)"
  have n: "int ?n = file_size f" "0 < length ss" using assms(2) by (auto simp: file_on_def)
  have "first_sector f = ss ! 0" using assms(2) chain_first n(2) by (auto simp: file_on_def)
  then show ?thesis
    using sys_read_ok [of s c ss 0 ?n 0 buf] assms n
    by (auto simp: c_def read_all_def slice_def Let_def)
qed

section \<open>Properties\<close>

text \<open>
  A file of three blocks, 1026 to 1028, on an otherwise empty disk, and its cached structure.
\<close>

definition three_blocks :: disk where
  "three_blocks = (\<lambda>i. set_next_sector (if i = 1026 then 1027 else if i = 1027 then 1028 else NO_SECTOR)
     (replicate 512 (if i = 1026 then 1 else if i = 1027 then 2 else if i = 1028 then 3 else 0)))"

definition three_block_file :: file_cached_t where
  "three_block_file = \<lparr>fcb = \<lparr>file_name = replicate 64 0, first_sector = 1026, last_sector = 1028, sector_count = 3,
       file_size = 1100, file_type = FILE_TYPE_NORMAL\<rparr>,
     io_state = \<lparr>read_seek = 0, write_seek = 0, read_sector = 1026, write_sector = 1026\<rparr>,
     path_state = \<lparr>parent_dir_name = replicate 512 0, index_in_parent_dir = 0, has_parent = True\<rparr>\<rparr>"

definition demo_fs :: "disk \<Rightarrow> fs_state" where
  "demo_fs dk = \<lparr>fs_disk = dk, file_alloc_bitmap = \<lparr>bits = (\<lambda>i. if i < 129 then 0xFF else 0), bsize = 1572864\<rparr>,
     fs_console = \<lparr>cursor = cell_cursor 0, vmem = (\<lambda>_. 0), ports = []\<rparr>,
     fs_stack = (\<lambda>_ _. 0), fs_cached = (\<lambda>_. three_block_file)\<rparr>"

lemma fs_disk_demo [simp]: "fs_disk (demo_fs dk) = dk"
  by (simp add: demo_fs_def)

lemma three_blocks_ok: "disk_ok three_blocks" "file_on three_blocks (fcb three_block_file) [1026, 1027, 1028]"
  "file_bytes three_blocks [1026, 1027, 1028] = replicate 508 1 @ replicate 508 2 @ replicate 508 3"
  by (simp_all add: disk_ok_def three_blocks_def file_on_def three_block_file_def file_bytes_def block_data_def)
    (simp_all add: set_next_sector_def)

lemma seek_and_read_ok:
  assumes "disk_ok (fs_disk s)" "file_on (fs_disk s) (fcb f) ss" "int p + int n \<le> file_size (fcb f)"
    "int p < file_size (fcb f)" "off + n + 4 \<le> length buf"
  shows "\<exists>f1 f2 buf'. sys_rseek f (int p) s = (FILE_RESULT_SUCCESS, f1) \<and>
    sys_read f1 buf off (int n) s = Inr (FILE_RESULT_SUCCESS, f2, buf') \<and>
    slice off n buf' = slice p n (file_bytes (fs_disk s) ss) \<and>
    take off buf' = take off buf \<and> drop (off + n + 4) buf' = drop (off + n + 4) buf \<and>
    read_seek (io_state f2) = (if (p + n) div 508 = p div 508 then int (p + n) else int ((p + n) div 508 * 508))"
proof -
  define f1 where "f1 = f\<lparr>io_state := (io_state f)\<lparr>read_sector := ss ! (p div 508), read_seek := int p\<rparr>\<rparr>"
  have s: "sys_rseek f (int p) s = (FILE_RESULT_SUCCESS, f1)"
    using sys_rseek_ok [OF assms(2,1,4)] by (simp add: f1_def)
  have l: "length (slice p n (file_bytes (fs_disk s) ss)) = n" by (rule file_on_room(4) [OF assms(2,1,3)])
  from sys_read_ok [of s f1 ss p n off buf] assms obtain f2 buf' where
    "sys_read f1 buf off (int n) s = Inr (FILE_RESULT_SUCCESS, f2, buf')"
    "reads_to buf off (slice p n (file_bytes (fs_disk s) ss)) buf'"
    "read_seek (io_state f2) = (if (p + n) div 508 = p div 508 then int (p + n) else int ((p + n) div 508 * 508))"
    by (auto simp: f1_def)
  with s l show ?thesis unfolding reads_to_def by metis
qed

text \<open>
  Claim C11: seeking to position \<open>p\<close> and reading \<open>n\<close> bytes inside the file succeeds and stores
  exactly the bytes \<open>p\<close> to \<open>p + n\<close> of the file at the target, wherever the block borders fall,
  and leaves the rest of the buffer but for the four bytes behind the target as it was. The
  read pointer however stops at the last block border passed.
\<close>
theorem seek_and_read:
  assumes "disk_ok (fs_disk s)" "file_on (fs_disk s) (fcb f) ss" "int p + int n \<le> file_size (fcb f)"
    "int p < file_size (fcb f)" "off + n + 4 \<le> length buf"
  shows "\<exists>f1 f2 buf'. sys_rseek f (int p) s = (FILE_RESULT_SUCCESS, f1) \<and>
    sys_read f1 buf off (int n) s = Inr (FILE_RESULT_SUCCESS, f2, buf') \<and>
    slice off n buf' = slice p n (file_bytes (fs_disk s) ss) \<and>
    take off buf' = take off buf \<and> drop (off + n + 4) buf' = drop (off + n + 4) buf \<and>
    read_seek (io_state f2) = (if (p + n) div 508 = p div 508 then int (p + n) else int ((p + n) div 508 * 508))"
  by (rule seek_and_read_ok [OF assms])

theorem seek_and_read_witness:
  "\<exists>f1 f2 buf'. sys_rseek three_block_file 500 (demo_fs three_blocks) = (FILE_RESULT_SUCCESS, f1) \<and>
    sys_read f1 (replicate 100 0) 10 20 (demo_fs three_blocks) = Inr (FILE_RESULT_SUCCESS, f2, buf') \<and>
    slice 10 20 buf' = replicate 8 1 @ replicate 12 2 \<and> read_seek (io_state f2) = 508"
  using seek_and_read [of "demo_fs three_blocks" three_block_file "[1026, 1027, 1028]" "500" "20" "10" "replicate 100 0"] three_blocks_ok
  by (auto simp: three_block_file_def slice_def)

text \<open>
  The bytes of a directory entry and its fields determine each other: decoding after
  encoding gives the entry back, and encoding after decoding the 84 bytes.
\<close>
theorem file_encoding_bijective:
  "(wf_file f \<longrightarrow> length (encode_file f) = FILE_T_SIZE \<and> decode_file (encode_file f @ rest) = f) \<and>
   (length bs = FILE_T_SIZE \<longrightarrow> wf_file (decode_file bs) \<and> encode_file (decode_file bs) = bs)"
  by (simp add: decode_encode encode_decode wf_decode)

theorem file_encoding_bijective_witness:
  "decode_file (encode_file (fcb three_block_file)) = fcb three_block_file"
  using file_encoding_bijective [of "fcb three_block_file" "[]" "[]"] by (simp add: wf_file_def three_block_file_def)

text \<open>
  Claim C33: when a read passes a whole block and ends less than four bytes behind a block
  border, \<open>sys_read\<close> writes beyond a buffer of exactly the requested length: it reads whole
  blocks with their link into it.
\<close>
theorem sys_read_overruns_buffer:
  assumes "disk_ok (fs_disk s)" "file_on (fs_disk s) (fcb f) ss" "read_seek (io_state f) = int p"
    "int p + int n \<le> file_size (fcb f)" "read_sector (io_state f) = ss ! (p div 508)"
    "length buf = n" "Suc (p div 508) < (p + n) div 508" "(p + n) mod 508 < 4"
  shows "sys_read f buf 0 (int n) s = Inl Out_Of_Bounds"
proof -
  define r where "r = 508 - p mod 508"
  define m where "m = (n - r) div 508"
  have ne: "(p + n) div 508 \<noteq> p div 508" using assms(7) by simp
  note B = nat_next_block [OF ne, folded r_def, folded m_def]
  have r: "p mod 508 + r = 508" "0 < r" by (simp_all add: r_def)
  obtain l where m: "m = Suc l" using B(2) assms(7) by (cases m) auto
  have z: "file_size (fcb f) < 2 ^ 31" and c: "chain (fs_disk s) (first_sector (fcb f)) ss"
    using assms(2) by (auto simp: file_on_def)
  have "int (p + n) < 2 ^ 31" using assms(4) z by linarith
  then have small: "p < 2 ^ 32" "n < 2 ^ 32" "p + n < 2 ^ 32" by simp_all
  have N: "NTH_BLOCK (int p) = int (p div 508)" "IN_BLOCK_OFFSET (int p) = int (p mod 508)"
    "NTH_BLOCK (int p + int n) = int ((p + n) div 508)"
    using NTH_BLOCK_of_nat [OF small(1)] IN_BLOCK_OFFSET_of_nat [OF small(1)] NTH_BLOCK_of_nat [OF small(3)] by simp_all
  note R = file_on_room [OF assms(2,1,4)]
  let ?b = "fs_disk s (unat (ss ! (p div 508)))" and ?k = "Suc (p div 508)"
  have nx: "next_sector ?b = ss ! ?k" using chain_next [OF c, of "p div 508"] R(2) assms(7) by simp
  define buf1 where "buf1 = overwrite buf 0 (slice (p mod 508) r ?b)"
  have w1: "memcpy_at buf 0 ?b (p mod 508) (int r) = Inr buf1"
    using memcpy_at_ok [of r "p mod 508" ?b 0 buf] r assms(1,6) B(1) by (simp add: buf1_def)
  have l1: "length buf1 = n" unfolding buf1_def using assms(1,6) B(1) r by (subst length_overwrite) simp_all
  define f1 where "f1 = f\<lparr>io_state := (io_state f)\<lparr>read_seek := int p + int r, read_sector := ss ! ?k\<rparr>\<rparr>"
  have nr: "int n - int r = int (n - r)" using B(1) by simp
  have "NTH_BLOCK (int (n - r)) = int m" using NTH_BLOCK_of_nat [of "n - r"] small(2) by (simp add: m_def)
  note N2 = this [folded nr]
  have r': "508 - int (p mod 508) = int r" using r(1) by linarith
  have tight: "length buf1 < r + 508 * m + 4" using B(4) assms(8) by (simp add: l1)
  have "read_whole m f1 buf1 r s = Inl Out_Of_Bounds"
    by (rule read_whole_overrun [OF assms(1) c])
      (use R(2) B(2) tight m B(4) in \<open>simp_all add: f1_def l1\<close>)
  then show ?thesis
    using ne w1 B(2) assms(4)
    by (simp add: sys_read_def Let_def assms(3,5) N read_block_eq r' N2 nx f1_def [symmetric])
qed

theorem sys_read_overruns_buffer_witness:
  "sys_read three_block_file (replicate 1016 0) 0 1016 (demo_fs three_blocks) = Inl Out_Of_Bounds"
  using sys_read_overruns_buffer [of "demo_fs three_blocks" three_block_file "[1026, 1027, 1028]" 0 "1016" "replicate 1016 0"]
    three_blocks_ok
  by (simp add: three_block_file_def)

end
