(* ===== verification/File_Write.thy ===== *)
theory File_Write
  imports File_Read
begin

text \<open>
  Overwriting and growing a file: what \<open>covering_write\<close> and \<open>file_expand\<close> do to the bytes of
  the file and to its chain, and where the loop over whole blocks goes wrong.
\<close>

section \<open>Changing one block\<close>

lemma overwrite_append1: "i + length xs \<le> length b \<Longrightarrow> overwrite (b @ c) i xs = overwrite b i xs @ c"
  by (simp add: overwrite_def)

lemma overwrite_append2: "overwrite (b @ c) (length b + i) xs = b @ overwrite c i xs"
  by (simp add: overwrite_def)

lemma overwrite_overwrite:
  "p + length (xs @ ys) \<le> length zs \<Longrightarrow> overwrite (overwrite zs p xs) (p + length xs) ys = overwrite zs p (xs @ ys)"
  by (simp add: overwrite_def add.assoc) (simp add: ac_simps)

lemma concat_update:
  assumes "\<forall>b \<in> set bs. length b = m" "k < length bs" "i + length xs \<le> m"
  shows "concat (bs[k := overwrite (bs ! k) i xs]) = overwrite (concat bs) (m * k + i) xs"
  using assms
proof (induction bs arbitrary: k)
  case (Cons b bs)
  show ?case
  proof (cases k)
    case 0
    then show ?thesis using Cons.prems by (simp add: overwrite_append1)
  next
    case (Suc l)
    have "overwrite (b @ concat bs) (m * k + i) xs = b @ overwrite (concat bs) (m * l + i) xs"
      using Cons.prems overwrite_append2 [of b "concat bs" "m * l + i" xs] by (simp add: Suc add.assoc)
    then show ?thesis using Cons Suc by simp
  qed
qed simp

lemma chain_cong:
  "(\<And>x. x \<in> set ss \<Longrightarrow> next_sector (dk' (unat x)) = next_sector (dk (unat x))) \<Longrightarrow> chain dk' w ss = chain dk w ss"
  by (induction ss arbitrary: w) auto

lemma next_overwrite:
  "i + length xs \<le> 508 \<Longrightarrow> length b = 512 \<Longrightarrow> next_sector (overwrite b i xs) = next_sector b"
  by (simp add: next_sector_def overwrite_def)

lemma block_update:
  fixes dk :: disk
  assumes "disk_ok dk" "chain dk w ss" "distinct ss" "k < length ss" "i + length xs \<le> 508"
  defines "dk' \<equiv> dk(unat (ss ! k) := overwrite (dk (unat (ss ! k))) i xs)"
  shows "disk_ok dk'" "chain dk' w ss" "file_bytes dk' ss = overwrite (file_bytes dk ss) (508 * k + i) xs"
proof -
  have l: "length (dk (unat (ss ! k))) = 512" using assms(1) by simp
  show "disk_ok dk'" using assms(1,5) l by (simp add: dk'_def disk_ok_def)
  show "chain dk' w ss"
    using assms(2,5) l chain_cong [of ss dk' dk w] by (simp add: dk'_def next_overwrite)
  have "map (block_data dk') ss = (map (block_data dk) ss)[k := overwrite (map (block_data dk) ss ! k) i xs]"
  proof (rule nth_equalityI)
    fix j assume "j < length (map (block_data dk') ss)"
    then have j: "j < length ss" by simp
    show "map (block_data dk') ss ! j = (map (block_data dk) ss)[k := overwrite (map (block_data dk) ss ! k) i xs] ! j"
    proof (cases "j = k")
      case True
      have "take 508 (overwrite (dk (unat (ss ! k))) i xs) = overwrite (take 508 (dk (unat (ss ! k)))) i xs"
        using assms(5) l overwrite_append1 [of i xs "take 508 (dk (unat (ss ! k)))" "drop 508 (dk (unat (ss ! k)))"] by simp
      then show ?thesis using True assms(4) by (simp add: block_data_def dk'_def)
    next
      case False
      then have "ss ! j \<noteq> ss ! k" using assms(3,4) j by (simp add: nth_eq_iff_index_eq)
      then show ?thesis using False j by (simp add: block_data_def dk'_def word_unat_eq_iff)
    qed
  qed simp
  then show "file_bytes dk' ss = overwrite (file_bytes dk ss) (508 * k + i) xs"
    unfolding file_bytes_def using concat_update [of "map (block_data dk) ss" 508 k i xs] assms(1,4,5) by auto
qed

section \<open>\<open>covering_write\<close>\<close>

text \<open>The effect of an overwriting write: bytes change in place, the chain and all else stays.\<close>

definition overwritten :: "u32 \<Rightarrow> u32 list \<Rightarrow> nat \<Rightarrow> u8 list \<Rightarrow> fs_state \<Rightarrow> fs_state \<Rightarrow> bool" where
  "overwritten w ss p xs s s' \<longleftrightarrow> disk_ok (fs_disk s') \<and> chain (fs_disk s') w ss \<and>
     file_bytes (fs_disk s') ss = overwrite (file_bytes (fs_disk s) ss) p xs \<and>
     (\<forall>i. i \<notin> unat ` set ss \<longrightarrow> fs_disk s' i = fs_disk s i) \<and> s' = s\<lparr>fs_disk := fs_disk s'\<rparr>"

lemma overwritten_block:
  assumes "disk_ok (fs_disk s)" "chain (fs_disk s) w ss" "distinct ss" "k < length ss" "i + length xs \<le> 508"
  shows "write_block (ss ! k) (overwrite (read_block s (ss ! k)) i xs) s =
      Inr (s\<lparr>fs_disk := (fs_disk s)(unat (ss ! k) := overwrite (fs_disk s (unat (ss ! k))) i xs)\<rparr>)"
    "overwritten w ss (508 * k + i) xs s
      (s\<lparr>fs_disk := (fs_disk s)(unat (ss ! k) := overwrite (fs_disk s (unat (ss ! k))) i xs)\<rparr>)"
  using block_update [OF assms] assms by (auto simp: overwritten_def read_block_eq write_block_eq)

lemma overwritten_trans:
  assumes "overwritten w ss p xs s s1" "overwritten w ss q ys s1 s2" "q = p + length xs"
    "p + length xs + length ys \<le> length (file_bytes (fs_disk s) ss)"
  shows "overwritten w ss p (xs @ ys) s s2"
  using assms overwrite_overwrite [of p xs ys "file_bytes (fs_disk s) ss"] unfolding overwritten_def
  by (auto simp: add.assoc) (metis fs_state.fold_congs(1) fs_state.surjective fs_state.update_convs(1))

lemma write_into_block:
  assumes "disk_ok (fs_disk s)" "chain (fs_disk s) w ss" "distinct ss" "k < length ss" "i + n \<le> 508" "j + n \<le> length buf"
  obtains temp s1 where "memcpy_at (read_block s (ss ! k)) i buf j (int n) = Inr temp" "write_block (ss ! k) temp s = Inr s1"
    "overwritten w ss (508 * k + i) (slice j n buf) s s1" "next_sector temp = next_sector (fs_disk s (unat (ss ! k)))"
proof -
  let ?temp = "overwrite (read_block s (ss ! k)) i (slice j n buf)"
  have l: "length (read_block s (ss ! k)) = 512" using assms(1) by (simp add: read_block_eq)
  have lt: "i + length (slice j n buf) \<le> 508" using assms(5,6) by simp
  have "memcpy_at (read_block s (ss ! k)) i buf j (int n) = Inr ?temp"
    using memcpy_at_ok [of n j buf i "read_block s (ss ! k)"] assms(5,6) l by simp
  moreover have "next_sector ?temp = next_sector (fs_disk s (unat (ss ! k)))"
    using next_overwrite [OF lt l] by (simp add: read_block_eq)
  ultimately show ?thesis using that overwritten_block [OF assms(1-4) lt] by blast
qed

lemma slice_0_take: "slice 0 n xs = take n xs"
  by (simp add: slice_def)

lemma write_over_border:
  assumes "disk_ok (fs_disk s)" "chain (fs_disk s) w ss" "distinct ss" "write_seek (io_state f) = int p"
    "write_sector (io_state f) = ss ! (p div 508)" "n \<le> length buf" "p + n < 2 ^ 32"
    "(p + n) div 508 < length ss" "(p + n) div 508 \<le> Suc (p div 508)"
    and ne: "(p + n) div 508 \<noteq> p div 508"
  shows "\<exists>s'. covering_write f buf (int n) s =
      Inr (f\<lparr>io_state := (io_state f)\<lparr>write_sector := ss ! ((p + n) div 508), write_seek := int (p + n)\<rparr>\<rparr>, s') \<and>
    overwritten w ss p (take n buf) s s'"
proof -
  note N = seek_numbers [OF assms(7)]
  have first: "p div 508 < length ss" using assms(8) div_le_mono [of p "p + n" 508] by linarith
  have pp: "508 * (p div 508) + p mod 508 = p" by simp
  obtain r m t where P: "r = 508 - p mod 508" "m = (n - r) div 508" "t = (n - r) mod 508" "t < 508" "p mod 508 + r = 508"
    "n = r + 508 * m + t" "508 * Suc (p div 508) = p + r" "Suc (p div 508) + m = (p + n) div 508"
    "508 * ((p + n) div 508) = p + r + 508 * m"
    using read_pieces [OF ne] .
  have m: "m = 0" "Suc (p div 508) = (p + n) div 508" "508 * ((p + n) div 508) + 0 = p + r" "n = r + t"
    using assms(9) P(6,8,9) by simp_all
  have "p mod 508 + r \<le> 508" "0 + r \<le> length buf" using P(5) m(4) assms(6) by simp_all
  from write_into_block [OF assms(1-3) first this] obtain temp1 s1 where
    w1: "memcpy_at (read_block s (ss ! (p div 508))) (p mod 508) buf 0 (int r) = Inr temp1"
      "write_block (ss ! (p div 508)) temp1 s = Inr s1" "overwritten w ss p (take r buf) s s1"
      "next_sector temp1 = next_sector (fs_disk s (unat (ss ! (p div 508))))"
    unfolding pp slice_0_take .
  have "disk_ok (fs_disk s1)" "chain (fs_disk s1) w ss" "0 + t \<le> 508" "r + t \<le> length buf"
    using w1(3) P(4) m(4) assms(6) by (simp_all add: overwritten_def)
  from write_into_block [OF this(1,2) assms(3,8) this(3,4)] obtain temp2 s2 where
    w2: "memcpy_at (read_block s1 (ss ! ((p + n) div 508))) 0 buf r (int t) = Inr temp2"
      "write_block (ss ! ((p + n) div 508)) temp2 s1 = Inr s2" "overwritten w ss (p + r) (slice r t buf) s1 s2"
    unfolding m(3) .
  have nx: "next_sector temp1 = ss ! ((p + n) div 508)"
    using w1(4) chain_next [OF assms(2), of "p div 508"] assms(8) m(2) by simp
  have "length (file_bytes (fs_disk s) ss) = 508 * length ss" using assms(1) by simp
  moreover have "508 * Suc ((p + n) div 508) \<le> 508 * length ss" using assms(8) by (intro mult_le_mono2) simp
  ultimately have room: "p + length (take r buf) + length (slice r t buf) \<le> length (file_bytes (fs_disk s) ss)"
    using m(3,4) P(4) assms(6) by simp
  have "take r buf @ slice r t buf = take n buf" unfolding slice_def m(4) by (rule take_add [symmetric])
  then have O: "overwritten w ss p (take n buf) s s2"
    using overwritten_trans [OF w1(3) w2(3) _ room] m(4) assms(6) by simp
  have "0 + (n - r) < 2 ^ 32" using assms(7) by simp
  note N2 = seek_numbers(4,5) [OF this, folded P(2,3)]
  have i: "508 - int (p mod 508) = int r" "int n - int r = int (n - r)" "int p + int r + int t = int p + int n"
    using P(5) m(4) by linarith+
  show ?thesis
    using ne w1(1,2) w2(1,2) O nx m(1) assms(5)
    by (simp add: covering_write_def Let_def assms(4) N i N2)
qed

lemma covering_write_ok:
  assumes "disk_ok (fs_disk s)" "chain (fs_disk s) w ss" "distinct ss" "write_seek (io_state f) = int p"
    "write_sector (io_state f) = ss ! (p div 508)" "n \<le> length buf" "p + n < 2 ^ 32"
    "(p + n) div 508 < length ss" "(p + n) div 508 \<le> Suc (p div 508)"
  shows "\<exists>s'. covering_write f buf (int n) s =
      Inr (f\<lparr>io_state := (io_state f)\<lparr>write_sector := ss ! ((p + n) div 508), write_seek := int (p + n)\<rparr>\<rparr>, s') \<and>
    overwritten w ss p (take n buf) s s'"
proof -
  note N = seek_numbers [OF assms(7)]
  have first: "p div 508 < length ss" using assms(8) div_le_mono [of p "p + n" 508] by linarith
  have pp: "508 * (p div 508) + p mod 508 = p" by simp
  show ?thesis
  proof (cases "(p + n) div 508 = p div 508")
    case True
    then have "p mod 508 + n \<le> 508" "0 + n \<le> length buf" using nat_same_block [OF True] assms(6) by simp_all
    from write_into_block [OF assms(1-3) first this] obtain temp s1 where
      "memcpy_at (read_block s (ss ! (p div 508))) (p mod 508) buf 0 (int n) = Inr temp"
      "write_block (ss ! (p div 508)) temp s = Inr s1" "overwritten w ss p (take n buf) s s1"
      unfolding pp slice_0_take .
    then show ?thesis using True assms(5) by (simp add: covering_write_def Let_def assms(4) N)
  next
    case False
    with write_over_border [OF assms] show ?thesis by blast
  qed
qed

text \<open>
  A write over a whole block: the block gets 512 bytes of the buffer, its link included, and the
  write goes on in the sector whose number the buffer happens to hold there.
\<close>

lemma covering_write_whole:
  assumes "disk_ok (fs_disk s)" "chain (fs_disk s) w ss" "distinct ss" "write_seek (io_state f) = int p"
    "write_sector (io_state f) = ss ! k" "k = p div 508" "r = 508 - p mod 508" "n = r + 508 + t" "t < 508" "4 \<le> t"
    "length buf = n" "p + n < 2 ^ 32" "Suc k < length ss" "x = un_le32 (slice (r + 508) 4 buf)" "x \<notin> {ss ! k, ss ! Suc k}"
  shows "\<exists>f' s'. covering_write f buf (int n) s = Inr (f', s') \<and>
    fs_disk s' (unat (ss ! Suc k)) = slice r 512 buf \<and>
    fs_disk s' (unat x) = overwrite (fs_disk s (unat x)) 0 (slice (r + 508) t buf)"
proof -
  have r: "p mod 508 + r = 508" "0 < r" using assms(7) by simp_all
  have pn: "p + n = 508 * (k + 2) + t" using r(1) mult_div_mod_eq [of 508 p] unfolding assms(6,8) add_mult_distrib2 by linarith
  have small: "p < 2 ^ 32" "n < 2 ^ 32" "n - r < 2 ^ 32" using assms(12) by linarith+
  have pd: "(p + n) div 508 = k + 2" unfolding pn using assms(9) div_mult_self4 [of 508 "k + 2" t] by simp
  have N: "NTH_BLOCK (int p) = int k" "IN_BLOCK_OFFSET (int p) = int (p mod 508)"
    "NTH_BLOCK (int p + int n) = int (k + 2)"
    using NTH_BLOCK_of_nat [OF small(1)] IN_BLOCK_OFFSET_of_nat [OF small(1)] NTH_BLOCK_of_nat [OF assms(12)] assms(6)
    by (simp_all add: pd)
  have b: "length (read_block s v) = 512" for v using assms(1) by (simp add: read_block_eq)
  let ?b = "read_block s (ss ! k)"
  have c1: "memcpy_at ?b (p mod 508) buf 0 (int r) = Inr (overwrite ?b (p mod 508) (take r buf))"
    using memcpy_at_ok [of r 0 buf "p mod 508" ?b] r assms(8,11) b by (simp add: slice_def)
  have lr: "p mod 508 + length (take r buf) \<le> 508" using r by simp
  define s1 where "s1 = s\<lparr>fs_disk := (fs_disk s)(unat (ss ! k) := overwrite (fs_disk s (unat (ss ! k))) (p mod 508) (take r buf))\<rparr>"
  have w1: "write_block (ss ! k) (overwrite ?b (p mod 508) (take r buf)) s = Inr s1"
    using overwritten_block(1) [OF assms(1-3) _ lr, of k] assms(13) by (simp add: s1_def)
  have nx: "next_sector (overwrite ?b (p mod 508) (take r buf)) = ss ! Suc k"
    using next_overwrite [OF lr b] chain_next [OF assms(2,13)] by (simp add: read_block_eq)
  define s2 where "s2 = s1\<lparr>fs_disk := (fs_disk s1)(unat (ss ! Suc k) := slice r 512 buf)\<rparr>"
  have w2: "write_block (ss ! Suc k) (drop r buf) s1 = Inr s2"
    using assms(8,10,11) by (simp add: s2_def write_block_def slice_def disk_write_one)
  have x: "next_sector (drop r buf) = x"
    unfolding assms(14) next_sector_def slice_def using assms(8,10,11) by (simp add: un_le32_take add.commute)
  have d2: "fs_disk s2 (unat x) = fs_disk s (unat x)"
    using assms(15) by (simp add: s2_def s1_def word_unat_eq_iff)
  have b2: "read_block s2 x = fs_disk s (unat x)" by (simp add: read_block_eq d2)
  have c3: "memcpy_at (read_block s2 x) 0 buf (r + 508) (int t) = Inr (overwrite (fs_disk s (unat x)) 0 (slice (r + 508) t buf))"
    using memcpy_at_ok [of t "r + 508" buf 0 "read_block s2 x"] assms(1,8,9,11) by (simp add: b2)
  have l3: "length (overwrite (fs_disk s (unat x)) 0 (slice (r + 508) t buf)) = 512"
    using assms(1,8,9,11) by (subst length_overwrite) simp_all
  have nr: "int n - int r = int (508 + t)" using assms(8) by simp
  have "NTH_BLOCK (int (508 + t)) = 1" "IN_BLOCK_OFFSET (int (508 + t)) = int t"
    using NTH_BLOCK_of_nat [of "508 + t"] IN_BLOCK_OFFSET_of_nat [of "508 + t"] assms(9) by simp_all
  note N2 = this [folded nr]
  have r': "508 - int (p mod 508) = int r" using r(1) by linarith
  have "unat x \<noteq> unat (ss ! Suc k)" using assms(15) by (simp add: word_unat_eq_iff)
  then show ?thesis
    using c1 w1 c3 l3
    by (simp add: covering_write_def Let_def assms(4,5) N r' N2 nx w2 x write_block_eq) (simp add: s2_def)
qed

section \<open>\<open>file_expand\<close>\<close>

text \<open>
  The sectors of the file are marked in the bitmap, so that new ones differ from them; at most
  2^32 sectors have a bit.
\<close>

definition sectors_used :: "u32 list \<Rightarrow> bitmap_t \<Rightarrow> bool" where
  "sectors_used ss bm \<longleftrightarrow> (\<forall>x \<in> set ss. bit_at bm (uint x)) \<and> slots bm \<le> 2 ^ 32"

definition free_sectors :: "bitmap_t \<Rightarrow> int set" where
  "free_sectors bm = {m. 0 \<le> m \<and> m < slots bm \<and> \<not> bit_at bm m}"

lemma finite_free [simp]: "finite (free_sectors bm)"
  by (rule finite_subset [of _ "{0..<slots bm}"]) (auto simp: free_sectors_def)

lemma file_alloc_ok:
  assumes "0 < card (free_sectors (file_alloc_bitmap s))" "slots (file_alloc_bitmap s) \<le> 2 ^ 32"
  shows "\<exists>bm n. file_alloc s = (s\<lparr>file_alloc_bitmap := bm\<rparr>, n) \<and> slots bm = slots (file_alloc_bitmap s) \<and>
    \<not> bit_at (file_alloc_bitmap s) (uint n) \<and> free_sectors bm = free_sectors (file_alloc_bitmap s) - {uint n} \<and>
    uint n \<in> free_sectors (file_alloc_bitmap s) \<and> (\<forall>m. bit_at bm m \<longleftrightarrow> m = uint n \<or> bit_at (file_alloc_bitmap s) m) \<and>
    (\<forall>m \<in> free_sectors (file_alloc_bitmap s). uint n \<le> m)"
proof -
  let ?bm = "file_alloc_bitmap s"
  obtain bm k where a: "bit_alloc ?bm False = (bm, k)" by (cases "bit_alloc ?bm False")
  have k: "k \<noteq> -1"
  proof
    assume "k = -1"
    with a bitmap.alloc_full [of ?bm bm] have "free_sectors ?bm = {}" by (auto simp: free_sectors_def)
    with assms(1) show False by simp
  qed
  note K = bitmap.alloc_slot [OF a k] bitmap.alloc_used [OF a k] bitmap.alloc_cap [OF a]
  define n where "n = (of_int k :: u32)"
  have n: "uint n = k" using K(1) assms(2) by (simp add: n_def unsigned_of_int take_bit_int_eq_self)
  show ?thesis
  proof (intro exI [of _ bm] exI [of _ n] conjI)
    show "file_alloc s = (s\<lparr>file_alloc_bitmap := bm\<rparr>, n)" by (simp add: file_alloc_def a n_def)
    show "free_sectors bm = free_sectors ?bm - {uint n}" using K by (auto simp: free_sectors_def n)
    show "\<forall>m \<in> free_sectors ?bm. uint n \<le> m"
      using bitmap.alloc_lowest [OF a k] by (force simp: free_sectors_def n)
  qed (use K in \<open>simp_all add: n free_sectors_def\<close>)
qed

lemma chain_append:
  "ss \<noteq> [] \<Longrightarrow> chain dk w (ss @ [x]) \<longleftrightarrow> chain dk w ss \<and> next_sector (dk (unat (last ss))) = x"
proof (induction ss arbitrary: w)
  case (Cons a ss)
  then show ?case by (cases ss) auto
qed simp

lemma chain_cong_butlast:
  "(\<And>x. x \<in> set (butlast ss) \<Longrightarrow> next_sector (dk' (unat x)) = next_sector (dk (unat x))) \<Longrightarrow> chain dk' w ss = chain dk w ss"
proof (induction ss arbitrary: w)
  case (Cons x xs)
  then show ?case by (cases xs) auto
qed simp

lemma file_bytes_append: "file_bytes dk (ss @ ts) = file_bytes dk ss @ file_bytes dk ts"
  by (simp add: file_bytes_def)

lemma file_bytes_cong: "(\<And>x. x \<in> set ss \<Longrightarrow> block_data dk' x = block_data dk x) \<Longrightarrow> file_bytes dk' ss = file_bytes dk ss"
  unfolding file_bytes_def by (rule arg_cong [where f = concat]) simp

lemma block_data_set_next: "block_data (dk(unat w := set_next_sector v b)) x = (if x = w then take 508 b else block_data dk x)"
  if "508 \<le> length b"
  using that by (auto simp: block_data_def set_next_sector_def word_unat_eq_iff)

definition grown :: "u32 list \<Rightarrow> nat \<Rightarrow> u32 list \<Rightarrow> file_t \<Rightarrow> fs_state \<Rightarrow> fs_state \<Rightarrow> bool" where
  "grown ss n ns f s s' \<longleftrightarrow> length ns = n \<and> distinct (ss @ ns) \<and> disk_ok (fs_disk s') \<and>
     chain (fs_disk s') (first_sector f) (ss @ ns) \<and>
     file_bytes (fs_disk s') (ss @ ns) = file_bytes (fs_disk s) (ss @ ns) \<and>
     (if n = 0 then fs_disk s' = fs_disk s else next_sector (fs_disk s' (unat (last (ss @ ns)))) = NO_SECTOR) \<and>
     sectors_used (ss @ ns) (file_alloc_bitmap s') \<and> (\<forall>x \<in> set ns. uint x \<in> free_sectors (file_alloc_bitmap s)) \<and>
     free_sectors (file_alloc_bitmap s') = free_sectors (file_alloc_bitmap s) - (\<lambda>x. uint x) ` set ns \<and>
     (0 < n \<longrightarrow> (\<forall>m \<in> free_sectors (file_alloc_bitmap s). uint (hd ns) \<le> m)) \<and>
     (\<forall>i. i \<notin> unat ` set (ss @ ns) \<longrightarrow> fs_disk s' i = fs_disk s i) \<and>
     fs_console s' = fs_console s \<and> fs_stack s' = fs_stack s \<and> fs_cached s' = fs_cached s"

lemma grown_Cons:
  assumes "grown ss 1 [x] f s s2" "grown (ss @ [x]) n ns f2 s2 s'" "first_sector f2 = first_sector f"
  shows "grown ss (Suc n) (x # ns) f s s'"
proof -
  note G = assms(1,2) [unfolded grown_def]
  have "fs_disk s2 (unat y) = fs_disk s (unat y)" if "y \<in> set ns" for y
  proof -
    have "unat y \<notin> unat ` set (ss @ [x])" using G that by (auto simp: word_unat_eq_iff [symmetric])
    then show ?thesis using G by blast
  qed
  then have "file_bytes (fs_disk s2) ns = file_bytes (fs_disk s) ns" by (intro file_bytes_cong) (simp add: block_data_def)
  moreover have "file_bytes (fs_disk s2) (ss @ [x]) = file_bytes (fs_disk s) (ss @ [x])" using G by simp
  ultimately have "file_bytes (fs_disk s2) ((ss @ [x]) @ ns) = file_bytes (fs_disk s) ((ss @ [x]) @ ns)"
    by (simp only: file_bytes_append)
  then show ?thesis using G assms(3) unfolding grown_def by (auto simp: image_Un split: if_splits)
qed

text \<open>One round of the loop.\<close>

lemma expand_one:
  assumes "disk_ok (fs_disk s)" "chain (fs_disk s) (first_sector (fcb f)) ss" "distinct ss" "ss \<noteq> []"
    "last_sector (fcb f) = last ss" "sectors_used ss (file_alloc_bitmap s)" "0 < card (free_sectors (file_alloc_bitmap s))"
  obtains x s2 where "grown ss 1 [x] (fcb f) s s2"
    "\<forall>n. expand_loop (Suc n) f s = expand_loop n (f\<lparr>fcb := (fcb f)\<lparr>last_sector := x\<rparr>\<rparr>) s2"
proof -
  let ?dk = "fs_disk s" and ?l = "last ss"
  from file_alloc_ok [OF assms(7)] assms(6) obtain bm x where x: "file_alloc s = (s\<lparr>file_alloc_bitmap := bm\<rparr>, x)"
    "slots bm = slots (file_alloc_bitmap s)" "\<not> bit_at (file_alloc_bitmap s) (uint x)"
    "free_sectors bm = free_sectors (file_alloc_bitmap s) - {uint x}" "uint x \<in> free_sectors (file_alloc_bitmap s)"
    "\<forall>m. bit_at bm m \<longleftrightarrow> m = uint x \<or> bit_at (file_alloc_bitmap s) m"
    "\<forall>m \<in> free_sectors (file_alloc_bitmap s). uint x \<le> m" by (auto simp: sectors_used_def)
  have new: "x \<notin> set ss" using assms(6) x(3) by (auto simp: sectors_used_def)
  then have ne: "unat x \<noteq> unat ?l" using assms(4) last_in_set [of ss] by (auto simp: word_unat_eq_iff [symmetric])
  define dk1 where "dk1 = ?dk(unat ?l := set_next_sector x (?dk (unat ?l)))"
  define dk2 where "dk2 = dk1(unat x := set_next_sector NO_SECTOR (?dk (unat x)))"
  define s0 where "s0 = s\<lparr>file_alloc_bitmap := bm\<rparr>"
  define s1 where "s1 = s0\<lparr>fs_disk := dk1\<rparr>"
  define s2 where "s2 = s\<lparr>file_alloc_bitmap := bm, fs_disk := dk2\<rparr>"
  have b0: "read_block s0 y = ?dk (unat y)" for y by (simp add: s0_def read_block_eq)
  have b1: "read_block s1 x = ?dk (unat x)" using ne by (simp add: s1_def dk1_def read_block_eq)
  have "write_block ?l (set_next_sector x (read_block s0 ?l)) s0 = Inr s1"
    using assms(1) by (subst write_block_eq) (simp_all only: b0, simp_all add: s1_def s0_def dk1_def)
  moreover have "write_block x (set_next_sector NO_SECTOR (read_block s1 x)) s1 = Inr s2"
    using assms(1) by (subst write_block_eq) (simp_all only: b1, simp_all add: s2_def s1_def s0_def dk2_def)
  ultimately have step: "\<forall>n. expand_loop (Suc n) f s = expand_loop n (f\<lparr>fcb := (fcb f)\<lparr>last_sector := x\<rparr>\<rparr>) s2"
    by (simp add: x(1) s0_def [symmetric] Let_def assms(5))
  have ok2: "disk_ok dk2" using assms(1) by (simp add: dk2_def dk1_def disk_ok_def)
  have nx: "next_sector (dk2 (unat y)) = (if y = x then NO_SECTOR else if y = ?l then x else next_sector (?dk (unat y)))" for y
    using assms(1) by (auto simp: dk2_def dk1_def word_unat_eq_iff)
  have "?l \<notin> set (butlast ss)" using assms(3,4) by (metis append_butlast_last_id distinct_butlast not_distinct_conv_prefix)
  then have "chain dk2 (first_sector (fcb f)) ss"
    using assms(2) new by (subst chain_cong_butlast [of ss dk2 ?dk]) (auto simp: nx dest: in_set_butlastD)
  then have ch: "chain dk2 (first_sector (fcb f)) (ss @ [x])" using assms(4) new nx [of ?l] by (auto simp: chain_append)
  have fb: "file_bytes dk2 ts = file_bytes ?dk ts" for ts
    using assms(1) unfolding dk2_def dk1_def by (intro file_bytes_cong) (simp add: block_data_set_next, simp add: block_data_def)
  have "dk2 i = ?dk i" if "i \<notin> unat ` set (ss @ [x])" for i using that assms(4) by (auto simp: dk2_def dk1_def)
  then have "grown ss 1 [x] (fcb f) s s2"
    using ok2 ch fb nx [of x] new x assms(3,6) unfolding grown_def by (auto simp: s2_def sectors_used_def)
  with step show ?thesis using that by blast
qed

lemma expand_loop_ok:
  assumes "disk_ok (fs_disk s)" "chain (fs_disk s) (first_sector (fcb f)) ss" "distinct ss" "ss \<noteq> []"
    "last_sector (fcb f) = last ss" "sectors_used ss (file_alloc_bitmap s)" "n \<le> card (free_sectors (file_alloc_bitmap s))"
  shows "\<exists>ns s'. expand_loop n f s = Inr (f\<lparr>fcb := (fcb f)\<lparr>last_sector := last (ss @ ns)\<rparr>\<rparr>, s') \<and>
    grown ss n ns (fcb f) s s'"
  using assms
proof (induction n arbitrary: f s ss)
  case 0
  have "f\<lparr>fcb := (fcb f)\<lparr>last_sector := last ss\<rparr>\<rparr> = f" using 0 by simp
  then show ?case using 0 by (intro exI [of _ "[]"] exI [of _ s]) (auto simp: grown_def)
next
  case (Suc n)
  have "0 < card (free_sectors (file_alloc_bitmap s))" using Suc.prems(7) by simp
  from expand_one [OF Suc.prems(1-6) this] obtain x s2 where one: "grown ss 1 [x] (fcb f) s s2"
    "\<forall>n. expand_loop (Suc n) f s = expand_loop n (f\<lparr>fcb := (fcb f)\<lparr>last_sector := x\<rparr>\<rparr>) s2" .
  let ?f2 = "f\<lparr>fcb := (fcb f)\<lparr>last_sector := x\<rparr>\<rparr>"
  have "n \<le> card (free_sectors (file_alloc_bitmap s2))" using one(1) Suc.prems(7) by (simp add: grown_def)
  then have "\<exists>ns s'. expand_loop n ?f2 s2 = Inr (?f2\<lparr>fcb := (fcb ?f2)\<lparr>last_sector := last ((ss @ [x]) @ ns)\<rparr>\<rparr>, s') \<and>
      grown (ss @ [x]) n ns (fcb ?f2) s2 s'"
    using one(1) by (intro Suc.IH) (simp_all add: grown_def)
  then obtain ns s' where R: "expand_loop n ?f2 s2 = Inr (?f2\<lparr>fcb := (fcb ?f2)\<lparr>last_sector := last ((ss @ [x]) @ ns)\<rparr>\<rparr>, s')"
    "grown (ss @ [x]) n ns (fcb ?f2) s2 s'" by blast
  have "grown ss (Suc n) (x # ns) (fcb f) s s'" by (rule grown_Cons [OF one(1) R(2)]) simp
  then show ?case using one(2) R(1) by (intro exI [of _ "x # ns"] exI [of _ s']) simp
qed

section \<open>Properties\<close>

text \<open>
  A write that passes at most one block border changes exactly the bytes from the
  write pointer on, leaves the chain of the file and every sector outside it alone, and moves the
  write pointer and its sector behind what it has written.
\<close>
theorem covering_write_in_place:
  assumes "disk_ok (fs_disk s)" "chain (fs_disk s) w ss" "distinct ss" "write_seek (io_state f) = int p"
    "write_sector (io_state f) = ss ! (p div 508)" "n \<le> length buf" "p + n < 2 ^ 32"
    "(p + n) div 508 < length ss" "(p + n) div 508 \<le> Suc (p div 508)"
  shows "\<exists>f' s'. covering_write f buf (int n) s = Inr (f', s') \<and>
    write_seek (io_state f') = int (p + n) \<and> write_sector (io_state f') = ss ! ((p + n) div 508) \<and>
    disk_ok (fs_disk s') \<and> chain (fs_disk s') w ss \<and>
    file_bytes (fs_disk s') ss = overwrite (file_bytes (fs_disk s) ss) p (take n buf) \<and>
    (\<forall>i. i \<notin> unat ` set ss \<longrightarrow> fs_disk s' i = fs_disk s i)"
  using covering_write_ok [OF assms] by (auto simp: overwritten_def)

theorem covering_write_in_place_witness:
  "\<exists>f' s'. covering_write (three_block_file\<lparr>io_state := (io_state three_block_file)\<lparr>write_seek := 500\<rparr>\<rparr>)
      (replicate 20 9) 20 (demo_fs three_blocks) = Inr (f', s') \<and>
    file_bytes (fs_disk s') [1026, 1027, 1028] = overwrite (replicate 508 1 @ replicate 508 2 @ replicate 508 3) 500 (replicate 20 9)"
  using covering_write_in_place [of "demo_fs three_blocks" 1026 "[1026, 1027, 1028]"
      "three_block_file\<lparr>io_state := (io_state three_block_file)\<lparr>write_seek := 500\<rparr>\<rparr>" "500" "20" "replicate 20 9"]
    three_blocks_ok
  by (auto simp: three_block_file_def file_on_def)

text \<open>
  Claim C34: a write over a whole block destroys the chain: the block gets 512 bytes of the
  buffer, its link included, and the rest is written to the sector whose number stands in the
  caller's data there, wherever on the disk that is.
\<close>
theorem covering_write_follows_user_data:
  assumes "disk_ok (fs_disk s)" "chain (fs_disk s) w ss" "distinct ss" "write_seek (io_state f) = int p"
    "write_sector (io_state f) = ss ! k" "k = p div 508" "r = 508 - p mod 508" "n = r + 508 + t" "t < 508" "4 \<le> t"
    "length buf = n" "p + n < 2 ^ 32" "Suc k < length ss" "x = un_le32 (slice (r + 508) 4 buf)" "x \<notin> {ss ! k, ss ! Suc k}"
  shows "\<exists>f' s'. covering_write f buf (int n) s = Inr (f', s') \<and>
    fs_disk s' (unat (ss ! Suc k)) = slice r 512 buf \<and>
    fs_disk s' (unat x) = overwrite (fs_disk s (unat x)) 0 (slice (r + 508) t buf)"
  using covering_write_whole [OF assms] .

theorem covering_write_follows_user_data_witness:
  "\<exists>f' s'. covering_write three_block_file (replicate 1116 0) 1116 (demo_fs three_blocks) = Inr (f', s') \<and>
    fs_disk s' 1027 = replicate 512 0 \<and> take 100 (fs_disk s' 0) = replicate 100 0"
proof -
  have "replicate 4 (0 :: u8) = [0, 0, 0, 0]" by (simp add: eval_nat_numeral)
  then have x: "0 = un_le32 (slice (508 + 508) 4 (replicate 1116 0))" by (simp add: slice_def join32_def)
  have "\<exists>f' s'. covering_write three_block_file (replicate 1116 0) (int 1116) (demo_fs three_blocks) = Inr (f', s') \<and>
      fs_disk s' (unat ([1026, 1027, 1028 :: u32] ! Suc 0)) = slice 508 512 (replicate 1116 0) \<and>
      fs_disk s' (unat (0 :: u32)) = overwrite (fs_disk (demo_fs three_blocks) (unat (0 :: u32))) 0 (slice (508 + 508) 100 (replicate 1116 0))"
    by (rule covering_write_follows_user_data [where ss = "[1026, 1027, 1028]" and w = 1026 and p = 0 and k = 0 and r = 508
        and t = 100, OF _ _ _ _ _ _ _ _ _ _ _ _ _ x])
      (use three_blocks_ok in \<open>simp_all add: three_block_file_def file_on_def\<close>)
  then show ?thesis by (auto simp: slice_def overwrite_def)
qed

text \<open>
  Claim C24: growing a file by \<open>n\<close> sectors, when there are as many free ones, appends \<open>n\<close>
  different sectors that were free to its chain, marks them, ends the chain with 0xFFFFFFFF
  and keeps the bytes of the file.
\<close>
theorem expand_appends_free_sectors:
  assumes "disk_ok (fs_disk s)" "chain (fs_disk s) (first_sector (fcb f)) ss" "distinct ss" "ss \<noteq> []"
    "last_sector (fcb f) = last ss" "sectors_used ss (file_alloc_bitmap s)"
    "0 < n" "n \<le> card (free_sectors (file_alloc_bitmap s))"
  shows "\<exists>ns s'. expand_loop n f s = Inr (f\<lparr>fcb := (fcb f)\<lparr>last_sector := last (ss @ ns)\<rparr>\<rparr>, s') \<and>
    length ns = n \<and> distinct (ss @ ns) \<and> chain (fs_disk s') (first_sector (fcb f)) (ss @ ns) \<and>
    next_sector (fs_disk s' (unat (last (ss @ ns)))) = NO_SECTOR \<and>
    take (508 * length ss) (file_bytes (fs_disk s') (ss @ ns)) = file_bytes (fs_disk s) ss \<and>
    (\<forall>x \<in> set ns. \<not> bit_at (file_alloc_bitmap s) (uint x) \<and> bit_at (file_alloc_bitmap s') (uint x)) \<and>
    (\<forall>i. i \<notin> unat ` set (ss @ ns) \<longrightarrow> fs_disk s' i = fs_disk s i)"
proof -
  from expand_loop_ok [OF assms(1-6,8)] obtain ns s' where
    R: "expand_loop n f s = Inr (f\<lparr>fcb := (fcb f)\<lparr>last_sector := last (ss @ ns)\<rparr>\<rparr>, s')" "grown ss n ns (fcb f) s s'" by blast
  then have "take (508 * length ss) (file_bytes (fs_disk s') (ss @ ns)) = file_bytes (fs_disk s) ss"
    using assms(1) by (simp add: grown_def file_bytes_append)
  with R assms(7) show ?thesis
    by (intro exI [of _ ns] exI [of _ s']) (auto simp: grown_def free_sectors_def sectors_used_def)
qed

theorem expand_appends_free_sectors_witness:
  "\<exists>x s'. expand_loop 1 three_block_file (demo_fs three_blocks) =
      Inr (three_block_file\<lparr>fcb := (fcb three_block_file)\<lparr>last_sector := x\<rparr>\<rparr>, s') \<and>
    chain (fs_disk s') 1026 [1026, 1027, 1028, x]"
proof -
  let ?bm = "file_alloc_bitmap (demo_fs three_blocks)"
  have "bit (0xFF :: u8) j" if "j < 8" for j using byte_all_ones [of "0xFF"] that by simp
  then have bits: "bit_at ?bm k \<longleftrightarrow> k < 1032" if "0 \<le> k" for k
    using that by (auto simp: demo_fs_def bit_at_def nat_less_iff)
  have sl: "slots ?bm = 1572864" by (simp add: demo_fs_def slots_def signed_divide_int_def)
  have "sectors_used [1026, 1027, 1028] ?bm" by (simp add: sectors_used_def sl bits)
  moreover have "2000 \<in> free_sectors ?bm" by (simp add: free_sectors_def sl bits)
  then have "1 \<le> card (free_sectors ?bm)" using card_gt_0_iff [of "free_sectors ?bm"] by (auto simp: Suc_le_eq)
  ultimately obtain ns s' where
    "expand_loop 1 three_block_file (demo_fs three_blocks) =
      Inr (three_block_file\<lparr>fcb := (fcb three_block_file)\<lparr>last_sector := last ([1026, 1027, 1028] @ ns)\<rparr>\<rparr>, s')"
    "length ns = 1" "chain (fs_disk s') 1026 ([1026, 1027, 1028] @ ns)"
    using expand_appends_free_sectors [of "demo_fs three_blocks" three_block_file "[1026, 1027, 1028]" 1] three_blocks_ok
    by (fastforce simp: three_block_file_def file_on_def)
  then show ?thesis by (cases ns) auto
qed

end
