(* ===== verification/Directory.thy ===== *)
theory Directory
  imports File_Write
begin

text \<open>
  Directories: searching one, resolving a path, and writing a changed entry back. A directory is
  a file whose bytes are \<open>file_t\<close> entries of 84 bytes each.
\<close>

section \<open>Searching\<close>

definition entry_at :: "disk \<Rightarrow> u32 list \<Rightarrow> nat \<Rightarrow> file_t" where
  "entry_at dk ss i = decode_file (slice (FILE_T_SIZE * i) FILE_T_SIZE (file_bytes dk ss))"

definition entries :: "file_t \<Rightarrow> nat" where
  "entries dir = nat (file_size dir) div FILE_T_SIZE"

text \<open>A directory that \<open>dir_search_file\<close> can read, each name in it ended by a null character.\<close>

definition dir_on :: "disk \<Rightarrow> file_t \<Rightarrow> u32 list \<Rightarrow> bool" where
  "dir_on dk dir ss \<longleftrightarrow> file_on dk dir ss \<and> nat (file_size dir) + 4 \<le> 512 * FILE_T_SIZE \<and>
     (\<forall>i < entries dir. 0 \<in> set (file_name (entry_at dk ss i)))"

definition first_entry :: "disk \<Rightarrow> file_t \<Rightarrow> u32 list \<Rightarrow> u8 list \<Rightarrow> nat option" where
  "first_entry dk dir ss name = List.find (\<lambda>i. c_str (file_name (entry_at dk ss i)) = c_str name) [0..<entries dir]"

lemma c_str_take0: "0 \<in> set (take n xs) \<Longrightarrow> c_str (take n xs) = c_str xs"
proof (induction xs arbitrary: n)
  case (Cons x xs)
  then show ?case by (cases n) (auto simp: c_str_def)
qed simp

lemma search_from_ok:
  assumes "0 \<in> set name" "\<And>j. i \<le> j \<Longrightarrow> j < n \<Longrightarrow> 0 \<in> set (drop (84 * j) files)"
  shows "search_from i n files name = Inr (List.find (\<lambda>j. c_str (drop (84 * j) files) = c_str name) [i..<n])"
  using assms
proof (induction "n - i" arbitrary: i)
  case 0
  then show ?case by (subst search_from.simps) simp
next
  case (Suc d)
  then have i: "i < n" "[i..<n] = i # [Suc i..<n]" by (simp_all add: upt_conv_Cons)
  have "search_from (Suc i) n files name = Inr (List.find (\<lambda>j. c_str (drop (84 * j) files) = c_str name) [Suc i..<n])"
    using Suc.hyps Suc.prems by (intro Suc.hyps(1)) simp_all
  then show ?case
    using i Suc.prems by (subst search_from.simps) (simp add: strcmp_ok)
qed

lemma slice_of_take: "a + n \<le> k \<Longrightarrow> slice a n (take k xs) = slice a n xs"
  by (simp add: slice_take)

lemma entries_fit: "i < entries dir \<Longrightarrow> 84 * i + 84 \<le> nat (file_size dir)"
proof -
  assume "i < entries dir"
  then have "84 * Suc i \<le> 84 * (nat (file_size dir) div 84)" by (simp add: entries_def)
  also have "\<dots> \<le> nat (file_size dir)" by simp
  finally show ?thesis by simp
qed

lemma find_cong: "(\<And>x. x \<in> set xs \<Longrightarrow> P x = Q x) \<Longrightarrow> List.find P xs = List.find Q xs"
  by (induction xs) auto

lemma dir_search_ok:
  assumes "disk_ok (fs_disk s)" "dir_on (fs_disk s) dir ss" "0 \<in> set name"
  shows "dir_search_file dir name s = Inr (case first_entry (fs_disk s) dir ss name of
      None \<Rightarrow> (FILE_RESULT_NOT_EXISTING, None)
    | Some i \<Rightarrow> (FILE_RESULT_SUCCESS, Some (entry_at (fs_disk s) ss i, int i)))"
proof -
  let ?D = "file_bytes (fs_disk s) ss" and ?z = "nat (file_size dir)"
  from assms(2) have f: "file_on (fs_disk s) dir ss" "?z + 4 \<le> 43008"
    and nm: "\<And>i. i < entries dir \<Longrightarrow> 0 \<in> set (file_name (entry_at (fs_disk s) ss i))" by (auto simp: dir_on_def)
  have z: "0 \<le> file_size dir" "file_size dir < 2 ^ 31" using f(1) by (auto simp: file_on_def)
  have lu: "length (uninit 1 43008 s) = 43008" by (simp add: uninit_def)
  from read_all_ok [OF assms(1) f(1), of "uninit 1 43008 s"] f(2) lu obtain files where
    files: "read_all dir (uninit 1 43008 s) s = Inr files" "reads_to (uninit 1 43008 s) 0 (take ?z ?D) files" by auto
  have lD: "?z \<le> length ?D" using file_on_room(1) [OF f(1) assms(1), of 0 ?z] z assms(1) by simp
  have tf: "take ?z files = take ?z ?D" using files(2) lD by (simp add: reads_to_def slice_def)
  have sl: "slice (84 * i) 84 files = slice (84 * i) 84 ?D" if "i < entries dir" for i
    using arg_cong [OF tf, of "slice (84 * i) 84"] entries_fit [OF that] by (simp add: slice_of_take)
  have fn: "take 64 (drop (84 * i) files) = file_name (entry_at (fs_disk s) ss i)" if "i < entries dir" for i
    using arg_cong [OF sl [OF that], of "take 64"] by (simp add: entry_at_def decode_file_def) (simp add: slice_def)
  have c: "0 \<in> set (drop (84 * i) files)" "c_str (drop (84 * i) files) = c_str (file_name (entry_at (fs_disk s) ss i))"
    if i: "i < entries dir" for i
  proof -
    have t: "0 \<in> set (take 64 (drop (84 * i) files))" unfolding fn [OF i] by (rule nm [OF i])
    then show "0 \<in> set (drop (84 * i) files)" by (rule in_set_takeD)
    show "c_str (drop (84 * i) files) = c_str (file_name (entry_at (fs_disk s) ss i))"
      unfolding fn [OF i, symmetric] by (rule c_str_take0 [OF t, symmetric])
  qed
  have n: "nat (uint32 (file_size dir) div 84) = entries dir"
    using z uint32_of_nat [of ?z] by (simp add: entries_def nat_div_distrib)
  have "List.find (\<lambda>j. c_str (drop (84 * j) files) = c_str name) [0..<entries dir] = first_entry (fs_disk s) dir ss name"
    unfolding first_entry_def by (rule find_cong) (simp add: c)
  then have "search_from 0 (entries dir) files name = Inr (first_entry (fs_disk s) dir ss name)"
    using search_from_ok [OF assms(3), of 0 "entries dir" files] c by simp
  moreover have "i < entries dir" if "first_entry (fs_disk s) dir ss name = Some i" for i
    using that by (auto simp: first_entry_def find_Some_iff)
  ultimately show ?thesis
    using sl by (auto simp: dir_search_file_def files(1) [unfolded One_nat_def] n entry_at_def split: option.splits)
qed

text \<open>The search depends on the name only up to its terminator.\<close>

lemma strcmp_cong:
  assumes "0 \<in> set n1" "0 \<in> set n2" "c_str n1 = c_str n2"
  shows "strcmp b n1 = strcmp b n2"
proof (cases "0 \<in> set b")
  case True
  then show ?thesis using assms by (simp add: strcmp_ok)
next
  case False
  then show ?thesis by (simp add: strcmp_def strlen_eq)
qed

lemma search_from_cong:
  "0 \<in> set n1 \<Longrightarrow> 0 \<in> set n2 \<Longrightarrow> c_str n1 = c_str n2 \<Longrightarrow> search_from i n files n1 = search_from i n files n2"
proof (induction "n - i" arbitrary: i)
  case 0
  then show ?case by (subst (1 2) search_from.simps) simp
next
  case (Suc d)
  then have "search_from (Suc i) n files n1 = search_from (Suc i) n files n2" by simp
  then show ?case
    using strcmp_cong [OF Suc.prems] by (subst (1 2) search_from.simps) (simp cong: if_cong)
qed

lemma dir_search_cong:
  assumes "0 \<in> set n1" "0 \<in> set n2" "c_str n1 = c_str n2"
  shows "dir_search_file d n1 s = dir_search_file d n2 s"
  unfolding dir_search_file_def search_from_cong [OF assms] ..

section \<open>Resolving a path\<close>

text \<open>
  The reference: a path is a list of names; each of them is searched in the directory found so
  far. A missing last name and a missing directory on the way give different errors.
\<close>

fun follow :: "u8 list list \<Rightarrow> file_cached_t \<Rightarrow> fs_state \<Rightarrow> (file_result_t option \<times> file_cached_t) res" where
  "follow [] f s = Inr (None, f)"
| "follow (c # cs) f s =
     rbind (dir_search_file (fcb f) (c @ [0]) s) (\<lambda>(_, found).
       case found of
         None \<Rightarrow> Inr (Some (if cs = [] then FILE_RESULT_NOT_EXISTING else FILE_RESULT_DIR_NOT_EXISTING), f)
       | Some (target, index) \<Rightarrow>
           follow cs (f\<lparr>fcb := target, path_state := (path_state f)\<lparr>index_in_parent_dir := index\<rparr>\<rparr>) s)"

definition path_of :: "u8 list list \<Rightarrow> u8 list" where
  "path_of cs = concat (map (\<lambda>c. c @ [47]) cs)"

definition names_ok :: "u8 list list \<Rightarrow> bool" where
  "names_ok cs \<longleftrightarrow> (\<forall>c \<in> set cs. 0 \<notin> set c \<and> 47 \<notin> set c \<and> length c < FILE_NAME_MAXLENGTH)"

lemma path_of_simps [simp]: "path_of [] = []" "path_of (c # cs) = c @ 47 # path_of cs"
  by (simp_all add: path_of_def)

lemma load_from_chars:
  assumes "47 \<notin> set c" "j + length c < length temp" "i + length c < len" "\<And>m. m < length c \<Longrightarrow> path ! (i + m) = c ! m"
  shows "load_from path len i temp j f s = load_from path len (i + length c) (overwrite temp j c) (j + length c) f s"
  using assms
proof (induction c arbitrary: i j temp)
  case Nil
  then show ?case by (simp add: overwrite_def)
next
  case (Cons x c)
  have p: "path ! i = x" "x \<noteq> 47" using Cons.prems(1) Cons.prems(4) [of 0] by auto
  have "load_from path len i temp j f s = load_from path len (i + 1) (overwrite temp j [x]) (j + 1) f s"
    using Cons.prems(2,3) p by (subst load_from.simps) (simp add: buf_write_def)
  also have "\<dots> = load_from path len (i + 1 + length c) (overwrite (overwrite temp j [x]) (j + 1) c) (j + 1 + length c) f s"
    using Cons.prems(1-3) Cons.prems(4) [of "Suc _"] by (intro Cons.IH) (simp_all add: length_overwrite)
  also have "overwrite (overwrite temp j [x]) (j + 1) c = overwrite temp j (x # c)"
    using overwrite_overwrite [of j "[x]" c temp] Cons.prems(2) by simp
  finally show ?case by simp
qed

lemma load_from_path:
  assumes "names_ok cs" "path = pre @ path_of cs @ 0 # rest" "len = length pre + length (path_of cs)"
    "length temp = FILE_NAME_MAXLENGTH"
  shows "load_from path len (length pre) temp 0 f s = follow cs f s"
  using assms
proof (induction cs arbitrary: pre temp f)
  case Nil
  then show ?case by (subst load_from.simps) simp
next
  case (Cons c cs)
  have c: "0 \<notin> set c" "47 \<notin> set c" "length c < 64" "names_ok cs" using Cons.prems(1) by (simp_all add: names_ok_def)
  define t0 where "t0 = overwrite temp 0 c"
  define t1 where "t1 = overwrite t0 (length c) [0]"
  have l: "length t0 = 64" "length t1 = 64" using c Cons.prems(4) by (simp_all add: t0_def t1_def)
  have t1: "t1 = c @ 0 # drop (Suc (length c)) temp"
    using c Cons.prems(4) overwrite_overwrite [of 0 c "[0]" temp] by (simp add: t1_def t0_def) (simp add: overwrite_def)
  have IH: "load_from path len (length (pre @ c @ [47])) t1 0 g s = follow cs g s" for g
    using Cons.prems(2,3) l c by (intro Cons.IH) simp_all
  have "path ! (length pre + m) = c ! m" if "m < length c" for m
    using that by (simp add: Cons.prems(2) nth_append)
  then have "load_from path len (length pre) temp 0 f s = load_from path len (length pre + length c) t0 (length c) f s"
    using load_from_chars [of c 0 temp "length pre" len path f s] c Cons.prems(3,4) by (simp add: t0_def)
  also have "\<dots> = rbind (dir_search_file (fcb f) t1 s) (\<lambda>(r, found).
            case found of
              None \<Rightarrow> Inr (Some (if cs = [] then FILE_RESULT_NOT_EXISTING else FILE_RESULT_DIR_NOT_EXISTING), f)
            | Some (target, index) \<Rightarrow>
                load_from path len (length (pre @ c @ [47])) t1 0
                  (f\<lparr>fcb := target, path_state := (path_state f)\<lparr>index_in_parent_dir := index\<rparr>\<rparr>) s)"
  proof -
    have "path ! (length pre + length c) = 47" by (simp add: Cons.prems(2) nth_append)
    moreover have "length pre + length c < len" "int (length pre + length c) \<ge> int len - 1 \<longleftrightarrow> cs = []"
      by (cases cs; simp add: Cons.prems(3))+
    moreover have "buf_write t0 (length c) [0] = Inr t1" using c l by (simp add: t1_def buf_write_def)
    ultimately show ?thesis by (subst load_from.simps) (simp add: add.assoc cong: if_cong)
  qed
  also have "dir_search_file (fcb f) t1 s = dir_search_file (fcb f) (c @ [0]) s"
    using c by (intro dir_search_cong) (simp_all add: t1)
  finally show ?case unfolding IH by (simp cong: option.case_cong)
qed

lemma path_of_append: "path_of (cs @ ds) = path_of cs @ path_of ds"
  by (simp add: path_of_def)

lemma path_no_zero: "names_ok cs \<Longrightarrow> 0 \<notin> set (path_of cs)"
  by (auto simp: names_ok_def path_of_def)

lemma path_last: "path_of cs = [] \<or> last (path_of cs) = 47"
  by (cases cs rule: rev_cases) (simp_all add: path_of_append)

lemma path_Nil_iff: "path_of cs = [] \<longleftrightarrow> cs = []"
  by (cases cs) simp_all

definition opened :: "file_cached_t \<Rightarrow> file_cached_t" where
  "opened f = f\<lparr>io_state := \<lparr>read_seek = 0, write_seek = 0, read_sector = first_sector (fcb f),
     write_sector = first_sector (fcb f)\<rparr>\<rparr>"

definition root_fcb :: "fs_state \<Rightarrow> file_t" where
  "root_fcb s = decode_file (take FILE_T_SIZE (read_block s SECTOR_WITH_ROOT_FCB))"

lemma follow_path_state:
  "follow cs f s = Inr (r, f') \<Longrightarrow> parent_dir_name (path_state f') = parent_dir_name (path_state f)"
  by (induction cs f s rule: follow.induct) (fastforce simp: rbind_eq_Inr split: option.splits)+

lemma load_file_cached_path:
  assumes "names_ok cs" "path = path_of cs @ 0 # rest"
  shows "load_file_cached path f s = rbind (follow cs (f\<lparr>fcb := root_fcb s\<rparr>) s) (\<lambda>(r, f2).
    case r of Some e \<Rightarrow> Inr (e, f2)
    | None \<Rightarrow>
      if cs = [] then Inr (FILE_RESULT_SUCCESS, (opened f2)\<lparr>path_state := (path_state f2)\<lparr>has_parent := False\<rparr>\<rparr>)
      else rbind (get_parent_dir_name path (uninit 3 FILE_PATH_MAXLENGTH s)) (\<lambda>parent.
        rbind (strcpy (parent_dir_name (path_state f2)) parent) (\<lambda>name.
          Inr (FILE_RESULT_SUCCESS,
            (opened f2)\<lparr>path_state := (path_state f2)\<lparr>has_parent := True, parent_dir_name := name\<rparr>\<rparr>))))"
proof -
  have z: "0 \<notin> set (path_of cs)" by (rule path_no_zero [OF assms(1)])
  then have len: "strlen path = Inr (length (path_of cs))" by (simp add: assms(2) strlen_eq)
  have "strcmp path [0] = Inr (if cs = [] then 0 else 1)"
    using strcmp_ok [of path "[0]"] z by (simp add: assms(2) c_str_def path_Nil_iff)
      (metis c_str_append c_str_def path_Nil_iff)
  moreover have "load_from path (length (path_of cs)) 0 (uninit 2 64 s) 0 (f\<lparr>fcb := root_fcb s\<rparr>) s = follow cs (f\<lparr>fcb := root_fcb s\<rparr>) s"
    using load_from_path [OF assms(1), of path "[]" rest "length (path_of cs)" "uninit 2 64 s"] assms(2)
    by (simp add: uninit_def)
  ultimately show ?thesis
    unfolding load_file_cached_def len
    by (cases "follow cs (f\<lparr>fcb := root_fcb s\<rparr>) s")
      (auto simp: Let_def root_fcb_def [symmetric] opened_def split: option.splits)
qed

lemma load_root: "load_file_cached (0 # rest) f s =
   Inr (FILE_RESULT_SUCCESS, (opened (f\<lparr>fcb := root_fcb s\<rparr>))\<lparr>path_state := (path_state f)\<lparr>has_parent := False\<rparr>\<rparr>)"
  using load_file_cached_path [of "[]" "0 # rest" rest f s] by (simp add: names_ok_def)

lemma load_named:
  assumes "names_ok (cs @ [c])" "follow (cs @ [c]) (f\<lparr>fcb := root_fcb s\<rparr>) s = Inr (None, f2)"
    "length (path_of cs) < FILE_PATH_MAXLENGTH" "length (parent_dir_name (path_state f)) = FILE_PATH_MAXLENGTH"
  shows "load_file_cached (path_of (cs @ [c]) @ 0 # rest) f s = Inr (FILE_RESULT_SUCCESS,
    (opened f2)\<lparr>path_state := (path_state f2)\<lparr>has_parent := True,
      parent_dir_name := path_of cs @ 0 # drop (Suc (length (path_of cs))) (parent_dir_name (path_state f))\<rparr>\<rparr>)"
proof -
  have ok: "names_ok cs" "0 \<notin> set c" "47 \<notin> set c" using assms(1) by (simp_all add: names_ok_def)
  have z: "0 \<notin> set (path_of cs)" by (rule path_no_zero [OF ok(1)])
  have "get_parent_dir_name (path_of (cs @ [c]) @ 0 # rest) (uninit 3 512 s) =
      Inr (path_of cs @ 0 # drop (length (path_of cs) + 1) (uninit 3 512 s))"
    using get_parent_ok [OF z path_last ok(2,3), of "uninit 3 512 s" rest] assms(3) by (simp add: uninit_def path_of_append)
  moreover have "strcpy (parent_dir_name (path_state f2)) (path_of cs @ 0 # t) =
      Inr (path_of cs @ 0 # drop (Suc (length (path_of cs))) (parent_dir_name (path_state f)))" for t
    using strcpy_ok [OF z] follow_path_state [OF assms(2)] assms(3,4) by simp
  ultimately show ?thesis
    using load_file_cached_path [OF assms(1) refl, of rest f s] assms(2) by simp
qed

section \<open>Writing an entry back\<close>

lemma store_ok:
  assumes "load_file_cached (parent_dir_name (path_state f)) (fs_cached s 1) s = Inr (FILE_RESULT_SUCCESS, dir)"
    "has_parent (path_state f)" "index_in_parent_dir (path_state f) = int i" "wf_file (fcb f)"
    "disk_ok (fs_disk s)" "chain (fs_disk s) (first_sector (fcb dir)) ds" "distinct ds"
    "84 * i + 84 < 2 ^ 32" "(84 * i + 84) div 508 < length ds"
  shows "\<exists>s'. store_file_cached f s = Inr s' \<and>
    overwritten (first_sector (fcb dir)) ds (84 * i) (encode_file (fcb f)) s s'"
proof -
  have le: "84 * i div 508 \<le> (84 * i + 84) div 508" by (rule div_le_mono) simp
  have i: "84 * i < 2 ^ 32" "84 * i div 508 < length ds" using le assms(8,9) by linarith+
  have b: "(84 * i + 84) div 508 \<le> Suc (84 * i div 508)"
    using block_split [of "84 * i" 84] mod_less_divisor [of 508 "84 * i"] by (simp add: div_le_dividend less_imp_le)
  define dir1 where "dir1 = dir\<lparr>io_state := (io_state dir)\<lparr>write_sector := ds ! (84 * i div 508), write_seek := int (84 * i)\<rparr>\<rparr>"
  have ws: "sys_wseek dir (84 * int i) s = (FILE_RESULT_SUCCESS, dir1)"
    using sys_wseek_ok [OF assms(6) i] by (simp add: dir1_def)
  have "length (encode_file (fcb f)) = 84" using assms(4) by simp
  then obtain s' where "covering_write dir1 (encode_file (fcb f)) 84 s = Inr
      (dir1\<lparr>io_state := (io_state dir1)\<lparr>write_sector := ds ! ((84 * i + 84) div 508), write_seek := int (84 * i + 84)\<rparr>\<rparr>, s')"
    "overwritten (first_sector (fcb dir)) ds (84 * i) (encode_file (fcb f)) s s'"
    using covering_write_ok [OF assms(5-7), of dir1 "84 * i" 84 "encode_file (fcb f)"] assms(8,9) b
    by (auto simp: dir1_def)
  then show ?thesis
    using assms(1-3) ws by (simp add: store_file_cached_def)
qed

lemma slice_overwrite_other:
  "a + length xs \<le> length zs \<Longrightarrow> b + n \<le> a \<or> a + length xs \<le> b \<Longrightarrow> slice b n (overwrite zs a xs) = slice b n zs"
proof (elim disjE)
  assume r: "a + length xs \<le> length zs" and b: "b + n \<le> a"
  have "take a (overwrite zs a xs) = take a zs" using r by (simp add: overwrite_def)
  then show ?thesis using slice_take [OF b, of zs] slice_take [OF b, of "overwrite zs a xs"] by simp
next
  assume r: "a + length xs \<le> length zs" and b: "a + length xs \<le> b"
  have "drop (a + length xs) (overwrite zs a xs) = drop (a + length xs) zs" using r by (simp add: overwrite_def)
  from arg_cong [OF this, of "slice (b - (a + length xs)) n"] show ?thesis using b by (simp add: slice_def)
qed

lemma overwritten_entry:
  assumes "overwritten w ds (84 * i) (encode_file f) s s'" "wf_file f" "disk_ok (fs_disk s)"
    "84 * i + 84 \<le> 508 * length ds"
  shows "entry_at (fs_disk s') ds j = (if j = i then f else entry_at (fs_disk s) ds j)"
proof (cases "j = i")
  case True
  have "slice (84 * i) (length (encode_file f)) (file_bytes (fs_disk s') ds) = encode_file f"
    using assms by (subst slice_overwrite_same [symmetric, of "84 * i" "encode_file f" "file_bytes (fs_disk s) ds"])
      (simp_all add: overwritten_def)
  then have "entry_at (fs_disk s') ds i = decode_file (encode_file f)"
    using assms(2) by (simp add: entry_at_def)
  then show ?thesis using True decode_encode [OF assms(2), of "[]"] by simp
next
  case False
  then have "84 * j + 84 \<le> 84 * i \<or> 84 * i + 84 \<le> 84 * j" by linarith
  then have "slice (84 * j) 84 (file_bytes (fs_disk s') ds) = slice (84 * j) 84 (file_bytes (fs_disk s) ds)"
    using assms slice_overwrite_other [of "84 * i" "encode_file f" "file_bytes (fs_disk s) ds" "84 * j" 84]
    by (simp add: overwritten_def)
  then show ?thesis using False by (simp add: entry_at_def)
qed

section \<open>The first root directory\<close>

lemma bit_at_fold:
  "bit_at (fold (\<lambda>i bm. bit_free bm (int i) True) is bm) k \<longleftrightarrow> (\<exists>i \<in> set is. k = int i) \<or> bit_at bm k"
  by (induction "is" arbitrary: bm) (auto simp: bit_at_bit_free)

lemma slots_fold: "slots (fold (\<lambda>i bm. bit_free bm (int i) True) is bm) = slots bm"
  by (induction "is" arbitrary: bm) (simp_all add: slots_bit_free)

lemma root_init_ok:
  "\<exists>name block. root_init s = Inr (s\<lparr>fs_disk := (fs_disk s)(1024 := block),
      file_alloc_bitmap := bit_free (bit_free (file_alloc_bitmap s) 1024 True) 1025 True\<rparr>) \<and> length block = 512 \<and>
    c_str name = [114, 111, 111, 116] \<and> length name = 64 \<and>
    decode_file (take 84 block) = \<lparr>file_name = name, first_sector = 1025, last_sector = 1025, sector_count = 1,
      file_size = 84, file_type = FILE_TYPE_DIRECTORY\<rparr>"
proof -
  let ?u = "uninit 0 512 s"
  define ns where "ns = [114, 111, 111, 116 :: u8]"
  have ns: "length ns = 4" "0 \<notin> set ns" "[114, 111, 111, 116, 0] = ns @ 0 # []" by (simp_all add: ns_def)
  define name where "name = ns @ 0 # drop (Suc (length ns)) (take 64 ?u)"
  have lu: "length ?u = 512" by (simp add: uninit_def)
  have n: "strcpy (take 64 ?u) [114, 111, 111, 116, 0] = Inr name"
    unfolding ns(3) using strcpy_ok [OF ns(2), of "take 64 ?u" "[]"] lu by (simp add: name_def ns(1))
  define f where "f = \<lparr>file_name = name, first_sector = 1025, last_sector = 1025, sector_count = 1,
      file_size = 84, file_type = FILE_TYPE_DIRECTORY\<rparr>"
  have wf: "wf_file f" using lu by (simp add: wf_file_def f_def name_def ns(1))
  define block where "block = set_next_sector NO_SECTOR (encode_file f @ drop 84 ?u)"
  have lb: "length block = 512" using wf lu by (simp add: block_def)
  have "take 84 block = encode_file f" using wf by (simp add: block_def set_next_sector_def)
  then have "decode_file (take 84 block) = f" using decode_encode [OF wf, of "[]"] by simp
  moreover have "root_init s = Inr (s\<lparr>fs_disk := (fs_disk s)(1024 := block),
      file_alloc_bitmap := bit_free (bit_free (file_alloc_bitmap s) 1024 True) 1025 True\<rparr>)"
    using lb by (simp add: root_init_def n Let_def f_def [symmetric] block_def [symmetric] write_block_eq)
  moreover have "c_str name = [114, 111, 111, 116]"
    unfolding name_def c_str_append [OF ns(2)] by (rule ns_def)
  moreover have "length name = 64" using lu by (simp add: name_def ns(1))
  ultimately show ?thesis using lb by (auto simp: f_def)
qed

lemma fs_init_ok:
  assumes "disk_ok (fs_disk s)"
  shows "\<exists>s' f'. fs_init s = Inr s' \<and> disk_ok (fs_disk s') \<and>
    load_file_cached (0 # rest) f s' = Inr (FILE_RESULT_SUCCESS, f') \<and> \<not> has_parent (path_state f') \<and>
    c_str (file_name (fcb f')) = [114, 111, 111, 116] \<and> first_sector (fcb f') = 1025 \<and> file_size (fcb f') = 84 \<and>
    slots (file_alloc_bitmap s') = 1572864 \<and>
    (\<forall>k. bit_at (file_alloc_bitmap s') k \<longleftrightarrow> 0 \<le> k \<and> k \<le> 1025 \<or> bit_at (file_alloc_bitmap s) k) \<and>
    root_fcb s' = fcb f' \<and> (\<forall>i. i \<noteq> 1024 \<longrightarrow> fs_disk s' i = fs_disk s i) \<and> fs_console s' = fs_console s \<and>
    fs_cached s' = fs_cached s"
proof -
  let ?bm0 = "bit_bind (bits (file_alloc_bitmap s)) ((1024 - 640) * 512 * 8)"
  define bm where "bm = fold (\<lambda>i bm. bit_free bm (int i) True) [0..<unat SECTOR_WITH_ROOT_FCB] ?bm0"
  define s0 where "s0 = s\<lparr>file_alloc_bitmap := bm\<rparr>"
  from root_init_ok [of s0] obtain name block where
    r: "root_init s0 = Inr (s0\<lparr>fs_disk := (fs_disk s0)(1024 := block),
      file_alloc_bitmap := bit_free (bit_free (file_alloc_bitmap s0) 1024 True) 1025 True\<rparr>)" "length block = 512"
    "c_str name = [114, 111, 111, 116]" "decode_file (take 84 block) = \<lparr>file_name = name, first_sector = 1025,
      last_sector = 1025, sector_count = 1, file_size = 84, file_type = FILE_TYPE_DIRECTORY\<rparr>" by blast
  define s' where "s' = s0\<lparr>fs_disk := (fs_disk s0)(1024 := block),
      file_alloc_bitmap := bit_free (bit_free (file_alloc_bitmap s0) 1024 True) 1025 True\<rparr>"
  have i: "fs_init s = Inr s'" using r(1) by (simp add: fs_init_def Let_def s0_def bm_def s'_def)
  have "root_fcb s' = decode_file (take 84 block)" by (simp add: root_fcb_def read_block_eq s'_def)
  then have l: "fcb (opened (f\<lparr>fcb := root_fcb s'\<rparr>)) = \<lparr>file_name = name, first_sector = 1025,
      last_sector = 1025, sector_count = 1, file_size = 84, file_type = FILE_TYPE_DIRECTORY\<rparr>"
    using r(4) by (simp add: opened_def)
  have b0: "bit_at (bit_bind (bits (file_alloc_bitmap s)) 1572864) k = bit_at (file_alloc_bitmap s) k"
    "slots (bit_bind (bits (file_alloc_bitmap s)) 1572864) = 1572864" for k
    by (simp_all add: bit_at_def bit_bind_def slots_def signed_divide_int_def)
  have "(\<exists>i \<in> set [0..<1024]. k = int i) \<longleftrightarrow> 0 \<le> k \<and> k < 1024" for k
    by (auto intro!: bexI [of _ "nat k"])
  then have "bit_at (file_alloc_bitmap s') k \<longleftrightarrow> 0 \<le> k \<and> k \<le> 1025 \<or> bit_at (file_alloc_bitmap s) k" for k
    by (auto simp: s'_def s0_def bm_def bit_at_bit_free bit_at_fold b0)
  moreover have "slots (file_alloc_bitmap s') = 1572864"
    by (simp add: s'_def s0_def bm_def slots_fold b0)
  moreover have "disk_ok (fs_disk s')" using assms r(2) by (simp add: s'_def s0_def disk_ok_def)
  ultimately show ?thesis
    using i load_root [of rest f s'] l r(3)
    by (intro exI [of _ s'] exI) (auto simp: s'_def s0_def opened_def)
qed

section \<open>Properties\<close>

text \<open>A disk with the root directory and one file \<open>usr\<close> in it.\<close>

definition demo_root :: file_t where
  "demo_root = \<lparr>file_name = [114, 111, 111, 116] @ replicate 60 0, first_sector = 1025, last_sector = 1025,
     sector_count = 1, file_size = 84, file_type = FILE_TYPE_DIRECTORY\<rparr>"

definition demo_usr :: file_t where
  "demo_usr = \<lparr>file_name = [117, 115, 114] @ replicate 61 0, first_sector = 1026, last_sector = 1026,
     sector_count = 1, file_size = 10, file_type = FILE_TYPE_NORMAL\<rparr>"

definition dir_disk :: disk where
  "dir_disk = (\<lambda>i. set_next_sector NO_SECTOR
     (if i = 1024 then encode_file demo_root @ replicate 424 0
      else if i = 1025 then encode_file demo_usr @ replicate 424 0 else replicate 508 7))"

lemma demo_wf: "wf_file demo_root" "wf_file demo_usr"
  by (simp_all add: wf_file_def demo_root_def demo_usr_def)

lemma dir_disk_ok: "disk_ok dir_disk" "root_fcb (demo_fs dir_disk) = demo_root" "entry_at dir_disk [1025] 0 = demo_usr"
  "file_on dir_disk demo_root [1025]" "dir_on dir_disk demo_root [1025]"
proof -
  show d: "disk_ok dir_disk" using demo_wf by (simp add: disk_ok_def dir_disk_def)
  show "root_fcb (demo_fs dir_disk) = demo_root"
    using demo_wf(1) decode_encode [OF demo_wf(1), of "[]"]
    by (simp add: root_fcb_def read_block_eq) (simp add: dir_disk_def set_next_sector_def)
  show e: "entry_at dir_disk [1025] 0 = demo_usr"
    using demo_wf(2) decode_encode [OF demo_wf(2), of "[]"]
    by (simp add: entry_at_def file_bytes_def block_data_def slice_def) (simp add: dir_disk_def set_next_sector_def)
  show f: "file_on dir_disk demo_root [1025]" by (simp add: file_on_def demo_root_def)
  show "dir_on dir_disk demo_root [1025]"
    using f e by (simp add: dir_on_def entries_def demo_root_def demo_usr_def)
qed

text \<open>
  \<open>dir_search_file\<close> finds the first entry of the directory whose name is the one asked
  for, with its index, and reports \<open>FILE_RESULT_NOT_EXISTING\<close> exactly when there is none.
\<close>
theorem dir_search_finds_first:
  assumes "disk_ok (fs_disk s)" "dir_on (fs_disk s) dir ss" "0 \<in> set name"
  shows "case first_entry (fs_disk s) dir ss name of
      None \<Rightarrow> dir_search_file dir name s = Inr (FILE_RESULT_NOT_EXISTING, None) \<and>
        (\<forall>i < entries dir. c_str (file_name (entry_at (fs_disk s) ss i)) \<noteq> c_str name)
    | Some i \<Rightarrow> dir_search_file dir name s = Inr (FILE_RESULT_SUCCESS, Some (entry_at (fs_disk s) ss i, int i)) \<and>
        i < entries dir \<and> c_str (file_name (entry_at (fs_disk s) ss i)) = c_str name \<and>
        (\<forall>j < i. c_str (file_name (entry_at (fs_disk s) ss j)) \<noteq> c_str name)"
proof (cases "first_entry (fs_disk s) dir ss name")
  case None
  then have "\<forall>i < entries dir. c_str (file_name (entry_at (fs_disk s) ss i)) \<noteq> c_str name"
    by (auto simp: first_entry_def find_None_iff)
  then show ?thesis using dir_search_ok [OF assms] None by simp
next
  case (Some i)
  then have "i < entries dir \<and> c_str (file_name (entry_at (fs_disk s) ss i)) = c_str name \<and>
      (\<forall>j < i. c_str (file_name (entry_at (fs_disk s) ss j)) \<noteq> c_str name)"
    by (auto simp: first_entry_def find_Some_iff)
  then show ?thesis using dir_search_ok [OF assms] Some by simp
qed

theorem dir_search_finds_first_witness:
  "dir_search_file demo_root [117, 115, 114, 0] (demo_fs dir_disk) = Inr (FILE_RESULT_SUCCESS, Some (demo_usr, 0))"
proof -
  have "first_entry dir_disk demo_root [1025] [117, 115, 114, 0] = Some 0"
    using dir_disk_ok(3) by (simp add: first_entry_def entries_def) (simp add: demo_root_def demo_usr_def c_str_def)
  then show ?thesis
    using dir_search_finds_first [of "demo_fs dir_disk" demo_root "[1025]" "[117, 115, 114, 0]"] dir_disk_ok by simp
qed

text \<open>
  Claim C22: opening the path \<open>n1/n2/.../nk/\<close> amounts to searching the names one after the other
  from the root: the errors for a missing directory on the way and for a missing last name
  are kept apart, and on success the entry found, its index, its sectors and the path of its
  parent directory are recorded.
\<close>
theorem open_follows_path:
  assumes "names_ok (cs @ [c])" "length (path_of cs) < FILE_PATH_MAXLENGTH"
    "length (parent_dir_name (path_state f)) = FILE_PATH_MAXLENGTH"
    "follow (cs @ [c]) (f\<lparr>fcb := root_fcb s\<rparr>) s = Inr (r, f2)"
  shows "case r of
      Some e \<Rightarrow> load_file_cached (path_of (cs @ [c]) @ 0 # rest) f s = Inr (e, f2)
    | None \<Rightarrow> \<exists>f'. load_file_cached (path_of (cs @ [c]) @ 0 # rest) f s = Inr (FILE_RESULT_SUCCESS, f') \<and>
        fcb f' = fcb f2 \<and> io_state f' = io_state (opened f2) \<and> has_parent (path_state f') \<and>
        index_in_parent_dir (path_state f') = index_in_parent_dir (path_state f2) \<and>
        c_str (parent_dir_name (path_state f')) = path_of cs"
proof (cases r)
  case None
  have "0 \<notin> set (path_of cs)" using assms(1) by (intro path_no_zero) (simp add: names_ok_def)
  then show ?thesis
    using load_named [OF assms(1) assms(4) [unfolded None] assms(2,3), of rest] None by (simp add: opened_def)
next
  case (Some e)
  then show ?thesis using load_file_cached_path [OF assms(1) refl, of rest f s] assms(4) by simp
qed

theorem open_follows_path_witness:
  "\<exists>f'. load_file_cached [117, 115, 114, 47, 0] three_block_file (demo_fs dir_disk) = Inr (FILE_RESULT_SUCCESS, f') \<and>
     fcb f' = demo_usr \<and> read_sector (io_state f') = 1026"
proof -
  let ?c = "[117, 115, 114] :: u8 list" and ?s = "demo_fs dir_disk"
  have "first_entry dir_disk demo_root [1025] [117, 115, 114, 0] = Some 0"
    using dir_disk_ok(3) by (simp add: first_entry_def entries_def) (simp add: demo_root_def demo_usr_def c_str_def)
  then have d: "dir_search_file demo_root [117, 115, 114, 0] ?s = Inr (FILE_RESULT_SUCCESS, Some (demo_usr, 0))"
    using dir_search_ok [of ?s demo_root "[1025]" "[117, 115, 114, 0]"] dir_disk_ok by simp
  obtain f2 where f2: "follow ([] @ [?c]) (three_block_file\<lparr>fcb := root_fcb ?s\<rparr>) ?s = Inr (None, f2)" "fcb f2 = demo_usr"
    using d by (simp add: dir_disk_ok(2))
  have "names_ok ([] @ [?c])" by (simp add: names_ok_def)
  from open_follows_path [OF this _ _ f2(1), of "[]"] f2(2) show ?thesis
    by (auto simp: three_block_file_def opened_def demo_usr_def)
qed

text \<open>
  Claim C23: \<open>store_file_cached\<close> replaces exactly the entry of the file in its parent directory by
  the cached one and changes nothing else on the disk but the sectors of that directory.
\<close>
theorem store_replaces_entry:
  assumes "load_file_cached (parent_dir_name (path_state f)) (fs_cached s 1) s = Inr (FILE_RESULT_SUCCESS, dir)"
    "has_parent (path_state f)" "index_in_parent_dir (path_state f) = int i" "wf_file (fcb f)"
    "disk_ok (fs_disk s)" "chain (fs_disk s) (first_sector (fcb dir)) ds" "distinct ds"
    "84 * i + 84 < 2 ^ 32" "(84 * i + 84) div 508 < length ds"
  shows "\<exists>s'. store_file_cached f s = Inr s' \<and> chain (fs_disk s') (first_sector (fcb dir)) ds \<and>
    (\<forall>j. entry_at (fs_disk s') ds j = (if j = i then fcb f else entry_at (fs_disk s) ds j)) \<and>
    (\<forall>n. n \<notin> unat ` set ds \<longrightarrow> fs_disk s' n = fs_disk s n)"
proof -
  from store_ok [OF assms] obtain s' where
    s': "store_file_cached f s = Inr s'" "overwritten (first_sector (fcb dir)) ds (84 * i) (encode_file (fcb f)) s s'" by blast
  have "84 * i + 84 < 508 * length ds" using assms(9) by (simp add: div_less_iff_less_mult mult.commute)
  then show ?thesis
    using s' overwritten_entry [OF s'(2) assms(4,5)] by (auto simp: overwritten_def)
qed

theorem store_replaces_entry_witness:
  "\<exists>s'. store_file_cached (three_block_file\<lparr>fcb := demo_usr\<lparr>file_size := 11\<rparr>\<rparr>) (demo_fs dir_disk) = Inr s' \<and>
     entry_at (fs_disk s') [1025] 0 = demo_usr\<lparr>file_size := 11\<rparr>"
proof -
  let ?f = "three_block_file\<lparr>fcb := demo_usr\<lparr>file_size := 11\<rparr>\<rparr>" and ?s = "demo_fs dir_disk"
  obtain dir where "load_file_cached (parent_dir_name (path_state ?f)) (fs_cached ?s 1) ?s = Inr (FILE_RESULT_SUCCESS, dir)"
    "fcb dir = demo_root"
    using load_root [of "replicate 511 0" "fs_cached ?s 1" ?s]
    by (simp add: three_block_file_def dir_disk_ok(2) opened_def replicate_Suc [symmetric] del: replicate_Suc)
  then show ?thesis
    using store_replaces_entry [of ?f ?s dir 0 "[1025]"] dir_disk_ok(1)
    by (auto simp: three_block_file_def demo_root_def demo_usr_def wf_file_def)
qed

text \<open>
  After \<open>fs_init\<close> the empty path opens the root directory, whose name is \<open>root\<close> and
  whose data is in sector 1025, and exactly the sectors 0 to 1025 have been added to those in use.
\<close>
theorem fs_init_root:
  assumes "disk_ok (fs_disk s)"
  shows "\<exists>s' f'. fs_init s = Inr s' \<and> disk_ok (fs_disk s') \<and>
    load_file_cached (0 # rest) f s' = Inr (FILE_RESULT_SUCCESS, f') \<and> \<not> has_parent (path_state f') \<and>
    c_str (file_name (fcb f')) = [114, 111, 111, 116] \<and> first_sector (fcb f') = 1025 \<and> file_size (fcb f') = 84 \<and>
    slots (file_alloc_bitmap s') = 1572864 \<and>
    (\<forall>k. bit_at (file_alloc_bitmap s') k \<longleftrightarrow> 0 \<le> k \<and> k \<le> 1025 \<or> bit_at (file_alloc_bitmap s) k)"
  using fs_init_ok [OF assms, of rest f] by blast

theorem fs_init_root_witness:
  "\<exists>s'. fs_init (demo_fs three_blocks) = Inr s' \<and> bit_at (file_alloc_bitmap s') 1025"
  using fs_init_root [of "demo_fs three_blocks" "[]" three_block_file] three_blocks_ok(1) by auto

end
