(* ===== verification/Swap.thy ===== *)
theory Swap
  imports Paging File_Write Directory
begin

text \<open>
  kernel/mm/v_memory.c: pages on the disk. An absent page keeps the number of its first swap
  sector in its page table entry; the page fault handler loads the page from there. The disk is
  the array of sectors of theory \<open>Disk\<close>; what the driver makes of it is shown there.
\<close>

unbundle bit_operations_syntax

section \<open>Operations\<close>

abbreviation DISK_SWAP_START_SECTOR :: u32 where "DISK_SWAP_START_SECTOR \<equiv> 1030"

text \<open>\<open>swap_counter\<close> is the static variable of \<open>swap_alloc\<close>.\<close>

record vm_state =
  vm_mm :: mm_state
  vm_disk :: disk
  swap_counter :: u32

definition read_cr3 :: "mm_state \<Rightarrow> u32" where
  "read_cr3 m = cr3 m"

definition SWAP_SECTOR_GET :: "u32 \<Rightarrow> u32" where
  "SWAP_SECTOR_GET x = drop_bit 3 x"

definition SWAP_SECTOR_SET :: "u32 \<Rightarrow> u32" where
  "SWAP_SECTOR_SET sector = push_bit 3 sector"

definition swap_alloc :: "vm_state \<Rightarrow> vm_state \<times> u32" where
  "swap_alloc s = (let avl = swap_counter s in (s\<lparr>swap_counter := swap_counter s + 8\<rparr>, avl))"

text \<open>\<open>swap_free\<close> and \<open>swap_out\<close> have empty bodies.\<close>

definition swap_free :: "vm_state \<Rightarrow> vm_state" where
  "swap_free s = s"

definition swap_out :: "u32 \<Rightarrow> u32 \<Rightarrow> vm_state \<Rightarrow> vm_state" where
  "swap_out pd useless s = s"

definition swap_sector_of :: "u32 \<Rightarrow> u32 \<Rightarrow> mm_state \<Rightarrow> u32 res" where
  "swap_sector_of pd virtual m =
     (if has_addr pd virtual m then Inl Hang
      else
        let pte_desc_in_pde = load32 (ram m) (pd + 4 * testbits virtual 22 32) in
        if \<not> testbit pte_desc_in_pde PAGE_TABLE_P then Inr 0
        else
          let page_table = pte_desc_in_pde AND 0xFFFFF000
          in Inr (SWAP_SECTOR_GET (load32 (ram m) (page_table + 4 * testbits virtual 12 22))))"

definition swap_sector_set :: "u32 \<Rightarrow> u32 \<Rightarrow> u32 \<Rightarrow> mm_state \<Rightarrow> mm_state" where
  "swap_sector_set pd virtual sector m =
     (let pte_desc_in_pde = load32 (ram m) (pd + 4 * testbits virtual 22 32);
          page_table = pte_desc_in_pde AND 0xFFFFF000
      in m\<lparr>ram := store32 (ram m) (page_table + 4 * testbits virtual 12 22) (SWAP_SECTOR_SET sector)\<rparr>)"

text \<open>
  Stores to virtual addresses: each goes through the page tables. A store to an unmapped page
  is a fault inside the fault handler, which the model does not follow.
\<close>

primrec store_virtual :: "u32 \<Rightarrow> u32 \<Rightarrow> u8 list \<Rightarrow> mm_state \<Rightarrow> mm_state res" where
  "store_virtual pd a [] m = Inr m"
| "store_virtual pd a (b # bs) m =
     (if has_addr pd a m then store_virtual pd (a + 1) bs (m\<lparr>ram := (ram m)(addr_translate pd a m := b)\<rparr>)
      else Inl Page_Fault)"

definition swap_in :: "u32 \<Rightarrow> u16 \<Rightarrow> vm_state \<Rightarrow> vm_state res" where
  "swap_in useful flags s =
     (let pd = read_cr3 (vm_mm s) in
      if has_addr pd useful (vm_mm s) then Inl Hang
      else
        rbind (swap_sector_of pd useful (vm_mm s)) (\<lambda>swap_sector.
          let (m1, _) = load_memory pd useful flags (vm_mm s)
          in rbind (store_virtual pd useful (disk_read (vm_disk s) (unat swap_sector) 8) m1) (\<lambda>m2.
               Inr (s\<lparr>vm_mm := m2\<rparr>))))"

definition on_page_fault :: "u32 \<Rightarrow> u32 \<Rightarrow> vm_state \<Rightarrow> vm_state res" where
  "on_page_fault virtual error_code s = swap_in virtual PAGE_TABLE_FLAG_KERNEL_READ_WRITE s"

section \<open>Swap sectors in page table entries\<close>

lemma swap_sector_of_walk:
  "swap_sector_of pd v m =
     (if has_addr pd v m then Inl Hang
      else if present (entry (ram m) pd (pdi v)) then Inr (SWAP_SECTOR_GET (pte (ram m) pd v)) else Inr 0)"
  by (simp add: swap_sector_of_def Let_def testbits_pdi testbits_pti testbit_present pte_def table_of_def entry_def)

lemma swap_sector_set_walk:
  "swap_sector_set pd v x m =
     m\<lparr>ram := store32 (ram m) (table_of (ram m) pd (pdi v) + 4 * of_nat (pti v)) (SWAP_SECTOR_SET x)\<rparr>"
  by (simp add: swap_sector_set_def Let_def testbits_pdi testbits_pti table_of_def entry_def)

lemma swap_sector_bits: "\<not> present (SWAP_SECTOR_SET x)" "unat x < 2 ^ 29 \<Longrightarrow> SWAP_SECTOR_GET (SWAP_SECTOR_SET x) = x"
proof -
  show "\<not> present (SWAP_SECTOR_SET x)" by (simp add: SWAP_SECTOR_SET_def bit_push_bit_iff)
  assume "unat x < 2 ^ 29"
  then have t: "take_bit 29 x = x" by (simp add: word_unat_eq_iff unsigned_take_bit_eq take_bit_nat_eq_self)
  have "bit x k \<Longrightarrow> k < 29" for k by (metis t bit_take_bit_iff)
  then show "SWAP_SECTOR_GET (SWAP_SECTOR_SET x) = x"
    by (intro bit_word_eqI) (auto simp: SWAP_SECTOR_GET_def SWAP_SECTOR_SET_def bit_simps)
qed

lemma swap_sector_set_ok:
  assumes "pd_ok m pd" "present (entry (ram m) pd (pdi v))"
  shows "pd_ok (swap_sector_set pd v x m) pd"
    "\<And>j. j < 1024 \<Longrightarrow> entry (ram (swap_sector_set pd v x m)) pd j = entry (ram m) pd j"
    "present (entry (ram m) pd (pdi w)) \<Longrightarrow> pte (ram (swap_sector_set pd v x m)) pd w =
      (if unat w div 4096 = unat v div 4096 then SWAP_SECTOR_SET x else pte (ram m) pd w)"
proof -
  note S = store_pte [OF assms pdi_less pti_less [of v], where x = "SWAP_SECTOR_SET x", folded swap_sector_set_walk]
  show "pd_ok (swap_sector_set pd v x m) pd" by (rule S(1))
  show e: "entry (ram (swap_sector_set pd v x m)) pd j = entry (ram m) pd j" if "j < 1024" for j by (rule S(2) [OF that])
  assume w: "present (entry (ram m) pd (pdi w))"
  have "aligned (table_of (ram m) pd (pdi w))" by (simp add: table_of_def)
  moreover have "table_of (ram m) pd (pdi w) = table_of (ram m) pd (pdi v) \<longleftrightarrow> pdi w = pdi v"
    using assms w unfolding pd_ok_def by (metis pdi_less)
  ultimately show "pte (ram (swap_sector_set pd v x m)) pd w =
      (if unat w div 4096 = unat v div 4096 then SWAP_SECTOR_SET x else pte (ram m) pd w)"
    using S(3) [OF _ pti_less, of "table_of (ram m) pd (pdi w)" w] e [OF pdi_less, of w]
    by (auto simp: pte_def table_of_def same_page)
qed

section \<open>Loading a page\<close>

text \<open>The page of \<open>v\<close> is mapped to the physical page \<open>a\<close>, which is no page of the tables.\<close>

definition maps_page :: "mm_state \<Rightarrow> u32 \<Rightarrow> u32 \<Rightarrow> u32 \<Rightarrow> bool" where
  "maps_page m pd v a \<longleftrightarrow> aligned a \<and> pd_ok m pd \<and> pd \<noteq> a \<and>
     (\<forall>i < 1024. present (entry (ram m) pd i) \<longrightarrow> table_of (ram m) pd i \<noteq> a) \<and>
     present (entry (ram m) pd (pdi v)) \<and> present (pte (ram m) pd v) \<and> frame (pte (ram m) pd v) = a"

text \<open>Stores into a page that is not a table leave the tables alone.\<close>

lemma entry_outside:
  assumes "\<And>x. 4096 \<le> unat (x - a) \<Longrightarrow> r' x = r x" "aligned t" "aligned a" "t \<noteq> a" "i < 1024"
  shows "entry r' t i = entry r t i"
proof -
  have b: "r' (t + of_nat j) = r (t + of_nat j)" if "j < 4096" for j
    by (rule assms(1), rule byte_addr_other [OF assms(2-4) that])
  have e: "t + 4 * of_nat i = t + of_nat (4 * i)" "t + 4 * of_nat i + 1 = t + of_nat (4 * i + 1)"
    "t + 4 * of_nat i + 2 = t + of_nat (4 * i + 2)" "t + 4 * of_nat i + 3 = t + of_nat (4 * i + 3)" by simp_all
  have c: "4 * i < 4096" "4 * i + 1 < 4096" "4 * i + 2 < 4096" "4 * i + 3 < 4096" using assms(5) by linarith+
  show ?thesis
    unfolding entry_def load32_def e(2-4) unfolding e(1) b [OF c(1)] b [OF c(2)] b [OF c(3)] b [OF c(4)] by simp
qed

lemma maps_page_outside:
  assumes "maps_page m pd v a" "\<And>x. 4096 \<le> unat (x - a) \<Longrightarrow> r' x = ram m x"
  shows "maps_page (m\<lparr>ram := r'\<rparr>) pd v a" "has_addr pd w (m\<lparr>ram := r'\<rparr>) = has_addr pd w m"
    "has_addr pd w m \<Longrightarrow> addr_translate pd w (m\<lparr>ram := r'\<rparr>) = addr_translate pd w m"
proof -
  from assms(1) have a: "aligned a" "pd_ok m pd" "pd \<noteq> a" "aligned pd"
    and t: "\<And>i. i < 1024 \<Longrightarrow> present (entry (ram m) pd i) \<Longrightarrow> table_of (ram m) pd i \<noteq> a"
    by (auto simp: maps_page_def pd_ok_def)
  have e: "entry r' pd i = entry (ram m) pd i" if "i < 1024" for i
    by (rule entry_outside [OF assms(2) a(4,1,3) that])
  then have tb: "table_of r' pd i = table_of (ram m) pd i" if "i < 1024" for i using that by (simp add: table_of_def)
  have p: "pte r' pd w = pte (ram m) pd w" if "present (entry (ram m) pd (pdi w))" for w
    using entry_outside [OF assms(2) _ a(1) t [OF pdi_less that] pti_less]
    by (simp add: pte_def tb) (simp add: table_of_def)
  have u: "page_used (m\<lparr>ram := r'\<rparr>) b = page_used m b" "pages_ok (m\<lparr>ram := r'\<rparr>) = pages_ok m" for b
    by (simp_all add: page_used_def pages_ok_def)
  have "pd_ok (m\<lparr>ram := r'\<rparr>) pd" using a(2) by (simp add: pd_ok_def u e tb)
  then show "maps_page (m\<lparr>ram := r'\<rparr>) pd v a" using assms(1) p [of v] by (simp add: maps_page_def e tb)
  show "has_addr pd w (m\<lparr>ram := r'\<rparr>) = has_addr pd w m" using p [of w] by (auto simp: has_addr_walk e)
  show "has_addr pd w m \<Longrightarrow> addr_translate pd w (m\<lparr>ram := r'\<rparr>) = addr_translate pd w m"
    using p [of w] by (simp add: has_addr_walk addr_translate_walk)
qed

lemma maps_page_walk:
  assumes "maps_page m pd v a" "unat w div 4096 = unat v div 4096"
  shows "has_addr pd w m" "addr_translate pd w m = a + (w AND 0xFFF)"
  using assms by (simp_all add: maps_page_def has_addr_walk addr_translate_walk same_page pte_def)

lemma page_offset:
  assumes "aligned v" "k < 4096"
  shows "unat (v + of_nat k) div 4096 = unat v div 4096" "(v + of_nat k) AND 0xFFF = of_nat k"
proof -
  have "unat v mod 4096 = 0" using assms(1) by (simp add: aligned_def)
  then have v: "unat v = 4096 * (unat v div 4096)" by (metis mult_div_mod_eq add.right_neutral)
  have u: "unat (v + of_nat k) = k + unat v div 4096 * 4096" using byte_addr [OF assms] v by simp
  show "unat (v + of_nat k) div 4096 = unat v div 4096" unfolding u using assms(2) by simp
  have "unat ((v + of_nat k) AND 0xFFF) = k" unfolding unat_offset u using assms(2) by simp
  moreover have "unat (of_nat k :: u32) = k" using assms(2) by (intro unat_of_nat_small) simp
  ultimately show "(v + of_nat k) AND 0xFFF = of_nat k" by (simp add: word_unat_eq_iff)
qed

lemma store_virtual_page:
  assumes "maps_page m pd v a" "aligned v" "k + length bs \<le> 4096"
  shows "\<exists>r. store_virtual pd (v + of_nat k) bs m = Inr (m\<lparr>ram := r\<rparr>) \<and>
    (\<forall>x. r x = (if k \<le> unat (x - a) \<and> unat (x - a) < k + length bs then bs ! (unat (x - a) - k) else ram m x))"
  using assms(1,3)
proof (induction bs arbitrary: k m)
  case Nil
  have "m = m\<lparr>ram := ram m\<rparr>" by simp
  then show ?case by (auto simp: not_less intro!: exI [of _ "ram m"])
next
  case (Cons b bs)
  have k: "k < 4096" using Cons.prems(2) by simp
  note P = page_offset [OF assms(2) k]
  define m1 where "m1 = m\<lparr>ram := (ram m)(a + of_nat k := b)\<rparr>"
  have uk: "unat (of_nat k :: u32) = k" using k by (intro unat_of_nat_small) simp
  have "maps_page m1 pd v a"
    unfolding m1_def by (rule maps_page_outside(1) [OF Cons.prems(1)]) (use k uk in auto)
  from Cons.IH [OF this, of "Suc k"] Cons.prems(2) obtain r where
    r: "store_virtual pd (v + of_nat (Suc k)) bs m1 = Inr (m1\<lparr>ram := r\<rparr>)"
    "\<And>x. r x = (if Suc k \<le> unat (x - a) \<and> unat (x - a) < Suc k + length bs then bs ! (unat (x - a) - Suc k) else ram m1 x)"
    by auto
  have "store_virtual pd (v + of_nat k) (b # bs) m = Inr (m\<lparr>ram := r\<rparr>)"
    using maps_page_walk [OF Cons.prems(1) P(1)] r(1) by (simp add: P(2) m1_def add.commute add.left_commute)
  moreover have "r x = (if k \<le> unat (x - a) \<and> unat (x - a) < k + length (b # bs) then (b # bs) ! (unat (x - a) - k) else ram m x)" for x
  proof -
    have "x = a + of_nat k \<longleftrightarrow> unat (x - a) = k"
      using uk word_unat_eq_iff [of "x - a" "of_nat k"] by (auto simp: diff_eq_eq add.commute)
    then show ?thesis by (auto simp: r(2) m1_def nth_Cons' not_less_eq_eq le_Suc_eq)
  qed
  ultimately show ?case by blast
qed

lemma set_mmap_table:
  assumes "pd_ok m pd" "table_room pd (pdi v) m" "set_mmap pd v p f m = (m', False)"
  shows "table_of (ram m') pd (pdi v) = snd (p_malloc m)"
proof -
  define m1 where "m1 = with_table pd (pdi v) m"
  note W = with_table_ok [OF assms(1) pdi_less assms(2), folded m1_def]
  have m': "m' = m1\<lparr>ram := store32 (ram m1) (table_of (ram m1) pd (pdi v) + 4 * of_nat (pti v)) (p OR ucast f)\<rparr>"
    and np: "\<not> present (entry (ram m) pd (pdi v))"
    using assms(3) by (simp_all add: set_mmap_unfold m1_def Let_def)
  have "table_of (ram m') pd (pdi v) = table_of (ram m1) pd (pdi v)"
    using store_pte(2) [OF W(1,2) pdi_less pti_less [of v] pdi_less, where x = "p OR ucast f", folded m'] by (simp add: table_of_def)
  then show ?thesis using W(6) [OF np] by simp
qed

lemma load_memory_ok:
  assumes "pd_ok m pd" "p_malloc m = (m1, a)" "a \<noteq> -1" "table_room pd (pdi v) m1" "load_memory pd v f m = (m', b)"
    "unat f < 4096" "bit f 0"
  shows "b = a" "maps_page m' pd v a" "\<not> page_used m a"
    "unat w div 4096 \<noteq> unat v div 4096 \<Longrightarrow> has_addr pd w m \<Longrightarrow> has_addr pd w m' \<and> addr_translate pd w m' = addr_translate pd w m"
    "pdi x \<noteq> pdi v \<Longrightarrow> present (entry (ram m) pd (pdi x)) \<Longrightarrow>
      entry (ram m') pd (pdi x) = entry (ram m) pd (pdi x) \<and> pte (ram m') pd x = pte (ram m) pd x"
    "page_used m' c \<longleftrightarrow> page_used m c \<or> frame c = a \<or> \<not> present (entry (ram m) pd (pdi v)) \<and> frame c = snd (p_malloc m1)"
proof -
  have "pages_ok m" using assms(1) by (simp add: pd_ok_def)
  note P = p_malloc_ok [OF assms(2) this assms(3)]
  have r: "ram m1 = ram m" using assms(2) p_malloc_simps(1) [of m] by simp
  have ok1: "pd_ok m1 pd" using assms(1) P(3,4) by (auto simp: pd_ok_def r)
  obtain ok where M: "set_mmap pd v a f m1 = (m', ok)" and b: "b = a"
    using assms(2,5) by (auto simp: load_memory_def split: prod.splits)
  note S = set_mmap_ok [OF ok1 assms(4) M]
  show "b = a" by (rule b)
  show "page_used m' c \<longleftrightarrow> page_used m c \<or> frame c = a \<or> \<not> present (entry (ram m) pd (pdi v)) \<and> frame c = snd (p_malloc m1)"
    using S(4) S(9) [of c] P(3) [of c] by (auto simp: r)
  show "entry (ram m') pd (pdi x) = entry (ram m) pd (pdi x) \<and> pte (ram m') pd x = pte (ram m) pd x"
    if "pdi x \<noteq> pdi v" "present (entry (ram m) pd (pdi x))"
    using S(5) [of "pdi x"] S(7) [of x] that by (simp add: r)
  show "\<not> page_used m a" by (rule P(2))
  have used: "page_used m1 a" "pd \<noteq> a" using P(1,2,3) assms(1) by (auto simp: aligned_frame_eq pd_ok_def)
  have "table_of (ram m') pd i \<noteq> a" if "i < 1024" "present (entry (ram m') pd i)" for i
  proof (cases "i = pdi v \<and> \<not> ok")
    case True
    obtain m2 c where c: "p_malloc m1 = (m2, c)" by fastforce
    have "c \<noteq> -1" using True S(4) assms(4) by (simp add: table_room_def c)
    with c have "\<not> page_used m1 c" using p_malloc_ok(2) [OF c P(4)] by blast
    moreover have "table_of (ram m') pd i = c" using set_mmap_table [OF ok1 assms(4), of a f m'] M True by (simp add: c)
    ultimately show ?thesis using used(1) by auto
  next
    case False
    then have "entry (ram m') pd i = entry (ram m) pd i" using S(5) [OF that(1)] by (auto simp: r)
    then have "page_used m (table_of (ram m') pd i)" using assms(1) that by (auto simp: pd_ok_def table_of_def)
    then show ?thesis using P(2) by auto
  qed
  moreover have "frame (a OR ucast f) = a" by (rule frame_or_low [OF P(1) flag_bits [OF assms(6)]])
  ultimately show "maps_page m' pd v a"
    using S(1-3) used P(1) assms(7) by (simp add: maps_page_def bit_or_iff bit_unsigned_iff)
  assume "unat w div 4096 \<noteq> unat v div 4096" "has_addr pd w m"
  moreover have "has_addr pd w m1 = has_addr pd w m" "addr_translate pd w m1 = addr_translate pd w m"
    by (simp_all add: has_addr_walk addr_translate_walk r)
  ultimately show "has_addr pd w m' \<and> addr_translate pd w m' = addr_translate pd w m"
    using set_mmap_others [OF ok1 assms(4) M, of w] by simp
qed

lemma store_virtual_append:
  "store_virtual pd a (xs @ ys) m = rbind (store_virtual pd a xs m) (store_virtual pd (a + of_nat (length xs)) ys)"
  by (induction xs arbitrary: a m) (simp_all add: ac_simps)

lemma store_virtual_unmapped: "bs \<noteq> [] \<Longrightarrow> \<not> has_addr pd a m \<Longrightarrow> store_virtual pd a bs m = Inl Page_Fault"
  by (cases bs) simp_all

text \<open>The start of the fault handler, for a page whose table exists: the page is mapped to a new frame.\<close>

lemma on_page_fault_start:
  assumes "pd_ok (vm_mm s) (cr3 (vm_mm s))" "present (entry (ram (vm_mm s)) (cr3 (vm_mm s)) (pdi v))"
    "pte (ram (vm_mm s)) (cr3 (vm_mm s)) v = SWAP_SECTOR_SET sector" "unat sector < 2 ^ 29"
    "p_malloc (vm_mm s) = (m1, a)" "a \<noteq> -1"
  shows "\<exists>m2. on_page_fault v e s = rbind (store_virtual (cr3 (vm_mm s)) v (disk_read (vm_disk s) (unat sector) 8) m2)
      (\<lambda>m3. Inr (s\<lparr>vm_mm := m3\<rparr>)) \<and> maps_page m2 (cr3 (vm_mm s)) v a \<and>
    set_mmap (cr3 (vm_mm s)) v a PAGE_TABLE_FLAG_KERNEL_READ_WRITE m1 = (m2, True) \<and>
    (\<forall>w. unat w div 4096 \<noteq> unat v div 4096 \<longrightarrow> has_addr (cr3 (vm_mm s)) w m2 = has_addr (cr3 (vm_mm s)) w (vm_mm s) \<and>
      (has_addr (cr3 (vm_mm s)) w (vm_mm s) \<longrightarrow>
        addr_translate (cr3 (vm_mm s)) w m2 = addr_translate (cr3 (vm_mm s)) w (vm_mm s)))"
proof -
  define m where "m = vm_mm s"
  define pd where "pd = cr3 m"
  note A = assms [folded m_def, folded pd_def]
  have nh: "\<not> has_addr pd v m" by (simp add: has_addr_walk A(3) swap_sector_bits(1))
  have r: "ram m1 = ram m" using A(5) p_malloc_simps(1) [of m] by simp
  have room: "table_room pd (pdi v) m1" using A(2) by (simp add: table_room_def r)
  obtain m2 b where L: "load_memory pd v PAGE_TABLE_FLAG_KERNEL_READ_WRITE m = (m2, b)" by fastforce
  have f: "unat (3 :: u16) < 4096" "bit (3 :: u16) 0" by simp_all
  note K = load_memory_ok [OF A(1,5,6) room L f]
  obtain ok where M: "set_mmap pd v a 3 m1 = (m2, ok)" using L A(5) by (auto simp: load_memory_def split: prod.splits)
  have ok1: "pd_ok m1 pd" using A(1) p_malloc_ok(3,4) [OF A(5) _ A(6)] by (auto simp: pd_ok_def r)
  note S = set_mmap_ok [OF ok1 room M]
  have okT: "ok = True" using S(4) A(2) by (simp add: r)
  have "has_addr pd w m2 = has_addr pd w m" if "unat w div 4096 \<noteq> unat v div 4096" for w
  proof -
    have e: "entry (ram m2) pd (pdi w) = entry (ram m) pd (pdi w)" using S(5) [OF pdi_less] okT by (simp add: r)
    have "pte (ram m2) pd w = pte (ram m) pd w" if p: "present (entry (ram m) pd (pdi w))"
    proof (cases "pdi w = pdi v")
      case True
      then show ?thesis using S(6) [OF True] okT that same_page [of w v] \<open>unat w div 4096 \<noteq> unat v div 4096\<close> by (simp add: r)
    next
      case False
      then show ?thesis using S(7) [OF False] p by (simp add: r)
    qed
    then show ?thesis by (auto simp: has_addr_walk e)
  qed
  moreover have "on_page_fault v e s = rbind (store_virtual pd v (disk_read (vm_disk s) (unat sector) 8) m2) (\<lambda>m3. Inr (s\<lparr>vm_mm := m3\<rparr>))"
    using nh A(2,3) swap_sector_bits(2) [OF A(4)]
    by (simp add: on_page_fault_def swap_in_def read_cr3_def Let_def swap_sector_of_walk L m_def [symmetric] pd_def [symmetric])
  ultimately show ?thesis unfolding m_def [symmetric] pd_def [symmetric] using K(2,4) M [unfolded okT] by blast
qed

lemma on_page_fault_ok:
  assumes "pd_ok (vm_mm s) (cr3 (vm_mm s))" "present (entry (ram (vm_mm s)) (cr3 (vm_mm s)) (pdi v))"
    "pte (ram (vm_mm s)) (cr3 (vm_mm s)) v = SWAP_SECTOR_SET sector" "unat sector < 2 ^ 29"
    "p_malloc (vm_mm s) = (m1, a)" "a \<noteq> -1" "aligned v" "disk_ok (vm_disk s)"
  shows "\<exists>m. on_page_fault v e s = Inr (s\<lparr>vm_mm := m\<rparr>) \<and> pd_ok m (cr3 (vm_mm s)) \<and>
    (\<forall>k < 4096. has_addr (cr3 (vm_mm s)) (v + of_nat k) m \<and>
      ram m (addr_translate (cr3 (vm_mm s)) (v + of_nat k) m) = disk_read (vm_disk s) (unat sector) 8 ! k) \<and>
    (\<forall>w. unat w div 4096 \<noteq> unat v div 4096 \<longrightarrow> has_addr (cr3 (vm_mm s)) w (vm_mm s) \<longrightarrow>
      has_addr (cr3 (vm_mm s)) w m \<and> addr_translate (cr3 (vm_mm s)) w m = addr_translate (cr3 (vm_mm s)) w (vm_mm s))"
proof -
  let ?pd = "cr3 (vm_mm s)" and ?bs = "disk_read (vm_disk s) (unat sector) 8"
  from on_page_fault_start [OF assms(1-6), of e] obtain m2 where
    m2: "on_page_fault v e s = rbind (store_virtual ?pd v ?bs m2) (\<lambda>m3. Inr (s\<lparr>vm_mm := m3\<rparr>))" "maps_page m2 ?pd v a"
    "\<And>w. unat w div 4096 \<noteq> unat v div 4096 \<Longrightarrow> has_addr ?pd w (vm_mm s) \<Longrightarrow>
      has_addr ?pd w m2 \<and> addr_translate ?pd w m2 = addr_translate ?pd w (vm_mm s)" by blast
  have l: "length ?bs = 4096" using length_disk_read [OF assms(8), of "unat sector" 8] by simp
  from store_virtual_page [OF m2(2) assms(7), of 0 ?bs] l obtain r where
    r: "store_virtual ?pd v ?bs m2 = Inr (m2\<lparr>ram := r\<rparr>)" "\<And>x. r x = (if unat (x - a) < 4096 then ?bs ! unat (x - a) else ram m2 x)"
    by auto
  define m3 where "m3 = m2\<lparr>ram := r\<rparr>"
  have out: "r x = ram m2 x" if "4096 \<le> unat (x - a)" for x using that r(2) by simp
  note O = maps_page_outside [OF m2(2) out, folded m3_def]
  have "has_addr ?pd (v + of_nat k) m3 \<and> ram m3 (addr_translate ?pd (v + of_nat k) m3) = ?bs ! k" if "k < 4096" for k
  proof -
    note P = page_offset [OF assms(7) that]
    have "unat (of_nat k :: u32) = k" using that by (intro unat_of_nat_small) simp
    then have "ram m3 (a + of_nat k) = ?bs ! k" using that r(2) [of "a + of_nat k"] by (simp add: m3_def)
    then show ?thesis using maps_page_walk [OF O(1) P(1)] by (simp add: P(2))
  qed
  moreover have "pd_ok m3 ?pd" using O(1) by (simp add: maps_page_def)
  moreover have "on_page_fault v e s = Inr (s\<lparr>vm_mm := m3\<rparr>)" using m2(1) r(1) by (simp add: m3_def)
  ultimately show ?thesis using m2(3) O(2,3) by metis
qed

text \<open>A machine with one absent page, whose content is in the swap sectors from 1030 on.\<close>

definition swap_machine :: mm_state where
  "swap_machine = (swap_sector_set 0x1000 0x80000000 1030
     (fst (set_mmap 0x1000 0x80000000 0 3 (memory_alloc_init (blank_machine 0)))))\<lparr>cr3 := 0x1000\<rparr>"

lemma pd_ok_cr3 [simp]: "pd_ok (m\<lparr>cr3 := x\<rparr>) pd = pd_ok m pd"
  by (simp add: pd_ok_def page_used_def pages_ok_def)

lemma swap_machine_ok:
  "pd_ok swap_machine 0x1000" "present (entry (ram swap_machine) 0x1000 (pdi 0x80000000))"
  "pte (ram swap_machine) 0x1000 0x80000000 = SWAP_SECTOR_SET 1030" "snd (p_malloc swap_machine) \<noteq> -1"
  "cr3 swap_machine = 0x1000" "\<not> has_addr 0x1000 0x80001000 swap_machine"
proof -
  let ?m = "memory_alloc_init (blank_machine 0)"
  obtain m ok where M: "set_mmap 0x1000 0x80000000 0 3 ?m = (m, ok)" by fastforce
  note S = set_mmap_ok [OF blank_pd_ok blank_room M]
  have eq: "swap_machine = (swap_sector_set 0x1000 0x80000000 1030 m)\<lparr>cr3 := 0x1000\<rparr>" by (simp add: swap_machine_def M)
  note K = swap_sector_set_ok [OF S(1,2), where x = 1030]
  show ok: "pd_ok swap_machine 0x1000" using K(1) by (simp add: eq)
  show "present (entry (ram swap_machine) 0x1000 (pdi 0x80000000))" using S(2) K(2) [OF pdi_less] by (simp add: eq)
  show "pte (ram swap_machine) 0x1000 0x80000000 = SWAP_SECTOR_SET 1030" using K(3) [OF S(2)] by (simp add: eq)
  have "page_used swap_machine b = page_used m b" for b by (simp add: eq page_used_def swap_sector_set_walk)
  then have "\<not> page_used swap_machine 0x900000"
    using S(9) [of "0x900000"] by (simp add: memory_alloc_init_ok blank_used blank_alloc)
  moreover have "pages_ok swap_machine" using ok by (simp add: pd_ok_def)
  ultimately show "snd (p_malloc swap_machine) \<noteq> -1" by (intro p_malloc_some)
  show "cr3 swap_machine = 0x1000" by (simp add: eq)
  have z: "entry (ram ?m) t i = 0" for t i
    by (simp add: memory_alloc_init_ok(3) entry_def load32_def blank_machine_def join32_def)
  have "\<not> ok" using S(4) by (simp add: z)
  moreover have w: "pdi 0x80001000 = pdi 0x80000000" "pti 0x80001000 \<noteq> pti 0x80000000" by (simp_all add: pdi_def pti_def)
  ultimately have "pte (ram m) 0x1000 0x80001000 = 0" using S(6) [OF w] by (simp add: z)
  then show "\<not> has_addr 0x1000 0x80001000 swap_machine"
    using K(2) [OF pdi_less] K(3) [of "0x80001000"] S(2) w(1) by (simp add: has_addr_walk eq)
qed

section \<open>Properties\<close>

text \<open>
  The number of a swap sector below \<open>2^29\<close> that is written into the entry of a page comes
  back from \<open>swap_sector_of\<close>; the page is absent afterwards, and no other page of the directory
  changes.
\<close>
theorem swap_sector_roundtrip:
  assumes "pd_ok m pd" "present (entry (ram m) pd (pdi v))" "unat sector < 2 ^ 29"
  shows "swap_sector_of pd v (swap_sector_set pd v sector m) = Inr sector \<and>
    pd_ok (swap_sector_set pd v sector m) pd \<and> \<not> has_addr pd v (swap_sector_set pd v sector m) \<and>
    (\<forall>w. unat w div 4096 \<noteq> unat v div 4096 \<longrightarrow>
      has_addr pd w (swap_sector_set pd v sector m) = has_addr pd w m \<and>
      swap_sector_of pd w (swap_sector_set pd v sector m) = swap_sector_of pd w m \<and>
      (has_addr pd w m \<longrightarrow> addr_translate pd w (swap_sector_set pd v sector m) = addr_translate pd w m))"
proof -
  note S = swap_sector_set_ok [OF assms(1,2), where x = sector]
  have v: "pte (ram (swap_sector_set pd v sector m)) pd v = SWAP_SECTOR_SET sector" using S(3) [OF assms(2)] by simp
  have "has_addr pd w (swap_sector_set pd v sector m) = has_addr pd w m \<and>
      swap_sector_of pd w (swap_sector_set pd v sector m) = swap_sector_of pd w m \<and>
      (has_addr pd w m \<longrightarrow> addr_translate pd w (swap_sector_set pd v sector m) = addr_translate pd w m)"
    if "unat w div 4096 \<noteq> unat v div 4096" for w
    using S(3) [of w] that by (auto simp: swap_sector_of_walk has_addr_walk addr_translate_walk S(2))
  moreover have "swap_sector_of pd v (swap_sector_set pd v sector m) = Inr sector \<and> \<not> has_addr pd v (swap_sector_set pd v sector m)"
    using v swap_sector_bits [of sector] assms(2,3) by (simp add: swap_sector_of_walk has_addr_walk S(2))
  ultimately show ?thesis using S(1) by blast
qed

theorem swap_sector_roundtrip_witness:
  "swap_sector_of 0x1000 0x80000000 (swap_sector_set 0x1000 0x80000000 77 swap_machine) = Inr 77"
  using swap_sector_roundtrip [OF swap_machine_ok(1,2), of 77] by simp

text \<open>
  The page fault handler loads the page: when the absent page at the page-aligned address
  \<open>v\<close> has a swap sector and a physical page is free, the handler succeeds, every address of the page
  is mapped and holds the byte the swap sectors have for it, and all other mappings stay.
\<close>
theorem page_fault_loads_page:
  assumes "pd_ok (vm_mm s) (cr3 (vm_mm s))" "present (entry (ram (vm_mm s)) (cr3 (vm_mm s)) (pdi v))"
    "pte (ram (vm_mm s)) (cr3 (vm_mm s)) v = SWAP_SECTOR_SET sector" "unat sector < 2 ^ 29"
    "p_malloc (vm_mm s) = (m1, a)" "a \<noteq> -1" "aligned v" "disk_ok (vm_disk s)"
  shows "\<exists>m. on_page_fault v e s = Inr (s\<lparr>vm_mm := m\<rparr>) \<and> pd_ok m (cr3 (vm_mm s)) \<and>
    (\<forall>k < 4096. has_addr (cr3 (vm_mm s)) (v + of_nat k) m \<and>
      ram m (addr_translate (cr3 (vm_mm s)) (v + of_nat k) m) = disk_read (vm_disk s) (unat sector) 8 ! k) \<and>
    (\<forall>w. unat w div 4096 \<noteq> unat v div 4096 \<longrightarrow> has_addr (cr3 (vm_mm s)) w (vm_mm s) \<longrightarrow>
      has_addr (cr3 (vm_mm s)) w m \<and> addr_translate (cr3 (vm_mm s)) w m = addr_translate (cr3 (vm_mm s)) w (vm_mm s))"
  by (rule on_page_fault_ok [OF assms])

theorem page_fault_loads_page_witness:
  "\<exists>m. on_page_fault 0x80000000 0 \<lparr>vm_mm = swap_machine, vm_disk = three_blocks, swap_counter = 1030\<rparr> =
       Inr \<lparr>vm_mm = m, vm_disk = three_blocks, swap_counter = 1030\<rparr> \<and>
     ram m (addr_translate 0x1000 0x80000007 m) = disk_read three_blocks 1030 8 ! 7"
proof -
  let ?s = "\<lparr>vm_mm = swap_machine, vm_disk = three_blocks, swap_counter = 1030\<rparr>"
  obtain m1 a where a: "p_malloc swap_machine = (m1, a)" by fastforce
  then have "a \<noteq> -1" using swap_machine_ok(4) by simp
  with a page_fault_loads_page [of ?s "0x80000000" 1030 m1 a 0] swap_machine_ok three_blocks_ok(1) obtain m where
    "on_page_fault 0x80000000 0 ?s = Inr (?s\<lparr>vm_mm := m\<rparr>)"
    "\<forall>k < 4096. ram m (addr_translate 0x1000 (0x80000000 + of_nat k) m) = disk_read three_blocks 1030 8 ! k"
    by (auto simp: aligned_def)
  from this(1) spec [OF this(2), of 7] show ?thesis by auto
qed

text \<open>
  Claim C32: the handler loads to the faulting address, not to the start of its page: for an address
  inside a page the last bytes go to the next page, and when that one is absent too the handler
  itself faults.
\<close>
theorem page_fault_inside_page:
  assumes "pd_ok (vm_mm s) (cr3 (vm_mm s))" "present (entry (ram (vm_mm s)) (cr3 (vm_mm s)) (pdi v))"
    "pte (ram (vm_mm s)) (cr3 (vm_mm s)) v = SWAP_SECTOR_SET sector" "unat sector < 2 ^ 29"
    "p_malloc (vm_mm s) = (m1, a)" "a \<noteq> -1" "disk_ok (vm_disk s)"
    "unat v mod 4096 \<noteq> 0" "\<not> has_addr (cr3 (vm_mm s)) (frame v + 4096) (vm_mm s)"
  shows "on_page_fault v e s = Inl Page_Fault"
proof -
  let ?pd = "cr3 (vm_mm s)" and ?bs = "disk_read (vm_disk s) (unat sector) 8"
  define off where "off = unat v mod 4096"
  have off: "off < 4096" "0 < off" using assms(8) by (simp_all add: off_def)
  have v: "v = frame v + of_nat off"
  proof -
    have "frame v + of_nat off = of_nat (unat (frame v) + off)" by simp
    also have "\<dots> = of_nat (unat v)" by (simp only: unat_frame off_def div_mult_mod_eq)
    finally show ?thesis by simp
  qed
  from on_page_fault_start [OF assms(1-6), of e] obtain m2 where
    m2: "on_page_fault v e s = rbind (store_virtual ?pd v ?bs m2) (\<lambda>m3. Inr (s\<lparr>vm_mm := m3\<rparr>))" "maps_page m2 ?pd v a"
    and keep: "\<And>w. unat w div 4096 \<noteq> unat v div 4096 \<Longrightarrow> has_addr ?pd w m2 = has_addr ?pd w (vm_mm s)" by blast
  have p: "pdi (frame v) = pdi v" "pti (frame v) = pti v" using same_page [of "frame v" v] by (simp_all add: unat_frame)
  then have mp: "maps_page m2 ?pd (frame v) a" using m2(2) by (simp add: maps_page_def pte_def)
  have l: "length ?bs = 4096" using length_disk_read [OF assms(7), of "unat sector" 8] by simp
  from store_virtual_page [OF mp aligned_frame, of off "take (4096 - off) ?bs"] l off obtain r where
    r: "store_virtual ?pd v (take (4096 - off) ?bs) m2 = Inr (m2\<lparr>ram := r\<rparr>)"
    "\<And>x. 4096 \<le> unat (x - a) \<Longrightarrow> r x = ram m2 x"
    by (auto simp: v [symmetric])
  have nx: "v + of_nat (4096 - off) = frame v + 4096"
    using off(1) by (subst v) (simp add: of_nat_diff)
  have "unat (frame v + 4096) div 4096 \<noteq> unat v div 4096"
  proof
    assume "unat (frame v + 4096) div 4096 = unat v div 4096"
    then have "frame (frame v + 4096) = frame v" by (simp add: word_unat_eq_iff unat_frame)
    moreover have "frame (frame v + 4096) = frame v + 4096"
      by (rule aligned_frame_eq) (simp add: aligned_def unat_word_ariths unat_frame mod_mod_cancel)
    ultimately show False by simp
  qed
  then have "\<not> has_addr ?pd (frame v + 4096) m2" using keep assms(9) by simp
  then have "\<not> has_addr ?pd (frame v + 4096) (m2\<lparr>ram := r\<rparr>)" using maps_page_outside(2) [OF m2(2) r(2)] by blast
  moreover have "drop (4096 - off) ?bs \<noteq> []" using l off by simp
  ultimately have "store_virtual ?pd (frame v + 4096) (drop (4096 - off) ?bs) (m2\<lparr>ram := r\<rparr>) = Inl Page_Fault"
    by (intro store_virtual_unmapped)
  then have "store_virtual ?pd v (take (4096 - off) ?bs @ drop (4096 - off) ?bs) m2 = Inl Page_Fault"
    using l by (simp only: store_virtual_append r(1) rbind_simps nx [symmetric]) simp
  then show ?thesis using m2(1) by simp
qed

theorem page_fault_inside_page_witness:
  "on_page_fault 0x80000123 0 \<lparr>vm_mm = swap_machine, vm_disk = three_blocks, swap_counter = 1030\<rparr> = Inl Page_Fault"
proof -
  let ?s = "\<lparr>vm_mm = swap_machine, vm_disk = three_blocks, swap_counter = 1030\<rparr>"
  obtain m1 a where a: "p_malloc swap_machine = (m1, a)" by fastforce
  then have "a \<noteq> -1" using swap_machine_ok(4) by simp
  moreover have "pdi 0x80000123 = pdi 0x80000000" "pti 0x80000123 = pti 0x80000000" "frame 0x80000123 + 4096 = 0x80001000"
    by (simp_all add: pdi_def pti_def)
  ultimately show ?thesis
    using page_fault_inside_page [of ?s "0x80000123" 1030 m1 a 0] a swap_machine_ok three_blocks_ok(1)
    by (simp add: pte_def)
qed

text \<open>
  The swap area lies among the sectors that are given to files: when the sectors below the one that \<open>swap_alloc\<close> gives out
  are in use and that one is not, a file that grows gets it as its next block, and its last bytes are overwritten with the
  link of the chain at once; what is then written to the file goes over the program there.
\<close>
theorem swap_area_overwritten:
  assumes "x = snd (swap_alloc v)" "\<forall>m. 0 \<le> m \<longrightarrow> m < uint x \<longrightarrow> bit_at (file_alloc_bitmap s) m"
    "uint x \<in> free_sectors (file_alloc_bitmap s)"
    "disk_ok (fs_disk s)" "chain (fs_disk s) (first_sector (fcb f)) ss" "distinct ss" "ss \<noteq> []"
    "last_sector (fcb f) = last ss" "sectors_used ss (file_alloc_bitmap s)"
  shows "\<exists>s'. expand_loop 1 f s = Inr (f\<lparr>fcb := (fcb f)\<lparr>last_sector := x\<rparr>\<rparr>, s') \<and>
    chain (fs_disk s') (first_sector (fcb f)) (ss @ [x]) \<and> next_sector (fs_disk s' (unat x)) = NO_SECTOR"
proof -
  have "1 \<le> card (free_sectors (file_alloc_bitmap s))"
    using assms(3) card_gt_0_iff [of "free_sectors (file_alloc_bitmap s)"] by (auto simp: Suc_le_eq)
  from expand_loop_ok [OF assms(4-9) this] obtain ns s' where
    R: "expand_loop 1 f s = Inr (f\<lparr>fcb := (fcb f)\<lparr>last_sector := last (ss @ ns)\<rparr>\<rparr>, s')" "grown ss 1 ns (fcb f) s s'" by blast
  then obtain y where y: "ns = [y]" by (auto simp: grown_def length_Suc_conv)
  have "uint y \<le> uint x" "\<not> bit_at (file_alloc_bitmap s) (uint y)" using R(2) assms(3) by (simp_all add: y grown_def free_sectors_def)
  then have "y = x" using assms(2) by (metis dual_order.order_iff_strict unsigned_greater_eq word_uint_eq_iff)
  then show ?thesis using R by (intro exI [of _ s']) (simp add: y grown_def)
qed

theorem swap_area_overwritten_witness:
  "\<exists>s'. expand_loop 1 three_block_file ((demo_fs three_blocks)\<lparr>file_alloc_bitmap :=
       \<lparr>bits = (\<lambda>i. if i < 128 then 0xFF else if i = 128 then 0x3F else 0), bsize = 1572864\<rparr>\<rparr>) =
     Inr (three_block_file\<lparr>fcb := (fcb three_block_file)\<lparr>last_sector := DISK_SWAP_START_SECTOR\<rparr>\<rparr>, s') \<and>
     next_sector (fs_disk s' 1030) = NO_SECTOR"
proof -
  let ?b = "\<lparr>bits = (\<lambda>i. if i < 128 then 0xFF else if i = 128 then 0x3F else 0), bsize = 1572864\<rparr>"
  have "bit (0x3F :: u8) j" if "j < 6" for j
  proof -
    have "(0x3F :: u8) = mask 6" by (simp add: mask_eq_exp_minus_1)
    then show ?thesis using that by (simp only: bit_mask_iff) simp
  qed
  moreover have "bit (0xFF :: u8) j" if "j < 8" for j
  proof -
    have "(0xFF :: u8) = mask 8" by (simp add: mask_eq_exp_minus_1)
    then show ?thesis using that by (simp only: bit_mask_iff) simp
  qed
  ultimately have "bit_at ?b k" if "0 \<le> k" "k < 1030" for k
  proof -
    have "nat (k mod 8) < 6" if "k div 8 = 128" using mult_div_mod_eq [of 8 k] that \<open>k < 1030\<close> by linarith
    moreover have "k div 8 \<le> 128" using that by linarith
    ultimately show ?thesis using \<open>\<And>j. j < 6 \<Longrightarrow> bit (0x3F :: u8) j\<close> \<open>\<And>j. j < 8 \<Longrightarrow> bit (0xFF :: u8) j\<close>
      by (auto simp: bit_at_def)
  qed
  moreover have "slots ?b = 1572864" by (simp add: slots_def signed_divide_int_def)
  moreover have "\<not> bit_at ?b 1030" by (simp add: bit_at_def)
  ultimately show ?thesis
    using swap_area_overwritten [of 1030 "\<lparr>vm_mm = swap_machine, vm_disk = three_blocks, swap_counter = DISK_SWAP_START_SECTOR\<rparr>"
        "(demo_fs three_blocks)\<lparr>file_alloc_bitmap := ?b\<rparr>" three_block_file "[1026, 1027, 1028]"] three_blocks_ok
    by (auto simp: swap_alloc_def Let_def free_sectors_def sectors_used_def three_block_file_def file_on_def)
qed

end
