(* ===== verification/Pid_Queue.thy ===== *)
theory Pid_Queue
  imports Prelude "HOL-Library.Signed_Division"
begin

text \<open>
  kernel/lib/data_struct.c and include/comm/data_struct.h: the ring buffer of process
  numbers that the scheduler (ready, blocked and sleeping queue) and the semaphores
  (waiting processes) are built from. The array \<open>pids\<close> has \<open>MAX_GDT_TERMS\<close> = 8192
  entries; an access at any other index is a fault. The loops of \<open>pid_queue_find\<close> and
  \<open>pid_queue_delete\<close> step through the ring until they meet \<open>tail\<close>, which they never do
  when \<open>tail\<close> is not an index of the ring; they carry a fuel of 8193 iterations, one more
  than the ring has indices, and running out of it is \<open>Hang\<close>.
\<close>

section \<open>The queue and its operations\<close>

abbreviation MAX_GDT_TERMS :: nat where "MAX_GDT_TERMS \<equiv> 8192"

definition NOT_FOUND :: u16 where "NOT_FOUND = - 1"

record pid_queue_t =
  head :: u16
  tail :: u16
  pids :: "nat \<Rightarrow> u16"

definition INC_PID_QUEUE_INDEX :: "u16 \<Rightarrow> u16" where
  "INC_PID_QUEUE_INDEX i = of_nat ((unat i + 1) mod MAX_GDT_TERMS)"

text \<open>The difference is an \<open>int\<close>, so \<open>%\<close> keeps its sign, and the result is cut to 16 bits.\<close>

definition pid_queue_length :: "pid_queue_t \<Rightarrow> u16" where
  "pid_queue_length q = of_int ((int (unat (tail q)) - int (unat (head q))) smod int MAX_GDT_TERMS)"

definition pid_queue_init :: "pid_queue_t \<Rightarrow> pid_queue_t" where
  "pid_queue_init q =
     q\<lparr>pids := (\<lambda>i. if i < MAX_GDT_TERMS then NOT_FOUND else pids q i), head := 0, tail := 0\<rparr>"

definition pid_enqueue :: "pid_queue_t \<Rightarrow> u16 \<Rightarrow> pid_queue_t res" where
  "pid_enqueue q pid =
     (if unat (tail q) < MAX_GDT_TERMS
      then Inr (q\<lparr>pids := (pids q)(unat (tail q) := pid), tail := INC_PID_QUEUE_INDEX (tail q)\<rparr>)
      else Inl Out_Of_Bounds)"

definition pid_dequeue :: "pid_queue_t \<Rightarrow> (pid_queue_t \<times> u16) res" where
  "pid_dequeue q =
     (if pid_queue_length q = 0 then Inr (q, NOT_FOUND)
      else if unat (head q) < MAX_GDT_TERMS
      then Inr (q\<lparr>head := INC_PID_QUEUE_INDEX (head q)\<rparr>, pids q (unat (head q)))
      else Inl Out_Of_Bounds)"

definition ring_fuel :: nat where "ring_fuel = 8193"

function find_from :: "nat \<Rightarrow> pid_queue_t \<Rightarrow> u16 \<Rightarrow> u16 \<Rightarrow> u16 res" where
  "find_from fuel q pid i =
     (if i = tail q then Inr NOT_FOUND
      else if fuel = 0 then Inl Hang
      else if \<not> unat i < MAX_GDT_TERMS then Inl Out_Of_Bounds
      else if pids q (unat i) = pid then Inr pid
      else find_from (fuel - 1) q pid (INC_PID_QUEUE_INDEX i))"
  by pat_completeness auto
termination
  by (relation "measure (\<lambda>(fuel, q, pid, i). fuel)") auto

definition pid_queue_find :: "pid_queue_t \<Rightarrow> u16 \<Rightarrow> u16 res" where
  "pid_queue_find q pid = find_from ring_fuel q pid (head q)"

function shift_from :: "nat \<Rightarrow> pid_queue_t \<Rightarrow> u16 \<Rightarrow> pid_queue_t res" where
  "shift_from fuel q j =
     (if j = tail q then Inr q
      else if fuel = 0 then Inl Hang
      else if \<not> unat j < MAX_GDT_TERMS then Inl Out_Of_Bounds
      else shift_from (fuel - 1)
             (q\<lparr>pids := (pids q)(unat j := pids q ((unat j + 1) mod MAX_GDT_TERMS))\<rparr>)
             (INC_PID_QUEUE_INDEX j))"
  by pat_completeness auto
termination
  by (relation "measure (\<lambda>(fuel, q, j). fuel)") auto

declare find_from.simps [simp del] shift_from.simps [simp del]

text \<open>\<open>tail--\<close> is not taken modulo the ring: from 0 it leads to 65535.\<close>

definition pid_queue_delete :: "pid_queue_t \<Rightarrow> u16 \<Rightarrow> pid_queue_t res" where
  "pid_queue_delete q i = rbind (shift_from ring_fuel q i) (\<lambda>q'. Inr (q'\<lparr>tail := tail q' - 1\<rparr>))"

section \<open>The list a queue stands for\<close>

definition wf_queue :: "pid_queue_t \<Rightarrow> bool" where
  "wf_queue q \<longleftrightarrow> unat (head q) < MAX_GDT_TERMS \<and> unat (tail q) < MAX_GDT_TERMS"

text \<open>Index \<open>k\<close> places behind \<open>a\<close> in the ring, and the number of places from \<open>a\<close> to \<open>b\<close>.\<close>

definition ring_at :: "nat \<Rightarrow> nat \<Rightarrow> nat" where
  "ring_at a k = (a + k) mod MAX_GDT_TERMS"

definition ring_dist :: "nat \<Rightarrow> nat \<Rightarrow> nat" where
  "ring_dist a b = (b + MAX_GDT_TERMS - a) mod MAX_GDT_TERMS"

definition qlen :: "pid_queue_t \<Rightarrow> nat" where
  "qlen q = ring_dist (unat (head q)) (unat (tail q))"

definition q_list :: "pid_queue_t \<Rightarrow> u16 list" where
  "q_list q = map (\<lambda>k. pids q (ring_at (unat (head q)) k)) [0..<qlen q]"

lemma ring_at_if: "a < 8192 \<Longrightarrow> k \<le> 8192 \<Longrightarrow> ring_at a k = (if a + k < 8192 then a + k else a + k - 8192)"
  by (auto simp: ring_at_def mod_if)

lemma ring_dist_if: "a < 8192 \<Longrightarrow> b < 8192 \<Longrightarrow> ring_dist a b = (if a \<le> b then b - a else b + 8192 - a)"
  by (auto simp: ring_dist_def mod_if)

lemma ring_at_less [simp]: "ring_at a k < 8192"
  by (simp add: ring_at_def)

lemma ring_at_0 [simp]: "a < 8192 \<Longrightarrow> ring_at a 0 = a"
  by (simp add: ring_at_def)

lemma ring_dist_less [simp]: "ring_dist a b < 8192"
  by (simp add: ring_dist_def)

lemma qlen_less [simp]: "qlen q < 8192"
  by (simp add: qlen_def)

lemma qlen_mod: "qlen q mod 65536 = qlen q"
  by (rule mod_less) (rule less_trans [OF qlen_less], simp)

lemma length_q_list [simp]: "length (q_list q) = qlen q"
  by (simp add: q_list_def)

lemma q_list_nth [simp]: "k < qlen q \<Longrightarrow> q_list q ! k = pids q (ring_at (unat (head q)) k)"
  by (simp add: q_list_def)

lemma unat_inc [simp]: "unat (INC_PID_QUEUE_INDEX i) = ring_at (unat i) 1"
  by (simp add: INC_PID_QUEUE_INDEX_def ring_at_def unat_of_nat)

lemma unat_NOT_FOUND: "unat NOT_FOUND = 65535"
  by (simp add: NOT_FOUND_def unsigned_minus_1_eq_mask mask_eq_exp_minus_1)

lemma wf_queueD: "wf_queue q \<Longrightarrow> unat (head q) < 8192" "wf_queue q \<Longrightarrow> unat (tail q) < 8192"
  by (simp_all add: wf_queue_def)

lemma qlen_0_iff: "wf_queue q \<Longrightarrow> qlen q = 0 \<longleftrightarrow> head q = tail q"
  using wf_queueD [of q] by (auto simp: qlen_def ring_dist_if split: if_splits simp: word_unat_eq_iff)

lemma q_list_Nil_iff: "q_list q = [] \<longleftrightarrow> qlen q = 0"
  by (simp add: q_list_def)

lemma smod_small: "\<bar>a\<bar> < m \<Longrightarrow> a smod m = a" for a m :: int
  by (simp add: signed_modulo_int_def mod_pos_pos_trivial sgn_mult_abs)

lemma pid_queue_length_value:
  assumes "wf_queue q"
  shows "unat (pid_queue_length q) =
    (if unat (head q) \<le> unat (tail q) then qlen q else 57344 + qlen q)"
proof -
  let ?h = "unat (head q)" and ?t = "unat (tail q)"
  note b = wf_queueD [OF assms]
  have "(int ?t - int ?h) smod 8192 = int ?t - int ?h"
    using b by (intro smod_small) linarith
  then have L: "pid_queue_length q = of_int (int ?t - int ?h)"
    by (simp only: pid_queue_length_def of_nat_numeral)
  show ?thesis
  proof (cases "?h \<le> ?t")
    case True
    with b have "int ?t - int ?h = int (qlen q)" by (simp add: qlen_def ring_dist_if)
    then have "pid_queue_length q = of_nat (qlen q)" by (simp only: L of_int_of_nat_eq)
    with True show ?thesis by (simp add: unat_of_nat qlen_mod)
  next
    case False
    with b have "int ?t - int ?h = int (57344 + qlen q) - 65536" by (simp add: qlen_def ring_dist_if)
    then have "pid_queue_length q = of_int (int (57344 + qlen q) - 65536)" by (simp only: L)
    then have "pid_queue_length q = of_nat (57344 + qlen q)" by simp
    with False show ?thesis using qlen_less [of q] by (simp add: unat_of_nat del: of_nat_add)
  qed
qed

lemma pid_queue_length_0_iff: "wf_queue q \<Longrightarrow> pid_queue_length q = 0 \<longleftrightarrow> qlen q = 0"
  using pid_queue_length_value [of q] qlen_0_iff [of q]
  by (auto simp: word_unat_eq_iff split: if_splits)

section \<open>The operations on the list\<close>

lemma wf_pid_queue_init: "wf_queue (pid_queue_init q)" "q_list (pid_queue_init q) = []"
  by (simp_all add: wf_queue_def pid_queue_init_def q_list_def qlen_def ring_dist_def)

lemma ring_at_Suc: "a < 8192 \<Longrightarrow> k < 8192 \<Longrightarrow> ring_at (ring_at a (Suc 0)) k = ring_at a (Suc k)"
  by (auto simp: ring_at_def mod_simps)

lemma ring_at_dist: "a < 8192 \<Longrightarrow> b < 8192 \<Longrightarrow> ring_at a (ring_dist a b) = b"
  by (auto simp: ring_dist_if ring_at_def)

lemma ring_dist_at: "a < 8192 \<Longrightarrow> k < 8192 \<Longrightarrow> ring_dist a (ring_at a k) = k"
  by (auto simp: ring_at_if ring_dist_if)

lemma ring_at_inj: "a < 8192 \<Longrightarrow> k < 8192 \<Longrightarrow> l < 8192 \<Longrightarrow> ring_at a k = ring_at a l \<longleftrightarrow> k = l"
  by (metis ring_dist_at)

lemma enqueue_ok:
  assumes "wf_queue q" "qlen q < 8191"
  obtains q' where "pid_enqueue q pid = Inr q'" "wf_queue q'" "q_list q' = q_list q @ [pid]"
    "head q' = head q" "qlen q' = Suc (qlen q)"
proof -
  let ?q' = "q\<lparr>pids := (pids q)(unat (tail q) := pid), tail := INC_PID_QUEUE_INDEX (tail q)\<rparr>"
  note b = wf_queueD [OF assms(1)]
  have len: "qlen ?q' = Suc (qlen q)"
    using b assms(2) by (auto simp: qlen_def ring_dist_if ring_at_if split: if_splits)
  have tl: "ring_at (unat (head q)) (qlen q) = unat (tail q)"
    using b by (simp add: qlen_def ring_at_dist)
  have "q_list ?q' = q_list q @ [pid]"
  proof (rule nth_equalityI)
    fix k assume "k < length (q_list ?q')"
    then have k: "k < Suc (qlen q)" by (simp add: len)
    show "q_list ?q' ! k = (q_list q @ [pid]) ! k"
    proof (cases "k = qlen q")
      case True
      then show ?thesis by (simp add: len nth_append tl)
    next
      case False
      with k have "ring_at (unat (head q)) k \<noteq> unat (tail q)"
        using b ring_at_inj [of "unat (head q)" k "qlen q"] qlen_less [of q] by (simp add: tl)
      with False k show ?thesis by (simp add: len nth_append)
    qed
  qed (simp add: len)
  then show ?thesis
    using that [of ?q'] b len by (simp add: pid_enqueue_def wf_queue_def)
qed

lemma dequeue_empty: "wf_queue q \<Longrightarrow> q_list q = [] \<Longrightarrow> pid_dequeue q = Inr (q, NOT_FOUND)"
  by (simp add: pid_dequeue_def pid_queue_length_0_iff q_list_Nil_iff)

lemma dequeue_ok:
  assumes "wf_queue q" "q_list q = x # xs"
  obtains q' where "pid_dequeue q = Inr (q', x)" "wf_queue q'" "q_list q' = xs" "tail q' = tail q"
proof -
  let ?q' = "q\<lparr>head := INC_PID_QUEUE_INDEX (head q)\<rparr>"
  note b = wf_queueD [OF assms(1)]
  have n: "qlen q = Suc (length xs)" using arg_cong [OF assms(2), of length] by simp
  then have len: "qlen ?q' = length xs"
    using b by (auto simp: qlen_def ring_dist_if ring_at_if split: if_splits)
  have "q_list ?q' = xs"
  proof (rule nth_equalityI)
    fix k assume "k < length (q_list ?q')"
    then have k: "k < length xs" by (simp add: len)
    then have "q_list ?q' ! k = pids q (ring_at (unat (head q)) (Suc k))"
      using b n qlen_less [of q] by (simp add: len ring_at_Suc)
    also have "\<dots> = xs ! k"
      using k n assms(2) q_list_nth [of "Suc k" q] by simp
    finally show "q_list ?q' ! k = xs ! k" .
  qed (simp add: len)
  moreover have "pids q (unat (head q)) = x"
    using q_list_nth [of 0 q] assms(2) n b by simp
  ultimately show ?thesis
    using that [of ?q'] b n by (simp add: pid_dequeue_def pid_queue_length_0_iff assms(1) wf_queue_def)
qed

text \<open>The search: it terminates on a well-formed queue and says whether the process is in it.\<close>

lemma ring_dist_step:
  assumes "a < 8192" "b < 8192" "a \<noteq> b"
  shows "ring_dist (ring_at a (Suc 0)) b = ring_dist a b - 1" "0 < ring_dist a b"
  using assms by (auto simp: ring_dist_if ring_at_if split: if_splits)

lemma find_from_ok:
  assumes "wf_queue q" "unat i < 8192" "ring_dist (unat i) (unat (tail q)) = d" "d \<le> fuel"
  shows "find_from fuel q pid i = Inr
    (if \<exists>k < d. pids q (ring_at (unat i) k) = pid then pid else NOT_FOUND)"
  using assms(2-)
proof (induction d arbitrary: i fuel)
  case 0
  then have "i = tail q"
    using wf_queueD(2) [OF assms(1)] by (auto simp: ring_dist_if word_unat_eq_iff split: if_splits)
  then show ?case by (subst find_from.simps) simp
next
  case (Suc d)
  note b = wf_queueD(2) [OF assms(1)]
  have ne: "i \<noteq> tail q" using Suc.prems(2) b by (auto simp: ring_dist_if)
  have step: "ring_dist (unat (INC_PID_QUEUE_INDEX i)) (unat (tail q)) = d"
    using ring_dist_step [OF Suc.prems(1) b] ne Suc.prems(2) by (simp add: word_unat_eq_iff)
  have IH: "find_from (fuel - 1) q pid (INC_PID_QUEUE_INDEX i) = Inr
      (if \<exists>k < d. pids q (ring_at (unat (INC_PID_QUEUE_INDEX i)) k) = pid then pid else NOT_FOUND)"
    using Suc.prems(3) by (intro Suc.IH step) auto
  have "d < 8192" using step by (metis ring_dist_less)
  then have split: "(\<exists>k < Suc d. pids q (ring_at (unat i) k) = pid) \<longleftrightarrow>
      pids q (unat i) = pid \<or> (\<exists>k < d. pids q (ring_at (unat (INC_PID_QUEUE_INDEX i)) k) = pid)"
    using Suc.prems(1) by (auto simp: Ex_less_Suc2 ring_at_Suc)
  show ?case
    using ne Suc.prems IH unfolding split by (subst find_from.simps) auto
qed

lemma pid_queue_find_ok:
  "wf_queue q \<Longrightarrow> pid_queue_find q pid = Inr (if pid \<in> set (q_list q) then pid else NOT_FOUND)"
  unfolding pid_queue_find_def
  by (subst find_from_ok [OF _ _ refl])
    (auto simp: wf_queue_def q_list_def qlen_def ring_fuel_def less_imp_le [OF less_trans [OF ring_dist_less]])

text \<open>The shift: every entry from \<open>j\<close> up to \<open>tail\<close> gets the value of its successor.\<close>

definition shifted :: "pid_queue_t \<Rightarrow> nat \<Rightarrow> nat \<Rightarrow> nat \<Rightarrow> u16" where
  "shifted q j d x =
     (if x < 8192 \<and> ring_dist j x < d then pids q (ring_at x (Suc 0)) else pids q x)"

lemma shift_from_ok:
  assumes "wf_queue q" "unat j < 8192" "ring_dist (unat j) (unat (tail q)) = d" "d \<le> fuel"
  shows "shift_from fuel q j = Inr (q\<lparr>pids := shifted q (unat j) d\<rparr>)"
  using assms
proof (induction d arbitrary: q j fuel)
  case 0
  then have "j = tail q"
    using wf_queueD(2) [OF 0(1)] by (auto simp: ring_dist_if word_unat_eq_iff split: if_splits)
  moreover have "shifted q (unat j) 0 = pids q" by (simp add: shifted_def fun_eq_iff)
  ultimately show ?case by (subst shift_from.simps) simp
next
  case (Suc d)
  note b = wf_queueD(2) [OF Suc.prems(1)]
  let ?q1 = "q\<lparr>pids := (pids q)(unat j := pids q (ring_at (unat j) (Suc 0)))\<rparr>"
  have ne: "j \<noteq> tail q" using Suc.prems(3) b by (auto simp: ring_dist_if)
  have step: "ring_dist (unat (INC_PID_QUEUE_INDEX j)) (unat (tail q)) = d"
    using ring_dist_step [OF Suc.prems(2) b] ne Suc.prems(3) by (simp add: word_unat_eq_iff)
  have IH: "shift_from (fuel - 1) ?q1 (INC_PID_QUEUE_INDEX j) =
      Inr (?q1\<lparr>pids := shifted ?q1 (unat (INC_PID_QUEUE_INDEX j)) d\<rparr>)"
    using Suc.prems step by (intro Suc.IH) (auto simp: wf_queue_def)
  have "Suc d < 8192" using Suc.prems(3) by (metis ring_dist_less)
  then have "shifted ?q1 (unat (INC_PID_QUEUE_INDEX j)) d x = shifted q (unat j) (Suc d) x" for x
    using Suc.prems(2) by (auto simp: shifted_def ring_dist_if ring_at_if split: if_splits)
  then have "shifted ?q1 (unat (INC_PID_QUEUE_INDEX j)) d = shifted q (unat j) (Suc d)" ..
  then show ?case
    using ne Suc.prems IH by (subst shift_from.simps) (auto simp: ring_at_def)
qed

lemma ring_dist_rel:
  "h < 8192 \<Longrightarrow> p < 8192 \<Longrightarrow> k < 8192 \<Longrightarrow>
   ring_dist (ring_at h p) (ring_at h k) = (if p \<le> k then k - p else k + 8192 - p)"
  by (auto simp: ring_dist_if ring_at_if split: if_splits)

lemma shift_window:
  fixes p n k :: nat
  assumes "p < 8192" "n < 8192" "k < n - 1"
  shows "(if p \<le> k then k - p else k + 8192 - p) < (if p \<le> n then n - p else n + 8192 - p)
    \<longleftrightarrow> p \<le> k \<or> n < p"
  using assms by auto

text \<open>
  Deleting the entry \<open>p\<close> places behind the head. Inside the queue this removes the entry;
  at the tail it drops the last one; anywhere else the shift runs once around the ring
  and what falls out is the head of the queue.
\<close>

definition delete_effect :: "nat \<Rightarrow> 'a list \<Rightarrow> 'a list" where
  "delete_effect p xs =
     (if p < length xs then take p xs @ drop (Suc p) xs
      else if p = length xs then butlast xs else tl xs)"

lemma pid_queue_delete_ok:
  assumes "wf_queue q" "unat i < 8192" "q_list q \<noteq> []" "tail q \<noteq> 0"
  obtains q' where "pid_queue_delete q i = Inr q'" "wf_queue q'" "head q' = head q"
    "tail q' = tail q - 1" "q_list q' = delete_effect (ring_dist (unat (head q)) (unat i)) (q_list q)"
proof -
  let ?h = "unat (head q)" and ?p = "ring_dist (unat (head q)) (unat i)"
  let ?d = "ring_dist (unat i) (unat (tail q))"
  let ?q' = "q\<lparr>pids := shifted q (unat i) ?d, tail := tail q - 1\<rparr>"
  note b = wf_queueD [OF assms(1)]
  have n: "0 < qlen q" using assms(3) by (simp add: q_list_Nil_iff)
  have t1: "unat (tail q - 1) = unat (tail q) - 1" "0 < unat (tail q)"
    using assms(4) by (simp_all add: unat_minus_one unat_gt_0)
  have i: "unat i = ring_at ?h ?p" using assms(2) b by (simp add: ring_at_dist)
  have t: "unat (tail q) = ring_at ?h (qlen q)" using b by (simp add: qlen_def ring_at_dist)
  have p: "?p < 8192" by simp
  have len: "qlen ?q' = qlen q - 1"
    using n b t1 by (auto simp: qlen_def ring_dist_if split: if_splits)
  have d: "?d = (if ?p \<le> qlen q then qlen q - ?p else qlen q + 8192 - ?p)"
    using ring_dist_rel [OF b(1) p qlen_less [of q]] by (simp only: i [symmetric] t [symmetric])
  have key: "shifted q (unat i) ?d (ring_at ?h k) =
      pids q (ring_at ?h (if ?p \<le> k \<or> qlen q < ?p then Suc k else k))" if "k < qlen q - 1" for k
  proof -
    have k: "k < 8192" using that qlen_less [of q] by linarith
    have "ring_dist (unat i) (ring_at ?h k) = (if ?p \<le> k then k - ?p else k + 8192 - ?p)"
      using ring_dist_rel [OF b(1) p k] by (simp only: i [symmetric])
    moreover have "ring_at (ring_at ?h k) (Suc 0) = ring_at ?h (Suc k)"
      by (simp add: ring_at_def mod_simps)
    ultimately show ?thesis
      unfolding shifted_def d by (simp only: shift_window [OF p qlen_less that] ring_at_less) auto
  qed
  have "q_list ?q' = delete_effect ?p (q_list q)"
  proof (rule nth_equalityI)
    show "length (q_list ?q') = length (delete_effect ?p (q_list q))"
      using n by (auto simp: len delete_effect_def)
    fix k assume "k < length (q_list ?q')"
    then have k: "k < qlen q - 1" by (simp add: len)
    then show "q_list ?q' ! k = delete_effect ?p (q_list q) ! k"
      using key [OF k] by (auto simp: len delete_effect_def nth_append nth_butlast nth_tl min_def)
  qed
  moreover have "wf_queue ?q'" using b t1 by (auto simp: wf_queue_def)
  ultimately show ?thesis
    using that [of ?q'] shift_from_ok [OF assms(1,2) refl, of ring_fuel]
    by (simp add: pid_queue_delete_def ring_fuel_def less_imp_le [OF less_trans [OF ring_dist_less]])
qed

section \<open>The interface of a first-in first-out queue\<close>

text \<open>
  What the scheduler and the semaphores use: entries come out in the order they went in,
  and an empty queue answers with a value of its own.
\<close>

locale fifo_queue =
  fixes invar :: "'q \<Rightarrow> bool"
    and elems :: "'q \<Rightarrow> 'a list"
    and enq :: "'q \<Rightarrow> 'a \<Rightarrow> 'q res"
    and deq :: "'q \<Rightarrow> ('q \<times> 'a) res"
    and room :: nat
    and absent :: 'a
  assumes enq_law: "invar q \<Longrightarrow> length (elems q) < room \<Longrightarrow>
      \<exists>q'. enq q x = Inr q' \<and> invar q' \<and> elems q' = elems q @ [x]"
    and deq_empty: "invar q \<Longrightarrow> elems q = [] \<Longrightarrow> deq q = Inr (q, absent)"
    and deq_law: "invar q \<Longrightarrow> elems q = x # xs \<Longrightarrow>
      \<exists>q'. deq q = Inr (q', x) \<and> invar q' \<and> elems q' = xs"

fun enq_all :: "('q \<Rightarrow> 'a \<Rightarrow> 'q res) \<Rightarrow> 'a list \<Rightarrow> 'q \<Rightarrow> 'q res" where
  "enq_all en [] q = Inr q"
| "enq_all en (x # xs) q = rbind (en q x) (enq_all en xs)"

fun deq_all :: "('q \<Rightarrow> ('q \<times> 'a) res) \<Rightarrow> nat \<Rightarrow> 'q \<Rightarrow> ('q \<times> 'a list) res" where
  "deq_all de 0 q = Inr (q, [])"
| "deq_all de (Suc n) q =
     rbind (de q) (\<lambda>(q', x). rbind (deq_all de n q') (\<lambda>(q'', xs). Inr (q'', x # xs)))"

text \<open>
  One turn of a scheduler: the next entry leaves the queue, and the one that has had its
  turn goes to the end.
\<close>

fun turns :: "('q \<Rightarrow> 'a \<Rightarrow> 'q res) \<Rightarrow> ('q \<Rightarrow> ('q \<times> 'a) res) \<Rightarrow> nat \<Rightarrow> 'a \<times> 'q \<Rightarrow> ('a \<times> 'q) res" where
  "turns en de 0 (r, q) = Inr (r, q)"
| "turns en de (Suc n) (r, q) =
     rbind (de q) (\<lambda>(q', x). rbind (en q' r) (\<lambda>q''. turns en de n (x, q'')))"

context fifo_queue
begin

lemma enq_all_law:
  "invar q \<Longrightarrow> length (elems q) + length xs \<le> room \<Longrightarrow>
   \<exists>q'. enq_all enq xs q = Inr q' \<and> invar q' \<and> elems q' = elems q @ xs"
proof (induction xs arbitrary: q)
  case (Cons x xs)
  then obtain q1 where "enq q x = Inr q1" "invar q1" "elems q1 = elems q @ [x]"
    using enq_law [of q x] by auto
  with Cons.IH [of q1] Cons.prems show ?case by auto
qed simp

lemma deq_all_law:
  "invar q \<Longrightarrow> elems q = xs @ ys \<Longrightarrow>
   \<exists>q'. deq_all deq (length xs) q = Inr (q', xs) \<and> invar q' \<and> elems q' = ys"
proof (induction xs arbitrary: q)
  case (Cons x xs)
  then obtain q1 where "deq q = Inr (q1, x)" "invar q1" "elems q1 = xs @ ys"
    using deq_law [of q x "xs @ ys"] by auto
  with Cons.IH [of q1] show ?case by auto
qed simp

lemma fifo_order:
  assumes "invar q" "elems q = []" "length xs \<le> room"
  shows "\<exists>q'. rbind (enq_all enq xs q) (deq_all deq (length xs)) = Inr (q', xs) \<and> invar q' \<and> elems q' = []"
proof -
  from enq_all_law [OF assms(1), of xs] assms obtain q1 where
    "enq_all enq xs q = Inr q1" "invar q1" "elems q1 = xs @ []" by auto
  with deq_all_law [of q1 xs "[]"] show ?thesis by auto
qed

lemma turns_rotate:
  "invar q \<Longrightarrow> elems q \<noteq> [] \<Longrightarrow> length (elems q) \<le> room \<Longrightarrow>
   \<exists>r' q'. turns enq deq n (r, q) = Inr (r', q') \<and> invar q' \<and> r' # elems q' = rotate n (r # elems q)"
proof (induction n arbitrary: r q)
  case (Suc n)
  then obtain x xs where xs: "elems q = x # xs" by (cases "elems q") auto
  with deq_law [OF Suc.prems(1)] obtain q1 where
    q1: "deq q = Inr (q1, x)" "invar q1" "elems q1 = xs" by blast
  with Suc.prems(3) xs enq_law [of q1 r] obtain q2 where
    q2: "enq q1 r = Inr q2" "invar q2" "elems q2 = xs @ [r]" by auto
  with Suc.IH [of q2 x] Suc.prems(3) xs obtain r' q' where
    "turns enq deq n (x, q2) = Inr (r', q')" "invar q'" "r' # elems q' = rotate n (x # xs @ [r])"
    by auto
  moreover have "rotate (Suc n) (r # x # xs) = rotate n (x # xs @ [r])"
    by (simp add: rotate_Suc rotate1_rotate_swap)
  ultimately show ?case using q1 q2 xs by (intro exI [of _ r'] exI [of _ q']) auto
qed simp

end

interpretation pq: fifo_queue wf_queue q_list pid_enqueue pid_dequeue 8191 NOT_FOUND
proof unfold_locales
  fix q x
  assume "wf_queue q" "length (q_list q) < 8191"
  then show "\<exists>q'. pid_enqueue q x = Inr q' \<and> wf_queue q' \<and> q_list q' = q_list q @ [x]"
    by (metis enqueue_ok length_q_list)
next
  fix q x xs
  assume "wf_queue q" "q_list q = x # xs"
  then show "\<exists>q'. pid_dequeue q = Inr (q', x) \<and> wf_queue q' \<and> q_list q' = xs"
    by (metis dequeue_ok)
qed (rule dequeue_empty)

section \<open>Properties\<close>

definition empty_queue :: pid_queue_t where
  "empty_queue = \<lparr>head = 0, tail = 0, pids = (\<lambda>_. 0)\<rparr>"

lemma wf_empty_queue [simp]: "wf_queue empty_queue" "q_list empty_queue = []"
  by (simp_all add: wf_queue_def empty_queue_def q_list_def qlen_def ring_dist_def)

text \<open>
  Claim C29: the queue is first-in first-out: process numbers that are enqueued into an
  empty queue (at most 8191 of them) come out in the same order, without a fault, and
  leave it empty, wherever in the ring the queue starts.
\<close>
theorem pid_queue_fifo:
  assumes "wf_queue q" "q_list q = []" "length xs \<le> 8191"
  shows "\<exists>q'. rbind (enq_all pid_enqueue xs q) (deq_all pid_dequeue (length xs)) = Inr (q', xs)
    \<and> wf_queue q' \<and> q_list q' = []"
  using assms by (rule pq.fifo_order)

theorem pid_queue_fifo_witness:
  "\<exists>q'. rbind (enq_all pid_enqueue [7, 9, 8] empty_queue) (deq_all pid_dequeue (length [7, 9, 8 :: u16]))
     = Inr (q', [7, 9, 8]) \<and> wf_queue q' \<and> q_list q' = []"
  by (rule pid_queue_fifo) simp_all

text \<open>
  There is no check for a full queue. The ring holds 8191 processes; enqueueing
  one more makes \<open>tail\<close> meet \<open>head\<close>, and the queue counts as empty: all 8192 are lost.
\<close>
theorem pid_enqueue_full_loses_all:
  assumes "wf_queue q" "qlen q = 8191"
  shows "\<exists>q'. pid_enqueue q p = Inr q' \<and> wf_queue q' \<and> q_list q' = [] \<and>
    pid_dequeue q' = Inr (q', NOT_FOUND)"
proof -
  let ?q' = "q\<lparr>pids := (pids q)(unat (tail q) := p), tail := INC_PID_QUEUE_INDEX (tail q)\<rparr>"
  note b = wf_queueD [OF assms(1)]
  have "qlen ?q' = 0" "wf_queue ?q'"
    using b assms(2) by (auto simp: wf_queue_def qlen_def ring_dist_if ring_at_if split: if_splits)
  then show ?thesis
    using b by (auto simp: pid_enqueue_def q_list_Nil_iff intro: dequeue_empty)
qed

theorem pid_enqueue_full_loses_all_witness:
  "\<exists>q'. pid_enqueue \<lparr>head = 0, tail = 8191, pids = (\<lambda>_. 7)\<rparr> 9 = Inr q' \<and> wf_queue q' \<and> q_list q' = [] \<and>
    pid_dequeue q' = Inr (q', NOT_FOUND)"
  by (rule pid_enqueue_full_loses_all) (simp_all add: wf_queue_def qlen_def ring_dist_def)

text \<open>
  \<open>pid_queue_find\<close> terminates on every well-formed queue, and answers with the
  process number itself when the process is in the queue, not with its index as the
  comment and the header announce, and with \<open>NOT_FOUND\<close> otherwise.
\<close>
theorem pid_queue_find_returns_pid:
  assumes "wf_queue q"
  shows "pid_queue_find q p = Inr (if p \<in> set (q_list q) then p else NOT_FOUND)"
  using assms by (rule pid_queue_find_ok)

theorem pid_queue_find_returns_pid_witness:
  "pid_queue_find \<lparr>head = 5, tail = 6, pids = (\<lambda>_. 77)\<rparr> 77 = Inr 77"
  using pid_queue_find_returns_pid [of "\<lparr>head = 5, tail = 6, pids = (\<lambda>_. 77)\<rparr>" 77]
  by (simp add: wf_queue_def q_list_def qlen_def ring_dist_def)

text \<open>
  What \<open>pid_queue_delete\<close> does to the list, for every index of the ring: the
  entry at that index is removed when the index lies in the queue, the last entry when it
  is the tail, and the first entry of the queue for every index outside it. It always
  terminates and keeps the queue well-formed, provided \<open>tail\<close> is not 0.
\<close>
theorem pid_queue_delete_list:
  assumes "wf_queue q" "unat i < 8192" "q_list q \<noteq> []" "tail q \<noteq> 0"
  shows "\<exists>q'. pid_queue_delete q i = Inr q' \<and> wf_queue q' \<and> head q' = head q \<and>
    q_list q' = delete_effect (ring_dist (unat (head q)) (unat i)) (q_list q)"
  using assms by (metis pid_queue_delete_ok)

theorem pid_queue_delete_list_witness:
  "\<exists>q'. pid_queue_delete \<lparr>head = 0, tail = 2, pids = (\<lambda>_. 0)(0 := 7, 1 := 9)\<rparr> 7 = Inr q' \<and>
    wf_queue q' \<and> q_list q' = [9]"
  using pid_queue_delete_list [of "\<lparr>head = 0, tail = 2, pids = (\<lambda>_. 0)(0 := 7, 1 := 9)\<rparr>" 7]
  by (simp add: wf_queue_def q_list_def qlen_def ring_dist_def ring_at_def delete_effect_def
      upt_conv_Cons) auto

text \<open>
  \<open>pid_queue_delete\<close> decrements \<open>tail\<close> outside the ring: when the queue has
  wrapped so far that \<open>tail\<close> is 0, \<open>tail\<close> becomes 65535 and the next \<open>pid_enqueue\<close> writes
  outside the array.
\<close>
theorem pid_queue_delete_tail_leaves_ring:
  assumes "wf_queue q" "unat i < 8192" "tail q = 0"
  shows "\<exists>q'. pid_queue_delete q i = Inr q' \<and> tail q' = NOT_FOUND \<and> pid_enqueue q' p = Inl Out_Of_Bounds"
proof -
  have "shift_from ring_fuel q i = Inr (q\<lparr>pids := shifted q (unat i) (ring_dist (unat i) (unat (tail q)))\<rparr>)"
    by (rule shift_from_ok [OF assms(1,2) refl])
      (simp add: ring_fuel_def less_imp_le [OF less_trans [OF ring_dist_less]])
  then show ?thesis
    using assms(3) unat_NOT_FOUND by (simp add: pid_queue_delete_def pid_enqueue_def NOT_FOUND_def)
qed

theorem pid_queue_delete_tail_leaves_ring_witness:
  "\<exists>q'. pid_queue_delete \<lparr>head = 8190, tail = 0, pids = (\<lambda>_. 7)\<rparr> 8190 = Inr q' \<and>
     tail q' = NOT_FOUND \<and> pid_enqueue q' 9 = Inl Out_Of_Bounds"
  by (rule pid_queue_delete_tail_leaves_ring) (simp_all add: wf_queue_def)

text \<open>
  \<open>pid_queue_length\<close> is the number of queued processes as long as the queue has
  not wrapped around the end of the array; once it has, the C remainder of the negative
  difference makes it 57344 too large. It is 0 exactly for the empty queue, which is all
  that \<open>pid_dequeue\<close> asks.
\<close>
theorem pid_queue_length_exact_unless_wrapped:
  assumes "wf_queue q"
  shows "unat (pid_queue_length q) =
      (if unat (head q) \<le> unat (tail q) then length (q_list q) else 57344 + length (q_list q))
    \<and> (pid_queue_length q = 0 \<longleftrightarrow> q_list q = [])"
  using pid_queue_length_value [OF assms] pid_queue_length_0_iff [OF assms]
  by (simp add: q_list_Nil_iff)

theorem pid_queue_length_exact_unless_wrapped_witness:
  "unat (pid_queue_length \<lparr>head = 8190, tail = 1, pids = (\<lambda>_. 7)\<rparr>) = 57347"
  using pid_queue_length_exact_unless_wrapped [of "\<lparr>head = 8190, tail = 1, pids = (\<lambda>_. 7)\<rparr>"]
  by (simp add: wf_queue_def qlen_def ring_dist_def)

end
