(* ===== verification/Task.thy ===== *)
theory Task
  imports Descriptors Pid_Queue Memory
begin

text \<open>
  kernel/proc/task.c with the structures of include/comm/task.h and include/comm/sched.h:
  the process control blocks, the task manager, and the creation of a process. A process
  number is at once the index of the process in \<open>tasks\<close> and of its TSS descriptor in the
  GDT; an index beyond 8191 is a fault. The far jump through a TSS descriptor, by which the
  processor switches tasks, appends the selector to \<open>jumps\<close>; the code after it runs when
  the process is switched to again, and there is none in any of the callers.
\<close>

unbundle bit_operations_syntax

abbreviation EFLAGS_DEFAULT_ONE :: int where "EFLAGS_DEFAULT_ONE \<equiv> 1"
abbreviation EFLAGS_IF :: int where "EFLAGS_IF \<equiv> 9"
abbreviation INIT_EFLAGS :: u32 where "INIT_EFLAGS \<equiv> 0x202"
abbreviation TASK_FLAG_KERNEL :: u32 where "TASK_FLAG_KERNEL \<equiv> 0"
abbreviation TASK_FLAG_USER :: u32 where "TASK_FLAG_USER \<equiv> 1"
abbreviation TIME_PIECE :: u32 where "TIME_PIECE \<equiv> 100"

record tss_t =
  tss_prev :: u32
  tss_esp0 :: u32
  tss_ss0 :: u32
  tss_esp1 :: u32
  tss_ss1 :: u32
  tss_esp2 :: u32
  tss_ss2 :: u32
  tss_cr3 :: u32
  tss_eip :: u32
  tss_eflags :: u32
  tss_eax :: u32
  tss_ecx :: u32
  tss_edx :: u32
  tss_ebx :: u32
  tss_esp :: u32
  tss_ebp :: u32
  tss_esi :: u32
  tss_edi :: u32
  tss_es :: u32
  tss_cs :: u32
  tss_ss :: u32
  tss_ds :: u32
  tss_fs :: u32
  tss_gs :: u32
  tss_ldt_seg :: u32
  tss_io_map_associated :: u32

datatype task_state_t =
    STATE_READY | STATE_RUNNING | STATE_BLOCKED | STATE_SLEEPING
  | STATE_JUST_INITIALIZED | STATE_DYING

record task_t =
  task_pid :: u16
  task_state :: task_state_t
  tss :: tss_t
  wakeup_counter :: u32
  ddl :: u32

record task_manager_t =
  tasks :: "nat \<Rightarrow> task_t"
  schdule_counter :: u32
  pid_running :: u16
  pid_queue_ready :: pid_queue_t
  pid_queue_blocked :: pid_queue_t
  pid_queue_sleeping :: pid_queue_t

text \<open>
  The state processes live in. The addresses of \<open>task_manager\<close> and \<open>kernel_pd\<close> come from
  the linker and never change.
\<close>

record kernel =
  gdt :: "nat \<Rightarrow> gdt_desc"
  tm :: task_manager_t
  mem :: mm_state
  jumps :: "u32 list"
  tm_addr :: u32
  kernel_pd :: u32

section \<open>Operations\<close>

text \<open>The operand of the far jump is the selector; the offset is not used by the processor.\<close>

definition jmpf :: "u32 \<Rightarrow> u32 \<Rightarrow> kernel \<Rightarrow> kernel" where
  "jmpf cs ip k = k\<lparr>jumps := jumps k @ [cs]\<rparr>"

definition upd_task :: "u16 \<Rightarrow> (task_t \<Rightarrow> task_t) \<Rightarrow> kernel \<Rightarrow> kernel" where
  "upd_task pid f k =
     k\<lparr>tm := (tm k)\<lparr>tasks := (tasks (tm k))(unat pid := f (tasks (tm k) (unat pid)))\<rparr>\<rparr>"

definition set_task_state :: "u16 \<Rightarrow> task_state_t \<Rightarrow> kernel \<Rightarrow> kernel res" where
  "set_task_state pid state k =
     (if \<not> unat pid < MAX_GDT_TERMS then Inl Out_Of_Bounds
      else let k1 = upd_task pid (\<lambda>t. t\<lparr>task_state := state\<rparr>) k in
        (case state of
           STATE_READY \<Rightarrow> rbind (pid_enqueue (pid_queue_ready (tm k1)) pid)
             (\<lambda>q. Inr (k1\<lparr>tm := (tm k1)\<lparr>pid_queue_ready := q\<rparr>\<rparr>))
         | STATE_RUNNING \<Rightarrow> Inr (jmpf (push_bit 3 (ucast pid)) 0 (k1\<lparr>tm := (tm k1)\<lparr>pid_running := pid\<rparr>\<rparr>))
         | STATE_BLOCKED \<Rightarrow> rbind (pid_enqueue (pid_queue_blocked (tm k1)) pid)
             (\<lambda>q. Inr (k1\<lparr>tm := (tm k1)\<lparr>pid_queue_blocked := q\<rparr>\<rparr>))
         | STATE_SLEEPING \<Rightarrow> rbind (pid_enqueue (pid_queue_sleeping (tm k1)) pid)
             (\<lambda>q. Inr (k1\<lparr>tm := (tm k1)\<lparr>pid_queue_sleeping := q\<rparr>\<rparr>))
         | _ \<Rightarrow> Inr k1))"

text \<open>A \<open>task_t\<close> is 120 bytes, its \<open>tss\<close> at offset 8; \<open>tasks\<close> is the first field.\<close>

definition tss_address :: "u32 \<Rightarrow> u16 \<Rightarrow> u32" where
  "tss_address base pid = base + 120 * ucast pid + 8"

definition init_segments :: "u32 \<Rightarrow> tss_t \<Rightarrow> tss_t" where
  "init_segments flag t =
     (if flag = TASK_FLAG_KERNEL
      then t\<lparr>tss_cs := GDT_KERNEL_CODE_SEG, tss_ss := GDT_KERNEL_DATA_SEG, tss_ds := GDT_KERNEL_DATA_SEG\<rparr>
      else t\<lparr>tss_cs := GDT_USER_CODE_SEG, tss_ss := GDT_USER_DATA_SEG, tss_ds := GDT_USER_DATA_SEG\<rparr>)"

definition task_init :: "u16 \<Rightarrow> u32 \<Rightarrow> u32 \<Rightarrow> u32 \<Rightarrow> u32 \<Rightarrow> kernel \<Rightarrow> kernel res" where
  "task_init pid flag eip esp deadline k =
     (if \<not> unat pid < MAX_GDT_TERMS then Inl Out_Of_Bounds
      else
        let desc = make_gdt_desc_for_tss (tss_address (tm_addr k) pid) DPL_KERNEL;
            k1 = k\<lparr>gdt := (gdt k)(unat pid := desc)\<rparr>;
            k2 = upd_task pid (\<lambda>t. t\<lparr>tss := (tss t)\<lparr>tss_esp := esp, tss_eip := eip, tss_eflags := INIT_EFLAGS\<rparr>\<rparr>) k1;
            k3 = upd_task pid (\<lambda>t. t\<lparr>tss := init_segments flag (tss t)\<rparr>) k2;
            (m, pd) = p_malloc (mem k3);
            k4 = k3\<lparr>mem := copy_pts (kernel_pd k3) pd m\<rparr>;
            k5 = upd_task pid (\<lambda>t. t\<lparr>tss := (tss t)\<lparr>tss_cr3 := pd\<rparr>\<rparr>) k4;
            k6 = upd_task pid (\<lambda>t. t\<lparr>ddl := deadline\<rparr>) k5
        in set_task_state pid STATE_READY k6)"

definition empty_desc :: "gdt_desc \<Rightarrow> bool" where
  "empty_desc d \<longleftrightarrow> d_low d = 0 \<and> d_high d = 0"

definition get_pid_empty :: "kernel \<Rightarrow> u16" where
  "get_pid_empty k =
     (case List.find (\<lambda>i. empty_desc (gdt k i)) [1..<MAX_GDT_TERMS] of
        Some i \<Rightarrow> of_nat i | None \<Rightarrow> NOT_FOUND)"

definition create_task :: "u32 \<Rightarrow> u32 \<Rightarrow> u32 \<Rightarrow> u32 \<Rightarrow> kernel \<Rightarrow> (kernel \<times> u16) res" where
  "create_task flag eip esp deadline k =
     (let pid = get_pid_empty k in
      rbind (task_init pid flag eip esp deadline k) (\<lambda>k'. Inr (k', pid)))"

text \<open>
  The constant is what the commented-out \<open>get_default_eflags\<close> puts together: a new process
  starts with interrupts enabled.
\<close>

lemma init_eflags: "setbit (setbit 0 EFLAGS_IF True) EFLAGS_DEFAULT_ONE True = INIT_EFLAGS"
  by (simp add: setbit_def shl32_def)

end
