(* ===== verification/Sched.thy ===== *)
theory Sched
  imports Task
begin

text \<open>
  kernel/proc/sched.c: the scheduler. \<open>schedule\<close> and \<open>switch_to\<close> report an inconsistency by
  printing forever (\<open>Hang\<close>). The reasons are those of include/comm/sched.h.
\<close>

datatype scheduler_reason_t =
    REASON_TIME_PIECE_OVER | REASON_TASK_YIELD | REASON_TASK_SLEEP
  | REASON_TASK_BLOCKED | REASON_TASK_EXIT

section \<open>Operations\<close>

definition switch_to :: "u16 \<Rightarrow> scheduler_reason_t \<Rightarrow> kernel \<Rightarrow> kernel res" where
  "switch_to pid reason k =
     (if pid = NOT_FOUND then Inl Hang
      else if pid_running (tm k) \<noteq> pid then
        rbind
          (if pid_running (tm k) \<noteq> NOT_FOUND then
             (if reason = REASON_TIME_PIECE_OVER then set_task_state (pid_running (tm k)) STATE_READY k
              else if reason = REASON_TASK_SLEEP then set_task_state (pid_running (tm k)) STATE_SLEEPING k
              else if reason = REASON_TASK_BLOCKED then set_task_state (pid_running (tm k)) STATE_BLOCKED k
              else Inr k)
           else Inr k)
          (set_task_state pid STATE_RUNNING)
      else Inr k)"

definition schedule :: "scheduler_reason_t \<Rightarrow> kernel \<Rightarrow> kernel res" where
  "schedule reason k =
     (let k1 = k\<lparr>tm := (tm k)\<lparr>schdule_counter := TIME_PIECE\<rparr>\<rparr> in
      rbind (pid_dequeue (pid_queue_ready (tm k1))) (\<lambda>(q, best_pid).
        let k2 = k1\<lparr>tm := (tm k1)\<lparr>pid_queue_ready := q\<rparr>\<rparr> in
        if best_pid = NOT_FOUND then Inl Hang else switch_to best_pid reason k2))"

text \<open>The counter is unsigned: \<open>--counter <= 0\<close> holds when it has become 0.\<close>

definition check_schedule :: "kernel \<Rightarrow> kernel res" where
  "check_schedule k =
     (let k1 = k\<lparr>tm := (tm k)\<lparr>schdule_counter := schdule_counter (tm k) - 1\<rparr>\<rparr> in
      if schdule_counter (tm k1) \<le> 0 then schedule REASON_TIME_PIECE_OVER k1 else Inr k1)"

text \<open>
  The loop of \<open>check_wakeup\<close>. Each iteration either moves on or removes an entry, so that on
  a well-formed queue it ends after at most as many iterations as the queue has entries; the
  fuel is \<open>ring_fuel\<close>, one more than the ring has indices.
\<close>

function check_wakeup_from :: "nat \<Rightarrow> u16 \<Rightarrow> kernel \<Rightarrow> kernel res" where
  "check_wakeup_from fuel i k =
     (if i = tail (pid_queue_sleeping (tm k)) then Inr k
      else if fuel = 0 then Inl Hang
      else if \<not> unat i < MAX_GDT_TERMS then Inl Out_Of_Bounds
      else
        let pid = pids (pid_queue_sleeping (tm k)) (unat i) in
        if \<not> unat pid < MAX_GDT_TERMS then Inl Out_Of_Bounds
        else
          let k1 = upd_task pid (\<lambda>t. t\<lparr>wakeup_counter := wakeup_counter t - 1\<rparr>) k in
          if wakeup_counter (tasks (tm k1) (unat pid)) \<le> 0 then
            rbind (pid_queue_delete (pid_queue_sleeping (tm k1)) i) (\<lambda>q.
              rbind (set_task_state pid STATE_READY (k1\<lparr>tm := (tm k1)\<lparr>pid_queue_sleeping := q\<rparr>\<rparr>))
                (check_wakeup_from (fuel - 1) (INC_PID_QUEUE_INDEX (i - 1))))
          else check_wakeup_from (fuel - 1) (INC_PID_QUEUE_INDEX i) k1)"
  by pat_completeness auto
termination
  by (relation "measure (\<lambda>(fuel, i, k). fuel)") auto

declare check_wakeup_from.simps [simp del]

definition check_wakeup :: "kernel \<Rightarrow> kernel res" where
  "check_wakeup k = check_wakeup_from ring_fuel (head (pid_queue_sleeping (tm k))) k"

definition check_task_affairs :: "kernel \<Rightarrow> kernel res" where
  "check_task_affairs k = rbind (check_wakeup k) check_schedule"

definition sys_sleep :: "u32 \<Rightarrow> kernel \<Rightarrow> kernel res" where
  "sys_sleep counter k =
     (if \<not> unat (pid_running (tm k)) < MAX_GDT_TERMS then Inl Out_Of_Bounds
      else schedule REASON_TASK_SLEEP
             (upd_task (pid_running (tm k)) (\<lambda>t. t\<lparr>wakeup_counter := counter\<rparr>) k))"

definition sys_exit :: "u32 \<Rightarrow> kernel \<Rightarrow> kernel res" where
  "sys_exit code k =
     (if \<not> unat (pid_running (tm k)) < MAX_GDT_TERMS then Inl Out_Of_Bounds
      else schedule REASON_TASK_EXIT
             (k\<lparr>gdt := (gdt k)(unat (pid_running (tm k)) := \<lparr>d_low = 0, d_high = 0\<rparr>)\<rparr>))"

text \<open>The sleeping queue is not initialised here: it is zero, as global data is.\<close>

definition task_manager_init :: "task_manager_t \<Rightarrow> task_manager_t" where
  "task_manager_init t =
     t\<lparr>pid_queue_ready := pid_queue_init (pid_queue_ready t),
       pid_queue_blocked := pid_queue_init (pid_queue_blocked t),
       pid_running := NOT_FOUND, schdule_counter := TIME_PIECE\<rparr>"

text \<open>The addresses of \<open>idle\<close> and of the ends of the two idle stacks come from the linker.\<close>

definition sched_init :: "u32 \<Rightarrow> u32 \<Rightarrow> u32 \<Rightarrow> kernel \<Rightarrow> kernel res" where
  "sched_init idle stack_0 stack_1 k =
     rbind (create_task TASK_FLAG_KERNEL idle stack_0 0xFF (k\<lparr>tm := task_manager_init (tm k)\<rparr>))
       (\<lambda>(k1, _). rbind (create_task TASK_FLAG_KERNEL idle stack_1 0xFF k1) (\<lambda>(k2, _). Inr k2))"

section \<open>The queues as lists\<close>

abbreviation rq :: "kernel \<Rightarrow> u16 list" where "rq k \<equiv> q_list (pid_queue_ready (tm k))"
abbreviation bq :: "kernel \<Rightarrow> u16 list" where "bq k \<equiv> q_list (pid_queue_blocked (tm k))"
abbreviation sq :: "kernel \<Rightarrow> u16 list" where "sq k \<equiv> q_list (pid_queue_sleeping (tm k))"

definition put_ready :: "pid_queue_t \<Rightarrow> kernel \<Rightarrow> kernel" where
  "put_ready q k = k\<lparr>tm := (tm k)\<lparr>pid_queue_ready := q\<rparr>\<rparr>"

definition put_blocked :: "pid_queue_t \<Rightarrow> kernel \<Rightarrow> kernel" where
  "put_blocked q k = k\<lparr>tm := (tm k)\<lparr>pid_queue_blocked := q\<rparr>\<rparr>"

definition put_sleeping :: "pid_queue_t \<Rightarrow> kernel \<Rightarrow> kernel" where
  "put_sleeping q k = k\<lparr>tm := (tm k)\<lparr>pid_queue_sleeping := q\<rparr>\<rparr>"

abbreviation mark :: "task_state_t \<Rightarrow> u16 \<Rightarrow> kernel \<Rightarrow> kernel" where
  "mark s p k \<equiv> upd_task p (\<lambda>t. t\<lparr>task_state := s\<rparr>) k"

lemma upd_task_simps [simp, frame_simps]:
  "gdt (upd_task p f k) = gdt k" "mem (upd_task p f k) = mem k" "jumps (upd_task p f k) = jumps k"
  "tm_addr (upd_task p f k) = tm_addr k" "kernel_pd (upd_task p f k) = kernel_pd k"
  "schdule_counter (tm (upd_task p f k)) = schdule_counter (tm k)"
  "pid_running (tm (upd_task p f k)) = pid_running (tm k)"
  "pid_queue_ready (tm (upd_task p f k)) = pid_queue_ready (tm k)"
  "pid_queue_blocked (tm (upd_task p f k)) = pid_queue_blocked (tm k)"
  "pid_queue_sleeping (tm (upd_task p f k)) = pid_queue_sleeping (tm k)"
  "tasks (tm (upd_task p f k)) i = (if i = unat p then f (tasks (tm k) i) else tasks (tm k) i)"
  by (simp_all add: upd_task_def)

lemma put_simps [simp, frame_simps]:
  "gdt (put_ready q k) = gdt k" "mem (put_ready q k) = mem k" "jumps (put_ready q k) = jumps k"
  "tasks (tm (put_ready q k)) = tasks (tm k)" "schdule_counter (tm (put_ready q k)) = schdule_counter (tm k)"
  "pid_running (tm (put_ready q k)) = pid_running (tm k)" "pid_queue_ready (tm (put_ready q k)) = q"
  "pid_queue_blocked (tm (put_ready q k)) = pid_queue_blocked (tm k)"
  "pid_queue_sleeping (tm (put_ready q k)) = pid_queue_sleeping (tm k)"
  "gdt (put_blocked q k) = gdt k" "mem (put_blocked q k) = mem k" "jumps (put_blocked q k) = jumps k"
  "tasks (tm (put_blocked q k)) = tasks (tm k)" "schdule_counter (tm (put_blocked q k)) = schdule_counter (tm k)"
  "pid_running (tm (put_blocked q k)) = pid_running (tm k)" "pid_queue_blocked (tm (put_blocked q k)) = q"
  "pid_queue_ready (tm (put_blocked q k)) = pid_queue_ready (tm k)"
  "pid_queue_sleeping (tm (put_blocked q k)) = pid_queue_sleeping (tm k)"
  "gdt (put_sleeping q k) = gdt k" "mem (put_sleeping q k) = mem k" "jumps (put_sleeping q k) = jumps k"
  "tasks (tm (put_sleeping q k)) = tasks (tm k)" "schdule_counter (tm (put_sleeping q k)) = schdule_counter (tm k)"
  "pid_running (tm (put_sleeping q k)) = pid_running (tm k)" "pid_queue_sleeping (tm (put_sleeping q k)) = q"
  "pid_queue_ready (tm (put_sleeping q k)) = pid_queue_ready (tm k)"
  "pid_queue_blocked (tm (put_sleeping q k)) = pid_queue_blocked (tm k)"
  by (simp_all add: put_ready_def put_blocked_def put_sleeping_def)

text \<open>A process enters a queue.\<close>

lemma set_ready_ok:
  assumes "unat p < 8192" "wf_queue (pid_queue_ready (tm k))" "length (rq k) < 8191"
  obtains q where "set_task_state p STATE_READY k = Inr (put_ready q (mark STATE_READY p k))"
    "wf_queue q" "q_list q = rq k @ [p]" "head q = head (pid_queue_ready (tm k))"
proof -
  from assms(3) have "qlen (pid_queue_ready (tm k)) < 8191" by simp
  from enqueue_ok [OF assms(2) this, of p] obtain q where
    "pid_enqueue (pid_queue_ready (tm k)) p = Inr q" "wf_queue q" "q_list q = rq k @ [p]"
    "head q = head (pid_queue_ready (tm k))" by metis
  then show ?thesis using that [of q] assms(1) by (simp add: set_task_state_def put_ready_def Let_def)
qed

lemma set_blocked_ok:
  assumes "unat p < 8192" "wf_queue (pid_queue_blocked (tm k))" "length (bq k) < 8191"
  obtains q where "set_task_state p STATE_BLOCKED k = Inr (put_blocked q (mark STATE_BLOCKED p k))"
    "wf_queue q" "q_list q = bq k @ [p]" "head q = head (pid_queue_blocked (tm k))"
proof -
  from assms(3) have "qlen (pid_queue_blocked (tm k)) < 8191" by simp
  from enqueue_ok [OF assms(2) this, of p] obtain q where
    "pid_enqueue (pid_queue_blocked (tm k)) p = Inr q" "wf_queue q" "q_list q = bq k @ [p]"
    "head q = head (pid_queue_blocked (tm k))" by metis
  then show ?thesis using that [of q] assms(1) by (simp add: set_task_state_def put_blocked_def Let_def)
qed

lemma set_sleeping_ok:
  assumes "unat p < 8192" "wf_queue (pid_queue_sleeping (tm k))" "length (sq k) < 8191"
  obtains q where "set_task_state p STATE_SLEEPING k = Inr (put_sleeping q (mark STATE_SLEEPING p k))"
    "wf_queue q" "q_list q = sq k @ [p]" "head q = head (pid_queue_sleeping (tm k))"
proof -
  from assms(3) have "qlen (pid_queue_sleeping (tm k)) < 8191" by simp
  from enqueue_ok [OF assms(2) this, of p] obtain q where
    "pid_enqueue (pid_queue_sleeping (tm k)) p = Inr q" "wf_queue q" "q_list q = sq k @ [p]"
    "head q = head (pid_queue_sleeping (tm k))" by metis
  then show ?thesis using that [of q] assms(1) by (simp add: set_task_state_def put_sleeping_def Let_def)
qed

lemma set_running_eq:
  "unat p < 8192 \<Longrightarrow> set_task_state p STATE_RUNNING k =
     Inr (jmpf (push_bit 3 (ucast p)) 0 (mark STATE_RUNNING p k\<lparr>tm := (tm (mark STATE_RUNNING p k))\<lparr>pid_running := p\<rparr>\<rparr>))"
  by (simp add: set_task_state_def Let_def)

section \<open>Waking up\<close>

lemma inc_dec: "unat i < 8192 \<Longrightarrow> INC_PID_QUEUE_INDEX (i - 1) = i"
proof -
  assume i: "unat i < 8192"
  have "(unat (i - 1) + 1) mod 8192 = unat i"
  proof (cases "i = 0")
    case True
    then have "unat (i - 1) = 65535" using unat_NOT_FOUND by (simp add: NOT_FOUND_def)
    then show ?thesis by (simp add: True)
  next
    case False
    then have "unat (i - 1) = unat i - 1" "0 < unat i" by (simp_all add: unat_minus_one unat_gt_0)
    then show ?thesis using i by simp
  qed
  then show ?thesis by (simp add: INC_PID_QUEUE_INDEX_def)
qed

text \<open>The sleeping queue only ever shrinks by deletion: its head stays at index 0.\<close>

definition sleep_ok :: "kernel \<Rightarrow> bool" where
  "sleep_ok k \<longleftrightarrow> wf_queue (pid_queue_sleeping (tm k)) \<and> head (pid_queue_sleeping (tm k)) = 0"

lemma qlen_head_0: "wf_queue q \<Longrightarrow> head q = 0 \<Longrightarrow> qlen q = unat (tail q)"
  using wf_queueD [of q] by (simp add: qlen_def ring_dist_if)

lemma delete_at_0:
  assumes "wf_queue q" "head q = 0" "unat i < qlen q"
  obtains q' where "pid_queue_delete q i = Inr q'" "wf_queue q'" "head q' = 0"
    "q_list q' = take (unat i) (q_list q) @ drop (Suc (unat i)) (q_list q)"
proof -
  have i: "unat i < 8192" using assms(3) qlen_less [of q] by linarith
  have "tail q \<noteq> 0" using assms qlen_head_0 [of q] by auto
  moreover have "q_list q \<noteq> []" using assms(3) by (auto simp: q_list_Nil_iff)
  moreover have "ring_dist (unat (head q)) (unat i) = unat i"
    using i by (simp add: assms(2) ring_dist_if)
  ultimately show ?thesis
    using pid_queue_delete_ok [OF assms(1) i] that assms(2,3) by (metis delete_effect_def length_q_list)
qed

text \<open>What the tick leaves of a kernel, apart from the queues and the process table.\<close>

definition same_rest :: "kernel \<Rightarrow> kernel \<Rightarrow> bool" where
  "same_rest k k' \<longleftrightarrow> gdt k' = gdt k \<and> mem k' = mem k \<and> jumps k' = jumps k \<and>
     schdule_counter (tm k') = schdule_counter (tm k) \<and> pid_running (tm k') = pid_running (tm k) \<and>
     pid_queue_blocked (tm k') = pid_queue_blocked (tm k)"

abbreviation counter_of :: "kernel \<Rightarrow> u16 \<Rightarrow> u32" where
  "counter_of k p \<equiv> wakeup_counter (tasks (tm k) (unat p))"

abbreviation state_of :: "kernel \<Rightarrow> u16 \<Rightarrow> task_state_t" where
  "state_of k p \<equiv> task_state (tasks (tm k) (unat p))"

definition tick_result :: "u16 list \<Rightarrow> kernel \<Rightarrow> kernel \<Rightarrow> bool" where
  "tick_result ps k k' \<longleftrightarrow> same_rest k k' \<and> wf_queue (pid_queue_ready (tm k')) \<and> sleep_ok k' \<and>
     rq k' = rq k @ filter (\<lambda>p. counter_of k p = 1) ps \<and>
     (\<forall>p. counter_of k' p = (if p \<in> set ps then counter_of k p - 1 else counter_of k p)) \<and>
     (\<forall>p. state_of k' p = (if p \<in> set ps \<and> counter_of k p = 1 then STATE_READY else state_of k p))"

lemma tick_result_Cons:
  assumes "tick_result [p] k k1" "tick_result ps k1 k'" "p \<notin> set ps"
  shows "tick_result (p # ps) k k'"
proof -
  have c: "counter_of k1 x = counter_of k x" if "x \<in> set ps" for x
    using assms(1,3) that by (auto simp: tick_result_def)
  then have "filter (\<lambda>x. counter_of k1 x = 1) ps = filter (\<lambda>x. counter_of k x = 1) ps"
    by (intro filter_cong) simp_all
  then show ?thesis using assms c unfolding tick_result_def by (auto simp: same_rest_def)
qed

text \<open>One round of the loop: the process at index \<open>i\<close>, woken or not.\<close>

lemma check_wakeup_stay:
  assumes k: "sleep_ok k" "wf_queue (pid_queue_ready (tm k))"
    and p: "unat i < qlen (pid_queue_sleeping (tm k))" "p = sq k ! unat i" "unat p < 8192" and c: "counter_of k p \<noteq> 1"
  obtains k1 where "tick_result [p] k k1" "sq k1 = sq k"
    "\<forall>f. check_wakeup_from (Suc f) i k = check_wakeup_from f (INC_PID_QUEUE_INDEX i) k1"
proof -
  let ?q = "pid_queue_sleeping (tm k)" and ?k1 = "upd_task p (\<lambda>t. t\<lparr>wakeup_counter := wakeup_counter t - 1\<rparr>) k"
  have wf: "wf_queue ?q" "head ?q = 0" using k(1) by (simp_all add: sleep_ok_def)
  have i: "unat i < 8191" "i \<noteq> tail ?q" using p(1) qlen_less [of ?q] qlen_head_0 [OF wf] by auto
  have at: "pids ?q (unat i) = p" using p(1,2) i(1) by (simp add: wf(2) ring_at_if)
  have c1: "counter_of ?k1 x = (if x = p then counter_of k p - 1 else counter_of k x)" for x
    by (simp add: word_unat_eq_iff [symmetric])
  then have "counter_of ?k1 p \<noteq> 0" using c by simp
  then have "check_wakeup_from (Suc f) i k = check_wakeup_from f (INC_PID_QUEUE_INDEX i) ?k1" for f
    using i p(3) by (subst check_wakeup_from.simps) (simp add: at Let_def)
  moreover have "tick_result [p] k ?k1" using k c c1 by (simp add: tick_result_def same_rest_def sleep_ok_def)
  ultimately show ?thesis using that [of ?k1] by simp
qed

lemma check_wakeup_wake:
  assumes k: "sleep_ok k" "wf_queue (pid_queue_ready (tm k))" "length (rq k) < 8191"
    and p: "unat i < qlen (pid_queue_sleeping (tm k))" "p = sq k ! unat i" "unat p < 8192" and c: "counter_of k p = 1"
  obtains k1 where "tick_result [p] k k1" "sq k1 = take (unat i) (sq k) @ drop (Suc (unat i)) (sq k)"
    "\<forall>f. check_wakeup_from (Suc f) i k = check_wakeup_from f i k1"
proof -
  let ?q = "pid_queue_sleeping (tm k)" and ?k1 = "upd_task p (\<lambda>t. t\<lparr>wakeup_counter := wakeup_counter t - 1\<rparr>) k"
  have wf: "wf_queue ?q" "head ?q = 0" using k(1) by (simp_all add: sleep_ok_def)
  have i: "unat i < 8191" "i \<noteq> tail ?q" using p(1) qlen_less [of ?q] qlen_head_0 [OF wf] by auto
  have at: "pids ?q (unat i) = p" using p(1,2) i(1) by (simp add: wf(2) ring_at_if)
  obtain q' where q': "pid_queue_delete ?q i = Inr q'" "wf_queue q'" "head q' = 0"
    "q_list q' = take (unat i) (sq k) @ drop (Suc (unat i)) (sq k)"
    using delete_at_0 [OF wf p(1)] .
  let ?k2 = "put_sleeping q' ?k1"
  from set_ready_ok [OF p(3), of ?k2] k(2,3) obtain qr where
    qr: "set_task_state p STATE_READY ?k2 = Inr (put_ready qr (mark STATE_READY p ?k2))" "wf_queue qr" "q_list qr = rq k @ [p]"
    by auto
  let ?k3 = "put_ready qr (mark STATE_READY p ?k2)"
  have "check_wakeup_from (Suc f) i k = check_wakeup_from f i ?k3" for f
    using i p(3) c q'(1) qr(1)
    by (subst check_wakeup_from.simps) (simp add: at Let_def inc_dec put_sleeping_def)
  moreover have "counter_of ?k3 x = (if x = p then 0 else counter_of k x)" "state_of ?k3 x = (if x = p then STATE_READY else state_of k x)" for x
    using c by (simp_all add: word_unat_eq_iff [symmetric])
  then have "tick_result [p] k ?k3" using c q' qr(2,3) by (simp add: tick_result_def same_rest_def sleep_ok_def)
  ultimately show ?thesis using that [of ?k3] q'(4) by simp
qed

lemma check_wakeup_one:
  assumes "sleep_ok k" "wf_queue (pid_queue_ready (tm k))" "length (rq k) < 8191"
    "unat i < qlen (pid_queue_sleeping (tm k))" "p = sq k ! unat i" "unat p < 8192"
  obtains k1 i1 where "tick_result [p] k k1" "\<forall>f. check_wakeup_from (Suc f) i k = check_wakeup_from f i1 k1"
    "drop (unat i1) (sq k1) = drop (Suc (unat i)) (sq k)" "unat i1 \<le> qlen (pid_queue_sleeping (tm k1))"
    "take (unat i1) (sq k1) = take (unat i) (sq k) @ (if counter_of k p = 1 then [] else [p])"
proof (cases "counter_of k p = 1")
  case True
  obtain k1 where k1: "tick_result [p] k k1" "sq k1 = take (unat i) (sq k) @ drop (Suc (unat i)) (sq k)"
    "\<forall>f. check_wakeup_from (Suc f) i k = check_wakeup_from f i k1"
    using check_wakeup_wake [OF assms True] .
  have "qlen (pid_queue_sleeping (tm k1)) = qlen (pid_queue_sleeping (tm k)) - 1"
    using arg_cong [OF k1(2), of length] assms(4) by simp
  then show ?thesis using that [OF k1(1,3)] k1(2) True assms(4) by simp
next
  case False
  obtain k1 where k1: "tick_result [p] k k1" "sq k1 = sq k"
    "\<forall>f. check_wakeup_from (Suc f) i k = check_wakeup_from f (INC_PID_QUEUE_INDEX i) k1"
    using check_wakeup_stay [OF assms(1,2,4-6) False] .
  have "unat i < 8191" using assms(4) qlen_less [of "pid_queue_sleeping (tm k)"] by linarith
  then have "unat (INC_PID_QUEUE_INDEX i) = Suc (unat i)" by (simp add: ring_at_if)
  moreover have "qlen (pid_queue_sleeping (tm k1)) = qlen (pid_queue_sleeping (tm k))"
    using arg_cong [OF k1(2), of length] by simp
  ultimately show ?thesis
    using that [OF k1(1,3)] k1(2) False assms(4,5) take_Suc_conv_app_nth [of "unat i" "sq k"] by simp
qed

lemma check_wakeup_from_ok:
  assumes "sleep_ok k" "wf_queue (pid_queue_ready (tm k))" "unat i \<le> qlen (pid_queue_sleeping (tm k))"
    "distinct (drop (unat i) (sq k))" "\<forall>p \<in> set (drop (unat i) (sq k)). unat p < 8192"
    "length (rq k) + length (drop (unat i) (sq k)) \<le> 8191" "length (drop (unat i) (sq k)) \<le> fuel"
  shows "\<exists>k'. check_wakeup_from fuel i k = Inr k' \<and> tick_result (drop (unat i) (sq k)) k k' \<and>
    sq k' = take (unat i) (sq k) @ filter (\<lambda>p. counter_of k p \<noteq> 1) (drop (unat i) (sq k))"
  using assms
proof (induction "length (drop (unat i) (sq k))" arbitrary: i k fuel)
  case 0
  then have "i = tail (pid_queue_sleeping (tm k))"
    using qlen_head_0 [of "pid_queue_sleeping (tm k)"] by (auto simp: sleep_ok_def word_unat_eq_iff)
  then show ?case
    using 0 by (subst check_wakeup_from.simps) (simp add: tick_result_def same_rest_def)
next
  case (Suc n)
  let ?ps = "drop (Suc (unat i)) (sq k)"
  define p where "p = sq k ! unat i"
  have i: "unat i < qlen (pid_queue_sleeping (tm k))" using Suc.hyps(2) by simp
  have dr: "drop (unat i) (sq k) = p # ?ps" unfolding p_def by (rule Cons_nth_drop_Suc [symmetric]) (use i in simp)
  with Suc.prems(4-6) have p: "unat p < 8192" "p \<notin> set ?ps" "distinct ?ps" "length (rq k) < 8191" by auto
  obtain f where f: "fuel = Suc f" using Suc.prems(7) dr by (cases fuel) auto
  obtain k1 i1 where k1: "tick_result [p] k k1" "\<forall>f. check_wakeup_from (Suc f) i k = check_wakeup_from f i1 k1"
    "drop (unat i1) (sq k1) = ?ps" "unat i1 \<le> qlen (pid_queue_sleeping (tm k1))"
    "take (unat i1) (sq k1) = take (unat i) (sq k) @ (if counter_of k p = 1 then [] else [p])"
    using check_wakeup_one [OF Suc.prems(1,2) p(4) i p_def p(1)] .
  have "length (rq k1) \<le> Suc (length (rq k))" using k1(1) by (simp add: tick_result_def)
  then obtain k' where k': "check_wakeup_from f i1 k1 = Inr k'" "tick_result ?ps k1 k'"
    "sq k' = take (unat i1) (sq k1) @ filter (\<lambda>p. counter_of k1 p \<noteq> 1) ?ps"
    using Suc.hyps(1) [of i1 k1 f] Suc.hyps(2) Suc.prems(5-7) p(3) k1(1,4) unfolding k1(3) dr f
    by (auto simp: tick_result_def)
  have "filter (\<lambda>p. counter_of k1 p \<noteq> 1) ?ps = filter (\<lambda>p. counter_of k p \<noteq> 1) ?ps"
    using k1(1) p(2) by (intro filter_cong) (auto simp: tick_result_def)
  then show ?case using k' k1(2,5) tick_result_Cons [OF k1(1) k'(2) p(2)] unfolding dr f by auto
qed

end
