(* ===== verification/Sched_Safety.thy ===== *)
theory Sched_Safety
  imports Sched Paging
begin

text \<open>
  The invariant of the process management: every process is in exactly one place (running or
  in one of the three queues), its recorded state says which, its GDT entry is taken, and the
  two idle processes are always runnable. The operations of kernel/proc/sched.c and
  \<open>create_task\<close> preserve it and, under it, never fault or hang.
\<close>

section \<open>The effect of a process switch\<close>

definition running_list :: "kernel \<Rightarrow> u16 list" where
  "running_list k = (if pid_running (tm k) = NOT_FOUND then [] else [pid_running (tm k)])"

definition queues_ok :: "kernel \<Rightarrow> bool" where
  "queues_ok k \<longleftrightarrow> wf_queue (pid_queue_ready (tm k)) \<and> sleep_ok k \<and>
     wf_queue (pid_queue_blocked (tm k)) \<and> head (pid_queue_blocked (tm k)) = 0"

text \<open>The state the process that gives up the processor is put into, if any.\<close>

fun left_in :: "scheduler_reason_t \<Rightarrow> task_state_t option" where
  "left_in REASON_TIME_PIECE_OVER = Some STATE_READY"
| "left_in REASON_TASK_SLEEP = Some STATE_SLEEPING"
| "left_in REASON_TASK_BLOCKED = Some STATE_BLOCKED"
| "left_in REASON_TASK_YIELD = None"
| "left_in REASON_TASK_EXIT = None"

definition put_when :: "bool \<Rightarrow> 'a list \<Rightarrow> 'a list" where
  "put_when c xs = (if c then xs else [])"

definition switched :: "scheduler_reason_t \<Rightarrow> u16 \<Rightarrow> u16 list \<Rightarrow> kernel \<Rightarrow> kernel \<Rightarrow> bool" where
  "switched reason x xs k k' \<longleftrightarrow> queues_ok k' \<and> pid_running (tm k') = x \<and>
     rq k' = xs @ put_when (left_in reason = Some STATE_READY) (running_list k) \<and>
     sq k' = sq k @ put_when (left_in reason = Some STATE_SLEEPING) (running_list k) \<and>
     bq k' = bq k @ put_when (left_in reason = Some STATE_BLOCKED) (running_list k) \<and>
     schdule_counter (tm k') = TIME_PIECE \<and> gdt k' = gdt k \<and> mem k' = mem k \<and>
     jumps k' = jumps k @ [push_bit 3 (ucast x)] \<and>
     (\<forall>p. counter_of k' p = counter_of k p) \<and>
     (\<forall>p. state_of k' p = (if p = x then STATE_RUNNING
        else if p \<in> set (running_list k) \<and> left_in reason \<noteq> None then the (left_in reason)
        else state_of k p))"

lemma queues_ok_simps [simp, frame_simps]:
  "queues_ok (upd_task p f k) = queues_ok k"
  by (simp add: queues_ok_def sleep_ok_def)

lemma running_list_tm [simp]:
  "pid_running t = pid_running (tm k) \<Longrightarrow> running_list (k\<lparr>tm := t\<rparr>) = running_list k"
  by (simp add: running_list_def)

lemma jmpf_simps [simp, frame_simps]:
  "tm (jmpf c i k) = tm k" "gdt (jmpf c i k) = gdt k" "mem (jmpf c i k) = mem k"
  "jumps (jmpf c i k) = jumps k @ [c]"
  by (simp_all add: jmpf_def)

lemma NOT_FOUND_range: "unat p < 8192 \<Longrightarrow> p \<noteq> NOT_FOUND"
  using unat_NOT_FOUND by auto

text \<open>The first half of \<open>switch_to\<close>: the running process is put into its queue.\<close>

definition leave :: "scheduler_reason_t \<Rightarrow> kernel \<Rightarrow> kernel res" where
  "leave reason k =
     (case left_in reason of None \<Rightarrow> Inr k
      | Some s \<Rightarrow> if pid_running (tm k) = NOT_FOUND then Inr k else set_task_state (pid_running (tm k)) s k)"

lemma switch_to_leave:
  "switch_to p reason k =
     (if p = NOT_FOUND then Inl Hang
      else if pid_running (tm k) \<noteq> p then rbind (leave reason k) (set_task_state p STATE_RUNNING) else Inr k)"
  by (cases reason) (simp_all add: switch_to_def leave_def)

definition parked :: "scheduler_reason_t \<Rightarrow> kernel \<Rightarrow> kernel \<Rightarrow> bool" where
  "parked reason k k' \<longleftrightarrow> queues_ok k' \<and>
     rq k' = rq k @ put_when (left_in reason = Some STATE_READY) (running_list k) \<and>
     sq k' = sq k @ put_when (left_in reason = Some STATE_SLEEPING) (running_list k) \<and>
     bq k' = bq k @ put_when (left_in reason = Some STATE_BLOCKED) (running_list k) \<and>
     schdule_counter (tm k') = schdule_counter (tm k) \<and> gdt k' = gdt k \<and> mem k' = mem k \<and>
     jumps k' = jumps k \<and> (\<forall>p. counter_of k' p = counter_of k p) \<and>
     (\<forall>p. state_of k' p = (if p \<in> set (running_list k) \<and> left_in reason \<noteq> None then the (left_in reason)
        else state_of k p))"

lemma leave_ok:
  assumes "queues_ok k" "\<forall>p \<in> set (running_list k). unat p < 8192"
    "length (rq k) < 8191" "length (sq k) < 8191" "length (bq k) < 8191"
  shows "\<exists>k'. leave reason k = Inr k' \<and> parked reason k k'"
proof (cases "pid_running (tm k) = NOT_FOUND \<or> left_in reason = None")
  case True
  then show ?thesis
    using assms(1) by (auto simp: leave_def parked_def running_list_def put_when_def split: option.splits)
next
  case False
  let ?r = "pid_running (tm k)"
  from False have r: "running_list k = [?r]" by (simp add: running_list_def)
  with assms(2) have b: "unat ?r < 8192" by simp
  from assms(1) have q: "wf_queue (pid_queue_ready (tm k))" "wf_queue (pid_queue_sleeping (tm k))"
    "wf_queue (pid_queue_blocked (tm k))" by (auto simp: queues_ok_def sleep_ok_def)
  from False consider "reason = REASON_TIME_PIECE_OVER" | "reason = REASON_TASK_SLEEP" | "reason = REASON_TASK_BLOCKED"
    by (cases reason) auto
  then show ?thesis
  proof cases
    case 1
    from set_ready_ok [OF b q(1) assms(3)] obtain qr where
      "set_task_state ?r STATE_READY k = Inr (put_ready qr (mark STATE_READY ?r k))"
      "wf_queue qr" "q_list qr = rq k @ [?r]" .
    then show ?thesis
      using 1 False assms(1)
      by (simp add: leave_def parked_def r put_when_def queues_ok_def sleep_ok_def word_unat_eq_iff [symmetric])
  next
    case 2
    from set_sleeping_ok [OF b q(2) assms(4)] obtain qr where
      "set_task_state ?r STATE_SLEEPING k = Inr (put_sleeping qr (mark STATE_SLEEPING ?r k))"
      "wf_queue qr" "q_list qr = sq k @ [?r]" "head qr = head (pid_queue_sleeping (tm k))" .
    then show ?thesis
      using 2 False assms(1)
      by (simp add: leave_def parked_def r put_when_def queues_ok_def sleep_ok_def word_unat_eq_iff [symmetric])
  next
    case 3
    from set_blocked_ok [OF b q(3) assms(5)] obtain qr where
      "set_task_state ?r STATE_BLOCKED k = Inr (put_blocked qr (mark STATE_BLOCKED ?r k))"
      "wf_queue qr" "q_list qr = bq k @ [?r]" "head qr = head (pid_queue_blocked (tm k))" .
    then show ?thesis
      using 3 False assms(1)
      by (simp add: leave_def parked_def r put_when_def queues_ok_def sleep_ok_def word_unat_eq_iff [symmetric])
  qed
qed

lemma schedule_ok:
  assumes "queues_ok k" "rq k = x # xs" "unat x < 8192" "x \<noteq> pid_running (tm k)"
    "\<forall>p \<in> set (running_list k). unat p < 8192" "length (sq k) < 8191" "length (bq k) < 8191"
  shows "\<exists>k'. schedule reason k = Inr k' \<and> switched reason x xs k k'"
proof -
  let ?k1 = "k\<lparr>tm := (tm k)\<lparr>schdule_counter := TIME_PIECE\<rparr>\<rparr>"
  from assms(1) have "wf_queue (pid_queue_ready (tm k))" by (simp add: queues_ok_def)
  from dequeue_ok [OF this assms(2)] obtain q where
    q: "pid_dequeue (pid_queue_ready (tm k)) = Inr (q, x)" "wf_queue q" "q_list q = xs" by metis
  let ?k2 = "?k1\<lparr>tm := (tm ?k1)\<lparr>pid_queue_ready := q\<rparr>\<rparr>"
  have "length xs < 8191"
    using arg_cong [OF assms(2), of length] qlen_less [of "pid_queue_ready (tm k)"] by simp
  moreover have "queues_ok ?k2" using assms(1) q(2) by (simp add: queues_ok_def sleep_ok_def)
  ultimately obtain k3 where k3: "leave reason ?k2 = Inr k3" "parked reason ?k2 k3"
    using leave_ok [of ?k2 reason] assms(5-7) q(3) by auto
  have nf: "x \<noteq> NOT_FOUND" using NOT_FOUND_range [OF assms(3)] .
  have "schedule reason k = set_task_state x STATE_RUNNING k3"
    using nf assms(4) k3(1) by (simp add: schedule_def Let_def q(1) switch_to_leave)
  then show ?thesis
    using k3(2) assms(3) q(3)
    by (auto simp: set_running_eq switched_def parked_def queues_ok_def sleep_ok_def word_unat_eq_iff [symmetric])
qed

section \<open>The invariant\<close>

text \<open>All processes, each in its place. \<open>is\<close> are the two idle processes.\<close>

definition active :: "kernel \<Rightarrow> u16 list" where
  "active k = running_list k @ rq k @ sq k @ bq k"

definition states_ok :: "kernel \<Rightarrow> bool" where
  "states_ok k \<longleftrightarrow>
     (\<forall>p \<in> set (running_list k). state_of k p = STATE_RUNNING) \<and>
     (\<forall>p \<in> set (rq k). state_of k p = STATE_READY) \<and>
     (\<forall>p \<in> set (sq k). state_of k p = STATE_SLEEPING) \<and>
     (\<forall>p \<in> set (bq k). state_of k p = STATE_BLOCKED)"

definition proc_inv :: "kernel \<Rightarrow> bool" where
  "proc_inv k \<longleftrightarrow> queues_ok k \<and> distinct (active k) \<and> states_ok k \<and>
     (\<forall>p \<in> set (active k). 5 \<le> unat p \<and> unat p < 8192 \<and> \<not> empty_desc (gdt k (unat p))) \<and>
     (\<forall>n. 1 \<le> n \<longrightarrow> n \<le> 4 \<longrightarrow> \<not> empty_desc (gdt k n))"

definition sched_inv :: "u16 \<Rightarrow> u16 \<Rightarrow> kernel \<Rightarrow> bool" where
  "sched_inv i j k \<longleftrightarrow> proc_inv k \<and> i \<noteq> j \<and> {i, j} \<subseteq> set (running_list k @ rq k)"

lemma sched_invD:
  assumes "sched_inv i j k"
  shows "queues_ok k" "distinct (active k)" "states_ok k"
    "\<And>p. p \<in> set (active k) \<Longrightarrow> 5 \<le> unat p \<and> unat p < 8192 \<and> \<not> empty_desc (gdt k (unat p))"
    "i \<noteq> j" "{i, j} \<subseteq> set (running_list k @ rq k)"
  using assms by (auto simp: sched_inv_def proc_inv_def)

lemma distinct_pids_room:
  assumes "distinct ps" "\<forall>p \<in> set ps. 5 \<le> unat (p :: u16) \<and> unat p < 8192"
  shows "length ps \<le> 8187"
proof -
  have "unat ` set ps \<subseteq> {5..<8192}" using assms(2) by auto
  from card_mono [OF _ this] have "card (unat ` set ps) \<le> 8187" by simp
  moreover have "inj_on unat (set ps)" by (auto intro!: inj_onI simp: word_unat_eq_iff)
  ultimately show ?thesis using assms(1) by (simp add: card_image distinct_card)
qed

lemma active_room: "proc_inv k \<Longrightarrow> length (active k) \<le> 8187"
  using distinct_pids_room [of "active k"] by (auto simp: proc_inv_def)

text \<open>
  A switch preserves the invariant if the idle processes do not give up the processor. The
  GDT entry of a process that exits has been cleared before the switch.
\<close>

definition switch_inv :: "scheduler_reason_t \<Rightarrow> u16 \<Rightarrow> u16 \<Rightarrow> kernel \<Rightarrow> bool" where
  "switch_inv reason i j k \<longleftrightarrow> queues_ok k \<and> distinct (active k) \<and> states_ok k \<and>
     (\<forall>p \<in> set (active k). 5 \<le> unat p \<and> unat p < 8192) \<and>
     (\<forall>p \<in> set (rq k @ sq k @ bq k). \<not> empty_desc (gdt k (unat p))) \<and>
     (left_in reason \<noteq> None \<longrightarrow> (\<forall>p \<in> set (running_list k). \<not> empty_desc (gdt k (unat p)))) \<and>
     (\<forall>n. 1 \<le> n \<longrightarrow> n \<le> 4 \<longrightarrow> \<not> empty_desc (gdt k n)) \<and>
     i \<noteq> j \<and> {i, j} \<subseteq> set (running_list k @ rq k) \<and>
     (left_in reason \<noteq> Some STATE_READY \<longrightarrow> pid_running (tm k) \<notin> {i, j})"

lemma switch_invI:
  "sched_inv i j k \<Longrightarrow> (left_in reason \<noteq> Some STATE_READY \<Longrightarrow> pid_running (tm k) \<notin> {i, j}) \<Longrightarrow>
   switch_inv reason i j k"
  by (auto simp: sched_inv_def proc_inv_def switch_inv_def active_def)

lemma left_in_cases: "left_in reason \<in> {None, Some STATE_READY, Some STATE_SLEEPING, Some STATE_BLOCKED}"
  by (cases reason) auto

text \<open>The places of the processes after a switch to the head of the ready queue.\<close>

lemma switched_places:
  assumes "switched reason x xs k k'" "rq k = x # xs" "unat x < 8192" "distinct (active k)" "states_ok k"
  shows "running_list k' = [x]" "rq k' = xs @ put_when (left_in reason = Some STATE_READY) (running_list k)"
    "distinct (active k')" "states_ok k'"
    "p \<in> set (active k') \<Longrightarrow> p \<in> set (rq k @ sq k @ bq k) \<or> left_in reason \<noteq> None \<and> p \<in> set (running_list k)"
proof -
  show run: "running_list k' = [x]"
    using assms(1) NOT_FOUND_range [OF assms(3)] by (simp add: switched_def running_list_def)
  have lists: "rq k' = xs @ put_when (left_in reason = Some STATE_READY) (running_list k)"
    "sq k' = sq k @ put_when (left_in reason = Some STATE_SLEEPING) (running_list k)"
    "bq k' = bq k @ put_when (left_in reason = Some STATE_BLOCKED) (running_list k)"
    and st: "\<And>p. state_of k' p = (if p = x then STATE_RUNNING
        else if p \<in> set (running_list k) \<and> left_in reason \<noteq> None then the (left_in reason) else state_of k p)"
    using assms(1) by (auto simp: switched_def)
  show "rq k' = xs @ put_when (left_in reason = Some STATE_READY) (running_list k)" by (rule lists(1))
  show "distinct (active k')"
    using assms(4) left_in_cases [of reason] by (auto simp: active_def run lists assms(2) put_when_def)
  show "p \<in> set (active k') \<Longrightarrow> p \<in> set (rq k @ sq k @ bq k) \<or> left_in reason \<noteq> None \<and> p \<in> set (running_list k)"
    by (auto simp: active_def run lists assms(2) put_when_def split: if_splits)
  show "states_ok k'"
    using assms(4,5) left_in_cases [of reason] unfolding states_ok_def
    by (auto simp: st run lists assms(2) put_when_def active_def split: if_splits)
qed

lemma schedule_inv:
  assumes "switch_inv reason i j k"
  shows "\<exists>k' x xs. schedule reason k = Inr k' \<and> rq k = x # xs \<and> switched reason x xs k k' \<and> sched_inv i j k'"
proof -
  from assms have Q: "queues_ok k" and D: "distinct (active k)" and ST: "states_ok k"
    and B: "\<And>p. p \<in> set (active k) \<Longrightarrow> 5 \<le> unat p \<and> unat p < 8192"
    and G: "\<And>p. p \<in> set (rq k @ sq k @ bq k) \<Longrightarrow> \<not> empty_desc (gdt k (unat p))"
    and GR: "\<And>p. left_in reason \<noteq> None \<Longrightarrow> p \<in> set (running_list k) \<Longrightarrow> \<not> empty_desc (gdt k (unat p))"
    and G4: "\<forall>n. 1 \<le> n \<longrightarrow> n \<le> 4 \<longrightarrow> \<not> empty_desc (gdt k n)"
    and I: "i \<noteq> j" "{i, j} \<subseteq> set (running_list k @ rq k)"
    and IR: "left_in reason \<noteq> Some STATE_READY \<Longrightarrow> pid_running (tm k) \<notin> {i, j}"
    by (auto simp: switch_inv_def)
  have "rq k \<noteq> []" using I by (auto simp: running_list_def split: if_splits)
  then obtain x xs where x: "rq k = x # xs" by (cases "rq k") auto
  then have xb: "unat x < 8192" using B [of x] by (simp add: active_def)
  have xr: "x \<noteq> pid_running (tm k)"
    using x D NOT_FOUND_range [OF xb] by (auto simp: active_def running_list_def split: if_splits)
  have "length (active k) \<le> 8187" using distinct_pids_room [OF D] B by blast
  then have len: "length (sq k) < 8191" "length (bq k) < 8191" by (simp_all add: active_def)
  have "\<forall>p \<in> set (running_list k). unat p < 8192" using B by (auto simp: active_def)
  from schedule_ok [OF Q x xb xr this len] obtain k' where
    k': "schedule reason k = Inr k'" "switched reason x xs k k'" by blast
  note S = switched_places [OF k'(2) x xb D ST]
  have gdt: "gdt k' = gdt k" and Q': "queues_ok k'" using k'(2) by (auto simp: switched_def)
  have "p = pid_running (tm k)" if "p \<in> set (running_list k)" for p
    using that by (simp add: running_list_def split: if_splits)
  then have "{i, j} \<subseteq> set (running_list k' @ rq k')"
    using I IR by (cases "left_in reason = Some STATE_READY") (auto simp: S(1,2) x put_when_def)
  moreover have "5 \<le> unat p \<and> unat p < 8192 \<and> \<not> empty_desc (gdt k' (unat p))" if "p \<in> set (active k')" for p
    using S(5) [OF that] B [of p] G [of p] GR [of p] by (auto simp: gdt active_def)
  ultimately have "sched_inv i j k'"
    using Q' S(3,4) G4 I(1) by (simp add: sched_inv_def proc_inv_def gdt)
  with k' x show ?thesis by blast
qed

section \<open>The operations\<close>

lemma inv_tm [simp]:
  "proc_inv (k\<lparr>tm := (tm k)\<lparr>schdule_counter := c\<rparr>\<rparr>) = proc_inv k"
  "sched_inv i j (k\<lparr>tm := (tm k)\<lparr>schdule_counter := c\<rparr>\<rparr>) = sched_inv i j k"
  by (simp_all add: sched_inv_def proc_inv_def queues_ok_def sleep_ok_def active_def states_ok_def)

lemma inv_counter [simp]:
  "sched_inv i j (upd_task p (\<lambda>t. t\<lparr>wakeup_counter := c\<rparr>) k) = sched_inv i j k"
proof -
  have r: "running_list (upd_task p (\<lambda>t. t\<lparr>wakeup_counter := c\<rparr>) k) = running_list k" by (simp add: running_list_def)
  have "states_ok (upd_task p (\<lambda>t. t\<lparr>wakeup_counter := c\<rparr>) k) = states_ok k"
    unfolding states_ok_def r by (auto simp: word_unat_eq_iff [symmetric])
  then show ?thesis by (simp add: sched_inv_def proc_inv_def active_def r)
qed

text \<open>One tick wakes the processes whose time has come.\<close>

lemma check_wakeup_ok:
  assumes "sched_inv i j k"
  shows "\<exists>k'. check_wakeup k = Inr k' \<and> tick_result (sq k) k k' \<and>
    sq k' = filter (\<lambda>p. counter_of k p \<noteq> 1) (sq k) \<and> sched_inv i j k'"
proof -
  note I = sched_invD [OF assms]
  let ?q = "pid_queue_sleeping (tm k)"
  from I(1) have Q: "sleep_ok k" "wf_queue (pid_queue_ready (tm k))" "head ?q = 0"
    by (auto simp: queues_ok_def sleep_ok_def)
  have "proc_inv k" using assms by (simp add: sched_inv_def)
  then have "length (active k) \<le> 8187" by (rule active_room)
  then have len: "length (rq k) + length (sq k) \<le> 8191" by (simp add: active_def)
  have fuel: "length (sq k) \<le> ring_fuel" using qlen_less [of ?q] unfolding length_q_list ring_fuel_def by linarith
  have D: "distinct (sq k)" and B: "\<forall>p \<in> set (sq k). unat p < 8192" using I(2,4) by (auto simp: active_def)
  have "\<exists>k'. check_wakeup_from ring_fuel 0 k = Inr k' \<and> tick_result (sq k) k k' \<and>
      sq k' = filter (\<lambda>p. counter_of k p \<noteq> 1) (sq k)"
    using check_wakeup_from_ok [OF Q(1,2), of 0 ring_fuel] D B len fuel by simp
  then obtain k' where k': "check_wakeup k = Inr k'" "tick_result (sq k) k k'"
    "sq k' = filter (\<lambda>p. counter_of k p \<noteq> 1) (sq k)" by (auto simp: check_wakeup_def Q(3))
  from k'(2) have R: "rq k' = rq k @ filter (\<lambda>p. counter_of k p = 1) (sq k)" "bq k' = bq k"
    "running_list k' = running_list k" "gdt k' = gdt k" "sleep_ok k'" "wf_queue (pid_queue_ready (tm k'))"
    "pid_queue_blocked (tm k') = pid_queue_blocked (tm k)"
    "\<And>p. state_of k' p = (if p \<in> set (sq k) \<and> counter_of k p = 1 then STATE_READY else state_of k p)"
    by (auto simp: tick_result_def same_rest_def running_list_def)
  have "set (active k') = set (active k)" by (auto simp: active_def R k'(3))
  moreover have "distinct (active k')"
    using I(2) by (auto simp: active_def R k'(3))
  moreover have "queues_ok k'" using I(1) R by (simp add: queues_ok_def)
  moreover have "states_ok k'"
    using I(2,3) by (auto simp: states_ok_def active_def R(1-3,8) k'(3))
  ultimately have "sched_inv i j k'"
    using assms by (auto simp: sched_inv_def proc_inv_def R)
  with k' show ?thesis by blast
qed

text \<open>The whole tick.\<close>

lemma check_schedule_ok:
  assumes "sched_inv i j k"
  shows "\<exists>k'. check_schedule k = Inr k' \<and> sched_inv i j k' \<and> sq k' = sq k \<and> bq k' = bq k \<and>
    set (running_list k' @ rq k') = set (running_list k @ rq k) \<and> (\<forall>p. counter_of k' p = counter_of k p)"
proof -
  let ?k1 = "k\<lparr>tm := (tm k)\<lparr>schdule_counter := schdule_counter (tm k) - 1\<rparr>\<rparr>"
  show ?thesis
  proof (cases "schdule_counter (tm k) - 1 = 0")
    case False
    then show ?thesis using assms by (simp add: check_schedule_def Let_def)
  next
    case True
    have "switch_inv REASON_TIME_PIECE_OVER i j ?k1" using assms by (intro switch_invI) simp_all
    from schedule_inv [OF this] obtain k' x xs where
      k': "schedule REASON_TIME_PIECE_OVER ?k1 = Inr k'" "rq k = x # xs"
        "switched REASON_TIME_PIECE_OVER x xs ?k1 k'" "sched_inv i j k'" by auto
    from k'(3) have "pid_running (tm k') = x" "rq k' = xs @ running_list k" "sq k' = sq k" "bq k' = bq k"
      "\<forall>p. counter_of k' p = counter_of k p"
      by (auto simp: switched_def put_when_def)
    moreover have "unat x < 8192" using sched_invD(4) [OF assms, of x] k'(2) by (simp add: active_def)
    ultimately have "set (running_list k' @ rq k') = set (running_list k @ rq k)"
      using k'(2) NOT_FOUND_range by (auto simp: running_list_def)
    with k' \<open>sq k' = sq k\<close> \<open>bq k' = bq k\<close> \<open>\<forall>p. counter_of k' p = counter_of k p\<close> True show ?thesis
      by (auto simp: check_schedule_def Let_def)
  qed
qed

lemma check_task_affairs_ok:
  assumes "sched_inv i j k"
  shows "\<exists>k'. check_task_affairs k = Inr k' \<and> sched_inv i j k' \<and> bq k' = bq k \<and>
    sq k' = filter (\<lambda>p. counter_of k p \<noteq> 1) (sq k) \<and>
    set (running_list k' @ rq k') = set (running_list k @ rq k) \<union> {p \<in> set (sq k). counter_of k p = 1} \<and>
    (\<forall>p. counter_of k' p = (if p \<in> set (sq k) then counter_of k p - 1 else counter_of k p))"
proof -
  obtain k1 where k1: "check_wakeup k = Inr k1" "tick_result (sq k) k k1"
    "sq k1 = filter (\<lambda>p. counter_of k p \<noteq> 1) (sq k)" "sched_inv i j k1"
    using check_wakeup_ok [OF assms] by blast
  obtain k' where k': "check_schedule k1 = Inr k'" "sched_inv i j k'" "sq k' = sq k1" "bq k' = bq k1"
    "set (running_list k' @ rq k') = set (running_list k1 @ rq k1)" "\<forall>p. counter_of k' p = counter_of k1 p"
    using check_schedule_ok [OF k1(4)] by blast
  from k1(2) have "rq k1 = rq k @ filter (\<lambda>p. counter_of k p = 1) (sq k)" "running_list k1 = running_list k"
    "bq k1 = bq k" "\<forall>p. counter_of k1 p = (if p \<in> set (sq k) then counter_of k p - 1 else counter_of k p)"
    by (auto simp: tick_result_def same_rest_def running_list_def)
  with k1 k' show ?thesis by (auto simp: check_task_affairs_def)
qed

lemma sys_sleep_ok:
  assumes "sched_inv i j k" "pid_running (tm k) \<notin> {NOT_FOUND, i, j}"
  shows "\<exists>k'. sys_sleep n k = Inr k' \<and> sched_inv i j k' \<and> sq k' = sq k @ [pid_running (tm k)] \<and> bq k' = bq k \<and>
    counter_of k' (pid_running (tm k)) = n"
proof -
  let ?r = "pid_running (tm k)" let ?k1 = "upd_task ?r (\<lambda>t. t\<lparr>wakeup_counter := n\<rparr>) k"
  have r: "running_list k = [?r]" "running_list ?k1 = [?r]" using assms(2) by (simp_all add: running_list_def)
  have b: "unat ?r < 8192" using sched_invD(4) [OF assms(1), of ?r] r by (simp add: active_def)
  have "switch_inv REASON_TASK_SLEEP i j ?k1" using assms by (intro switch_invI) simp_all
  from schedule_inv [OF this] obtain k' x xs where
    k': "schedule REASON_TASK_SLEEP ?k1 = Inr k'" "switched REASON_TASK_SLEEP x xs ?k1 k'" "sched_inv i j k'" by auto
  then show ?thesis using b r(2) by (simp add: sys_sleep_def switched_def put_when_def)
qed

lemma exit_switch_inv:
  assumes "sched_inv i j k" "pid_running (tm k) \<notin> {NOT_FOUND, i, j}"
  shows "switch_inv REASON_TASK_EXIT i j (k\<lparr>gdt := (gdt k)(unat (pid_running (tm k)) := \<lparr>d_low = 0, d_high = 0\<rparr>)\<rparr>)"
proof -
  note I = sched_invD [OF assms(1)]
  let ?r = "pid_running (tm k)"
  let ?k1 = "k\<lparr>gdt := (gdt k)(unat ?r := \<lparr>d_low = 0, d_high = 0\<rparr>)\<rparr>"
  have r: "running_list k = [?r]" "running_list ?k1 = running_list k" "active ?k1 = active k"
    using assms(2) by (simp_all add: running_list_def active_def)
  have b: "5 \<le> unat ?r" using I(4) [of ?r] r(1) by (simp add: active_def)
  have ne: "unat p \<noteq> unat ?r" if "p \<in> set (rq k @ sq k @ bq k)" for p
    using that I(2) r(1) by (auto simp: active_def word_unat_eq_iff [symmetric])
  have g4: "\<not> empty_desc (gdt ?k1 n)" if "1 \<le> n" "n \<le> 4" for n
    using that assms(1) b by (auto simp: sched_inv_def proc_inv_def)
  show ?thesis
    using assms I ne g4 unfolding switch_inv_def
    by (auto simp: r queues_ok_def sleep_ok_def states_ok_def sched_inv_def proc_inv_def active_def)
qed

lemma sys_exit_ok:
  assumes "sched_inv i j k" "pid_running (tm k) \<notin> {NOT_FOUND, i, j}"
  shows "\<exists>k'. sys_exit c k = Inr k' \<and> sched_inv i j k' \<and> sq k' = sq k \<and> bq k' = bq k \<and>
    pid_running (tm k) \<notin> set (active k') \<and> empty_desc (gdt k' (unat (pid_running (tm k))))"
proof -
  note I = sched_invD [OF assms(1)]
  let ?r = "pid_running (tm k)"
  let ?k1 = "k\<lparr>gdt := (gdt k)(unat ?r := \<lparr>d_low = 0, d_high = 0\<rparr>)\<rparr>"
  have r: "running_list k = [?r]" using assms(2) by (simp add: running_list_def)
  have b: "unat ?r < 8192" using I(4) [of ?r] r by (simp add: active_def)
  from schedule_inv [OF exit_switch_inv [OF assms]] obtain k' x xs where
    k': "schedule REASON_TASK_EXIT ?k1 = Inr k'" "rq k = x # xs" "switched REASON_TASK_EXIT x xs ?k1 k'" "sched_inv i j k'"
    by auto
  have "running_list k' = [x]"
    using k'(3) NOT_FOUND_range [of x] I(4) [of x] k'(2) by (simp add: switched_def running_list_def active_def)
  then have "?r \<notin> set (active k')"
    using k'(2,3) I(2) r by (auto simp: active_def switched_def put_when_def)
  then show ?thesis
    using k' b by (simp add: sys_exit_def switched_def put_when_def empty_desc_def)
qed

lemma tss_desc_nonempty: "\<not> empty_desc (make_gdt_desc_for_tss base dpl)"
proof -
  have "bit (d_high (make_gdt_desc_for_tss base dpl)) 8" by (simp add: bit_tss_high)
  then show ?thesis by (auto simp: empty_desc_def)
qed

lemma get_pid_empty_ok:
  assumes "get_pid_empty k \<noteq> NOT_FOUND"
  shows "1 \<le> unat (get_pid_empty k)" "unat (get_pid_empty k) < 8192" "empty_desc (gdt k (unat (get_pid_empty k)))"
    "\<And>n. 1 \<le> n \<Longrightarrow> n < unat (get_pid_empty k) \<Longrightarrow> \<not> empty_desc (gdt k n)"
proof -
  obtain n where n: "List.find (\<lambda>i. empty_desc (gdt k i)) [1..<8192] = Some n"
    using assms by (auto simp: get_pid_empty_def split: option.splits)
  then obtain l where l: "l < 8191" "n = 1 + l" "empty_desc (gdt k n)" "\<forall>j < l. \<not> empty_desc (gdt k (1 + j))"
    by (auto simp: find_Some_iff simp del: upt_Suc)
  have "get_pid_empty k = of_nat n" using n unfolding get_pid_empty_def by (simp only: option.simps)
  moreover have "unat (of_nat n :: u16) = n" using l(1,2) by (intro unat_of_nat_small) simp
  ultimately have u: "unat (get_pid_empty k) = n" by simp
  show "1 \<le> unat (get_pid_empty k)" "unat (get_pid_empty k) < 8192" "empty_desc (gdt k (unat (get_pid_empty k)))"
    using l by (simp_all add: u)
  fix m assume "1 \<le> m" "m < unat (get_pid_empty k)"
  then show "\<not> empty_desc (gdt k m)" using l(2,4) by (auto simp: u dest!: spec [of _ "m - 1"])
qed

lemma get_pid_empty_none: "get_pid_empty k = NOT_FOUND \<Longrightarrow> create_task flag eip esp d k = Inl Out_Of_Bounds"
  using unat_NOT_FOUND by (simp add: create_task_def task_init_def)

text \<open>What a new process is created with.\<close>

definition new_tss :: "u32 \<Rightarrow> u32 \<Rightarrow> u32 \<Rightarrow> u32 \<Rightarrow> tss_t \<Rightarrow> tss_t" where
  "new_tss flag eip esp pd t =
     init_segments flag (t\<lparr>tss_esp := esp, tss_eip := eip, tss_eflags := INIT_EFLAGS\<rparr>)\<lparr>tss_cr3 := pd\<rparr>"

definition created :: "u32 \<Rightarrow> u32 \<Rightarrow> u32 \<Rightarrow> u32 \<Rightarrow> u16 \<Rightarrow> kernel \<Rightarrow> kernel \<Rightarrow> bool" where
  "created flag eip esp d p k k' \<longleftrightarrow>
     gdt k' = (gdt k)(unat p := make_gdt_desc_for_tss (tss_address (tm_addr k) p) DPL_KERNEL) \<and>
     mem k' = copy_pts (kernel_pd k) (snd (p_malloc (mem k))) (fst (p_malloc (mem k))) \<and>
     tss (tasks (tm k') (unat p)) = new_tss flag eip esp (snd (p_malloc (mem k))) (tss (tasks (tm k) (unat p))) \<and>
     ddl (tasks (tm k') (unat p)) = d \<and> state_of k' p = STATE_READY \<and>
     rq k' = rq k @ [p] \<and> sq k' = sq k \<and> bq k' = bq k \<and> running_list k' = running_list k \<and>
     (\<forall>r. counter_of k' r = counter_of k r) \<and> (\<forall>r. r \<noteq> p \<longrightarrow> tasks (tm k') (unat r) = tasks (tm k) (unat r)) \<and>
     kernel_pd k' = kernel_pd k \<and> schdule_counter (tm k') = schdule_counter (tm k)"

text \<open>A process in the entry that was empty keeps the invariant.\<close>

lemma proc_inv_created:
  assumes "proc_inv k" "created flag eip esp d p k k'" "1 \<le> unat p" "unat p < 8192" "empty_desc (gdt k (unat p))" "queues_ok k'"
  shows "proc_inv k'"
proof -
  from assms(1) have I: "distinct (active k)" "states_ok k"
    "\<And>p. p \<in> set (active k) \<Longrightarrow> 5 \<le> unat p \<and> unat p < 8192 \<and> \<not> empty_desc (gdt k (unat p))"
    "\<And>n. 1 \<le> n \<Longrightarrow> n \<le> 4 \<Longrightarrow> \<not> empty_desc (gdt k n)" by (auto simp: proc_inv_def)
  have new: "p \<notin> set (active k)" using I(3) assms(5) by blast
  have p5: "5 \<le> unat p" using I(4) [of "unat p"] assms(3,5) by linarith
  have lists: "rq k' = rq k @ [p]" "sq k' = sq k" "bq k' = bq k" "running_list k' = running_list k"
    and g: "gdt k' = (gdt k)(unat p := make_gdt_desc_for_tss (tss_address (tm_addr k) p) DPL_KERNEL)"
    and st: "\<And>r. state_of k' r = (if r = p then STATE_READY else state_of k r)"
    using assms(2) by (auto simp: created_def)
  have "active k' = running_list k @ (rq k @ [p]) @ sq k @ bq k" by (simp only: active_def lists)
  then have A: "set (active k') = insert p (set (active k))" "distinct (active k')"
    using I(1) new by (auto simp: active_def)
  have "states_ok k'" using I(2) new unfolding states_ok_def lists by (auto simp: st active_def)
  moreover have "\<not> empty_desc (gdt k' n)" if "\<not> empty_desc (gdt k n)" for n
    using that by (simp add: g tss_desc_nonempty)
  ultimately show ?thesis
    using I(3,4) A assms(4,6) p5 unfolding proc_inv_def by (auto simp: g tss_desc_nonempty)
qed

lemma create_task_ok:
  assumes "proc_inv k" "get_pid_empty k \<noteq> NOT_FOUND"
  shows "\<exists>k'. create_task flag eip esp d k = Inr (k', get_pid_empty k) \<and> created flag eip esp d (get_pid_empty k) k k' \<and>
    proc_inv k' \<and> get_pid_empty k \<notin> set (active k)"
proof -
  let ?p = "get_pid_empty k"
  note P = get_pid_empty_ok [OF assms(2)]
  have Q: "queues_ok k" and new: "?p \<notin> set (active k)" using assms(1) P(3) by (auto simp: proc_inv_def)
  define k1 where "k1 = k\<lparr>gdt := (gdt k)(unat ?p := make_gdt_desc_for_tss (tss_address (tm_addr k) ?p) DPL_KERNEL)\<rparr>"
  define k2 where "k2 = upd_task ?p (\<lambda>t. t\<lparr>tss := (tss t)\<lparr>tss_esp := esp, tss_eip := eip, tss_eflags := INIT_EFLAGS\<rparr>\<rparr>) k1"
  define k3 where "k3 = upd_task ?p (\<lambda>t. t\<lparr>tss := init_segments flag (tss t)\<rparr>) k2"
  define pd where "pd = snd (p_malloc (mem k))"
  define k4 where "k4 = k3\<lparr>mem := copy_pts (kernel_pd k3) pd (fst (p_malloc (mem k3)))\<rparr>"
  define k5 where "k5 = upd_task ?p (\<lambda>t. t\<lparr>tss := (tss t)\<lparr>tss_cr3 := pd\<rparr>\<rparr>) k4"
  define k6 where "k6 = upd_task ?p (\<lambda>t. t\<lparr>ddl := d\<rparr>) k5"
  note K = k1_def k2_def k3_def k4_def k5_def k6_def
  have init: "task_init ?p flag eip esp d k = set_task_state ?p STATE_READY k6"
    using P(2) by (simp add: task_init_def Let_def K pd_def split: prod.splits)
  have q6: "pid_queue_ready (tm k6) = pid_queue_ready (tm k)" "pid_queue_sleeping (tm k6) = pid_queue_sleeping (tm k)"
    "pid_queue_blocked (tm k6) = pid_queue_blocked (tm k)" "pid_running (tm k6) = pid_running (tm k)"
    by (simp_all add: K)
  have "length (active k) \<le> 8187" by (rule active_room [OF assms(1)])
  then have "length (rq k6) < 8191" by (simp add: q6 active_def)
  from set_ready_ok [OF P(2) _ this] Q obtain q where
    q: "set_task_state ?p STATE_READY k6 = Inr (put_ready q (mark STATE_READY ?p k6))" "wf_queue q" "q_list q = rq k @ [?p]"
    by (auto simp: q6 queues_ok_def)
  define k' where "k' = put_ready q (mark STATE_READY ?p k6)"
  have lists: "rq k' = rq k @ [?p]" "sq k' = sq k" "bq k' = bq k" "running_list k' = running_list k"
    by (simp_all add: k'_def q6 q running_list_def)
  have g: "gdt k' = (gdt k)(unat ?p := make_gdt_desc_for_tss (tss_address (tm_addr k) ?p) DPL_KERNEL)"
    by (simp add: k'_def K)
  have "created flag eip esp d ?p k k'"
    unfolding created_def lists g
    by (simp add: k'_def K pd_def new_tss_def word_unat_eq_iff [symmetric]) (simp add: upd_task_def put_ready_def)
  moreover have "queues_ok k'" using Q q by (simp add: k'_def queues_ok_def sleep_ok_def q6)
  then have "proc_inv k'" using proc_inv_created [OF assms(1) calculation P(1,2,3)] by blast
  ultimately show ?thesis using new init q(1) by (simp add: k'_def create_task_def Let_def)
qed

text \<open>
  Before \<open>sched_init\<close> the GDT is the one of kernel/init/main.c; the two idle processes get its first two
  free entries, 5 and 6.
\<close>

definition boot_kernel_ok :: "kernel \<Rightarrow> bool" where
  "boot_kernel_ok k \<longleftrightarrow> sleep_ok k \<and> sq k = [] \<and> (\<forall>n. 1 \<le> n \<longrightarrow> n < 8192 \<longrightarrow> gdt k n = initial_gdt n)"

lemma initial_empty [simp]: "1 \<le> n \<Longrightarrow> empty_desc (initial_gdt n) = (5 \<le> n)" "\<not> empty_desc (initial_gdt (Suc 0))"
  by (auto simp: initial_gdt_def empty_desc_def)

lemma first_empty:
  assumes "1 \<le> n" "n < 8192" "empty_desc (gdt k n)" "\<And>m. 1 \<le> m \<Longrightarrow> m < n \<Longrightarrow> \<not> empty_desc (gdt k m)"
  shows "get_pid_empty k = of_nat n"
proof -
  have "List.find (\<lambda>i. empty_desc (gdt k i)) [1..<8192] = Some n"
    using assms unfolding find_Some_iff
    by (intro exI [of _ "n - 1"]) (auto simp del: upt_Suc)
  then show ?thesis unfolding get_pid_empty_def by (simp only: option.simps)
qed

text \<open>The copy of the kernel's directory that each process gets.\<close>

definition new_directory :: "u32 \<Rightarrow> mm_state \<Rightarrow> mm_state" where
  "new_directory pd m = copy_pts pd (snd (p_malloc m)) (fst (p_malloc m))"

lemma sched_init_ok:
  assumes "boot_kernel_ok k"
  shows "\<exists>k'. sched_init idle s0 s1 k = Inr k' \<and> sched_inv 5 6 k' \<and> rq k' = [5, 6] \<and>
    pid_running (tm k') = NOT_FOUND \<and> sq k' = [] \<and> bq k' = [] \<and>
    tss_eip (tss (tasks (tm k') 5)) = idle \<and> tss_eip (tss (tasks (tm k') 6)) = idle \<and>
    (\<forall>n. 1 \<le> n \<longrightarrow> n < 8192 \<longrightarrow> empty_desc (gdt k' n) = (7 \<le> n)) \<and>
    mem k' = new_directory (kernel_pd k) (new_directory (kernel_pd k) (mem k)) \<and> kernel_pd k' = kernel_pd k \<and>
    (\<exists>k1. created TASK_FLAG_KERNEL idle s0 0xFF 5 (k\<lparr>tm := task_manager_init (tm k)\<rparr>) k1 \<and>
      created TASK_FLAG_KERNEL idle s1 0xFF 6 k1 k')"
proof -
  define k0 where "k0 = k\<lparr>tm := task_manager_init (tm k)\<rparr>"
  have r0: "running_list k0 = []" "rq k0 = []" "bq k0 = []" "sq k0 = []" "gdt k0 = gdt k"
    using assms wf_pid_queue_init
    by (simp_all add: k0_def running_list_def task_manager_init_def boot_kernel_ok_def)
  have "queues_ok k0"
    using assms by (simp add: queues_ok_def sleep_ok_def boot_kernel_ok_def k0_def task_manager_init_def wf_pid_queue_init)
      (simp add: pid_queue_init_def)
  then have P0: "proc_inv k0"
    using assms by (auto simp: proc_inv_def active_def states_ok_def r0 boot_kernel_ok_def)
  have e0: "get_pid_empty k0 = 5"
    using first_empty [of "5" k0] assms by (simp add: boot_kernel_ok_def r0)
  have nf: "(5 :: u16) \<noteq> NOT_FOUND" "(6 :: u16) \<noteq> NOT_FOUND" by (simp_all add: NOT_FOUND_def)
  obtain k1 where k1: "create_task TASK_FLAG_KERNEL idle s0 0xFF k0 = Inr (k1, 5)"
    "created TASK_FLAG_KERNEL idle s0 0xFF 5 k0 k1" "proc_inv k1"
    using create_task_ok [OF P0, of TASK_FLAG_KERNEL idle s0 "0xFF"] nf by (auto simp: e0)
  then have g1: "gdt k1 = (gdt k)(5 := make_gdt_desc_for_tss (tss_address (tm_addr k0) 5) DPL_KERNEL)"
    and l1: "rq k1 = [5]" "sq k1 = []" "bq k1 = []" "running_list k1 = []"
    by (simp_all add: created_def r0)
  have e1: "get_pid_empty k1 = 6"
    using first_empty [of "6" k1] assms by (simp add: g1 boot_kernel_ok_def tss_desc_nonempty)
  obtain k2 where k2: "create_task TASK_FLAG_KERNEL idle s1 0xFF k1 = Inr (k2, 6)"
    "created TASK_FLAG_KERNEL idle s1 0xFF 6 k1 k2" "proc_inv k2"
    using create_task_ok [OF k1(3), of TASK_FLAG_KERNEL idle s1 "0xFF"] nf by (auto simp: e1)
  then have l2: "rq k2 = [5, 6]" "sq k2 = []" "bq k2 = []" "running_list k2 = []"
    by (simp_all add: created_def l1)
  have "sched_inv 5 6 k2" using k2(3) by (simp add: sched_inv_def l2)
  moreover have "pid_running (tm k2) = NOT_FOUND" using l2(4) by (simp add: running_list_def split: if_splits)
  moreover have "tasks (tm k2) 5 = tasks (tm k1) 5"
    using k2(2) by (auto simp: created_def dest!: spec [of _ "5 :: u16"])
  then have "tss_eip (tss (tasks (tm k2) 5)) = idle" "tss_eip (tss (tasks (tm k2) 6)) = idle"
    using k1(2) k2(2) by (simp_all add: created_def new_tss_def init_segments_def)
  moreover have "\<forall>n. 1 \<le> n \<longrightarrow> n < 8192 \<longrightarrow> empty_desc (gdt k2 n) = (7 \<le> n)"
    using assms k2(2) by (auto simp: created_def g1 boot_kernel_ok_def tss_desc_nonempty)
  moreover have "mem k2 = new_directory (kernel_pd k) (new_directory (kernel_pd k) (mem k))" "kernel_pd k2 = kernel_pd k"
    using k1(2) k2(2) by (simp_all add: created_def new_directory_def k0_def)
  ultimately show ?thesis using k1(1,2) k2(1,2) l2 by (auto simp: sched_init_def k0_def)
qed

section \<open>Time\<close>

fun ticks :: "nat \<Rightarrow> kernel \<Rightarrow> kernel res" where
  "ticks 0 k = Inr k"
| "ticks (Suc n) k = rbind (check_task_affairs k) (ticks n)"

lemma ticks_ok:
  assumes "sched_inv i j k" "p \<in> set (sq k)" "unat (counter_of k p) = Suc m" "n \<le> m"
  shows "\<exists>k'. ticks n k = Inr k' \<and> sched_inv i j k' \<and> p \<in> set (sq k') \<and> unat (counter_of k' p) = Suc (m - n)"
  using assms
proof (induction n arbitrary: k m)
  case (Suc n)
  then obtain m' where m: "m = Suc m'" by (cases m) auto
  obtain k1 where k1: "check_task_affairs k = Inr k1" "sched_inv i j k1"
    "sq k1 = filter (\<lambda>p. counter_of k p \<noteq> 1) (sq k)"
    "\<forall>p. counter_of k1 p = (if p \<in> set (sq k) then counter_of k p - 1 else counter_of k p)"
    using check_task_affairs_ok [OF Suc.prems(1)] by blast
  have "counter_of k p \<noteq> 1" "counter_of k p \<noteq> 0" using Suc.prems(3) m by auto
  then have "p \<in> set (sq k1)" "unat (counter_of k1 p) = Suc m'"
    using k1(3,4) Suc.prems(2,3) m by (simp_all add: unat_minus_one)
  with Suc.IH [OF k1(2), of m'] Suc.prems(4) m k1(1) show ?case by auto
qed auto

lemma ticks_last: "ticks (Suc n) k = rbind (ticks n k) check_task_affairs"
proof (induction n arbitrary: k)
  case 0
  show ?case by (cases "check_task_affairs k") simp_all
next
  case (Suc n)
  have "ticks (Suc (Suc n)) k = rbind (check_task_affairs k) (\<lambda>x. rbind (ticks n x) check_task_affairs)"
    by (subst ticks.simps(2), rule arg_cong [OF ext [OF Suc.IH]])
  then show ?case by (simp add: rbind_assoc)
qed

text \<open>One tick, as seen from the ready queue: its head gets the processor when the time slice ends.\<close>

lemma tick_turn:
  assumes "sched_inv i j k" "rq k = x # r"
  shows "\<exists>k' ys. check_task_affairs k = Inr k' \<and> sched_inv i j k' \<and>
    (if schdule_counter (tm k) = 1 then pid_running (tm k') = x \<and> rq k' = r @ ys \<and> schdule_counter (tm k') = TIME_PIECE
     else pid_running (tm k') = pid_running (tm k) \<and> rq k' = x # r @ ys \<and> schdule_counter (tm k') = schdule_counter (tm k) - 1)"
proof -
  obtain k1 where k1: "check_wakeup k = Inr k1" "tick_result (sq k) k k1" "sched_inv i j k1"
    using check_wakeup_ok [OF assms(1)] by blast
  obtain ys where ys: "rq k1 = x # r @ ys" using k1(2) assms(2) by (simp add: tick_result_def)
  have same: "schdule_counter (tm k1) = schdule_counter (tm k)" "pid_running (tm k1) = pid_running (tm k)"
    using k1(2) by (simp_all add: tick_result_def same_rest_def)
  let ?k2 = "k1\<lparr>tm := (tm k1)\<lparr>schdule_counter := schdule_counter (tm k1) - 1\<rparr>\<rparr>"
  have sched: "sched_inv i j ?k2" using k1(3) by simp
  show ?thesis
  proof (cases "schdule_counter (tm k) = 1")
    case True
    have "switch_inv REASON_TIME_PIECE_OVER i j ?k2" using sched by (intro switch_invI) simp_all
    from schedule_inv [OF this] ys obtain k' where k': "schedule REASON_TIME_PIECE_OVER ?k2 = Inr k'"
      "switched REASON_TIME_PIECE_OVER x (r @ ys) ?k2 k'" "sched_inv i j k'" by auto
    then have "check_task_affairs k = Inr k'" using True by (simp add: check_task_affairs_def k1(1) check_schedule_def Let_def same)
    with k' True show ?thesis by (auto simp: switched_def)
  next
    case False
    then have "check_task_affairs k = Inr ?k2" by (simp add: check_task_affairs_def k1(1) check_schedule_def Let_def same)
    with False sched ys show ?thesis by (simp add: same)
  qed
qed

text \<open>The head waits for the rest of the time slice, everyone behind it for full slices more.\<close>

lemma head_runs:
  assumes "sched_inv i j k" "rq k = x # r" "unat (schdule_counter (tm k)) = Suc c"
  shows "\<exists>k' ys. ticks (Suc c) k = Inr k' \<and> sched_inv i j k' \<and> pid_running (tm k') = x \<and> rq k' = r @ ys \<and>
    schdule_counter (tm k') = TIME_PIECE"
  using assms
proof (induction c arbitrary: k r)
  case 0
  then have "schdule_counter (tm k) = 1" by (simp add: word_unat_eq_iff)
  with tick_turn [OF 0(1,2)] show ?case by auto
next
  case (Suc c)
  then have "schdule_counter (tm k) \<noteq> 1" "schdule_counter (tm k) \<noteq> 0" by auto
  moreover from this obtain k1 ys where k1: "check_task_affairs k = Inr k1" "sched_inv i j k1" "rq k1 = x # r @ ys"
    "schdule_counter (tm k1) = schdule_counter (tm k) - 1" using tick_turn [OF Suc.prems(1,2)] by auto
  ultimately have "unat (schdule_counter (tm k1)) = Suc c" using Suc.prems(3) by (simp add: unat_minus_one)
  from Suc.IH [OF k1(2,3) this] k1(1) show ?case by auto
qed

lemma ticks_add: "ticks (m + n) k = rbind (ticks m k) (ticks n)"
proof (induction m arbitrary: k)
  case (Suc m)
  have "rbind (check_task_affairs k) (ticks (m + n)) = rbind (check_task_affairs k) (\<lambda>x. rbind (ticks m x) (ticks n))"
    by (rule arg_cong [OF ext [OF Suc.IH]])
  then show ?case by (simp add: rbind_assoc)
qed simp

lemma ready_runs:
  assumes "sched_inv i j k" "rq k = xs @ p # ys" "schdule_counter (tm k) \<noteq> 0"
  shows "\<exists>k'. ticks (unat (schdule_counter (tm k)) + 100 * length xs) k = Inr k' \<and> sched_inv i j k' \<and> pid_running (tm k') = p"
  using assms
proof (induction xs arbitrary: k ys)
  case Nil
  obtain c where c: "unat (schdule_counter (tm k)) = Suc c" using Nil.prems(3) by (cases "unat (schdule_counter (tm k))") (auto simp: unat_eq_0)
  from head_runs [OF Nil.prems(1) _ c, of p ys] Nil.prems(2) show ?case by (auto simp: c)
next
  case (Cons x xs)
  obtain c where c: "unat (schdule_counter (tm k)) = Suc c" using Cons.prems(3) by (cases "unat (schdule_counter (tm k))") (auto simp: unat_eq_0)
  from head_runs [OF Cons.prems(1) _ c, of x "xs @ p # ys"] Cons.prems(2) obtain k1 zs where
    k1: "ticks (Suc c) k = Inr k1" "sched_inv i j k1" "rq k1 = xs @ p # ys @ zs" "schdule_counter (tm k1) = TIME_PIECE" by auto
  from Cons.IH [OF k1(2,3)] k1(4) obtain k' where k': "ticks (100 + 100 * length xs) k1 = Inr k'" "sched_inv i j k'" "pid_running (tm k') = p"
    by auto
  have "Suc c + 100 * length (x # xs) = Suc c + (100 + 100 * length xs)" by simp
  then show ?case using k' k1(1) unfolding c by (simp only: ticks_add rbind_simps) blast
qed

lemma wake_up_after:
  assumes "sched_inv i j k" "p \<in> set (sq k)" "unat (counter_of k p) = Suc m"
  shows "n \<le> m \<Longrightarrow> \<exists>k'. ticks n k = Inr k' \<and> p \<in> set (sq k')"
    "\<exists>k'. ticks (Suc m) k = Inr k' \<and> sched_inv i j k' \<and> p \<notin> set (sq k') \<and> p \<in> set (running_list k' @ rq k')"
proof -
  show "\<exists>k'. ticks n k = Inr k' \<and> p \<in> set (sq k')" if "n \<le> m"
    using ticks_ok [OF assms that] by blast
  obtain k1 where k1: "ticks m k = Inr k1" "sched_inv i j k1" "p \<in> set (sq k1)" "unat (counter_of k1 p) = 1"
    using ticks_ok [OF assms order_refl] by auto
  have "counter_of k1 p = 1" using k1(4) by (simp add: word_unat_eq_iff)
  with check_task_affairs_ok [OF k1(2)] k1(1,3)
  show "\<exists>k'. ticks (Suc m) k = Inr k' \<and> sched_inv i j k' \<and> p \<notin> set (sq k') \<and> p \<in> set (running_list k' @ rq k')"
    unfolding ticks_last by auto
qed

section \<open>Time slices\<close>

fun slices :: "nat \<Rightarrow> kernel \<Rightarrow> kernel res" where
  "slices 0 k = Inr k"
| "slices (Suc n) k = rbind (schedule REASON_TIME_PIECE_OVER k) (slices n)"

text \<open>
  \<open>schedule\<close> at the end of a time slice is one turn of the ready queue, in the sense of the
  interface \<open>fifo_queue\<close>.
\<close>

lemma schedule_turn:
  assumes "pid_running (tm k) \<noteq> NOT_FOUND" "unat (pid_running (tm k)) < 8192"
    "pid_dequeue (pid_queue_ready (tm k)) = Inr (q1, x)" "unat x < 8192" "x \<noteq> pid_running (tm k)"
    "pid_enqueue q1 (pid_running (tm k)) = Inr q2"
  shows "\<exists>k'. schedule REASON_TIME_PIECE_OVER k = Inr k' \<and> pid_running (tm k') = x \<and> pid_queue_ready (tm k') = q2 \<and>
    pid_queue_sleeping (tm k') = pid_queue_sleeping (tm k) \<and> pid_queue_blocked (tm k') = pid_queue_blocked (tm k)"
  using assms NOT_FOUND_range [OF assms(4)]
  by (simp add: schedule_def switch_to_def set_task_state_def Let_def)

lemma slices_turns:
  assumes "sched_inv i j k" "pid_running (tm k) \<noteq> NOT_FOUND"
  shows "\<exists>k'. slices n k = Inr k' \<and> sched_inv i j k' \<and> sq k' = sq k \<and> bq k' = bq k \<and>
    turns pid_enqueue pid_dequeue n (pid_running (tm k), pid_queue_ready (tm k)) =
      Inr (pid_running (tm k'), pid_queue_ready (tm k'))"
  using assms
proof (induction n arbitrary: k)
  case (Suc n)
  let ?r = "pid_running (tm k)"
  note I = sched_invD [OF Suc.prems(1)]
  have "switch_inv REASON_TIME_PIECE_OVER i j k" using Suc.prems by (intro switch_invI) simp_all
  from schedule_inv [OF this] obtain k1 x xs where
    k1: "schedule REASON_TIME_PIECE_OVER k = Inr k1" "rq k = x # xs" "switched REASON_TIME_PIECE_OVER x xs k k1"
      "sched_inv i j k1" by blast
  have rl: "running_list k = [?r]" using Suc.prems(2) by (simp add: running_list_def)
  have b: "unat ?r < 8192" "unat x < 8192" using I(4) [of ?r] I(4) [of x] rl k1(2) by (simp_all add: active_def)
  have ne: "x \<noteq> ?r" using I(2) rl k1(2) by (auto simp: active_def)
  have wf: "wf_queue (pid_queue_ready (tm k))" using I(1) by (simp add: queues_ok_def)
  obtain q1 where q1: "pid_dequeue (pid_queue_ready (tm k)) = Inr (q1, x)" "wf_queue q1" "q_list q1 = xs"
    using pq.deq_law [OF wf k1(2)] by blast
  have "length xs < 8191" using arg_cong [OF k1(2), of length] qlen_less [of "pid_queue_ready (tm k)"] by simp
  then obtain q2 where q2: "pid_enqueue q1 ?r = Inr q2" using pq.enq_law [OF q1(2), of ?r] q1(3) by auto
  have "pid_running (tm k1) = x" "pid_queue_ready (tm k1) = q2" "sq k1 = sq k" "bq k1 = bq k"
    using schedule_turn [OF Suc.prems(2) b(1) q1(1) b(2) ne q2] k1(1) by auto
  with Suc.IH [OF k1(4)] NOT_FOUND_range [OF b(2)] k1(1) q1(1) q2 show ?case by auto
qed simp

section \<open>A running system for the examples\<close>

definition boot_kernel :: kernel where
  "boot_kernel = \<lparr>gdt = initial_gdt,
     tm = \<lparr>tasks = (\<lambda>_. \<lparr>task_pid = 0, task_state = STATE_READY,
         tss = \<lparr>tss_prev = 0, tss_esp0 = 0, tss_ss0 = 0, tss_esp1 = 0, tss_ss1 = 0, tss_esp2 = 0, tss_ss2 = 0,
           tss_cr3 = 0, tss_eip = 0, tss_eflags = 0, tss_eax = 0, tss_ecx = 0, tss_edx = 0, tss_ebx = 0,
           tss_esp = 0, tss_ebp = 0, tss_esi = 0, tss_edi = 0, tss_es = 0, tss_cs = 0, tss_ss = 0,
           tss_ds = 0, tss_fs = 0, tss_gs = 0, tss_ldt_seg = 0, tss_io_map_associated = 0\<rparr>,
         wakeup_counter = 0, ddl = 0\<rparr>),
       schdule_counter = 0, pid_running = 0,
       pid_queue_ready = empty_queue, pid_queue_blocked = empty_queue, pid_queue_sleeping = empty_queue\<rparr>,
     mem = blank_machine 0, jumps = [], tm_addr = 0x100000, kernel_pd = 0x200000\<rparr>"

lemma boot_kernel_ok: "boot_kernel_ok boot_kernel"
  by (auto simp: boot_kernel_ok_def boot_kernel_def sleep_ok_def initial_gdt_def empty_desc_def
      q_list_def qlen_def ring_dist_def empty_queue_def wf_queue_def)

lemma create_task_inv:
  assumes "sched_inv i j k" "get_pid_empty k \<noteq> NOT_FOUND"
  shows "\<exists>k'. create_task flag eip esp d k = Inr (k', get_pid_empty k) \<and> sched_inv i j k' \<and>
    created flag eip esp d (get_pid_empty k) k k'"
  using create_task_ok [of k flag eip esp d] assms by (auto simp: sched_inv_def created_def)

text \<open>Processes 5 and 6 idle, 5 running, and process 7 asleep for three ticks.\<close>

definition demo_kernel :: kernel where
  "demo_kernel = boot_kernel\<lparr>gdt := (\<lambda>n. if n < 8 then \<lparr>d_low = 1, d_high = 1\<rparr> else \<lparr>d_low = 0, d_high = 0\<rparr>),
     tm := (tm boot_kernel)\<lparr>
       tasks := (\<lambda>n. (tasks (tm boot_kernel) n)\<lparr>task_state :=
           (if n = 5 then STATE_RUNNING else if n = 6 then STATE_READY else STATE_SLEEPING), wakeup_counter := 3\<rparr>),
       schdule_counter := TIME_PIECE, pid_running := 5,
       pid_queue_ready := \<lparr>head = 0, tail = 1, pids = (\<lambda>_. 6)\<rparr>,
       pid_queue_sleeping := \<lparr>head = 0, tail = 1, pids = (\<lambda>_. 7)\<rparr>\<rparr>\<rparr>"

lemma demo_lists:
  "rq demo_kernel = [6]" "sq demo_kernel = [7]" "bq demo_kernel = []" "running_list demo_kernel = [5]"
  "pid_running (tm demo_kernel) = 5" "counter_of demo_kernel p = 3" "(5 :: u16) \<noteq> NOT_FOUND"
  by (simp_all add: demo_kernel_def boot_kernel_def q_list_def qlen_def ring_dist_def running_list_def
    NOT_FOUND_def empty_queue_def)

lemma demo_inv: "sched_inv 5 6 demo_kernel"
proof -
  have "queues_ok demo_kernel"
    by (simp add: queues_ok_def sleep_ok_def demo_kernel_def boot_kernel_def wf_queue_def
        q_list_def qlen_def ring_dist_def empty_queue_def)
  moreover have "states_ok demo_kernel"
    unfolding states_ok_def demo_lists by (simp add: demo_kernel_def)
  moreover have "\<not> empty_desc (gdt demo_kernel n)" if "n < 8" for n
    using that by (simp add: demo_kernel_def empty_desc_def)
  ultimately show ?thesis
    by (simp add: sched_inv_def proc_inv_def active_def demo_lists)
qed

section \<open>Properties\<close>

text \<open>
  Claim C19: one run of \<open>check_wakeup\<close> ends, counts the counter of every sleeping process down
  by one, and moves exactly the processes whose counter has become 0 to the end of the ready
  queue, in their order, leaving the others asleep in their order; nothing else changes
  place, although entries are deleted from the queue while it is walked.
\<close>
theorem check_wakeup_exact:
  assumes "sched_inv i j k"
  shows "\<exists>k'. check_wakeup k = Inr k' \<and> sched_inv i j k' \<and>
    sq k' = filter (\<lambda>p. counter_of k p \<noteq> 1) (sq k) \<and>
    rq k' = rq k @ filter (\<lambda>p. counter_of k p = 1) (sq k) \<and>
    bq k' = bq k \<and> pid_running (tm k') = pid_running (tm k) \<and>
    (\<forall>p. counter_of k' p = (if p \<in> set (sq k) then counter_of k p - 1 else counter_of k p))"
  using check_wakeup_ok [OF assms] by (auto simp: tick_result_def same_rest_def)

theorem check_wakeup_exact_witness:
  "\<exists>k'. check_wakeup demo_kernel = Inr k' \<and> sq k' = [7] \<and> rq k' = [6] \<and> counter_of k' 7 = 2"
proof -
  from check_wakeup_exact [OF demo_inv] obtain k' where k': "check_wakeup demo_kernel = Inr k'"
    "sq k' = filter (\<lambda>p. counter_of demo_kernel p \<noteq> 1) (sq demo_kernel)"
    "rq k' = rq demo_kernel @ filter (\<lambda>p. counter_of demo_kernel p = 1) (sq demo_kernel)"
    "\<And>p. counter_of k' p = (if p \<in> set (sq demo_kernel) then counter_of demo_kernel p - 1 else counter_of demo_kernel p)"
    by blast
  have "counter_of k' 7 = 2" unfolding k'(4) demo_lists by simp
  then show ?thesis using k'(1) k'(2,3) [unfolded demo_lists] by simp
qed

text \<open>
  Claim C20: a process that went to sleep with counter \<open>c\<close> is woken by exactly the \<open>c\<close>-th timer
  tick, whatever the other processes do in between (scheduling goes on); with counter 0 it
  sleeps for 2^32 ticks, because the counter is decremented before it is compared.
\<close>
theorem sleep_duration:
  assumes "sched_inv i j k" "p \<in> set (sq k)"
  defines "c \<equiv> (if counter_of k p = 0 then 2 ^ 32 else unat (counter_of k p))"
  shows "(\<forall>n < c. \<exists>k'. ticks n k = Inr k' \<and> p \<in> set (sq k')) \<and>
    (\<exists>k'. ticks c k = Inr k' \<and> sched_inv i j k' \<and> p \<notin> set (sq k') \<and> p \<in> set (running_list k' @ rq k'))"
proof (cases "counter_of k p = 0")
  case False
  then obtain m where m: "unat (counter_of k p) = Suc m" by (metis not0_implies_Suc unat_eq_zero)
  then have c: "c = Suc m" using False by (simp add: c_def)
  show ?thesis
    using wake_up_after [OF assms(1,2) m] unfolding c less_Suc_eq_le by blast
next
  case True
  obtain k1 where k1: "check_task_affairs k = Inr k1" "sched_inv i j k1" "p \<in> set (sq k1)"
    "counter_of k1 p = counter_of k p - 1"
    using check_task_affairs_ok [OF assms(1)] assms(2) True by fastforce
  define m :: nat where "m = 4294967294"
  have "unat (counter_of k1 p) = Suc m" using unat_minus_1 by (simp add: k1(4) True m_def)
  note W = wake_up_after [OF k1(2,3) this]
  have c: "c = Suc (Suc m)" using True by (simp add: c_def m_def)
  have "\<exists>k'. ticks n k = Inr k' \<and> p \<in> set (sq k')" if "n < c" for n
    using that assms(2) W(1) [of "n - 1"] by (cases n) (auto simp: c k1(1))
  moreover have "ticks c k = ticks (Suc m) k1" unfolding c by (simp add: k1(1))
  ultimately show ?thesis using W(2) by metis
qed

theorem sleep_duration_witness:
  "(\<exists>k'. ticks 2 demo_kernel = Inr k' \<and> 7 \<in> set (sq k')) \<and> (\<exists>k'. ticks 3 demo_kernel = Inr k' \<and> 7 \<notin> set (sq k'))"
proof -
  have "(7 :: u16) \<in> set (sq demo_kernel)" by (simp add: demo_lists)
  from sleep_duration [OF demo_inv this]
  have "\<forall>n < 3. \<exists>k'. ticks n demo_kernel = Inr k' \<and> 7 \<in> set (sq k')"
    "\<exists>k'. ticks 3 demo_kernel = Inr k' \<and> 7 \<notin> set (sq k')"
    unfolding demo_lists(6) by auto
  then show ?thesis by simp
qed

text \<open>
  Claim C18: round robin: \<open>n\<close> ends of a time slice in a row turn the circle formed by the
  running process and the ready queue by \<open>n\<close> places, so every runnable process gets the
  processor once in as many slices as there are runnable processes; nobody starves and
  the queues of the others are not touched.
\<close>
theorem round_robin:
  assumes "sched_inv i j k" "pid_running (tm k) \<noteq> NOT_FOUND"
  shows "\<exists>k'. slices n k = Inr k' \<and> sched_inv i j k' \<and> sq k' = sq k \<and> bq k' = bq k \<and>
    pid_running (tm k') # rq k' = rotate n (pid_running (tm k) # rq k)"
proof -
  note I = sched_invD [OF assms(1)]
  have wf: "wf_queue (pid_queue_ready (tm k))" using I(1) by (simp add: queues_ok_def)
  have ne: "rq k \<noteq> []" using I(5,6) by (auto simp: running_list_def split: if_splits)
  have "length (rq k) \<le> 8191" using qlen_less [of "pid_queue_ready (tm k)"] unfolding length_q_list by linarith
  from pq.turns_rotate [OF wf ne this, of n "pid_running (tm k)"] obtain r' q' where
    "turns pid_enqueue pid_dequeue n (pid_running (tm k), pid_queue_ready (tm k)) = Inr (r', q')"
    "r' # q_list q' = rotate n (pid_running (tm k) # rq k)" by blast
  with slices_turns [OF assms, of n] show ?thesis by auto
qed

theorem round_robin_witness:
  "\<exists>k'. slices 3 demo_kernel = Inr k' \<and> pid_running (tm k') # rq k' = [6, 5]"
  using round_robin [OF demo_inv, of 3] by (auto simp: demo_lists rotate_def eval_nat_numeral)

text \<open>
  Claim C17: no ready process starves: with \<open>n\<close> processes before it in the ready queue and \<open>c\<close> ticks
  left of the time slice, a process has the processor after exactly \<open>c + 100 n\<close> timer ticks,
  whoever wakes up in between.
\<close>
theorem ready_process_runs:
  assumes "sched_inv i j k" "rq k = xs @ p # ys" "schdule_counter (tm k) \<noteq> 0"
  shows "\<exists>k'. ticks (unat (schdule_counter (tm k)) + 100 * length xs) k = Inr k' \<and> sched_inv i j k' \<and> pid_running (tm k') = p"
  by (rule ready_runs [OF assms])

theorem ready_process_runs_witness: "\<exists>k'. ticks 100 demo_kernel = Inr k' \<and> pid_running (tm k') = 6"
proof -
  have "rq demo_kernel = [] @ 6 # []" by (simp add: demo_lists)
  moreover have "schdule_counter (tm demo_kernel) = 100" by (simp add: demo_kernel_def)
  ultimately show ?thesis using ready_process_runs [OF demo_inv, of "[]" 6 "[]"] by auto
qed

text \<open>
  Claim C21: \<open>create_task\<close> gives the new process the lowest free GDT entry, a number that no
  live process has, puts it at the end of the ready queue with the TSS descriptor of its
  process control block, its entry point, stack and a copy of the kernel's page directory,
  and changes no other process. When the GDT is full, it writes outside the GDT instead.
\<close>
theorem create_task_fresh:
  assumes "proc_inv k"
  shows "if \<forall>n. 1 \<le> n \<longrightarrow> n < 8192 \<longrightarrow> \<not> empty_desc (gdt k n)
    then create_task flag eip esp d k = Inl Out_Of_Bounds
    else \<exists>k' p. create_task flag eip esp d k = Inr (k', p) \<and> proc_inv k' \<and> p \<notin> set (active k) \<and>
      created flag eip esp d p k k' \<and> 1 \<le> unat p \<and> empty_desc (gdt k (unat p)) \<and>
      (\<forall>n. 1 \<le> n \<longrightarrow> n < unat p \<longrightarrow> \<not> empty_desc (gdt k n))"
proof (cases "get_pid_empty k = NOT_FOUND")
  case True
  have "\<not> empty_desc (gdt k n)" if "1 \<le> n" "n < 8192" for n
  proof
    assume "empty_desc (gdt k n)"
    define l where "l = (LEAST n. 1 \<le> n \<and> empty_desc (gdt k n))"
    have l: "1 \<le> l" "empty_desc (gdt k l)" "l \<le> n"
      using LeastI [of "\<lambda>n. 1 \<le> n \<and> empty_desc (gdt k n)" n] Least_le [of "\<lambda>n. 1 \<le> n \<and> empty_desc (gdt k n)" n]
        that(1) \<open>empty_desc (gdt k n)\<close> by (simp_all add: l_def)
    have "\<not> empty_desc (gdt k m)" if "1 \<le> m" "m < l" for m
      using not_less_Least [of m "\<lambda>n. 1 \<le> n \<and> empty_desc (gdt k n)"] that by (simp add: l_def)
    then have "get_pid_empty k = of_nat l" using l that(2) by (intro first_empty) auto
    moreover have "unat (of_nat l :: u16) = l" using l(3) that(2) by (intro unat_of_nat_small) simp
    ultimately show False using True l(3) that(2) unat_NOT_FOUND by simp
  qed
  then show ?thesis using get_pid_empty_none [OF True] by simp
next
  case False
  note P = get_pid_empty_ok [OF this]
  then have "\<not> (\<forall>n. 1 \<le> n \<longrightarrow> n < 8192 \<longrightarrow> \<not> empty_desc (gdt k n))" by blast
  then show ?thesis using create_task_ok [OF assms False, of flag eip esp d] P by auto
qed

theorem create_task_fresh_witness:
  "\<exists>k' p. create_task 0 0x1234 0 0 demo_kernel = Inr (k', p) \<and> p = 8 \<and> rq k' = [6, 8]"
proof -
  have "proc_inv demo_kernel" using demo_inv by (simp add: sched_inv_def)
  note C = create_task_fresh [OF this, of 0 "0x1234" 0 0]
  have e: "empty_desc (gdt demo_kernel n) \<longleftrightarrow> 8 \<le> n" for n by (simp add: demo_kernel_def empty_desc_def)
  have "\<not> (\<forall>n. 1 \<le> n \<longrightarrow> n < 8192 \<longrightarrow> \<not> empty_desc (gdt demo_kernel n))"
    by (auto simp: e intro!: exI [of _ 8])
  from C [unfolded if_not_P [OF this]] obtain k' p where k': "create_task 0 0x1234 0 0 demo_kernel = Inr (k', p)"
    "created 0 0x1234 0 0 p demo_kernel k'" "8 \<le> unat p" "\<forall>n. 1 \<le> n \<longrightarrow> n < unat p \<longrightarrow> n < 8"
    by (auto simp: e not_le)
  then have "unat p = 8" using spec [OF k'(4), of 8] by simp
  then have "p = 8" by (simp add: word_unat_eq_iff)
  then show ?thesis using k' by (simp add: created_def demo_lists)
qed

lemma proc_inv_mem: "proc_inv (k\<lparr>mem := m, kernel_pd := a\<rparr>) = proc_inv k"
proof -
  define k' where "k' = k\<lparr>mem := m, kernel_pd := a\<rparr>"
  have r: "running_list k' = running_list k" by (simp add: k'_def running_list_def)
  then have "active k' = active k" by (simp add: active_def k'_def)
  moreover have "queues_ok k' = queues_ok k" "gdt k' = gdt k" by (simp_all add: queues_ok_def sleep_ok_def k'_def)
  moreover have "states_ok k' = states_ok k" unfolding states_ok_def r by (simp add: k'_def)
  ultimately have "proc_inv k' = proc_inv k" by (simp add: proc_inv_def)
  then show ?thesis by (simp add: k'_def)
qed

lemma demo_pid: "get_pid_empty (demo_kernel\<lparr>mem := m, kernel_pd := a\<rparr>) = 8"
proof -
  have e: "empty_desc (gdt demo_kernel n) \<longleftrightarrow> 8 \<le> n" for n
    by (simp add: demo_kernel_def empty_desc_def)
  have "get_pid_empty (demo_kernel\<lparr>mem := m, kernel_pd := a\<rparr>) = of_nat 8" by (rule first_empty) (auto simp: e)
  then show ?thesis by simp
qed

end
