(* ===== verification/Execve.thy ===== *)
theory Execve
  imports Address_Space Swap Sched_Safety
begin

text \<open>
  kernel/mm/execve.c: \<open>sys_execve\<close> copies a program file into the swap area and creates a process
  whose code page is absent and refers to the copy. File system, process table, page tables and
  swap area meet here.
\<close>

section \<open>Operation\<close>

abbreviation TEMP_CODE_SIZE_MAX :: nat where "TEMP_CODE_SIZE_MAX \<equiv> 4096"
abbreviation TEMP_CODE_START :: u32 where "TEMP_CODE_START \<equiv> 0x80000000"
abbreviation INIT_ESP_VMA :: u32 where "INIT_ESP_VMA \<equiv> 0xFFFFEFFC"

record exec_state =
  ex_fs :: fs_state
  ex_kernel :: kernel
  ex_swap :: u32

definition vm_of :: "exec_state \<Rightarrow> vm_state" where
  "vm_of s = \<lparr>vm_mm = mem (ex_kernel s), vm_disk = fs_disk (ex_fs s), swap_counter = ex_swap s\<rparr>"

definition sys_execve :: "u8 list \<Rightarrow> exec_state \<Rightarrow> exec_state res" where
  "sys_execve path s =
     (let fs = ex_fs s in
      rbind (load_file_cached path (fs_cached fs 2) fs) (\<lambda>(r, file_cached).
        if r = FILE_RESULT_SUCCESS then
          rbind (read_all (fcb file_cached) (uninit 8 TEMP_CODE_SIZE_MAX fs) fs) (\<lambda>code_buf.
            let (vm, code_swap_sector) = swap_alloc (vm_of s);
                fs1 = fs\<lparr>fs_disk := disk_write (unat code_swap_sector) code_buf (fs_disk fs)\<rparr>
            in rbind (create_task TASK_FLAG_KERNEL TEMP_CODE_START INIT_ESP_VMA 0xFF (ex_kernel s)) (\<lambda>(k1, pid).
                 let pd = tss_cr3 (tss (tasks (tm k1) (unat pid)));
                     (m1, _) = set_mmap pd TEMP_CODE_START 0 PAGE_TABLE_FLAG_KERNEL_READ_WRITE (mem k1);
                     m2 = swap_sector_set pd TEMP_CODE_START code_swap_sector m1;
                     (m3, _) = load_memory pd INIT_ESP_VMA PAGE_TABLE_FLAG_KERNEL_READ_WRITE m2
                 in Inr (s\<lparr>ex_fs := fs1, ex_kernel := k1\<lparr>mem := m3\<rparr>, ex_swap := swap_counter vm\<rparr>)))
        else Inr s))"

section \<open>The memory of the new process\<close>

lemma copied_directory:
  assumes "pd_ok m from" "p_malloc m = (m1, to)" "to \<noteq> -1"
  shows "pd_ok (copy_pts from to m1) to" "page_used (copy_pts from to m1) b \<longleftrightarrow> frame b = to \<or> page_used m b"
proof -
  have ok: "pages_ok m" "aligned from" using assms(1) by (auto simp: pd_ok_def)
  note P = p_malloc_ok [OF assms(2) ok(1) assms(3)]
  have ne: "to \<noteq> from" using P(2) assms(1) by (auto simp: pd_ok_def)
  have r: "ram m1 = ram m" using assms(2) p_malloc_simps(1) [of m] by simp
  define m2 where "m2 = copy_pts from to m1"
  have e: "entry (ram m2) to i = entry (ram m) from i" if "i < 1024" for i
    using copy_pts_ok(1) [OF P(1) ok(2) ne that, of m1] by (simp add: m2_def r)
  then have t: "table_of (ram m2) to i = table_of (ram m) from i" if "i < 1024" for i using that by (simp add: table_of_def)
  have u: "page_used m2 b \<longleftrightarrow> frame b = to \<or> page_used m b" "pages_ok m2" for b
    using P(3) [of b] P(4) by (simp_all add: m2_def copy_pts_def page_used_def pages_ok_def)
  show "page_used (copy_pts from to m1) b \<longleftrightarrow> frame b = to \<or> page_used m b" using u(1) by (simp add: m2_def)
  have "table_of (ram m) from i \<noteq> to" if "i < 1024" "present (entry (ram m) from i)" for i
    using assms(1) P(2) that by (auto simp: pd_ok_def)
  then have "pd_ok m2 to"
    using assms(1) P(1) by (simp add: pd_ok_def u e t aligned_frame_eq)
  then show "pd_ok (copy_pts from to m1) to" by (simp add: m2_def)
qed

lemma code_page_prepared:
  assumes "pd_ok m pd" "3 \<le> card (free_pages m)" "unat sector < 2 ^ 29"
  shows "\<exists>m1 ok m3 st. set_mmap pd TEMP_CODE_START 0 PAGE_TABLE_FLAG_KERNEL_READ_WRITE m = (m1, ok) \<and>
    load_memory pd INIT_ESP_VMA PAGE_TABLE_FLAG_KERNEL_READ_WRITE (swap_sector_set pd TEMP_CODE_START sector m1) = (m3, st) \<and>
    pd_ok m3 pd \<and> present (entry (ram m3) pd (pdi TEMP_CODE_START)) \<and> has_addr pd INIT_ESP_VMA m3 \<and>
    pte (ram m3) pd TEMP_CODE_START = SWAP_SECTOR_SET sector \<and> card (free_pages m) - 3 \<le> card (free_pages m3)"
proof -
  let ?c = "TEMP_CODE_START" and ?e = "INIT_ESP_VMA"
  have "pages_ok m" using assms(1) by (simp add: pd_ok_def)
  note A = p_malloc_free [OF this]
  have room: "table_room pd i m" for i using A(1) assms(2) by (simp add: table_room_def)
  obtain m1 ok where M: "set_mmap pd ?c 0 PAGE_TABLE_FLAG_KERNEL_READ_WRITE m = (m1, ok)" by fastforce
  note S = set_mmap_ok [OF assms(1) room M]
  define m2 where "m2 = swap_sector_set pd ?c sector m1"
  note W = swap_sector_set_ok [OF S(1,2), where x = sector, folded m2_def]
  have u2: "page_used m2 b = page_used m1 b" for b by (simp add: m2_def page_used_def swap_sector_set_walk)
  have f2: "card (free_pages m) - 1 \<le> card (free_pages m2)"
    using free_pages_grow [of m2 m "{snd (p_malloc m)}"] S(9) by (auto simp: u2)
  obtain m2' st where st: "p_malloc m2 = (m2', st)" by fastforce
  have "pages_ok m2" using W(1) by (simp add: pd_ok_def)
  note B = p_malloc_free [OF this]
  have sn: "st \<noteq> -1" using B(1) f2 assms(2) st by simp
  have "pages_ok m2'" using p_malloc_ok(4) [OF st \<open>pages_ok m2\<close> sn] .
  then have room2: "table_room pd i m2'" for i
    using p_malloc_free(1) [of m2'] B(2) f2 assms(2) st by (simp add: table_room_def)
  obtain m3 st' where L: "load_memory pd ?e PAGE_TABLE_FLAG_KERNEL_READ_WRITE m2 = (m3, st')" by fastforce
  have fl: "unat (3 :: u16) < 4096" "bit (3 :: u16) 0" by simp_all
  note K = load_memory_ok [OF W(1) st sn room2 L fl]
  have pne: "pdi ?c \<noteq> pdi ?e" by (simp add: pdi_def)
  have pr: "present (entry (ram m2) pd (pdi ?c))" using W(2) [OF pdi_less] S(2) by simp
  note C = K(5) [OF pne pr]
  have "pte (ram m2) pd ?c = SWAP_SECTOR_SET sector" using W(3) [OF S(2)] by simp
  moreover have "has_addr pd ?e m3" "pd_ok m3 pd" using maps_page_walk(1) [OF K(2)] K(2) by (simp_all add: maps_page_def)
  moreover have "card (free_pages m2) - 2 \<le> card (free_pages m3)"
  proof -
    have "card {st, snd (p_malloc m2')} \<le> 2" by (simp add: card_insert_le_m1)
    moreover have "card (free_pages m2) - card {st, snd (p_malloc m2')} \<le> card (free_pages m3)"
      using K(6) by (intro free_pages_grow) auto
    ultimately show ?thesis by linarith
  qed
  moreover note f2
  ultimately show ?thesis
    using M L C pr by (intro exI [of _ m1] exI [of _ ok] exI [of _ m3] exI [of _ st']) (simp add: m2_def)
qed

text \<open>The program as it is read into the buffer.\<close>

lemma code_read:
  assumes "disk_ok (fs_disk fs)" "file_on (fs_disk fs) f ss" "file_size f \<le> 4092"
  shows "\<exists>code. read_all f (uninit 8 4096 fs) fs = Inr code \<and> length code = 512 * 8 \<and>
    (\<forall>k < nat (file_size f). code ! k = file_bytes (fs_disk fs) ss ! k)"
proof -
  let ?n = "nat (file_size f)"
  have "0 \<le> file_size f" using assms(2) by (simp add: file_on_def)
  then have n: "int ?n \<le> file_size f" "?n \<le> 4092" using assms(3) by simp_all
  from read_all_ok [OF assms(1,2), of "uninit 8 4096 fs"] n(2) obtain code where
    code: "read_all f (uninit 8 4096 fs) fs = Inr code" "reads_to (uninit 8 4096 fs) 0 (take ?n (file_bytes (fs_disk fs) ss)) code"
    by (auto simp: uninit_def)
  have "length code = 512 * 8" using reads_to_length [OF code(2)] by (simp add: uninit_def)
  moreover have "length (take ?n (file_bytes (fs_disk fs) ss)) = ?n"
    using file_on_room(4) [OF assms(2,1), of 0 ?n] n(1) by (simp add: slice_def)
  then have "code ! k = file_bytes (fs_disk fs) ss ! k" if "k < ?n" for k
    using reads_to_slice [OF code(2)] that by (metis slice_def drop0 nth_take)
  ultimately show ?thesis using code(1) by blast
qed

lemma sys_execve_ok:
  assumes prog: "load_file_cached path (fs_cached (ex_fs s) 2) (ex_fs s) = Inr (FILE_RESULT_SUCCESS, f)"
    "disk_ok (fs_disk (ex_fs s))" "file_on (fs_disk (ex_fs s)) (fcb f) ss" "file_size (fcb f) \<le> 4092"
    and proc: "proc_inv (ex_kernel s)" "get_pid_empty (ex_kernel s) \<noteq> NOT_FOUND"
    and page: "pd_ok (mem (ex_kernel s)) (kernel_pd (ex_kernel s))" "5 \<le> card (free_pages (mem (ex_kernel s)))"
    "unat (ex_swap s) < 2 ^ 29"
  shows "\<exists>s' p pd code. sys_execve path s = Inr s' \<and> p \<notin> set (active (ex_kernel s)) \<and>
    rq (ex_kernel s') = rq (ex_kernel s) @ [p] \<and> tss_eip (tss (tasks (tm (ex_kernel s')) (unat p))) = TEMP_CODE_START \<and>
    tss_cr3 (tss (tasks (tm (ex_kernel s')) (unat p))) = pd \<and>
    fs_disk (ex_fs s') = disk_write (unat (ex_swap s)) code (fs_disk (ex_fs s)) \<and> length code = 512 * 8 \<and>
    (\<forall>k < nat (file_size (fcb f)). code ! k = file_bytes (fs_disk (ex_fs s)) ss ! k) \<and>
    pd_ok (mem (ex_kernel s')) pd \<and> present (entry (ram (mem (ex_kernel s'))) pd (pdi TEMP_CODE_START)) \<and>
    has_addr pd INIT_ESP_VMA (mem (ex_kernel s')) \<and>
    pte (ram (mem (ex_kernel s'))) pd TEMP_CODE_START = SWAP_SECTOR_SET (ex_swap s) \<and>
    0 < card (free_pages (mem (ex_kernel s')))"
proof -
  let ?fs = "ex_fs s" and ?k = "ex_kernel s"
  from code_read [OF prog(2-4)] obtain code where
    code: "read_all (fcb f) (uninit 8 4096 ?fs) ?fs = Inr code" "length code = 512 * 8"
    "\<forall>k < nat (file_size (fcb f)). code ! k = file_bytes (fs_disk ?fs) ss ! k" by blast
  from create_task_ok [OF proc, of TASK_FLAG_KERNEL TEMP_CODE_START INIT_ESP_VMA "0xFF"] obtain k1 where
    k1: "create_task TASK_FLAG_KERNEL TEMP_CODE_START INIT_ESP_VMA 0xFF ?k = Inr (k1, get_pid_empty ?k)"
    "created TASK_FLAG_KERNEL TEMP_CODE_START INIT_ESP_VMA 0xFF (get_pid_empty ?k) ?k k1" "get_pid_empty ?k \<notin> set (active ?k)" by blast
  obtain m0 pd where pd: "p_malloc (mem ?k) = (m0, pd)" by fastforce
  have ok: "pages_ok (mem ?k)" using page(1) by (simp add: pd_ok_def)
  note A = p_malloc_free [OF ok]
  have pdn: "pd \<noteq> -1" using A(1) page(2) pd by simp
  note C = copied_directory [OF page(1) pd pdn]
  have mem1: "mem k1 = copy_pts (kernel_pd ?k) pd m0" "tss_cr3 (tss (tasks (tm k1) (unat (get_pid_empty ?k)))) = pd"
    "tss_eip (tss (tasks (tm k1) (unat (get_pid_empty ?k)))) = TEMP_CODE_START" "rq k1 = rq ?k @ [get_pid_empty ?k]"
    using k1(2) pd by (simp_all add: created_def new_tss_def init_segments_def)
  have "page_used (copy_pts (kernel_pd ?k) pd m0) c = page_used m0 c" for c by (simp add: page_used_def copy_pts_def)
  then have fp: "4 \<le> card (free_pages (mem k1))" using free_pages_cong [of "copy_pts (kernel_pd ?k) pd m0" m0] A(2) page(2) pd by (simp add: mem1(1))
  have "pd_ok (mem k1) pd" "3 \<le> card (free_pages (mem k1))" using C(1) fp by (simp_all add: mem1(1))
  from code_page_prepared [OF this page(3)] obtain m1 ok1 m3 st where
    m3: "set_mmap pd TEMP_CODE_START 0 PAGE_TABLE_FLAG_KERNEL_READ_WRITE (mem k1) = (m1, ok1)"
    "load_memory pd INIT_ESP_VMA PAGE_TABLE_FLAG_KERNEL_READ_WRITE (swap_sector_set pd TEMP_CODE_START (ex_swap s) m1) = (m3, st)"
    "pd_ok m3 pd" "present (entry (ram m3) pd (pdi TEMP_CODE_START))" "has_addr pd INIT_ESP_VMA m3"
    "pte (ram m3) pd TEMP_CODE_START = SWAP_SECTOR_SET (ex_swap s)" "card (free_pages (mem k1)) - 3 \<le> card (free_pages m3)" by blast
  define s' where "s' = s\<lparr>ex_fs := ?fs\<lparr>fs_disk := disk_write (unat (ex_swap s)) code (fs_disk ?fs)\<rparr>,
    ex_kernel := k1\<lparr>mem := m3\<rparr>, ex_swap := ex_swap s + 8\<rparr>"
  have run: "sys_execve path s = Inr s'"
    by (simp add: sys_execve_def Let_def prog(1) code(1) k1(1) mem1(2) m3(1,2) swap_alloc_def vm_of_def s'_def)
  have "0 < card (free_pages m3)" using m3(7) fp by linarith
  then show ?thesis
    using run k1(3) mem1(2-4) code(2,3) m3(3-6)
    by (intro exI [of _ s'] exI [of _ "get_pid_empty ?k"] exI [of _ pd] exI [of _ code]) (simp add: s'_def)
qed

section \<open>Properties\<close>

text \<open>
  Claim C7: \<open>sys_execve\<close> end to end: for a program file of at most 4092 bytes, a free process number
  and five free pages it creates a ready process that starts at 0x80000000, with a mapped stack; and
  when that process runs and faults at its first instruction, the handler maps its code page, which
  then holds the bytes of the file. No other sector of the disk changes but those of the swap area.
\<close>
theorem sys_execve_loads_program:
  assumes prog: "load_file_cached path (fs_cached (ex_fs s) 2) (ex_fs s) = Inr (FILE_RESULT_SUCCESS, f)"
    "disk_ok (fs_disk (ex_fs s))" "file_on (fs_disk (ex_fs s)) (fcb f) ss" "file_size (fcb f) \<le> 4092"
    and proc: "proc_inv (ex_kernel s)" "get_pid_empty (ex_kernel s) \<noteq> NOT_FOUND"
    and page: "pd_ok (mem (ex_kernel s)) (kernel_pd (ex_kernel s))" "5 \<le> card (free_pages (mem (ex_kernel s)))"
    "unat (ex_swap s) < 2 ^ 29"
  shows "\<exists>s' p pd. sys_execve path s = Inr s' \<and> p \<notin> set (active (ex_kernel s)) \<and>
    rq (ex_kernel s') = rq (ex_kernel s) @ [p] \<and> tss_eip (tss (tasks (tm (ex_kernel s')) (unat p))) = TEMP_CODE_START \<and>
    tss_cr3 (tss (tasks (tm (ex_kernel s')) (unat p))) = pd \<and>
    (\<forall>i. i < unat (ex_swap s) \<or> unat (ex_swap s) + 8 \<le> i \<longrightarrow> fs_disk (ex_fs s') i = fs_disk (ex_fs s) i) \<and>
    (\<exists>m. on_page_fault TEMP_CODE_START e (vm_of (s'\<lparr>ex_kernel := (ex_kernel s')\<lparr>mem := (mem (ex_kernel s'))\<lparr>cr3 := pd\<rparr>\<rparr>\<rparr>)) =
        Inr (\<lparr>vm_mm = m, vm_disk = fs_disk (ex_fs s'), swap_counter = ex_swap s'\<rparr>) \<and> has_addr pd INIT_ESP_VMA m \<and>
      (\<forall>k < nat (file_size (fcb f)). has_addr pd (TEMP_CODE_START + of_nat k) m \<and>
        ram m (addr_translate pd (TEMP_CODE_START + of_nat k) m) = file_bytes (fs_disk (ex_fs s)) ss ! k))"
proof -
  from sys_execve_ok [OF assms] obtain s' p pd code where
    s': "sys_execve path s = Inr s'" "p \<notin> set (active (ex_kernel s))" "rq (ex_kernel s') = rq (ex_kernel s) @ [p]"
      "tss_eip (tss (tasks (tm (ex_kernel s')) (unat p))) = TEMP_CODE_START" "tss_cr3 (tss (tasks (tm (ex_kernel s')) (unat p))) = pd"
    and dk: "fs_disk (ex_fs s') = disk_write (unat (ex_swap s)) code (fs_disk (ex_fs s))" "length code = 512 * 8"
      "\<forall>k < nat (file_size (fcb f)). code ! k = file_bytes (fs_disk (ex_fs s)) ss ! k"
    and m: "pd_ok (mem (ex_kernel s')) pd" "present (entry (ram (mem (ex_kernel s'))) pd (pdi TEMP_CODE_START))"
      "has_addr pd INIT_ESP_VMA (mem (ex_kernel s'))"
      "pte (ram (mem (ex_kernel s'))) pd TEMP_CODE_START = SWAP_SECTOR_SET (ex_swap s)"
      "0 < card (free_pages (mem (ex_kernel s')))" by metis
  define vm where "vm = vm_of (s'\<lparr>ex_kernel := (ex_kernel s')\<lparr>mem := (mem (ex_kernel s'))\<lparr>cr3 := pd\<rparr>\<rparr>\<rparr>)"
  have vm: "vm_mm vm = (mem (ex_kernel s'))\<lparr>cr3 := pd\<rparr>" "vm_disk vm = fs_disk (ex_fs s')" "swap_counter vm = ex_swap s'"
    by (simp_all add: vm_def vm_of_def)
  have "free_pages (vm_mm vm) = free_pages (mem (ex_kernel s'))" by (simp add: vm(1) free_pages_def page_used_def)
  then have nf: "snd (p_malloc (vm_mm vm)) \<noteq> -1" using p_malloc_free(1) [of "vm_mm vm"] m(1,5) by (simp add: vm(1) pd_ok_def pages_ok_def)
  obtain m1 a where a: "p_malloc (vm_mm vm) = (m1, a)" by fastforce
  have c: "cr3 (vm_mm vm) = pd" "ram (vm_mm vm) = ram (mem (ex_kernel s'))" by (simp_all add: vm(1))
  have d: "disk_ok (vm_disk vm)" using disk_write_ok [OF prog(2) dk(2)] by (simp add: vm(2) dk(1))
  have al: "aligned TEMP_CODE_START" by (simp add: aligned_def)
  have P: "pd_ok (vm_mm vm) (cr3 (vm_mm vm))" "a \<noteq> -1"
    "present (entry (ram (vm_mm vm)) (cr3 (vm_mm vm)) (pdi TEMP_CODE_START))"
    "pte (ram (vm_mm vm)) (cr3 (vm_mm vm)) TEMP_CODE_START = SWAP_SECTOR_SET (ex_swap s)"
    using m nf a by (simp_all add: c) (simp add: vm(1))
  have pg: "disk_read (vm_disk vm) (unat (ex_swap s)) 8 = code" by (simp add: vm(2) dk(1) disk_read_write_same [OF dk(2)])
  have far: "unat (INIT_ESP_VMA) div 4096 \<noteq> unat TEMP_CODE_START div 4096" by simp
  have hm: "has_addr pd INIT_ESP_VMA (vm_mm vm)" using m(3) by (simp add: has_addr_walk c)
  from on_page_fault_ok [OF P(1,3,4) page(3) a P(2) al d, of e] obtain mm where
    mm: "on_page_fault TEMP_CODE_START e vm = Inr (vm\<lparr>vm_mm := mm\<rparr>)" "has_addr pd INIT_ESP_VMA mm"
    "\<forall>k < 4096. has_addr pd (TEMP_CODE_START + of_nat k) mm \<and> ram mm (addr_translate pd (TEMP_CODE_START + of_nat k) mm) = code ! k"
    unfolding c pg using far hm by blast
  have "on_page_fault TEMP_CODE_START e vm = Inr \<lparr>vm_mm = mm, vm_disk = fs_disk (ex_fs s'), swap_counter = ex_swap s'\<rparr>"
    using vm(2,3) unfolding mm(1) by simp
  moreover have "\<forall>i. i < unat (ex_swap s) \<or> unat (ex_swap s) + 8 \<le> i \<longrightarrow> fs_disk (ex_fs s') i = fs_disk (ex_fs s) i"
    unfolding dk(1) by (intro allI impI disk_write_other) (simp add: dk(2))
  moreover have "nat (file_size (fcb f)) \<le> 4096" using prog(4) by simp
  then have "\<forall>k < nat (file_size (fcb f)). has_addr pd (TEMP_CODE_START + of_nat k) mm \<and>
      ram mm (addr_translate pd (TEMP_CODE_START + of_nat k) mm) = file_bytes (fs_disk (ex_fs s)) ss ! k"
    using mm(3) dk(3) by auto
  ultimately show ?thesis
    using s' mm(2) unfolding vm_def by (intro exI [of _ s'] exI [of _ p] exI [of _ pd] conjI exI [of _ mm])
qed

text \<open>The example kernel with a blank memory, and the disk with the file \<open>usr\<close>.\<close>

definition demo_exec :: exec_state where
  "demo_exec = \<lparr>ex_fs = demo_fs dir_disk,
     ex_kernel = demo_kernel\<lparr>mem := memory_alloc_init (blank_machine 0), kernel_pd := 0x1000\<rparr>, ex_swap = 1030\<rparr>"

lemma demo_exec_ok:
  "proc_inv (ex_kernel demo_exec)" "get_pid_empty (ex_kernel demo_exec) \<noteq> NOT_FOUND"
  "pd_ok (mem (ex_kernel demo_exec)) (kernel_pd (ex_kernel demo_exec))" "5 \<le> card (free_pages (mem (ex_kernel demo_exec)))"
proof -
  have "proc_inv demo_kernel" using demo_inv by (simp add: sched_inv_def)
  then show "proc_inv (ex_kernel demo_exec)" by (simp add: demo_exec_def proc_inv_mem)
  show "get_pid_empty (ex_kernel demo_exec) \<noteq> NOT_FOUND"
    by (simp add: demo_exec_def demo_pid) (simp add: NOT_FOUND_def)
  show "pd_ok (mem (ex_kernel demo_exec)) (kernel_pd (ex_kernel demo_exec))"
    by (simp add: demo_exec_def blank_pd_ok)
  show "5 \<le> card (free_pages (mem (ex_kernel demo_exec)))" using blank_free by (simp add: demo_exec_def)
qed

lemma open_usr:
  "\<exists>f. load_file_cached [117, 115, 114, 47, 0] three_block_file (demo_fs dir_disk) = Inr (FILE_RESULT_SUCCESS, f) \<and> fcb f = demo_usr"
proof -
  let ?c = "[117, 115, 114] :: u8 list" and ?s = "demo_fs dir_disk"
  have "first_entry dir_disk demo_root [1025] [117, 115, 114, 0] = Some 0"
    using dir_disk_ok(3) by (simp add: first_entry_def entries_def) (simp add: demo_root_def demo_usr_def c_str_def)
  then have d: "dir_search_file demo_root [117, 115, 114, 0] ?s = Inr (FILE_RESULT_SUCCESS, Some (demo_usr, 0))"
    using dir_search_ok [of ?s demo_root "[1025]" "[117, 115, 114, 0]"] dir_disk_ok by simp
  obtain f2 where f2: "follow ([] @ [?c]) (three_block_file\<lparr>fcb := root_fcb ?s\<rparr>) ?s = Inr (None, f2)" "fcb f2 = demo_usr"
    using d by (simp add: dir_disk_ok(2))
  have "names_ok ([] @ [?c])" by (simp add: names_ok_def)
  from load_named [OF this f2(1), of "[]"] f2(2) show ?thesis
    by (simp add: opened_def) (simp add: three_block_file_def)
qed

theorem sys_execve_loads_program_witness:
  "\<exists>s' pd m. sys_execve [117, 115, 114, 47, 0] demo_exec = Inr s' \<and>
     on_page_fault TEMP_CODE_START 0 (vm_of (s'\<lparr>ex_kernel := (ex_kernel s')\<lparr>mem := (mem (ex_kernel s'))\<lparr>cr3 := pd\<rparr>\<rparr>\<rparr>)) =
       Inr \<lparr>vm_mm = m, vm_disk = fs_disk (ex_fs s'), swap_counter = ex_swap s'\<rparr> \<and>
     ram m (addr_translate pd (TEMP_CODE_START + of_nat 3) m) = 7"
proof -
  obtain f where f: "load_file_cached [117, 115, 114, 47, 0] (fs_cached (ex_fs demo_exec) 2) (ex_fs demo_exec) =
      Inr (FILE_RESULT_SUCCESS, f)" "fcb f = demo_usr"
    using open_usr by (auto simp: demo_exec_def demo_fs_def)
  have on: "disk_ok (fs_disk (ex_fs demo_exec))" "file_on (fs_disk (ex_fs demo_exec)) (fcb f) [1026]"
    using dir_disk_ok(1) f(2) by (simp_all add: demo_exec_def file_on_def demo_usr_def dir_disk_def)
  have z: "file_size (fcb f) = 10" "unat (ex_swap demo_exec) < 2 ^ 29" using f(2) by (simp_all add: demo_usr_def demo_exec_def)
  have b: "file_bytes (fs_disk (ex_fs demo_exec)) [1026] ! 3 = 7"
    by (simp add: file_bytes_def block_data_def demo_exec_def dir_disk_def set_next_sector_def)
  from sys_execve_loads_program [OF f(1) on _ demo_exec_ok z(2), of 0] obtain s' pd m where
    "sys_execve [117, 115, 114, 47, 0] demo_exec = Inr s'"
    "on_page_fault TEMP_CODE_START 0 (vm_of (s'\<lparr>ex_kernel := (ex_kernel s')\<lparr>mem := (mem (ex_kernel s'))\<lparr>cr3 := pd\<rparr>\<rparr>\<rparr>)) =
       Inr \<lparr>vm_mm = m, vm_disk = fs_disk (ex_fs s'), swap_counter = ex_swap s'\<rparr>"
    and k: "\<forall>k < 10. ram m (addr_translate pd (TEMP_CODE_START + of_nat k) m) = file_bytes (fs_disk (ex_fs demo_exec)) [1026] ! k"
    unfolding z(1) by (auto 0 3)
  moreover have "ram m (addr_translate pd (TEMP_CODE_START + of_nat 3) m) = 7" using spec [OF k, of 3] b by simp
  ultimately show ?thesis by blast
qed

end
