(* ===== verification/Timer.thy ===== *)
theory Timer
  imports Interrupt
begin

text \<open>
  kernel/time/time.c: programming of the interval timer (\<open>CMOS_RTC_hardware_init\<close>, which
  also reprograms the interrupt controllers) and installation of its handler. The handler's
  body, \<open>on_timer\<close>, calls the scheduler and is modelled in theory \<open>Boot\<close>.
\<close>

unbundle bit_operations_syntax

abbreviation LATCH :: u32 where "LATCH \<equiv> 1193180"

definition CMOS_RTC_hardware_init :: "u8 \<Rightarrow> u32 \<Rightarrow> port_trace \<Rightarrow> port_trace res" where
  "CMOS_RTC_hardware_init interrupt_num interval tr =
     (let tr1 = fold (\<lambda>(port, data). outb port data)
        [(0x20, 0x11), (0xA0, 0x11), (0x21, 0x20), (0xA1, 0x28), (0x21, 0x4), (0xA1, 0x2),
         (0x21, 0x1), (0xA1, 0x1), (0x21, 0xFE), (0xA1, 0xFF), (0x43, 0x36)] tr
      in if interval = 0 then Inl Div_Error
         else let tmo = (ucast (LATCH div interval) :: u16)
              in Inr (outb 0x40 (ucast (drop_bit 8 tmo)) (outb 0x40 (ucast (tmo AND 0xFF)) tr1)))"

text \<open>The address of the assembly stub \<open>timer_interrupt_handler\<close> comes from the linker.\<close>

definition time_init :: "u32 \<Rightarrow> interrupt_state \<Rightarrow> interrupt_state res" where
  "time_init timer_interrupt_handler st =
     rbind (CMOS_RTC_hardware_init 0x20 100 (iports st)) (\<lambda>tr.
       Inr (set_idt (of_int TIMER_INTERRUPT) timer_interrupt_handler (st\<lparr>iports := tr\<rparr>)))"

section \<open>Properties\<close>

text \<open>
  The interval timer counts 1193180 times a second and interrupts each time it has counted
  down from the 16-bit value last written to port 0x40, low byte first.
\<close>

definition timer_divisor :: "port_trace \<Rightarrow> nat" where
  "timer_divisor tr = (case map snd (filter (\<lambda>w. fst w = 0x40) (rev tr)) of
     hi # lo # _ \<Rightarrow> 256 * unat hi + unat lo | _ \<Rightarrow> 0)"

lemma join_bytes_u16: "256 * unat (ucast (drop_bit 8 w) :: u8) + unat (ucast (w AND 0xFF) :: u8) = unat w" for w :: u16
proof -
  have w: "w = of_nat (unat w)" by simp
  have b: "unat w < 2 ^ 16" using unsigned_less [of w, where ?'a = nat] by simp
  then have h: "unat w div 256 < 2 ^ 8" by (simp add: div_less_iff_less_mult)
  have "(ucast (drop_bit 8 w) :: u8) = of_nat (unat w div 256)"
    using high_byte_u16 [OF b] w by simp
  moreover have "(ucast (w AND 0xFF) :: u8) = of_nat (unat w)"
    using low_byte_u16 [of w] w by (metis and.commute ucast_of_nat_u32(3))
  ultimately show ?thesis using h by (simp add: unat_of_nat unsigned_ucast_eq take_bit_eq_mod)
qed

text \<open>
  \<open>CMOS_RTC_hardware_init\<close> programs the divisor 1193180 / \<open>interval\<close> as long as
  \<open>interval\<close> is at least 19: its parameter is a frequency in Hertz, not the period in
  milliseconds its comment announces. Below 19 the divisor no longer fits into 16 bits and
  is cut, and 0 divides by zero.
\<close>
theorem timer_divisor_programmed:
  "if interval = 0 then CMOS_RTC_hardware_init num interval tr = Inl Div_Error
   else \<exists>tr'. CMOS_RTC_hardware_init num interval tr = Inr tr' \<and>
     timer_divisor tr' = (1193180 div unat interval) mod 65536 \<and>
     (timer_divisor tr' = 1193180 div unat interval \<longleftrightarrow> 19 \<le> unat interval)"
proof (cases "interval = 0")
  case False
  define q where "q = 1193180 div unat interval"
  define tmo where "tmo = (of_nat q :: u16)"
  have q: "q < 2 ^ 32" unfolding q_def by (rule le_less_trans [OF div_le_dividend]) simp
  have "LATCH div interval = (of_nat 1193180 :: u32) div of_nat (unat interval)" by simp
  also have "\<dots> = of_nat q"
    using False unsigned_less [of interval, where ?'a = nat]
    by (subst of_nat_div_mod_u32) (auto simp: q_def unat_gt_0)
  finally have t: "(ucast (LATCH div interval) :: u16) = tmo" by (simp add: tmo_def)
  have pos: "1 \<le> unat interval" using False by (simp add: Suc_le_eq unat_gt_0)
  have "q < 65536 \<longleftrightarrow> 19 \<le> unat interval"
    using pos unfolding q_def by (simp add: div_less_iff_less_mult) arith
  moreover have "unat tmo = q mod 65536" by (simp add: tmo_def unat_of_nat)
  moreover have "256 * unat (ucast (drop_bit 8 tmo) :: u8) + unat (ucast (tmo AND 0xFF) :: u8) = unat tmo"
    by (rule join_bytes_u16)
  ultimately have "256 * unat (ucast (drop_bit 8 tmo) :: u8) + unat (ucast (tmo AND 0xFF) :: u8) = q mod 65536"
    "q mod 65536 = q \<longleftrightarrow> 19 \<le> unat interval"
    by (auto simp: mod_eq_self_iff_div_eq_0 div_eq_0_iff)
  then show ?thesis
    unfolding q_def [symmetric] using False
    by (simp add: CMOS_RTC_hardware_init_def Let_def t timer_divisor_def outb_def)
qed (simp add: CMOS_RTC_hardware_init_def Let_def)

end
