(* ===== verification/Keyboard.thy ===== *)
theory Keyboard
  imports Console Timer
begin

text \<open>
  kernel/dev/keyboard.c: from scan codes to characters on the console. The state has the
  keyboard's own record, the console it prints on and the interrupt controllers it
  acknowledges; console and controllers keep a trace of the writes to their own ports.
\<close>

unbundle bit_operations_syntax

record keyboard_state =
  caps_pressed :: bool
  left_shift_pressed :: bool
  right_shift_pressed :: bool
  ctrl_pressed :: bool
  left_alt_pressed :: bool
  right_alt_pressed :: bool

record ascii_case_t =
  is_valid :: bool
  normal_ascii_code :: u8
  caps_ascii_code :: u8

record keyboard =
  kbd :: keyboard_state
  screen :: console
  pic :: interrupt_state

abbreviation KEY_CAPS :: u8 where "KEY_CAPS \<equiv> 0x3A"
abbreviation KEY_LSHIFT :: u8 where "KEY_LSHIFT \<equiv> 0x2A"
abbreviation KEY_BACKSPACE :: u8 where "KEY_BACKSPACE \<equiv> 0xE"

section \<open>The table and the handlers\<close>

text \<open>The initialised entries of the table; the others are zero.\<close>

definition scan_rows :: "(bool \<times> u8 \<times> u8) list" where
  "scan_rows = [
     (False, 32, 32), (False, 32, 32), (True, 49, 33), (True, 50, 64), (True, 51, 35), (True, 52, 36),
     (True, 53, 37), (True, 54, 94), (True, 55, 38), (True, 56, 42), (True, 57, 40), (True, 48, 41),
     (True, 45, 95), (True, 61, 43), (False, 127, 127), (True, 9, 9), (True, 113, 81), (True, 119, 87),
     (True, 101, 69), (True, 114, 82), (True, 116, 84), (True, 121, 89), (True, 117, 85), (True, 105, 73),
     (True, 111, 79), (True, 112, 80), (True, 91, 123), (True, 93, 125), (True, 10, 10), (False, 32, 32),
     (True, 97, 65), (True, 115, 66), (True, 100, 68), (True, 102, 70), (True, 103, 71), (True, 104, 72),
     (True, 106, 74), (True, 107, 75), (True, 108, 76), (True, 59, 58), (True, 39, 34), (True, 96, 126),
     (False, 32, 32), (True, 92, 124), (True, 122, 90), (True, 120, 88), (True, 99, 67), (True, 118, 86),
     (True, 98, 66), (True, 110, 78), (True, 109, 77), (True, 44, 60), (True, 46, 62), (True, 47, 63),
     (False, 32, 32), (False, 32, 32), (False, 32, 32), (True, 32, 32), (False, 32, 32), (False, 32, 32),
     (False, 32, 32), (False, 32, 32), (False, 32, 32), (False, 32, 32)]"

definition scan_to_ascii :: "u8 \<Rightarrow> ascii_case_t" where
  "scan_to_ascii i =
     (if unat i < length scan_rows
      then (case scan_rows ! unat i of (v, n, c) \<Rightarrow> \<lparr>is_valid = v, normal_ascii_code = n, caps_ascii_code = c\<rparr>)
      else \<lparr>is_valid = False, normal_ascii_code = 0, caps_ascii_code = 0\<rparr>)"

definition keyboard_state_init :: "keyboard_state \<Rightarrow> keyboard_state" where
  "keyboard_state_init p = p\<lparr>left_alt_pressed := False, right_alt_pressed := False, caps_pressed := False,
     left_shift_pressed := False, right_shift_pressed := False, ctrl_pressed := False\<rparr>"

definition is_usual_key :: "u8 \<Rightarrow> bool" where
  "is_usual_key scan_code = is_valid (scan_to_ascii (scan_code AND 0x7F))"

definition should_enable_upper_case :: "keyboard \<Rightarrow> bool" where
  "should_enable_upper_case k \<longleftrightarrow> caps_pressed (kbd k) \<noteq> left_shift_pressed (kbd k)"

definition on_usual_key_pressed :: "u8 \<Rightarrow> keyboard \<Rightarrow> keyboard" where
  "on_usual_key_pressed ascii_code k = k\<lparr>screen := putchar (scast ascii_code) (screen k)\<rparr>"

definition on_usual_key_released :: "u8 \<Rightarrow> keyboard \<Rightarrow> keyboard" where
  "on_usual_key_released ascii_code k = k"

definition toggle_shift :: "keyboard \<Rightarrow> keyboard" where
  "toggle_shift k = k\<lparr>kbd := (kbd k)\<lparr>left_shift_pressed := \<not> left_shift_pressed (kbd k)\<rparr>\<rparr>"

definition toggle_caps :: "keyboard \<Rightarrow> keyboard" where
  "toggle_caps k = k\<lparr>kbd := (kbd k)\<lparr>caps_pressed := \<not> caps_pressed (kbd k)\<rparr>\<rparr>"

definition on_key :: "u8 \<Rightarrow> keyboard \<Rightarrow> keyboard" where
  "on_key scan_code k =
     (let stripped = scan_code AND 0x7F;
          real_key = (if should_enable_upper_case k then caps_ascii_code (scan_to_ascii stripped)
                      else normal_ascii_code (scan_to_ascii stripped))
      in if scan_code AND 0x80 \<noteq> 0 then
           if is_usual_key scan_code then on_usual_key_released real_key k
           else if stripped = KEY_LSHIFT then toggle_shift k else k
         else
           if is_usual_key scan_code then on_usual_key_pressed real_key k
           else if stripped = KEY_BACKSPACE then k\<lparr>screen := print_back (screen k)\<rparr>
           else if stripped = KEY_CAPS then toggle_caps k
           else if stripped = KEY_LSHIFT then toggle_shift k else k)"

definition on_keyboard :: "port_env \<Rightarrow> keyboard \<Rightarrow> keyboard" where
  "on_keyboard env k =
     (let k1 = (if inb env 0x64 (iports (pic k)) AND 1 \<noteq> 0 then on_key (inb env 0x60 (iports (pic k))) k else k)
      in k1\<lparr>pic := (pic k1)\<lparr>iports := pic_send_eoi KEYBOARD_INTERRUPT (iports (pic k1))\<rparr>\<rparr>)"

definition keyboard_init :: "port_env \<Rightarrow> u32 \<Rightarrow> keyboard \<Rightarrow> keyboard" where
  "keyboard_init env keyboard_interrupt_handler k =
     (let st = set_idt (of_int KEYBOARD_INTERRUPT) keyboard_interrupt_handler (pic k) in
      k\<lparr>kbd := keyboard_state_init (kbd k),
        pic := st\<lparr>iports := interrupt_enable env KEYBOARD_INTERRUPT (iports st)\<rparr>\<rparr>)"

text \<open>\<open>tty_init\<close> of kernel/dev/console.c, which clears the screen and calls \<open>keyboard_init\<close>.\<close>

definition tty_init :: "port_env \<Rightarrow> u32 \<Rightarrow> keyboard \<Rightarrow> keyboard" where
  "tty_init env keyboard_interrupt_handler k =
     keyboard_init env keyboard_interrupt_handler (k\<lparr>screen := cls (screen k)\<rparr>)"

section \<open>What was typed\<close>

text \<open>
  The reference is the US keyboard and not the table of the code: runs of keys with consecutive scan codes, the characters on
  them without and with shift. Shift is held from the make code of the left shift key to its break code, every make code of
  caps lock turns it over, and caps lock acts on letters only.
\<close>

definition us_rows :: "(nat \<times> string \<times> string) list" where
  "us_rows = [
     (0x02, ''1234567890-='', ''!@#$%^&*()_+''),
     (0x0F, [CHR 0x09], [CHR 0x09]),
     (0x10, ''qwertyuiop[]'', ''QWERTYUIOP{}''),
     (0x1C, [CHR 0x0A], [CHR 0x0A]),
     (0x1E, ''asdfghjkl;'' @ [CHR 0x27, CHR 0x60], ''ASDFGHJKL:'' @ [CHR 0x22, CHR 0x7E]),
     (0x2B, [CHR 0x5C] @ ''zxcvbnm,./'', [CHR 0x7C] @ ''ZXCVBNM<>?''),
     (0x39, '' '', '' '')]"

definition us_key :: "u8 \<Rightarrow> (char \<times> char) option" where
  "us_key c = map_option (\<lambda>(s, p, q). (p ! (unat c - s), q ! (unat c - s)))
     (List.find (\<lambda>(s, p, q). s \<le> unat c \<and> unat c < s + length p) us_rows)"

definition letter :: "char \<Rightarrow> bool" where
  "letter p \<longleftrightarrow> 97 \<le> (of_char p :: nat) \<and> (of_char p :: nat) \<le> 122"

definition us_char :: "bool \<Rightarrow> bool \<Rightarrow> char \<times> char \<Rightarrow> u8" where
  "us_char caps shift = (\<lambda>(p, q). of_char (if (if letter p then caps \<noteq> shift else shift) then q else p))"

fun us_text :: "bool \<Rightarrow> bool \<Rightarrow> u8 list \<Rightarrow> u8 list" where
  "us_text caps shift [] = []"
| "us_text caps shift (c # cs) =
     (if c = 0x2A then us_text caps True cs
      else if c = 0xAA then us_text caps False cs
      else if c = 0x3A then us_text (\<not> caps) shift cs
      else if c = 0x0E then 8 # us_text caps shift cs
      else (case us_key c of Some k \<Rightarrow> us_char caps shift k # us_text caps shift cs | None \<Rightarrow> us_text caps shift cs))"

text \<open>
  What the code gets right: the left shift key does not repeat; the right one and the keys with a prefix are not used; no
  capital \<open>s\<close>; and with caps lock on, only letters and keys that do not depend on shift.
\<close>

fun plain_typing :: "bool \<Rightarrow> bool \<Rightarrow> u8 list \<Rightarrow> bool" where
  "plain_typing caps shift [] = True"
| "plain_typing caps shift (c # cs) =
     (if c = 0x2A then \<not> shift \<and> plain_typing caps True cs
      else if c = 0xAA then shift \<and> plain_typing caps False cs
      else if c = 0x3A then plain_typing (\<not> caps) shift cs
      else c \<notin> {0x36, 0xB6, 0xE0, 0xE1} \<and> \<not> (c = 0x1F \<and> caps \<noteq> shift) \<and>
        (caps \<longrightarrow> (case us_key c of Some (p, q) \<Rightarrow> letter p \<or> p = q | None \<Rightarrow> True)) \<and> plain_typing caps shift cs)"

text \<open>The keyboard controller when a key is pressed or released: it has data, and the data is the scan code.\<close>

definition delivers :: "port_env \<Rightarrow> u8 \<Rightarrow> bool" where
  "delivers env c \<longleftrightarrow> (\<forall>tr. inb env 0x64 tr AND 1 \<noteq> 0 \<and> inb env 0x60 tr = c)"

section \<open>Lemmas\<close>

lemma strip_mod: "unat (c AND 0x7F) = unat c mod 128" for c :: u8
proof -
  have "c AND 0x7F = take_bit 7 c" by (simp add: take_bit_eq_mask mask_eq_exp_minus_1)
  then show ?thesis by (simp add: take_bit_eq_mod unat_mod)
qed

lemma make_code_iff: "c AND 0x80 = 0 \<longleftrightarrow> c < 0x80" for c :: u8
proof -
  have p: "(0x80 :: u8) = 2 ^ 7" by simp
  have "bit (0x80 :: u8) k \<longleftrightarrow> k = 7" for k unfolding p by (simp only: bit_u8_exp) auto
  then have "c AND 0x80 = 0 \<longleftrightarrow> \<not> bit c 7"
    using word_nonzero_iff [of "c AND 0x80"] by (auto simp: bit_and_iff)
  also have "\<dots> \<longleftrightarrow> even (unat c div 128)"
    using bit_unsigned_iff [of c 7, where ?'a = nat] by (simp add: bit_iff_odd)
  also have "\<dots> \<longleftrightarrow> unat c < 128"
    using unsigned_less [of c, where ?'a = nat] by (cases "unat c < 128") (auto simp: div_if)
  finally show ?thesis by (simp add: word_less_nat_alt)
qed

lemma make_code_strip: "c < 0x80 \<Longrightarrow> c AND 0x7F = c" for c :: u8
  by (simp add: word_unat_eq_iff strip_mod word_less_nat_alt)

lemma break_shift: "\<not> c < 0x80 \<Longrightarrow> c AND 0x7F = 0x2A \<longleftrightarrow> c = 0xAA" for c :: u8
  using unsigned_less [of c, where ?'a = nat]
  by (auto simp: word_unat_eq_iff strip_mod word_less_nat_alt mod_if)

lemma special_keys:
  "\<not> is_usual_key 0x2A" "\<not> is_usual_key 0xAA" "\<not> is_usual_key 0x3A" "\<not> is_usual_key 0xE"
  by (simp_all add: is_usual_key_def scan_to_ascii_def scan_rows_def)

lemma on_key_cases:
  "on_key 0x2A k = toggle_shift k" "on_key 0xAA k = toggle_shift k" "on_key 0x3A k = toggle_caps k"
  "on_key 0xE k = k\<lparr>screen := putchar 8 (screen k)\<rparr>"
  "\<not> c < 0x80 \<Longrightarrow> c \<noteq> 0xAA \<Longrightarrow> on_key c k = k"
  "c < 0x80 \<Longrightarrow> is_usual_key c \<Longrightarrow> on_key c k = k\<lparr>screen := putchar (scast (if should_enable_upper_case k
     then caps_ascii_code (scan_to_ascii c) else normal_ascii_code (scan_to_ascii c))) (screen k)\<rparr>"
  "c < 0x80 \<Longrightarrow> \<not> is_usual_key c \<Longrightarrow> c \<notin> {0x2A, 0x3A, 0xE} \<Longrightarrow> on_key c k = k"
  by (simp_all add: on_key_def special_keys make_code_iff make_code_strip break_shift Let_def
      on_usual_key_released_def on_usual_key_pressed_def putchar_def)

lemma toggle_simps [simp]:
  "screen (toggle_shift k) = screen k" "screen (toggle_caps k) = screen k"
  "caps_pressed (kbd (toggle_shift k)) = caps_pressed (kbd k)"
  "left_shift_pressed (kbd (toggle_shift k)) = (\<not> left_shift_pressed (kbd k))"
  "caps_pressed (kbd (toggle_caps k)) = (\<not> caps_pressed (kbd k))"
  "left_shift_pressed (kbd (toggle_caps k)) = left_shift_pressed (kbd k)"
  by (simp_all add: toggle_shift_def toggle_caps_def)

text \<open>The table of the code has the characters of the keyboard, but for one capital.\<close>

lemma table_all:
  "list_all (\<lambda>n. case us_key (of_nat n) of None \<Rightarrow> \<not> is_usual_key (of_nat n)
     | Some (p, q) \<Rightarrow> is_usual_key (of_nat n) \<and> normal_ascii_code (scan_to_ascii (of_nat n)) = of_char p \<and>
         (n = 0x1F \<or> caps_ascii_code (scan_to_ascii (of_nat n)) = of_char q)) [0..<128]"
  by code_simp

lemma table_us:
  assumes "c < 0x80"
  shows "us_key c = None \<Longrightarrow> \<not> is_usual_key c"
    "us_key c = Some (p, q) \<Longrightarrow> is_usual_key c \<and> normal_ascii_code (scan_to_ascii c) = of_char p \<and>
      (c = 0x1F \<or> caps_ascii_code (scan_to_ascii c) = of_char q)"
proof -
  have "unat c < 128" using assms by (simp add: word_less_nat_alt)
  moreover have u: "of_nat (unat c) = c" by (simp add: word_unat_eq_iff take_bit_nat_eq_self)
  moreover have "unat c = 0x1F \<longleftrightarrow> c = 0x1F" by (simp add: word_unat_eq_iff)
  ultimately have "case us_key c of None \<Rightarrow> \<not> is_usual_key c
     | Some (p, q) \<Rightarrow> is_usual_key c \<and> normal_ascii_code (scan_to_ascii c) = of_char p \<and>
         (c = 0x1F \<or> caps_ascii_code (scan_to_ascii c) = of_char q)"
    using bspec [OF table_all [unfolded list_all_iff], of "unat c"] by (simp add: u cong del: option.case_cong_weak)
  then show "us_key c = None \<Longrightarrow> \<not> is_usual_key c"
    "us_key c = Some (p, q) \<Longrightarrow> is_usual_key c \<and> normal_ascii_code (scan_to_ascii c) = of_char p \<and>
      (c = 0x1F \<or> caps_ascii_code (scan_to_ascii c) = of_char q)" by simp_all
qed

lemma us_key_high: "\<not> c < 0x80 \<Longrightarrow> us_key c = None" "us_key 0x1F = Some (CHR ''s'', CHR ''S'')"
  by (simp_all add: us_key_def us_rows_def word_less_nat_alt)

lemma usual_key_us:
  assumes "c < 0x80" "us_key c = Some (p, q)" "\<not> (c = 0x1F \<and> caps \<noteq> shift)" "caps \<longrightarrow> letter p \<or> p = q"
  shows "(if caps \<noteq> shift then caps_ascii_code (scan_to_ascii c) else normal_ascii_code (scan_to_ascii c)) = us_char caps shift (p, q)"
  using table_us(2) [OF assms(1,2)] assms(3,4) by (auto simp: us_char_def)

lemma on_keyboard_delivers:
  "delivers env c \<Longrightarrow> on_keyboard env k = (on_key c k)\<lparr>pic := (pic (on_key c k))\<lparr>iports := pic_send_eoi KEYBOARD_INTERRUPT (iports (pic (on_key c k)))\<rparr>\<rparr>"
  by (simp add: on_keyboard_def delivers_def Let_def)

lemma on_key_pic: "pic (on_key c k) = pic k"
  by (simp add: on_key_def on_usual_key_pressed_def on_usual_key_released_def toggle_shift_def toggle_caps_def Let_def)

text \<open>One key, with what it does to the rest of the text.\<close>

lemma key_typed:
  assumes "plain_typing (caps_pressed (kbd k)) (left_shift_pressed (kbd k)) (c # cs)" "delivers env c"
  defines "k' \<equiv> on_keyboard env k"
  shows "plain_typing (caps_pressed (kbd k')) (left_shift_pressed (kbd k')) cs"
    "console_write (us_text (caps_pressed (kbd k)) (left_shift_pressed (kbd k)) (c # cs)) (screen k) =
     console_write (us_text (caps_pressed (kbd k')) (left_shift_pressed (kbd k')) cs) (screen k')"
    "iports (pic k') = pic_send_eoi KEYBOARD_INTERRUPT (iports (pic k))"
proof -
  have k': "kbd k' = kbd (on_key c k)" "screen k' = screen (on_key c k)"
    by (simp_all add: k'_def on_keyboard_delivers [OF assms(2)])
  show "iports (pic k') = pic_send_eoi KEYBOARD_INTERRUPT (iports (pic k))"
    by (simp add: k'_def on_keyboard_delivers [OF assms(2)] on_key_pic)
  consider "c = 0x2A" | "c = 0xAA" | "c = 0x3A" | "c = 0xE"
    | "\<not> c < 0x80" "c \<notin> {0x2A, 0xAA, 0x3A, 0xE}"
    | p q where "c < 0x80" "us_key c = Some (p, q)" "c \<notin> {0x2A, 0xAA, 0x3A, 0xE}"
    | "c < 0x80" "us_key c = None" "c \<notin> {0x2A, 0xAA, 0x3A, 0xE}"
    by (cases "us_key c") auto
  then have "plain_typing (caps_pressed (kbd k')) (left_shift_pressed (kbd k')) cs \<and>
    console_write (us_text (caps_pressed (kbd k)) (left_shift_pressed (kbd k)) (c # cs)) (screen k) =
     console_write (us_text (caps_pressed (kbd k')) (left_shift_pressed (kbd k')) cs) (screen k')"
  proof cases
    case (6 p q)
    have "is_usual_key c" using table_us(2) [OF 6(1,2)] by simp
    moreover have "(if caps_pressed (kbd k) \<noteq> left_shift_pressed (kbd k) then caps_ascii_code (scan_to_ascii c)
        else normal_ascii_code (scan_to_ascii c)) = us_char (caps_pressed (kbd k)) (left_shift_pressed (kbd k)) (p, q)"
      using assms(1) 6(2,3) by (intro usual_key_us [OF 6(1,2)]) (auto split: if_splits)
    ultimately show ?thesis
      using assms(1) 6 by (simp add: k' on_key_cases(6) should_enable_upper_case_def console_write_def)
  next
    case 7
    then show ?thesis using assms(1) table_us(1) [OF 7(1,2)] by (simp add: k' on_key_cases(7))
  next
    case 5
    then show ?thesis using assms(1) us_key_high(1) [OF 5(1)] by (simp add: k' on_key_cases(5))
  qed (use assms(1) in \<open>simp_all add: k' on_key_cases console_write_def\<close>)
  then show "plain_typing (caps_pressed (kbd k')) (left_shift_pressed (kbd k')) cs"
    "console_write (us_text (caps_pressed (kbd k)) (left_shift_pressed (kbd k)) (c # cs)) (screen k) =
     console_write (us_text (caps_pressed (kbd k')) (left_shift_pressed (kbd k')) cs) (screen k')" by simp_all
qed

section \<open>Properties\<close>

text \<open>
  Claim C40: typing on a US keyboard puts the text on the screen: when the keyboard controller delivers the scan codes one interrupt after
  the other, \<open>on_keyboard\<close> prints the characters on the keys, shifted while the left shift key is held, letters also with caps lock, and
  acknowledges every interrupt. Excluded is what the code gets wrong or does not support (\<open>plain_typing\<close>): a
  capital \<open>s\<close>, for which the table has \<open>B\<close>; keys other than letters while caps lock is on, which the code shifts as well; a shift key
  that repeats; the right shift key and keys with a prefix.
\<close>
theorem keyboard_types_text:
  assumes "list_all2 delivers envs codes" "plain_typing (caps_pressed (kbd k)) (left_shift_pressed (kbd k)) codes"
  shows "screen (fold on_keyboard envs k) =
      console_write (us_text (caps_pressed (kbd k)) (left_shift_pressed (kbd k)) codes) (screen k) \<and>
    iports (pic (fold on_keyboard envs k)) = (pic_send_eoi KEYBOARD_INTERRUPT ^^ length codes) (iports (pic k))"
  using assms
proof (induction envs codes arbitrary: k rule: list_all2_induct)
  case (Cons env envs c cs)
  note K = key_typed [OF Cons.prems Cons.hyps(1)]
  from Cons.IH [OF K(1)] show ?case by (simp add: K(2,3) [symmetric] funpow_swap1)
qed (simp add: console_write_def)

theorem keyboard_types_text_witness:
  "\<forall>c p. screen (fold on_keyboard (map (\<lambda>c tr port. if port = 0x64 then 0x1D else c) [0x2A, 0x23, 0xA3, 0xAA, 0x17, 0x02])
     \<lparr>kbd = \<lparr>caps_pressed = False, left_shift_pressed = False, right_shift_pressed = False,
         ctrl_pressed = False, left_alt_pressed = False, right_alt_pressed = False\<rparr>, screen = c, pic = p\<rparr>)
     = console_write (map of_char ''Hi1'') c"
proof (intro allI)
  fix c p
  let ?k = "\<lparr>kbd = \<lparr>caps_pressed = False, left_shift_pressed = False, right_shift_pressed = False,
         ctrl_pressed = False, left_alt_pressed = False, right_alt_pressed = False\<rparr>, screen = c, pic = p\<rparr>"
  let ?e = "\<lambda>(c :: u8) (tr :: port_trace) (port :: u16). if port = 0x64 then 0x1D else c"
  have d: "delivers (?e x) x" for x
  proof -
    have "(0x1D :: u8) AND 1 \<noteq> 0" by simp
    then show ?thesis by (simp add: delivers_def inb_def)
  qed
  have "list_all2 delivers (map ?e codes) codes" for codes
    using d by (simp add: list.rel_map(1) list_all2_same)
  from keyboard_types_text [OF this, of ?k "[0x2A, 0x23, 0xA3, 0xAA, 0x17, 0x02]"]
  show "screen (fold on_keyboard (map ?e [0x2A, 0x23, 0xA3, 0xAA, 0x17, 0x02]) ?k) = console_write (map of_char ''Hi1'') c"
    by (simp add: us_key_def us_rows_def us_char_def letter_def)
qed

text \<open>
  Caps lock on the other keys: the code shifts them as well, so that the key of \<open>1\<close> prints \<open>!\<close>.
\<close>

theorem caps_lock_shifts_digits:
  "caps_pressed (kbd k) \<Longrightarrow> \<not> left_shift_pressed (kbd k) \<Longrightarrow> screen (on_key 0x02 k) = putchar 33 (screen k)"
  by (simp add: on_key_cases(6) should_enable_upper_case_def is_usual_key_def scan_to_ascii_def scan_rows_def)

text \<open>
  A shift key that repeats (a held key sends its make code again and again) leaves
  the shift state inverted after it has been released: two make codes and a break code turn
  \<open>left_shift_pressed\<close> into its opposite.
\<close>
theorem keyboard_shift_repeat_inverts:
  "left_shift_pressed (kbd (fold on_key [0x2A, 0x2A, 0xAA] k)) = (\<not> left_shift_pressed (kbd k))"
  by (simp add: on_key_cases)

text \<open>
  The table's capital letters: of the keys that print a small letter, exactly one
  does not print the same letter as a capital with shift or caps lock: 0x1F, the key of
  \<open>s\<close>, whose capital is given as \<open>B\<close>.
\<close>
theorem scan_table_capitals:
  "filter (\<lambda>i. 97 \<le> normal_ascii_code (scan_to_ascii (of_nat i)) \<and>
       normal_ascii_code (scan_to_ascii (of_nat i)) \<le> 122 \<and>
       caps_ascii_code (scan_to_ascii (of_nat i)) \<noteq> normal_ascii_code (scan_to_ascii (of_nat i)) - 32) [0..<256]
     = [0x1F]"
  by code_simp

end
