(* ===== verification/Semaphore.thy ===== *)
theory Semaphore
  imports Sched_Safety
begin

text \<open>
  kernel/proc/semaphore.c. A process that has to wait is put into the queue of the
  semaphore and into the one blocked queue of the scheduler; \<open>signal\<close> takes it out of both.
  \<open>pid_queue_find\<close> answers with the process number instead of its index, so that
  \<open>pid_queue_delete\<close> is called with an index that has nothing to do with the process: the
  theorems say when this goes well and when it does not.
\<close>

section \<open>Operations\<close>

record semaphore_t =
  sem_count :: u16
  blocked_pids :: pid_queue_t

text \<open>\<open>count\<close> is an \<open>int16_t\<close>: \<open>count < 0\<close> is the signed comparison.\<close>

definition wait :: "semaphore_t \<Rightarrow> kernel \<Rightarrow> (semaphore_t \<times> kernel) res" where
  "wait s k =
     (let s1 = s\<lparr>sem_count := sem_count s - 1\<rparr> in
      if sint (sem_count s1) < 0 then
        rbind (pid_enqueue (blocked_pids s1) (pid_running (tm k))) (\<lambda>q.
          rbind (schedule REASON_TASK_BLOCKED k) (\<lambda>k1. Inr (s1\<lparr>blocked_pids := q\<rparr>, k1)))
      else Inr (s1, k))"

definition signal :: "semaphore_t \<Rightarrow> kernel \<Rightarrow> (semaphore_t \<times> kernel) res" where
  "signal s k =
     (let s1 = s\<lparr>sem_count := sem_count s + 1\<rparr> in
      rbind (pid_dequeue (blocked_pids s1)) (\<lambda>(q, pid_wake_up).
        let s2 = s1\<lparr>blocked_pids := q\<rparr> in
        if pid_wake_up \<noteq> NOT_FOUND then
          rbind (pid_queue_find (pid_queue_blocked (tm k)) pid_wake_up) (\<lambda>i.
            rbind (pid_queue_delete (pid_queue_blocked (tm k)) i) (\<lambda>b.
              if i = NOT_FOUND then Inl Hang
              else rbind (set_task_state pid_wake_up STATE_READY (put_blocked b k)) (\<lambda>k2. Inr (s2, k2))))
        else Inr (s2, k)))"

definition semaphore_init :: "u16 \<Rightarrow> semaphore_t \<Rightarrow> semaphore_t" where
  "semaphore_init count s = s\<lparr>sem_count := count, blocked_pids := pid_queue_init (blocked_pids s)\<rparr>"

section \<open>One semaphore\<close>

text \<open>
  As long as there is one semaphore, its queue and the blocked queue hold the same processes
  in the same order, and the count says how many they are.
\<close>

definition sem_inv :: "semaphore_t \<Rightarrow> kernel \<Rightarrow> bool" where
  "sem_inv s k \<longleftrightarrow> wf_queue (blocked_pids s) \<and> q_list (blocked_pids s) = bq k \<and>
     int (length (bq k)) = max 0 (- sint (sem_count s))"

lemma sint_dec: "- 32768 < sint c \<Longrightarrow> sint (c - 1) = sint c - 1" for c :: u16
proof -
  assume "- 32768 < sint c"
  moreover have "sint c < 32768" using sint_lt [of c] by simp
  ultimately show ?thesis using signed_take_bit_int_eq_self [of 15 "sint c - 1"] by (simp add: sint_word_ariths)
qed

lemma sint_inc: "sint c < 32767 \<Longrightarrow> sint (c + 1) = sint c + 1" for c :: u16
proof -
  assume "sint c < 32767"
  moreover have "- 32768 \<le> sint c" using sint_ge [of c] by simp
  ultimately show ?thesis using signed_take_bit_int_eq_self [of 15 "sint c + 1"] by (simp add: sint_word_ariths)
qed

lemma wait_ok:
  assumes "sched_inv i j k" "sem_inv s k" "pid_running (tm k) \<notin> {NOT_FOUND, i, j}" "- 32768 < sint (sem_count s)"
  shows "\<exists>s' k'. wait s k = Inr (s', k') \<and> sched_inv i j k' \<and> sem_inv s' k' \<and>
    sint (sem_count s') = sint (sem_count s) - 1 \<and> sq k' = sq k \<and>
    (if 0 < sint (sem_count s) then k' = k
     else bq k' = bq k @ [pid_running (tm k)] \<and> pid_running (tm k') # rq k' = rq k)"
proof (cases "0 < sint (sem_count s)")
  case True
  then show ?thesis using assms by (simp add: wait_def Let_def sint_dec sem_inv_def)
next
  case False
  let ?r = "pid_running (tm k)"
  from assms(2) have S: "wf_queue (blocked_pids s)" "q_list (blocked_pids s) = bq k"
    "int (length (bq k)) = max 0 (- sint (sem_count s))" by (simp_all add: sem_inv_def)
  have "proc_inv k" using assms(1) by (simp add: sched_inv_def)
  from active_room [OF this] have "length (q_list (blocked_pids s)) < 8191" by (simp add: S(2) active_def)
  with S(1) obtain q where q: "pid_enqueue (blocked_pids s) ?r = Inr q" "wf_queue q" "q_list q = bq k @ [?r]"
    using pq.enq_law [of "blocked_pids s" ?r] S(2) by auto
  have "switch_inv REASON_TASK_BLOCKED i j k" using assms by (intro switch_invI) simp_all
  from schedule_inv [OF this] obtain k' x xs where
    k': "schedule REASON_TASK_BLOCKED k = Inr k'" "rq k = x # xs" "switched REASON_TASK_BLOCKED x xs k k'" "sched_inv i j k'"
    by auto
  have l: "bq k' = bq k @ [?r]" "sq k' = sq k" "rq k' = xs" "pid_running (tm k') = x"
    using k'(3) assms(3) by (simp_all add: switched_def put_when_def running_list_def)
  have "int (length (bq k')) = int (length (bq k)) + 1" by (simp only: l length_append) simp
  then have "sem_inv (s\<lparr>sem_count := sem_count s - 1, blocked_pids := q\<rparr>) k'"
    using False S(3) assms(4) q by (simp add: sem_inv_def l(1) sint_dec)
  then show ?thesis
    using False assms(4) k' q(1) l by (simp add: wait_def Let_def sint_dec)
qed

lemma delete_first:
  assumes "wf_queue q" "head q = 0" "q_list q = x # xs" "unat i < 8192" "Suc (length xs) < unat i"
  obtains q' where "pid_queue_delete q i = Inr q'" "wf_queue q'" "head q' = 0" "q_list q' = xs"
proof -
  have "tail q \<noteq> 0" using assms(1-3) qlen_head_0 [of q] by (auto simp: q_list_def)
  then show ?thesis
    using that pid_queue_delete_ok [OF assms(1,4)] assms by (metis delete_effect_def length_Cons list.distinct(1)
      list.sel(3) nless_le not_less_iff_gr_or_eq ring_at_0 ring_dist_at ring_at_if add_0 unat_0 less_imp_le zero_less_numeral)
qed

lemma signal_empty:
  assumes "sem_inv s k" "bq k = []"
  shows "\<exists>s'. signal s k = Inr (s', k) \<and> q_list (blocked_pids s') = [] \<and> wf_queue (blocked_pids s') \<and>
    sem_count s' = sem_count s + 1"
  using assms pq.deq_empty [of "blocked_pids s"] by (simp add: signal_def sem_inv_def Let_def)

text \<open>
  Waking the longest waiting process goes well when its number exceeds the number of blocked
  processes: the index is then outside the blocked queue, and the first entry is removed.
\<close>

lemma signal_ok:
  assumes "sched_inv i j k" "sem_inv s k" "bq k = x # xs" "length (bq k) < unat x" "sint (sem_count s) < 32767"
  shows "\<exists>s' k'. signal s k = Inr (s', k') \<and> sched_inv i j k' \<and> sem_inv s' k' \<and>
    sint (sem_count s') = sint (sem_count s) + 1 \<and> bq k' = xs \<and> rq k' = rq k @ [x] \<and> sq k' = sq k \<and>
    pid_running (tm k') = pid_running (tm k) \<and> (\<forall>p. counter_of k' p = counter_of k p)"
proof -
  note I = sched_invD [OF assms(1)]
  from assms(2) have S: "wf_queue (blocked_pids s)" "q_list (blocked_pids s) = x # xs"
    "int (length (bq k)) = max 0 (- sint (sem_count s))" by (simp_all add: sem_inv_def assms(3))
  obtain q where q: "pid_dequeue (blocked_pids s) = Inr (q, x)" "wf_queue q" "q_list q = xs"
    using pq.deq_law [OF S(1,2)] by blast
  have xb: "unat x < 8192" using I(4) [of x] by (simp add: active_def assms(3))
  note nf = NOT_FOUND_range [OF xb]
  have B: "wf_queue (pid_queue_blocked (tm k))" "head (pid_queue_blocked (tm k)) = 0"
    and R: "wf_queue (pid_queue_ready (tm k))" using I(1) by (simp_all add: queues_ok_def)
  have f: "pid_queue_find (pid_queue_blocked (tm k)) x = Inr x"
    using pid_queue_find_ok [OF B(1), of x] by (simp add: assms(3))
  have "Suc (length xs) < unat x" using assms(4) by (simp only: assms(3)) simp
  from delete_first [OF B assms(3) xb this] obtain b where
    b: "pid_queue_delete (pid_queue_blocked (tm k)) x = Inr b" "wf_queue b" "head b = 0" "q_list b = xs" .
  have "proc_inv k" using assms(1) by (simp add: sched_inv_def)
  from active_room [OF this] have "length (rq (put_blocked b k)) < 8191" by (simp add: active_def)
  from set_ready_ok [OF xb _ this] R obtain r where
    r: "set_task_state x STATE_READY (put_blocked b k) = Inr (put_ready r (mark STATE_READY x (put_blocked b k)))"
      "wf_queue r" "q_list r = rq k @ [x]" by (auto simp: put_simps)
  define k' where "k' = put_ready r (mark STATE_READY x (put_blocked b k))"
  have l: "rq k' = rq k @ [x]" "bq k' = xs" "sq k' = sq k" "running_list k' = running_list k" "gdt k' = gdt k"
    using r(3) b(4) by (simp_all add: k'_def running_list_def)
  have st: "state_of k' p = (if p = x then STATE_READY else state_of k p)" for p
    by (simp add: k'_def word_unat_eq_iff [symmetric])
  have a: "set (active k') = set (active k)" "distinct (active k')"
    using I(2) by (auto simp: active_def l assms(3))
  have "queues_ok k'" using I(1) r(2) b(2,3) by (simp add: k'_def queues_ok_def sleep_ok_def)
  moreover have "states_ok k'"
    using I(2,3) unfolding states_ok_def l by (auto simp: st active_def assms(3))
  ultimately have inv: "sched_inv i j k'"
    using assms(1) a by (auto simp: sched_inv_def proc_inv_def l)
  have "int (length (bq k)) = int (length xs) + 1" by (simp only: assms(3)) simp
  then have "sem_inv (s\<lparr>sem_count := sem_count s + 1, blocked_pids := q\<rparr>) k'"
    using S(3) q assms(5) by (simp add: sem_inv_def l sint_inc)
  then show ?thesis
    using inv l q(1) f b(1) nf r(1) assms(5)
    by (simp add: signal_def Let_def sint_inc k'_def)
qed

section \<open>Several semaphores\<close>

lemma delete_NOT_FOUND:
  assumes "wf_queue q"
  shows "pid_queue_delete q NOT_FOUND = Inl Out_Of_Bounds"
proof -
  have "NOT_FOUND \<noteq> tail q" using wf_queueD [OF assms] unat_NOT_FOUND by auto
  then show ?thesis
    using unat_NOT_FOUND by (simp add: pid_queue_delete_def ring_fuel_def shift_from.simps)
qed

lemma signal_raw:
  assumes "wf_queue (blocked_pids s)" "q_list (blocked_pids s) = x # xs" "unat x < 8192" "queues_ok k"
    "bq k = y # ys" "Suc (length ys) < unat x" "x \<in> set (bq k)" "length (rq k) < 8191"
  shows "\<exists>s' k'. signal s k = Inr (s', k') \<and> bq k' = ys \<and> rq k' = rq k @ [x] \<and> sq k' = sq k \<and>
    running_list k' = running_list k \<and> queues_ok k' \<and> gdt k' = gdt k"
proof -
  obtain q where q: "pid_dequeue (blocked_pids s) = Inr (q, x)" using pq.deq_law [OF assms(1,2)] by blast
  have B: "wf_queue (pid_queue_blocked (tm k))" "head (pid_queue_blocked (tm k)) = 0"
    and R: "wf_queue (pid_queue_ready (tm k))" using assms(4) by (simp_all add: queues_ok_def)
  obtain b where b: "pid_queue_delete (pid_queue_blocked (tm k)) x = Inr b" "wf_queue b" "head b = 0" "q_list b = ys"
    using delete_first [OF B assms(5,3,6)] .
  from assms(8) have "length (rq (put_blocked b k)) < 8191" by simp
  from set_ready_ok [OF assms(3) _ this] R obtain r where
    "set_task_state x STATE_READY (put_blocked b k) = Inr (put_ready r (mark STATE_READY x (put_blocked b k)))"
    "wf_queue r" "q_list r = rq k @ [x]" by (auto simp: put_simps)
  then show ?thesis
    using q b pid_queue_find_ok [OF B(1), of x] NOT_FOUND_range [OF assms(3)] assms(4,7)
    by (simp add: signal_def Let_def running_list_def queues_ok_def sleep_ok_def)
qed

lemma signal_missing:
  assumes "wf_queue (blocked_pids s)" "q_list (blocked_pids s) = x # xs" "unat x < 8192" "queues_ok k" "x \<notin> set (bq k)"
  shows "signal s k = Inl Out_Of_Bounds"
proof -
  obtain q where q: "pid_dequeue (blocked_pids s) = Inr (q, x)" using pq.deq_law [OF assms(1,2)] by blast
  have B: "wf_queue (pid_queue_blocked (tm k))" using assms(4) by (simp_all add: queues_ok_def)
  show ?thesis
    using q pid_queue_find_ok [OF B, of x] delete_NOT_FOUND [OF B] NOT_FOUND_range [OF assms(3)] assms(5)
    by (simp add: signal_def Let_def)
qed

section \<open>Properties\<close>

definition demo_sem :: semaphore_t where
  "demo_sem = \<lparr>sem_count = - 1, blocked_pids = \<lparr>head = 0, tail = 1, pids = (\<lambda>_. 8)\<rparr>\<rparr>"

text \<open>Process 7 runs, 8 and 9 are blocked, and 5 and 6 idle.\<close>

definition sem_kernel :: kernel where
  "sem_kernel = demo_kernel\<lparr>gdt := (\<lambda>_. \<lparr>d_low = 1, d_high = 1\<rparr>),
     tm := (tm demo_kernel)\<lparr>
       tasks := (\<lambda>n. (tasks (tm demo_kernel) n)\<lparr>task_state :=
           (if n = 7 then STATE_RUNNING else if n = 5 \<or> n = 6 then STATE_READY else STATE_BLOCKED)\<rparr>),
       pid_running := 7,
       pid_queue_ready := \<lparr>head = 0, tail = 2, pids = (\<lambda>n. if n = 0 then 5 else 6)\<rparr>,
       pid_queue_sleeping := empty_queue,
       pid_queue_blocked := \<lparr>head = 0, tail = 2, pids = (\<lambda>n. if n = 0 then 8 else 9)\<rparr>\<rparr>\<rparr>"

lemma sem_kernel_lists:
  "rq sem_kernel = [5, 6]" "sq sem_kernel = []" "bq sem_kernel = [8, 9]" "running_list sem_kernel = [7]"
  "pid_running (tm sem_kernel) = 7"
  by (simp_all add: sem_kernel_def q_list_def qlen_def ring_dist_def ring_at_def running_list_def NOT_FOUND_def
      empty_queue_def upt_conv_Cons)

lemma sem_kernel_inv: "sched_inv 5 6 sem_kernel"
proof -
  have "queues_ok sem_kernel"
    by (simp add: queues_ok_def sleep_ok_def sem_kernel_def wf_queue_def empty_queue_def)
  moreover have "states_ok sem_kernel"
    unfolding states_ok_def sem_kernel_lists by (simp add: sem_kernel_def)
  moreover have "\<not> empty_desc (gdt sem_kernel n)" for n by (simp add: sem_kernel_def empty_desc_def)
  ultimately show ?thesis
    by (simp add: sched_inv_def proc_inv_def active_def sem_kernel_lists)
qed

definition both_sem :: semaphore_t where
  "both_sem = \<lparr>sem_count = - 2, blocked_pids = \<lparr>head = 0, tail = 2, pids = (\<lambda>n. if n = 0 then 8 else 9)\<rparr>\<rparr>"

lemma both_sem_inv: "sem_inv both_sem sem_kernel"
  by (simp add: sem_inv_def both_sem_def sem_kernel_lists wf_queue_def)
    (simp add: q_list_def qlen_def ring_dist_def ring_at_def upt_conv_Cons)

text \<open>
  Claim C28: with a single semaphore and fewer blocked processes than the number of the longest
  waiting one, \<open>signal\<close> makes exactly this one ready, and keeps the scheduler invariant and
  the correspondence of the two queues with the count.
\<close>
theorem signal_wakes_longest_waiting:
  assumes "sched_inv i j k" "sem_inv s k" "bq k = x # xs" "length (bq k) < unat x" "sint (sem_count s) < 32767"
  shows "\<exists>s' k'. signal s k = Inr (s', k') \<and> sched_inv i j k' \<and> sem_inv s' k' \<and>
    sint (sem_count s') = sint (sem_count s) + 1 \<and> bq k' = xs \<and> rq k' = rq k @ [x] \<and> sq k' = sq k \<and>
    pid_running (tm k') = pid_running (tm k)"
  using signal_ok [OF assms] by blast

theorem signal_wakes_longest_waiting_witness:
  "\<exists>s' k'. signal both_sem sem_kernel = Inr (s', k') \<and> bq k' = [9] \<and> rq k' = [5, 6, 8]"
proof -
  have "sint (sem_count both_sem) < 32767" by (simp add: both_sem_def)
  from signal_wakes_longest_waiting [OF sem_kernel_inv both_sem_inv sem_kernel_lists(3) _ this]
  show ?thesis by (auto simp: sem_kernel_lists)
qed

text \<open>
  \<open>wait\<close> lets the running process go on while the count is positive, and otherwise
  puts it at the end of both queues and gives the processor to the first ready process.
\<close>
theorem wait_blocks_when_exhausted:
  assumes "sched_inv i j k" "sem_inv s k" "pid_running (tm k) \<notin> {NOT_FOUND, i, j}" "- 32768 < sint (sem_count s)"
  shows "\<exists>s' k'. wait s k = Inr (s', k') \<and> sched_inv i j k' \<and> sem_inv s' k' \<and>
    sint (sem_count s') = sint (sem_count s) - 1 \<and>
    (if 0 < sint (sem_count s) then k' = k
     else bq k' = bq k @ [pid_running (tm k)] \<and> pid_running (tm k') # rq k' = rq k)"
  using wait_ok [OF assms] by blast

theorem wait_blocks_when_exhausted_witness:
  "\<exists>s' k'. wait both_sem sem_kernel = Inr (s', k') \<and> bq k' = [8, 9, 7] \<and> pid_running (tm k') # rq k' = [5, 6]"
proof -
  have c: "- 32768 < sint (sem_count both_sem)" "\<not> 0 < sint (sem_count both_sem)" by (simp_all add: both_sem_def)
  have "pid_running (tm sem_kernel) \<notin> {NOT_FOUND, 5, 6}" by (simp add: sem_kernel_lists NOT_FOUND_def)
  from wait_blocks_when_exhausted [OF sem_kernel_inv both_sem_inv this c(1)] c(2) show ?thesis
    by (auto simp: sem_kernel_lists)
qed

text \<open>
  Claim C39: with two semaphores the wrong process leaves the blocked queue. Process \<open>A\<close> waits for
  \<open>s\<close>, then \<open>B\<close> for \<open>t\<close>. After \<open>signal t\<close>, \<open>B\<close> is both ready and blocked and \<open>A\<close> is in no
  queue of the scheduler; \<open>signal s\<close> then looks for \<open>A\<close> in vain and shifts the queue from index
  65535 on, outside the array, before its own check for this case is reached.
\<close>
theorem two_semaphores_lose_process:
  assumes "sched_inv i j k" "bq k = [A, B]" "wf_queue (blocked_pids s)" "q_list (blocked_pids s) = [A]"
    "wf_queue (blocked_pids t)" "q_list (blocked_pids t) = [B]"
  shows "\<exists>t' k'. signal t k = Inr (t', k') \<and> bq k' = [B] \<and> B \<in> set (rq k') \<and> A \<notin> set (active k') \<and>
    signal s k' = Inl Out_Of_Bounds"
proof -
  note I = sched_invD [OF assms(1)]
  have ab: "unat A < 8192" "5 \<le> unat B" "unat B < 8192" "A \<noteq> B"
    using I(2,4) by (simp_all add: active_def assms(2))
  have "proc_inv k" using assms(1) by (simp add: sched_inv_def)
  from active_room [OF this] have "length (rq k) < 8191" by (simp add: active_def)
  then obtain t' k' where k': "signal t k = Inr (t', k')" "bq k' = [B]" "rq k' = rq k @ [B]" "sq k' = sq k"
    "running_list k' = running_list k" "queues_ok k'"
    using signal_raw [OF assms(5,6) ab(3) I(1) assms(2)] ab(2) by (auto simp: assms(2))
  have "A \<notin> set (active k')" using I(2) ab(4) by (simp add: active_def k' assms(2))
  moreover have "signal s k' = Inl Out_Of_Bounds"
    using signal_missing [OF assms(3,4) ab(1) k'(6)] ab(4) by (simp add: k'(2))
  ultimately show ?thesis using k' by auto
qed

theorem two_semaphores_lose_process_witness:
  "\<exists>t' k'. signal (\<lparr>sem_count = - 1, blocked_pids = \<lparr>head = 0, tail = 1, pids = (\<lambda>_. 9)\<rparr>\<rparr>) sem_kernel = Inr (t', k') \<and>
    signal demo_sem k' = Inl Out_Of_Bounds"
  using two_semaphores_lose_process [OF sem_kernel_inv sem_kernel_lists(3), of demo_sem
      "\<lparr>sem_count = - 1, blocked_pids = \<lparr>head = 0, tail = 1, pids = (\<lambda>_. 9)\<rparr>\<rparr>"]
  by (auto simp: demo_sem_def wf_queue_def q_list_def qlen_def ring_dist_def)

end
