(* ===== verification/System.thy ===== *)
theory System
  imports Semaphore Address_Space
begin

text \<open>
  The processes of a running kernel as a transition system: the timer tick of
  kernel/proc/sched.c, the system calls of the running process, and the creation of
  processes, interleaved in any order. The timer interrupt comes through an interrupt gate, so
  that \<open>check_task_affairs\<close> runs with interrupts off. The system calls are plain C functions that do
  not touch the interrupt flag: a process that wants one to be a single step has to execute \<open>cli\<close>
  before and \<open>sti\<close> after it (include/comm/asm.h); \<open>main\<close> makes its calls before its first \<open>sti\<close>. The flag of every
  process is therefore part of the state: a tick is possible while it is set, a system call is an
  event while it is clear. What happens to a call made with the flag set is shown at the end.
\<close>

section \<open>Events\<close>

text \<open>
  \<open>sys_masked\<close> are the processes that have executed \<open>cli\<close> and not yet \<open>sti\<close>, \<open>NOT_FOUND\<close> standing
  for \<open>main\<close>; a task switch loads the flag with the other registers of the process. A process that exits
  leaves no flag behind, and a new one starts with the flag set (\<open>INIT_EFLAGS\<close>).
\<close>

record system =
  sys_kernel :: kernel
  sys_sem :: semaphore_t
  sys_masked :: "u16 set"

datatype event =
    Tick | Cli | Sti | Sleep u32 | Exit u32 | Create u32 u32 u32 u32 | Wait | Signal

definition running :: "system \<Rightarrow> u16" where
  "running s = pid_running (tm (sys_kernel s))"

fun perform :: "event \<Rightarrow> system \<Rightarrow> system res" where
  "perform Tick s = rbind (check_task_affairs (sys_kernel s)) (\<lambda>k. Inr (s\<lparr>sys_kernel := k\<rparr>))"
| "perform Cli s = Inr (s\<lparr>sys_masked := insert (running s) (sys_masked s)\<rparr>)"
| "perform Sti s = Inr (s\<lparr>sys_masked := sys_masked s - {running s}\<rparr>)"
| "perform (Sleep n) s = rbind (sys_sleep n (sys_kernel s)) (\<lambda>k. Inr (s\<lparr>sys_kernel := k\<rparr>))"
| "perform (Exit c) s = rbind (sys_exit c (sys_kernel s)) (\<lambda>k.
     Inr (s\<lparr>sys_kernel := k, sys_masked := sys_masked s - {running s}\<rparr>))"
| "perform (Create flag eip esp d) s =
     rbind (create_task flag eip esp d (sys_kernel s)) (\<lambda>(k, _). Inr (s\<lparr>sys_kernel := k\<rparr>))"
| "perform Wait s =
     rbind (wait (sys_sem s) (sys_kernel s)) (\<lambda>(m, k). Inr (s\<lparr>sys_kernel := k, sys_sem := m\<rparr>))"
| "perform Signal s =
     rbind (signal (sys_sem s) (sys_kernel s)) (\<lambda>(m, k). Inr (s\<lparr>sys_kernel := k, sys_sem := m\<rparr>))"

text \<open>
  When an event can happen. A tick needs the interrupt flag of the running code, a system call needs
  it clear. The idle processes 5 and 6 make no system calls; for a new process a GDT entry and a
  page have to be free; at most six processes wait for the semaphore at a time, because
  \<open>signal\<close> takes process numbers for queue indices; the count stays in its 16 bits.
\<close>

definition user_running :: "system \<Rightarrow> bool" where
  "user_running s \<longleftrightarrow> running s \<notin> {NOT_FOUND, 5, 6}"

definition interrupts_on :: "system \<Rightarrow> bool" where
  "interrupts_on s \<longleftrightarrow> running s \<notin> sys_masked s"

definition free_count :: "system \<Rightarrow> nat" where
  "free_count s = card (free_pages (mem (sys_kernel s)))"

fun enabled :: "event \<Rightarrow> system \<Rightarrow> bool" where
  "enabled Tick s \<longleftrightarrow> interrupts_on s"
| "enabled Cli s \<longleftrightarrow> True"
| "enabled Sti s \<longleftrightarrow> True"
| "enabled (Sleep n) s \<longleftrightarrow> \<not> interrupts_on s \<and> user_running s"
| "enabled (Exit c) s \<longleftrightarrow> \<not> interrupts_on s \<and> user_running s"
| "enabled (Create flag eip esp d) s \<longleftrightarrow> \<not> interrupts_on s \<and> get_pid_empty (sys_kernel s) \<noteq> NOT_FOUND \<and> 0 < free_count s"
| "enabled Wait s \<longleftrightarrow> \<not> interrupts_on s \<and> user_running s \<and> - 6 < sint (sem_count (sys_sem s))"
| "enabled Signal s \<longleftrightarrow> \<not> interrupts_on s \<and> sint (sem_count (sys_sem s)) < 32767"

inductive step :: "event \<Rightarrow> system \<Rightarrow> system \<Rightarrow> bool" where
  step_event: "enabled e s \<Longrightarrow> perform e s = Inr s' \<Longrightarrow> step e s s'"

inductive reachable :: "system \<Rightarrow> bool" where
  reach_boot: "boot_kernel_ok k0 \<Longrightarrow> sched_init idle stack_0 stack_1 k0 = Inr k \<Longrightarrow> 0 \<le> sint n \<Longrightarrow>
     reachable \<lparr>sys_kernel = k, sys_sem = semaphore_init n m, sys_masked = {}\<rparr>"
| reach_step: "reachable s \<Longrightarrow> step e s s' \<Longrightarrow> reachable s'"

inductive_cases stepE: "step e s s'"
inductive_simps step_iff: "step e s s'"

section \<open>The invariant\<close>

text \<open>The occupied GDT entries beyond the four segments are those of the processes in a place.\<close>

definition gdt_exact :: "kernel \<Rightarrow> bool" where
  "gdt_exact k \<longleftrightarrow> (\<forall>p. 5 \<le> unat p \<longrightarrow> unat p < 8192 \<longrightarrow>
     (\<not> empty_desc (gdt k (unat p)) \<longleftrightarrow> p \<in> set (active k)))"

definition sys_inv :: "system \<Rightarrow> bool" where
  "sys_inv s \<longleftrightarrow> sched_inv 5 6 (sys_kernel s) \<and> sem_inv (sys_sem s) (sys_kernel s) \<and>
     length (bq (sys_kernel s)) \<le> 6 \<and> gdt_exact (sys_kernel s)"

lemma gdt_exact_cong: "gdt k' = gdt k \<Longrightarrow> set (active k') = set (active k) \<Longrightarrow> gdt_exact k' = gdt_exact k"
  by (simp add: gdt_exact_def)

lemma sem_inv_cong: "bq k' = bq k \<Longrightarrow> sem_inv s k' = sem_inv s k"
  by (simp add: sem_inv_def)

text \<open>What switching processes does not touch: the GDT, memory, and every TSS.\<close>

definition kept_part :: "kernel \<Rightarrow> (nat \<Rightarrow> gdt_desc) \<times> mm_state \<times> u32 \<times> (nat \<Rightarrow> tss_t)" where
  "kept_part k = (gdt k, mem k, kernel_pd k, \<lambda>n. tss (tasks (tm k) n))"

lemma kept_simps [simp]:
  "tasks t = tasks (tm k) \<Longrightarrow> kept_part (k\<lparr>tm := t\<rparr>) = kept_part k" "kept_part (jmpf cs ip k) = kept_part k" "kept_part (put_blocked q k) = kept_part k"
  "(\<And>t. tss (f t) = tss t) \<Longrightarrow> kept_part (upd_task p f k) = kept_part k"
  by (auto simp: kept_part_def jmpf_def upd_task_def put_blocked_def)

lemma set_task_state_kept: "set_task_state p st k = Inr k' \<Longrightarrow> kept_part k' = kept_part k"
  by (auto simp: set_task_state_def Let_def rbind_eq_Inr split: if_splits task_state_t.splits)

lemma switch_to_kept: "switch_to p r k = Inr k' \<Longrightarrow> kept_part k' = kept_part k"
  by (auto simp: switch_to_def rbind_eq_Inr dest!: set_task_state_kept split: if_splits)

lemma schedule_kept: "schedule r k = Inr k' \<Longrightarrow> kept_part k' = kept_part k"
  by (auto simp: schedule_def Let_def rbind_eq_Inr dest!: switch_to_kept split: if_splits)

lemma check_schedule_kept: "check_schedule k = Inr k' \<Longrightarrow> kept_part k' = kept_part k"
  by (auto simp: check_schedule_def Let_def dest!: schedule_kept split: if_splits)

lemma signal_kept: "signal m k = Inr (m', k') \<Longrightarrow> kept_part k' = kept_part k"
  by (auto simp: signal_def Let_def rbind_eq_Inr dest!: set_task_state_kept split: if_splits prod.splits)

lemma wait_kept: "wait m k = Inr (m', k') \<Longrightarrow> kept_part k' = kept_part k"
  by (auto simp: wait_def Let_def rbind_eq_Inr dest!: schedule_kept split: if_splits)

lemma schedule_gdt: "schedule r k = Inr k' \<Longrightarrow> gdt k' = gdt k"
  using schedule_kept [of r k k'] by (simp add: kept_part_def)

lemma check_schedule_gdt: "check_schedule k = Inr k' \<Longrightarrow> gdt k' = gdt k"
  using check_schedule_kept [of k k'] by (simp add: kept_part_def)

lemma switched_active:
  assumes "switched r x xs k k'" "rq k = x # xs" "x \<noteq> NOT_FOUND" "distinct (active k)"
  shows "set (active k') = (if left_in r = None then set (active k) - set (running_list k) else set (active k))"
  using assms left_in_cases [of r] unfolding switched_def active_def running_list_def put_when_def by auto

lemma schedule_active:
  assumes "switch_inv r i j k" "schedule r k = Inr k'"
  shows "set (active k') = (if left_in r = None then set (active k) - set (running_list k) else set (active k))"
proof -
  from schedule_inv [OF assms(1)] assms(2) obtain x xs where x: "rq k = x # xs" "switched r x xs k k'" by auto
  have "unat x < 8192" "distinct (active k)" using assms(1) x(1) by (auto simp: switch_inv_def active_def)
  then show ?thesis using switched_active [OF x(2,1)] NOT_FOUND_range by blast
qed

lemma sys_inv_same_blocked:
  "sys_inv s \<Longrightarrow> sched_inv 5 6 k' \<Longrightarrow> bq k' = bq (sys_kernel s) \<Longrightarrow> gdt_exact k' \<Longrightarrow>
   sys_inv (s\<lparr>sys_kernel := k'\<rparr>)"
  by (simp add: sys_inv_def sem_inv_def del: length_q_list)

lemma sys_inv_flag: "sys_inv (s\<lparr>sys_masked := M\<rparr>) = sys_inv s"
  by (simp add: sys_inv_def)

lemma tick_inv: "sys_inv s \<Longrightarrow> \<exists>s'. perform Tick s = Inr s' \<and> sys_inv s'"
proof -
  assume s: "sys_inv s"
  let ?k = "sys_kernel s"
  obtain k' where k': "check_task_affairs ?k = Inr k'" "sched_inv 5 6 k'" "bq k' = bq ?k"
    "sq k' = filter (\<lambda>p. counter_of ?k p \<noteq> 1) (sq ?k)"
    "set (running_list k' @ rq k') = set (running_list ?k @ rq ?k) \<union> {p \<in> set (sq ?k). counter_of ?k p = 1}"
    using check_task_affairs_ok [of 5 6 ?k] s by (auto simp: sys_inv_def)
  obtain k1 where k1: "check_wakeup ?k = Inr k1" "gdt k1 = gdt ?k"
    using check_wakeup_ok [of 5 6 ?k] s by (auto simp: sys_inv_def tick_result_def same_rest_def)
  have "gdt k' = gdt ?k"
    using k'(1) k1 check_schedule_gdt [of k1 k'] by (simp add: check_task_affairs_def)
  moreover have "set (active k') = set (active ?k)" using k'(3-5) by (auto simp: active_def)
  ultimately show ?thesis
    using k'(1) sys_inv_same_blocked [OF s k'(2,3)] s by (simp add: sys_inv_def gdt_exact_cong [of k' ?k])
qed

lemma sleep_inv: "sys_inv s \<Longrightarrow> user_running s \<Longrightarrow> \<exists>s'. perform (Sleep n) s = Inr s' \<and> sys_inv s'"
proof -
  assume s: "sys_inv s" and u: "user_running s"
  let ?k = "sys_kernel s" let ?r = "pid_running (tm ?k)"
  let ?k1 = "upd_task ?r (\<lambda>t. t\<lparr>wakeup_counter := n\<rparr>) ?k"
  have I: "sched_inv 5 6 ?k" using s by (simp add: sys_inv_def)
  have u': "?r \<notin> {NOT_FOUND, 5, 6}" using u by (simp add: user_running_def running_def)
  obtain k' where k': "sys_sleep n ?k = Inr k'" "sched_inv 5 6 k'" "bq k' = bq ?k"
    using sys_sleep_ok [OF I u'] by blast
  have sch: "schedule REASON_TASK_SLEEP ?k1 = Inr k'" using k'(1) by (simp add: sys_sleep_def split: if_splits)
  have "switch_inv REASON_TASK_SLEEP 5 6 ?k1" using I u' by (intro switch_invI) simp_all
  from schedule_active [OF this sch] schedule_gdt [OF sch]
  have "set (active k') = set (active ?k)" "gdt k' = gdt ?k" by (simp_all add: active_def running_list_def)
  then show ?thesis
    using k'(1) sys_inv_same_blocked [OF s k'(2,3)] s by (simp add: sys_inv_def gdt_exact_cong [of k' ?k])
qed

lemma exit_inv: "sys_inv s \<Longrightarrow> user_running s \<Longrightarrow> \<exists>s'. perform (Exit c) s = Inr s' \<and> sys_inv s'"
proof -
  assume s: "sys_inv s" and u: "user_running s"
  let ?k = "sys_kernel s" let ?r = "pid_running (tm ?k)"
  let ?k1 = "?k\<lparr>gdt := (gdt ?k)(unat ?r := \<lparr>d_low = 0, d_high = 0\<rparr>)\<rparr>"
  have I: "sched_inv 5 6 ?k" and G: "gdt_exact ?k" using s by (simp_all add: sys_inv_def)
  have u': "?r \<notin> {NOT_FOUND, 5, 6}" using u by (simp add: user_running_def running_def)
  obtain k' where k': "sys_exit c ?k = Inr k'" "sched_inv 5 6 k'" "bq k' = bq ?k" "sq k' = sq ?k"
    "?r \<notin> set (active k')" "empty_desc (gdt k' (unat ?r))"
    using sys_exit_ok [OF I u'] by blast
  have sch: "schedule REASON_TASK_EXIT ?k1 = Inr k'" using k'(1) by (simp add: sys_exit_def split: if_splits)
  then have g: "gdt k' = (gdt ?k)(unat ?r := \<lparr>d_low = 0, d_high = 0\<rparr>)" using schedule_gdt by fastforce
  have a: "p \<in> set (active k') \<longleftrightarrow> p \<in> set (active ?k)" if "p \<noteq> ?r" for p
    using schedule_active [OF exit_switch_inv [OF I u'] sch] that by (auto simp: active_def running_list_def)
  have "gdt_exact k'"
    using G k'(5,6) unfolding gdt_exact_def by (auto simp: g a word_unat_eq_iff [symmetric] split: if_splits)
  from sys_inv_same_blocked [OF s k'(2,3) this] have "sys_inv (s\<lparr>sys_kernel := k', sys_masked := M\<rparr>)" for M
    using sys_inv_flag [where s = "s\<lparr>sys_kernel := k'\<rparr>" and M = M] by simp
  then show ?thesis using k'(1) by simp
qed

lemma create_inv:
  "sys_inv s \<Longrightarrow> enabled (Create flag eip esp d) s \<Longrightarrow> \<exists>s'. perform (Create flag eip esp d) s = Inr s' \<and> sys_inv s'"
proof -
  assume s: "sys_inv s" and e: "enabled (Create flag eip esp d) s"
  let ?k = "sys_kernel s" let ?p = "get_pid_empty ?k"
  have I: "sched_inv 5 6 ?k" and G: "gdt_exact ?k" using s by (simp_all add: sys_inv_def)
  from create_task_inv [OF I, of flag eip esp d] e obtain k' where k': "create_task flag eip esp d ?k = Inr (k', ?p)"
    "sched_inv 5 6 k'" "created flag eip esp d ?p ?k k'" by auto
  then have l: "bq k' = bq ?k" "set (active k') = insert ?p (set (active ?k))"
    by (auto simp: created_def active_def)
  have g: "gdt k' = (gdt ?k)(unat ?p := make_gdt_desc_for_tss (tss_address (tm_addr ?k) ?p) DPL_KERNEL)"
    using k'(3) by (simp add: created_def)
  have "gdt_exact k'"
    using G unfolding gdt_exact_def l by (auto simp: g tss_desc_nonempty word_unat_eq_iff [symmetric])
  then show ?thesis using k'(1) sys_inv_same_blocked [OF s k'(2) l(1)] by simp
qed

lemma wait_active:
  assumes "sched_inv i j k" "pid_running (tm k) \<notin> {NOT_FOUND, i, j}" "wait m k = Inr (m', k')"
  shows "set (active k') = set (active k)" "gdt k' = gdt k"
proof -
  have sw: "switch_inv REASON_TASK_BLOCKED i j k" using assms by (intro switch_invI) simp_all
  from assms(3) have "k' = k \<or> schedule REASON_TASK_BLOCKED k = Inr k'"
    by (auto simp: wait_def Let_def rbind_eq_Inr split: if_splits)
  then show "set (active k') = set (active k)" "gdt k' = gdt k"
    using schedule_active [OF sw] schedule_gdt by auto
qed

lemma wait_inv: "sys_inv s \<Longrightarrow> enabled Wait s \<Longrightarrow> \<exists>s'. perform Wait s = Inr s' \<and> sys_inv s'"
proof -
  assume s: "sys_inv s" and e: "enabled Wait s"
  let ?k = "sys_kernel s" and ?m = "sys_sem s"
  have I: "sched_inv 5 6 ?k" and M: "sem_inv ?m ?k" and G: "gdt_exact ?k" using s by (simp_all add: sys_inv_def)
  have u: "pid_running (tm ?k) \<notin> {NOT_FOUND, 5, 6}" and c: "- 6 < sint (sem_count ?m)"
    using e by (simp_all add: user_running_def running_def)
  obtain m' k' where k': "wait ?m ?k = Inr (m', k')" "sched_inv 5 6 k'" "sem_inv m' k'"
    "sint (sem_count m') = sint (sem_count ?m) - 1"
    using wait_ok [OF I M u] c by auto
  have "int (length (bq k')) \<le> 6" using k'(3,4) c unfolding sem_inv_def by linarith
  moreover have "gdt_exact k'" using wait_active [OF I u k'(1)] G by (simp add: gdt_exact_cong [of k' ?k])
  ultimately show ?thesis using k' by (simp add: sys_inv_def)
qed

lemma signal_inv: "sys_inv s \<Longrightarrow> enabled Signal s \<Longrightarrow> \<exists>s'. perform Signal s = Inr s' \<and> sys_inv s'"
proof -
  assume s: "sys_inv s" and e: "enabled Signal s"
  let ?k = "sys_kernel s" and ?m = "sys_sem s"
  have I: "sched_inv 5 6 ?k" and M: "sem_inv ?m ?k" and G: "gdt_exact ?k" and L: "length (bq ?k) \<le> 6"
    using s by (simp_all add: sys_inv_def)
  show ?thesis
  proof (cases "bq ?k")
    case Nil
    from signal_empty [OF M Nil] obtain m' where m': "signal ?m ?k = Inr (m', ?k)" "q_list (blocked_pids m') = []"
      "wf_queue (blocked_pids m')" "sem_count m' = sem_count ?m + 1" by blast
    have "0 \<le> sint (sem_count ?m)" using M by (auto simp: sem_inv_def Nil max_def split: if_splits)
    moreover have "sint (sem_count ?m + 1) = sint (sem_count ?m) + 1" using sint_inc e by simp
    ultimately have "sem_inv m' ?k" using m' Nil by (simp add: sem_inv_def)
    with m' s show ?thesis by (simp add: sys_inv_def)
  next
    case (Cons x xs)
    have "x \<notin> {5, 6}" "5 \<le> unat x"
      using sched_invD [OF I] Cons by (auto simp: active_def)
    then have "unat x \<noteq> 5" "unat x \<noteq> 6" "5 \<le> unat x" by (auto simp: word_unat_eq_iff)
    then have "length (bq ?k) < unat x" using L by linarith
    from signal_ok [OF I M Cons this] e obtain m' k' where k': "signal ?m ?k = Inr (m', k')" "sched_inv 5 6 k'"
      "sem_inv m' k'" "bq k' = xs" "rq k' = rq ?k @ [x]" "sq k' = sq ?k" "pid_running (tm k') = pid_running (tm ?k)"
      by auto
    have g: "gdt k' = gdt ?k"
      using signal_kept [OF k'(1)] by (simp add: kept_part_def)
    have "set (active k') = set (active ?k)" by (auto simp: active_def running_list_def k' Cons)
    with g G have "gdt_exact k'" by (simp add: gdt_exact_cong [of k' ?k])
    moreover have "length (bq k') \<le> 6" using L by (simp only: k'(4) Cons) simp
    ultimately show ?thesis using k' by (simp add: sys_inv_def del: length_q_list)
  qed
qed

lemma flag_inv: "sys_inv s \<Longrightarrow> \<exists>s'. perform Cli s = Inr s' \<and> sys_inv s'" "sys_inv s \<Longrightarrow> \<exists>s'. perform Sti s = Inr s' \<and> sys_inv s'"
  by (simp_all add: sys_inv_flag)

lemma perform_inv: "sys_inv s \<Longrightarrow> enabled e s \<Longrightarrow> \<exists>s'. perform e s = Inr s' \<and> sys_inv s'"
  by (cases e) (simp_all only: tick_inv flag_inv sleep_inv exit_inv create_inv wait_inv signal_inv enabled.simps(4,5))

lemma boot_inv:
  assumes "boot_kernel_ok k0" "sched_init idle s0 s1 k0 = Inr k" "0 \<le> sint n"
  shows "sys_inv \<lparr>sys_kernel = k, sys_sem = semaphore_init n m, sys_masked = M\<rparr>"
proof -
  from sched_init_ok [OF assms(1), of idle s0 s1] assms(2) have I: "sched_inv 5 6 k" "rq k = [5, 6]"
    "pid_running (tm k) = NOT_FOUND" "sq k = []" "bq k = []"
    "\<And>n. 1 \<le> n \<Longrightarrow> n < 8192 \<Longrightarrow> empty_desc (gdt k n) = (7 \<le> n)" by auto
  have a: "active k = [5, 6]" by (simp add: active_def running_list_def I)
  have "p \<in> {5, 6} \<longleftrightarrow> unat p < 7" if "5 \<le> unat p" for p :: u16
    using that by (auto simp: word_unat_eq_iff)
  then have "gdt_exact k" using I(6) by (auto simp: gdt_exact_def a)
  moreover have "sem_inv (semaphore_init n m) k"
    using assms(3) by (simp add: sem_inv_def semaphore_init_def wf_pid_queue_init I(5))
  ultimately show ?thesis using I(1,5) by (simp add: sys_inv_def)
qed

lemma reachable_inv: "reachable s \<Longrightarrow> sys_inv s"
proof (induction rule: reachable.induct)
  case (reach_boot k0 idle stack_0 stack_1 k n m)
  then show ?case by (rule boot_inv)
next
  case (reach_step s e s')
  then show ?case using perform_inv [of s e] by (auto simp: step_iff)
qed

section \<open>Properties\<close>



text \<open>
  Claim C14: for processes that make their system calls with interrupts off (the conditions of
  \<open>enabled\<close>): between the calls, in every reachable state, a process is in exactly one place: it runs, is ready, sleeps
  or is blocked, its recorded state says which, and it occupies a GDT entry; conversely every
  occupied entry from 5 on belongs to a process in a place, so none is ever lost.
\<close>
theorem reachable_places:
  assumes "reachable s" "5 \<le> unat p" "unat p < 8192"
  shows "distinct (active (sys_kernel s)) \<and>
    (\<not> empty_desc (gdt (sys_kernel s) (unat p)) \<longleftrightarrow>
       p = pid_running (tm (sys_kernel s)) \<and> state_of (sys_kernel s) p = STATE_RUNNING \<or>
       p \<in> set (rq (sys_kernel s)) \<and> state_of (sys_kernel s) p = STATE_READY \<or>
       p \<in> set (sq (sys_kernel s)) \<and> state_of (sys_kernel s) p = STATE_SLEEPING \<or>
       p \<in> set (bq (sys_kernel s)) \<and> state_of (sys_kernel s) p = STATE_BLOCKED)"
proof -
  let ?k = "sys_kernel s"
  have I: "sched_inv 5 6 ?k" and G: "gdt_exact ?k" using reachable_inv [OF assms(1)] by (simp_all add: sys_inv_def)
  note S = sched_invD(2,3) [OF I]
  have "p = pid_running (tm ?k) \<longleftrightarrow> p \<in> set (running_list ?k)"
    using NOT_FOUND_range [OF assms(3)] by (auto simp: running_list_def)
  with S G assms(2,3) show ?thesis by (auto simp: gdt_exact_def states_ok_def active_def)
qed

theorem reachable_places_witness:
  "\<exists>s. reachable s \<and> (7 :: u16) \<notin> set (active (sys_kernel s)) \<and> distinct (active (sys_kernel s))"
proof -
  obtain k where k: "sched_init 0 0 0 boot_kernel = Inr k" "rq k = [5, 6]" "sq k = []" "bq k = []"
    "pid_running (tm k) = NOT_FOUND" using sched_init_ok [OF boot_kernel_ok] by blast
  define s where "s = \<lparr>sys_kernel = k, sys_sem = semaphore_init 1 demo_sem, sys_masked = {}\<rparr>"
  have "reachable s" unfolding s_def by (rule reach_boot [OF boot_kernel_ok k(1)]) simp
  moreover have "distinct (active (sys_kernel s))" using reachable_places [OF \<open>reachable s\<close>, of 7] by simp
  ultimately show ?thesis using k by (auto simp: s_def active_def running_list_def intro!: exI [of _ s])
qed

text \<open>
  Claim C15: for processes that make their system calls with interrupts off (the conditions of
  \<open>enabled\<close>) the semaphore keeps count: between the calls, in every reachable state, \<open>max 0 (-count)\<close> processes
  wait for it, in the order in which its own queue holds them.
\<close>
theorem reachable_semaphore:
  assumes "reachable s"
  shows "q_list (blocked_pids (sys_sem s)) = bq (sys_kernel s) \<and>
    int (length (bq (sys_kernel s))) = max 0 (- sint (sem_count (sys_sem s)))"
  using reachable_inv [OF assms] by (auto simp: sys_inv_def sem_inv_def)

theorem reachable_semaphore_witness:
  "\<exists>s. reachable s \<and> sint (sem_count (sys_sem s)) = 1 \<and> bq (sys_kernel s) = []"
proof -
  obtain k where k: "sched_init 0 0 0 boot_kernel = Inr k" using sched_init_ok [OF boot_kernel_ok] by blast
  define s where "s = \<lparr>sys_kernel = k, sys_sem = semaphore_init 1 demo_sem, sys_masked = {}\<rparr>"
  have r: "reachable s" unfolding s_def by (rule reach_boot [OF boot_kernel_ok k]) simp
  have c: "sint (sem_count (sys_sem s)) = 1" by (simp add: s_def semaphore_init_def)
  with reachable_semaphore [OF r] have "bq (sys_kernel s) = []" by (simp del: length_q_list)
  with r c show ?thesis by auto
qed

section \<open>Memory over the life of processes\<close>

lemma check_wakeup_from_kept: "check_wakeup_from fuel i k = Inr k' \<Longrightarrow> kept_part k' = kept_part k"
proof (induction fuel arbitrary: i k)
  case 0
  then show ?case by (subst (asm) check_wakeup_from.simps) (auto split: if_splits)
next
  case (Suc fuel)
  from Suc.prems show ?case
    by (subst (asm) check_wakeup_from.simps)
      (auto simp: Let_def rbind_eq_Inr split: if_splits dest!: Suc.IH set_task_state_kept)
qed

lemma check_task_affairs_kept: "check_task_affairs k = Inr k' \<Longrightarrow> kept_part k' = kept_part k"
  by (auto simp: check_task_affairs_def check_wakeup_def rbind_eq_Inr dest!: check_wakeup_from_kept check_schedule_kept)

fun is_create :: "event \<Rightarrow> bool" where
  "is_create (Create flag eip esp d) \<longleftrightarrow> True"
| "is_create e \<longleftrightarrow> False"

text \<open>Only the creation of a process touches memory or a TSS, or fills an entry of the GDT.\<close>

lemma perform_kept:
  assumes "perform e s = Inr s'" "\<not> is_create e"
  shows "mem (sys_kernel s') = mem (sys_kernel s)" "kernel_pd (sys_kernel s') = kernel_pd (sys_kernel s)"
    "tss (tasks (tm (sys_kernel s')) n) = tss (tasks (tm (sys_kernel s)) n)"
    "\<not> empty_desc (gdt (sys_kernel s') n) \<Longrightarrow> \<not> empty_desc (gdt (sys_kernel s) n)"
    "e \<notin> range Exit \<or> n \<noteq> unat (pid_running (tm (sys_kernel s))) \<Longrightarrow>
      gdt (sys_kernel s') n = gdt (sys_kernel s) n"
proof -
  let ?k = "sys_kernel s" and ?k' = "sys_kernel s'"
  let ?exit = "?k\<lparr>gdt := (gdt ?k)(unat (pid_running (tm ?k)) := \<lparr>d_low = 0, d_high = 0\<rparr>)\<rparr>"
  have "kept_part ?k' = kept_part (if e \<in> range Exit then ?exit else ?k)"
    using assms
    by (cases e) (fastforce simp: rbind_eq_Inr sys_sleep_def sys_exit_def Let_def
      dest!: check_task_affairs_kept schedule_kept wait_kept signal_kept split: if_splits prod.splits)+
  then have k: "snd (kept_part ?k') = snd (kept_part ?k)" "gdt ?k' = gdt (if e \<in> range Exit then ?exit else ?k)"
    by (auto simp: kept_part_def split: if_splits)
  then show "mem ?k' = mem ?k" "kernel_pd ?k' = kernel_pd ?k" "tss (tasks (tm ?k') n) = tss (tasks (tm ?k) n)"
    by (simp_all add: kept_part_def fun_eq_iff)
  show "\<not> empty_desc (gdt ?k' n) \<Longrightarrow> \<not> empty_desc (gdt ?k n)"
    "e \<notin> range Exit \<or> n \<noteq> unat (pid_running (tm ?k)) \<Longrightarrow> gdt ?k' n = gdt ?k n"
    by (auto simp: k(2) empty_desc_def split: if_splits)
qed

lemma p_malloc_count:
  assumes "pages_ok m"
  shows "pages_ok (fst (p_malloc m)) \<and> card (free_pages (fst (p_malloc m))) = card (free_pages m) - 1"
proof (cases "0 < card (free_pages m)")
  case True
  note F = p_malloc_free [OF assms True]
  obtain m1 a where M: "p_malloc m = (m1, a)" by fastforce
  then show ?thesis using F(1,2) p_malloc_ok(4) [OF M assms] by simp
next
  case False
  obtain bm k where B: "bit_alloc (memory_alloc_bitmap m) False = (bm, k)" by fastforce
  have "k = -1"
  proof (rule ccontr)
    assume k: "k \<noteq> -1"
    from bitmap.alloc_slot [OF B k] assms have s: "nat k < 2 ^ 20" "0 \<le> k" "\<not> bit_at (memory_alloc_bitmap m) k"
      by (auto simp: pages_ok_def)
    have "of_nat (nat k * 4096) \<in> free_pages m"
      using unat_page [OF s(1)] s(2,3) by (simp add: free_pages_def aligned_def page_used_def)
    with False show False by (auto simp: card_gt_0_iff)
  qed
  with B bitmap.alloc_full [of "memory_alloc_bitmap m" bm] have "fst (p_malloc m) = m" by (simp add: p_malloc_def)
  with False assms show ?thesis by simp
qed

lemma new_directory_count:
  "pages_ok m \<Longrightarrow> pages_ok (new_directory pd m) \<and> card (free_pages (new_directory pd m)) = card (free_pages m) - 1"
  using p_malloc_count [of m]
  by (simp add: new_directory_def copy_pts_def pages_ok_def free_pages_def page_used_def split: prod.splits)

section \<open>A system call with interrupts on\<close>

text \<open>
  \<open>wait\<close> up to the call of \<open>schedule\<close>, and the rest. With the interrupt flag set, timer interrupts
  and with them other processes can come in between.
\<close>

definition wait_enter :: "semaphore_t \<Rightarrow> kernel \<Rightarrow> (semaphore_t \<times> bool) res" where
  "wait_enter s k =
     (let s1 = s\<lparr>sem_count := sem_count s - 1\<rparr> in
      if sint (sem_count s1) < 0 then
        rbind (pid_enqueue (blocked_pids s1) (pid_running (tm k))) (\<lambda>q. Inr (s1\<lparr>blocked_pids := q\<rparr>, True))
      else Inr (s1, False))"

definition wait_leave :: "bool \<Rightarrow> kernel \<Rightarrow> kernel res" where
  "wait_leave blocks k = (if blocks then schedule REASON_TASK_BLOCKED k else Inr k)"

lemma wait_halves: "wait s k = rbind (wait_enter s k) (\<lambda>(s1, b). rbind (wait_leave b k) (\<lambda>k1. Inr (s1, k1)))"
  by (cases "pid_enqueue (blocked_pids s) (pid_running (tm k))")
    (simp_all add: wait_def wait_enter_def wait_leave_def Let_def)

lemma ticks_keep:
  "sched_inv 5 6 k \<Longrightarrow> \<exists>k'. ticks n k = Inr k' \<and> sched_inv 5 6 k' \<and> bq k' = bq k"
proof (induction n)
  case (Suc n)
  then obtain k1 where k1: "ticks n k = Inr k1" "sched_inv 5 6 k1" "bq k1 = bq k" by blast
  from check_task_affairs_ok [OF k1(2)] obtain k' where "check_task_affairs k1 = Inr k'" "sched_inv 5 6 k'" "bq k' = bq k1" by blast
  with k1 show ?case unfolding ticks_last by simp
qed simp

text \<open>
  Claim C38: \<open>wait\<close> is not safe with interrupts on. When the running process calls it on a semaphore
  with count 0, and timer interrupts come after it has been put into the queue of the semaphore and before
  \<open>schedule\<close>, then however many there are, the \<open>signal\<close> of the process that runs next looks for the
  first one among the blocked processes in vain: it shifts the blocked queue from index 65535 on, outside the
  array, before the check that would stop in an endless loop. Done in one step, the same calls are safe.
\<close>
theorem preempted_wait_panics:
  assumes "sched_inv 5 6 k" "sem_inv s k" "sem_count s = 0" "pid_running (tm k) \<notin> {NOT_FOUND, 5, 6}"
  shows "\<exists>s1. wait_enter s k = Inr (s1, True) \<and> (\<forall>n. \<exists>k1. ticks n k = Inr k1 \<and> signal s1 k1 = Inl Out_Of_Bounds) \<and>
    (\<exists>k2. wait_leave True k = Inr k2 \<and> (\<exists>s3 k3. signal s1 k2 = Inr (s3, k3)))"
proof -
  let ?r = "pid_running (tm k)"
  have S: "wf_queue (blocked_pids s)" "q_list (blocked_pids s) = []" "bq k = []"
    using assms(2,3) by (auto simp: sem_inv_def max_def simp del: length_q_list)
  then obtain q where q: "pid_enqueue (blocked_pids s) ?r = Inr q" "wf_queue q" "q_list q = [?r]"
    using pq.enq_law [of "blocked_pids s" ?r] by auto
  define s1 where "s1 = s\<lparr>sem_count := sem_count s - 1, blocked_pids := q\<rparr>"
  have e: "wait_enter s k = Inr (s1, True)" by (simp add: wait_enter_def assms(3) q(1) s1_def)
  have "?r \<in> set (active k)" using assms(4) by (simp add: active_def running_list_def)
  then have r: "unat ?r < 8192" "5 \<le> unat ?r" using sched_invD(4) [OF assms(1)] by blast+
  have "\<exists>k1. ticks n k = Inr k1 \<and> signal s1 k1 = Inl Out_Of_Bounds" for n
  proof -
    obtain k1 where k1: "ticks n k = Inr k1" "sched_inv 5 6 k1" "bq k1 = []"
      using ticks_keep [OF assms(1), of n] S(3) by auto
    have "signal s1 k1 = Inl Out_Of_Bounds"
      by (rule signal_missing) (use q(2,3) r(1) sched_invD(1) [OF k1(2)] in \<open>simp_all add: s1_def k1(3) del: length_q_list\<close>)
    with k1(1) show ?thesis by blast
  qed
  moreover obtain s' k' where w: "wait s k = Inr (s', k')" "sched_inv 5 6 k'" "sem_inv s' k'" "sint (sem_count s') = - 1" "bq k' = [?r]"
    using wait_ok [OF assms(1,2,4)] S(3) assms(3) by auto
  then have "wait_leave True k = Inr k'" "s' = s1" by (auto simp: wait_halves e rbind_eq_Inr)
  moreover have "\<exists>s3 k3. signal s1 k' = Inr (s3, k3)"
    using signal_ok [OF w(2,3,5)] w(4,5) r(2) calculation(3) by auto
  ultimately show ?thesis using e by blast
qed

text \<open>Process 7 runs, nobody is blocked.\<close>

definition lone_kernel :: kernel where
  "lone_kernel = sem_kernel\<lparr>tm := (tm sem_kernel)\<lparr>pid_queue_blocked := empty_queue\<rparr>\<rparr>"

lemma lone_lists: "rq lone_kernel = [5, 6]" "sq lone_kernel = []" "bq lone_kernel = []" "running_list lone_kernel = [7]"
  "pid_running (tm lone_kernel) = 7"
  by (simp_all add: lone_kernel_def sem_kernel_def q_list_def qlen_def ring_dist_def ring_at_def running_list_def NOT_FOUND_def
      empty_queue_def upt_conv_Cons)

lemma lone_inv: "sched_inv 5 6 lone_kernel"
proof -
  have "queues_ok lone_kernel" "states_ok lone_kernel"
    using sched_invD(1,3) [OF sem_kernel_inv] unfolding states_ok_def lone_lists sem_kernel_lists
    by (auto simp: lone_kernel_def queues_ok_def sleep_ok_def wf_queue_def empty_queue_def)
  then show ?thesis
    using sem_kernel_inv by (simp add: sched_inv_def proc_inv_def active_def lone_lists sem_kernel_lists) (simp add: lone_kernel_def)
qed

theorem preempted_wait_panics_witness:
  "\<exists>s1 k1. wait_enter \<lparr>sem_count = 0, blocked_pids = empty_queue\<rparr> lone_kernel = Inr (s1, True) \<and>
     ticks 100 lone_kernel = Inr k1 \<and> signal s1 k1 = Inl Out_Of_Bounds"
proof -
  have "sem_inv \<lparr>sem_count = 0, blocked_pids = empty_queue\<rparr> lone_kernel"
    unfolding sem_inv_def lone_lists by (simp add: wf_queue_def empty_queue_def q_list_def qlen_def ring_dist_def)
  from preempted_wait_panics [OF lone_inv this] lone_lists(5) show ?thesis by (fastforce simp: NOT_FOUND_def)
qed

end
