(* ===== verification/Boot.thy ===== *)
theory Boot
  imports Execve Keyboard System
begin

text \<open>
  The two loaders (loader/loader_16.c, loader/loader_32.c), the entry point of the kernel
  (kernel/init/main.c) and the body of the timer interrupt (kernel/time/time.c): the state of the
  whole machine, and the components in the order in which they are started. Addresses that the
  linker assigns are a record of parameters.
\<close>

unbundle bit_operations_syntax

section \<open>Loading the kernel\<close>

record loader_state =
  l_interrupts :: bool
  l_gdtr :: "u16 \<times> u32"
  l_cr0 :: u32
  l_ports :: port_trace

definition read_cr0 :: "loader_state \<Rightarrow> u32" where
  "read_cr0 s = l_cr0 s"

definition write_cr0 :: "u32 \<Rightarrow> loader_state \<Rightarrow> loader_state" where
  "write_cr0 w s = s\<lparr>l_cr0 := w\<rparr>"

definition cli :: "loader_state \<Rightarrow> loader_state" where
  "cli s = s\<lparr>l_interrupts := False\<rparr>"

definition open_A20 :: "port_env \<Rightarrow> loader_state \<Rightarrow> loader_state" where
  "open_A20 env s = s\<lparr>l_ports := outb 0x92 (inb env 0x92 (l_ports s) OR 2) (l_ports s)\<rparr>"

definition enter_protected_mode :: "loader_state \<Rightarrow> loader_state" where
  "enter_protected_mode s = write_cr0 (read_cr0 s OR 1) s"

text \<open>\<open>kernel_datasg_init_16\<close>, which does not return, is assembly and not part of the model.\<close>

definition loader_entry :: "u32 \<Rightarrow> port_env \<Rightarrow> loader_state \<Rightarrow> loader_state" where
  "loader_entry gdt_temp_addr env s =
     (let s1 = cli s;
          s2 = s1\<lparr>l_gdtr := lgdt gdt_temp_addr (of_nat (8 * length gdt_temp))\<rparr>
      in enter_protected_mode (open_A20 env s2))"

text \<open>\<open>read_disk\<close> stores the sectors at their address in memory.\<close>

definition load_kernel :: "disk \<Rightarrow> ram \<Rightarrow> ram" where
  "load_kernel dk r =
     (let bs = disk_read dk (unat KERNEL_DEST) (unat KERNEL_MAX_SIZE) in
      (\<lambda>a. if unat (a - 0x100000) < length bs then bs ! unat (a - 0x100000) else r a))"

section \<open>Starting the kernel\<close>

record linker =
  gdt_addr :: u32
  idt_addr :: u32
  ignore_int :: u32
  timer_interrupt_handler :: u32
  keyboard_interrupt_handler :: u32
  page_fault_handler :: u32
  idle_addr :: u32
  idle_stack_0 :: u32
  idle_stack_1 :: u32

text \<open>
  The machine: \<open>m_tty\<close> has keyboard, screen and interrupt state, \<open>m_kernel\<close> the processes and the
  memory, \<open>m_fs\<close> the disk. The file system prints on the same screen.
\<close>

record machine =
  m_gdtr :: "u16 \<times> u32"
  m_tty :: keyboard
  m_kernel :: kernel
  m_fs :: fs_state
  m_ticks :: u32
  m_interrupts :: bool

definition reload_gdt :: "u32 \<Rightarrow> machine \<Rightarrow> machine" where
  "reload_gdt addr s = s\<lparr>m_gdtr := lgdt addr (of_nat (8 * MAX_GDT_TERMS))\<rparr>"

definition sti :: "machine \<Rightarrow> machine" where
  "sti s = s\<lparr>m_interrupts := True\<rparr>"

definition fs_test :: "fs_state \<Rightarrow> fs_state res" where
  "fs_test s =
     rbind (strcpy (take FILE_NAME_MAXLENGTH (uninit 9 SECTOR_SIZE s)) [117, 115, 114, 0]) (\<lambda>name.
       let file = \<lparr>file_name = name, first_sector = 1026, last_sector = 1026, sector_count = 1,
                   file_size = int VALID_DATA_SIZE_IN_BLOCK, file_type = FILE_TYPE_NORMAL\<rparr>;
           block = set_next_sector NO_SECTOR (encode_file file @ drop FILE_T_SIZE (uninit 9 SECTOR_SIZE s))
       in rbind (write_block 1025 block s) (\<lambda>s1.
            Inr (s1\<lparr>file_alloc_bitmap := bit_free (file_alloc_bitmap s1) 1026 True\<rparr>)))"

text \<open>\<open>main\<close> up to its endless loop.\<close>

definition main :: "linker \<Rightarrow> port_env \<Rightarrow> machine \<Rightarrow> machine res" where
  "main l env s =
     (let s1 = reload_gdt (gdt_addr l) s;
          s2 = s1\<lparr>m_tty := (m_tty s1)\<lparr>pic := interrupt_init (idt_addr l) (ignore_int l) (pic (m_tty s1))\<rparr>\<rparr>
      in rbind (time_init (timer_interrupt_handler l) (pic (m_tty s2))) (\<lambda>st.
         let s3 = s2\<lparr>m_tty := tty_init env (keyboard_interrupt_handler l) ((m_tty s2)\<lparr>pic := st\<rparr>)\<rparr>
         in rbind (memory_init (kernel_pd (m_kernel s3)) (page_fault_handler l) (mem (m_kernel s3), pic (m_tty s3))) (\<lambda>(m, st1).
         let s4 = s3\<lparr>m_kernel := (m_kernel s3)\<lparr>mem := m\<rparr>, m_tty := (m_tty s3)\<lparr>pic := st1\<rparr>\<rparr>
         in rbind (sched_init (idle_addr l) (idle_stack_0 l) (idle_stack_1 l) (m_kernel s4)) (\<lambda>k.
         rbind (fs_init (m_fs s4)) (\<lambda>fs.
         rbind (fs_test fs) (\<lambda>fs1.
         let s5 = sti (s4\<lparr>m_kernel := k, m_fs := fs1\<rparr>)
         in rbind (printf (c_lit (''MAIN END'' @ [CHR 0x0A])) (screen (m_tty s5))) (\<lambda>c.
              Inr (s5\<lparr>m_tty := (m_tty s5)\<lparr>screen := c\<rparr>\<rparr>))))))))"

section \<open>The timer interrupt\<close>

definition on_timer :: "machine \<Rightarrow> machine res" where
  "on_timer s =
     (let s1 = s\<lparr>m_ticks := m_ticks s + 1\<rparr>;
          st = pic (m_tty s1);
          s2 = s1\<lparr>m_tty := (m_tty s1)\<lparr>pic := st\<lparr>iports := pic_send_eoi TIMER_INTERRUPT (iports st)\<rparr>\<rparr>\<rparr>
      in rbind (check_task_affairs (m_kernel s2)) (\<lambda>k. Inr (s2\<lparr>m_kernel := k\<rparr>)))"

section \<open>The ticket sellers\<close>

text \<open>
  The three demonstration programs differ in the letter they print. \<open>ticket_num\<close> is a signed
  32-bit counter; the loop runs as often as it is above 0.
\<close>

primrec sell_loop :: "nat \<Rightarrow> string \<Rightarrow> u32 \<Rightarrow> console \<Rightarrow> (u32 \<times> console) res" where
  "sell_loop 0 who ticket_num c = (if 0 < sint ticket_num then Inl Hang else Inr (ticket_num, c))"
| "sell_loop (Suc n) who ticket_num c =
     (if 0 < sint ticket_num then
        rbind (printf (c_lit (who @ '' sold out a ticket,remaining tickets:'')) c) (\<lambda>c1.
        rbind (get_itoa (ticket_num - 1) 10 (replicate 32 0)) (\<lambda>text.
        rbind (printf text c1) (\<lambda>c2. sell_loop n who (ticket_num - 1) (println c2))))
      else Inr (ticket_num, c))"

definition sell_ticket :: "string \<Rightarrow> u32 \<Rightarrow> console \<Rightarrow> kernel \<Rightarrow> (u32 \<times> console \<times> kernel) res" where
  "sell_ticket who ticket_num c k =
     rbind (sell_loop (nat (sint ticket_num)) who ticket_num c) (\<lambda>(t, c1).
       rbind (sys_exit 0 k) (\<lambda>k1. Inr (t, c1, k1)))"

section \<open>What each step of \<open>main\<close> leaves behind\<close>

lemma time_init_ok:
  "\<exists>tr. time_init h st = Inr (set_idt 0x20 h (st\<lparr>iports := tr\<rparr>))"
  by (simp add: time_init_def CMOS_RTC_hardware_init_def Let_def) blast

lemma tty_init_idt: "idt (pic (tty_init env h k)) v = (if v = 0x21 then make_idt_desc 8 h else idt (pic k) v)"
  "idtr (pic (tty_init env h k)) = idtr (pic k)"
  by (simp_all add: tty_init_def keyboard_init_def Let_def)

lemma new_directory_keeps:
  assumes "pd_ok m pd" "\<not> page_used m b" "has_addr pd v m"
  shows "pd_ok (new_directory pd m) pd" "has_addr pd w (new_directory pd m) = has_addr pd w m"
    "has_addr pd w m \<Longrightarrow> addr_translate pd w (new_directory pd m) = addr_translate pd w m"
    "page_used (new_directory pd m) c \<longleftrightarrow> page_used m c \<or> frame c = snd (p_malloc m)"
    "cr0 (new_directory pd m) = cr0 m" "cr3 (new_directory pd m) = cr3 m"
proof -
  obtain m1 a where M: "p_malloc m = (m1, a)" by fastforce
  have pages: "pages_ok m" using assms(1) by (simp add: pd_ok_def)
  have a: "a \<noteq> -1" using p_malloc_some [OF pages assms(2)] M by simp
  note P = p_malloc_ok [OF M pages a]
  have r: "ram m1 = ram m" using M p_malloc_simps(1) [of m] by simp
  have ok: "pd_ok m1 pd" using assms(1) P(3,4) by (auto simp: pd_ok_def r)
  have h: "has_addr pd w m1 = has_addr pd w m" "addr_translate pd w m1 = addr_translate pd w m" for w
    by (simp_all add: has_addr_walk addr_translate_walk r)
  have "a \<noteq> pd" "page_used m1 a" using assms(1) P(1,2,3) by (auto simp: pd_ok_def aligned_frame_eq)
  moreover have "table_of (ram m1) pd i \<noteq> a" if "i < 1024" "present (entry (ram m1) pd i)" for i
    using assms(1) P(2) that by (auto simp: pd_ok_def r)
  ultimately have C: "pd_ok (copy_pts pd a m1) pd" "\<And>w. has_addr pd w (copy_pts pd a m1) = has_addr pd w m"
    "\<And>w. has_addr pd w m \<Longrightarrow> addr_translate pd w (copy_pts pd a m1) = addr_translate pd w m"
    using copy_pts_shared [OF ok P(1), of v] assms(3) by (auto simp: h)
  have nd: "new_directory pd m = copy_pts pd a m1" by (simp add: new_directory_def M)
  show "pd_ok (new_directory pd m) pd" "has_addr pd w (new_directory pd m) = has_addr pd w m"
    "has_addr pd w m \<Longrightarrow> addr_translate pd w (new_directory pd m) = addr_translate pd w m"
    using C by (simp_all add: nd)
  show "page_used (new_directory pd m) c \<longleftrightarrow> page_used m c \<or> frame c = snd (p_malloc m)"
    using P(3) [of c] M by (auto simp: nd copy_pts_def page_used_def)
  show "cr0 (new_directory pd m) = cr0 m" "cr3 (new_directory pd m) = cr3 m"
    using M p_malloc_simps(2,3) [of m] by (simp_all add: nd copy_pts_def)
qed

lemma two_directories:
  assumes "mapped_upto m pd 65536"
  shows "has_addr pd v (new_directory pd (new_directory pd m)) \<longleftrightarrow> v < ITSELF_END"
    "v < ITSELF_END \<Longrightarrow> addr_translate pd v (new_directory pd (new_directory pd m)) = v"
    "cr0 (new_directory pd (new_directory pd m)) = cr0 m" "cr3 (new_directory pd (new_directory pd m)) = cr3 m"
proof -
  note I = mapped_upto_identity [OF assms]
  have ok: "pd_ok m pd" using assms by (simp add: mapped_upto_def)
  have u: "page_used m b \<longleftrightarrow> unat b div 4096 < 2112" for b using assms by (simp add: mapped_upto_def)
  have h0: "has_addr pd 0 m" using I(1) by simp
  have n1: "\<not> page_used m 0xFFFFF000" by (simp add: u)
  note A = new_directory_keeps [OF ok n1 h0]
  define b :: u32 where "b = (if snd (p_malloc m) = 0xFFFFF000 then 0xFFFFE000 else 0xFFFFF000)"
  have "frame b \<noteq> snd (p_malloc m)" by (auto simp: b_def)
  then have n2: "\<not> page_used (new_directory pd m) b" using A(4) [of b] u [of b] by (simp add: b_def)
  have h1: "has_addr pd 0 (new_directory pd m)" using A(2) h0 by simp
  note B = new_directory_keeps [OF A(1) n2 h1]
  show "has_addr pd v (new_directory pd (new_directory pd m)) \<longleftrightarrow> v < ITSELF_END" using A(2) B(2) I(1) by simp
  show "v < ITSELF_END \<Longrightarrow> addr_translate pd v (new_directory pd (new_directory pd m)) = v" using A(2,3) B(3) I by simp
  show "cr0 (new_directory pd (new_directory pd m)) = cr0 m" "cr3 (new_directory pd (new_directory pd m)) = cr3 m"
    using A(5,6) B(5,6) by simp_all
qed

section \<open>The test file\<close>

definition usr_file :: "u8 list \<Rightarrow> file_t" where
  "usr_file name = \<lparr>file_name = name, first_sector = 1026, last_sector = 1026, sector_count = 1,
     file_size = 508, file_type = FILE_TYPE_NORMAL\<rparr>"

lemma fs_test_ok:
  "\<exists>name block. fs_test s = Inr (s\<lparr>fs_disk := (fs_disk s)(1025 := block),
      file_alloc_bitmap := bit_free (file_alloc_bitmap s) 1026 True\<rparr>) \<and> length block = 512 \<and> next_sector block = NO_SECTOR \<and>
    c_str name = [117, 115, 114] \<and> 0 \<in> set name \<and> length name = 64 \<and> decode_file (take 84 block) = usr_file name"
proof -
  let ?u = "uninit 9 512 s"
  define ns where "ns = [117, 115, 114 :: u8]"
  have ns: "length ns = 3" "0 \<notin> set ns" "[117, 115, 114, 0] = ns @ 0 # []" by (simp_all add: ns_def)
  define name where "name = ns @ 0 # drop (Suc (length ns)) (take 64 ?u)"
  have lu: "length ?u = 512" by (simp add: uninit_def)
  have n: "strcpy (take 64 ?u) [117, 115, 114, 0] = Inr name"
    unfolding ns(3) using strcpy_ok [OF ns(2), of "take 64 ?u" "[]"] lu by (simp add: name_def ns(1))
  have wf: "wf_file (usr_file name)" using lu by (simp add: wf_file_def usr_file_def name_def ns(1))
  define block where "block = set_next_sector NO_SECTOR (encode_file (usr_file name) @ drop 84 ?u)"
  have lb: "length block = 512" using wf lu by (simp add: block_def)
  have "take 84 block = encode_file (usr_file name)" using wf by (simp add: block_def set_next_sector_def)
  then have "decode_file (take 84 block) = usr_file name" using decode_encode [OF wf, of "[]"] by simp
  moreover have "fs_test s = Inr (s\<lparr>fs_disk := (fs_disk s)(1025 := block),
      file_alloc_bitmap := bit_free (file_alloc_bitmap s) 1026 True\<rparr>)"
    using lb by (simp add: fs_test_def n Let_def usr_file_def [symmetric] block_def [symmetric] write_block_eq)
  moreover have "c_str name = [117, 115, 114]" unfolding name_def c_str_append [OF ns(2)] by (rule ns_def)
  moreover have "length name = 64" "0 \<in> set name" "next_sector block = NO_SECTOR"
    using lu wf by (simp_all add: name_def ns(1) block_def)
  ultimately show ?thesis using lb by blast
qed

lemma open_only_entry:
  assumes "disk_ok (fs_disk s)" "first_sector (root_fcb s) = 1025" "file_size (root_fcb s) = 84"
    "next_sector (fs_disk s 1025) = NO_SECTOR" "decode_file (take 84 (fs_disk s 1025)) = e"
    "0 \<in> set (file_name e)" "c_str (file_name e) = c" "names_ok [c]" "length (parent_dir_name (path_state f)) = FILE_PATH_MAXLENGTH"
  shows "\<exists>f'. load_file_cached (c @ [47, 0]) f s = Inr (FILE_RESULT_SUCCESS, f') \<and> fcb f' = e"
proof -
  have e: "entry_at (fs_disk s) [1025] 0 = e"
    using assms(1,5) by (simp add: entry_at_def file_bytes_def block_data_def slice_def)
  have on: "file_on (fs_disk s) (root_fcb s) [1025]" using assms(2,3,4) by (simp add: file_on_def)
  have n: "entries (root_fcb s) = 1" by (simp add: entries_def assms(3))
  then have dir: "dir_on (fs_disk s) (root_fcb s) [1025]" using on e assms(3,6) by (simp add: dir_on_def)
  have z: "0 \<notin> set c" using assms(8) by (simp add: names_ok_def)
  then have "c_str (c @ [0]) = c" by simp
  then have "first_entry (fs_disk s) (root_fcb s) [1025] (c @ [0]) = Some 0"
    using assms(7) by (simp add: first_entry_def n e)
  then have d: "dir_search_file (root_fcb s) (c @ [0]) s = Inr (FILE_RESULT_SUCCESS, Some (e, 0))"
    using dir_search_ok [OF assms(1) dir, of "c @ [0]"] e by simp
  obtain f2 where f2: "follow ([] @ [c]) (f\<lparr>fcb := root_fcb s\<rparr>) s = Inr (None, f2)" "fcb f2 = e" using d by simp
  have "names_ok ([] @ [c])" using assms(8) by simp
  from load_named [OF this f2(1), of "[]"] f2(2) assms(9) show ?thesis by (simp add: opened_def)
qed

section \<open>Properties\<close>

definition boot_memory_ok :: "kernel \<Rightarrow> bool" where
  "boot_memory_ok k \<longleftrightarrow> aligned (kernel_pd k) \<and> unat (kernel_pd k) < 0x800000 \<and>
     (\<forall>i < 1024. entry (ram (mem k)) (kernel_pd k) i = 0) \<and> (\<forall>a. \<not> page_used (mem k) a)"

text \<open>The file system after \<open>fs_init\<close> and \<open>fs_test\<close>.\<close>

lemma fs_started:
  assumes "disk_ok (fs_disk s)"
  shows "\<exists>fs fs1. fs_init s = Inr fs \<and> fs_test fs = Inr fs1 \<and> disk_ok (fs_disk fs1) \<and>
    (\<forall>i. i \<notin> {1024, 1025} \<longrightarrow> fs_disk fs1 i = fs_disk s i) \<and> fs_cached fs1 = fs_cached s \<and>
    (\<forall>f. length (parent_dir_name (path_state f)) = FILE_PATH_MAXLENGTH \<longrightarrow>
      (\<exists>f'. load_file_cached [117, 115, 114, 47, 0] f fs1 = Inr (FILE_RESULT_SUCCESS, f') \<and>
        first_sector (fcb f') = 1026 \<and> file_size (fcb f') = 508))"
proof -
  from fs_init_ok [OF assms, of "[]" three_block_file] obtain fs where
    fs: "fs_init s = Inr fs" "disk_ok (fs_disk fs)" "first_sector (root_fcb fs) = 1025" "file_size (root_fcb fs) = 84"
      "\<forall>i. i \<noteq> 1024 \<longrightarrow> fs_disk fs i = fs_disk s i" "fs_cached fs = fs_cached s"
    by auto
  from fs_test_ok [of fs] obtain name block where
    t: "fs_test fs = Inr (fs\<lparr>fs_disk := (fs_disk fs)(1025 := block), file_alloc_bitmap := bit_free (file_alloc_bitmap fs) 1026 True\<rparr>)"
      "length block = 512" "next_sector block = NO_SECTOR" "c_str name = [117, 115, 114]" "0 \<in> set name" "length name = 64"
      "decode_file (take 84 block) = usr_file name" by blast
  define fs1 where "fs1 = fs\<lparr>fs_disk := (fs_disk fs)(1025 := block), file_alloc_bitmap := bit_free (file_alloc_bitmap fs) 1026 True\<rparr>"
  have d: "disk_ok (fs_disk fs1)" using fs(2) t(2) by (simp add: fs1_def disk_ok_def)
  have r: "root_fcb fs1 = root_fcb fs" by (simp add: root_fcb_def read_block_eq fs1_def)
  have n: "0 \<in> set (file_name (usr_file name))" "c_str (file_name (usr_file name)) = [117, 115, 114]" "names_ok [[117, 115, 114]]"
    using t(4,5) by (simp_all add: usr_file_def names_ok_def)
  have "\<exists>f'. load_file_cached ([117, 115, 114] @ [47, 0]) f fs1 = Inr (FILE_RESULT_SUCCESS, f') \<and> fcb f' = usr_file name"
    if "length (parent_dir_name (path_state f)) = FILE_PATH_MAXLENGTH" for f
    by (rule open_only_entry [OF d _ _ _ _ n that]) (use r fs(3,4) t(3,7) in \<open>simp_all add: fs1_def\<close>)
  then have "\<exists>f'. load_file_cached [117, 115, 114, 47, 0] f fs1 = Inr (FILE_RESULT_SUCCESS, f') \<and>
        first_sector (fcb f') = 1026 \<and> file_size (fcb f') = 508"
    if "length (parent_dir_name (path_state f)) = FILE_PATH_MAXLENGTH" for f
    using that by (fastforce simp: usr_file_def)
  moreover have "\<forall>i. i \<notin> {1024, 1025} \<longrightarrow> fs_disk fs1 i = fs_disk s i" "fs_cached fs1 = fs_cached s" using fs(5,6) by (simp_all add: fs1_def)
  ultimately show ?thesis using fs(1) t(1) fs1_def d by blast
qed

text \<open>\<open>main\<close>, with the states the components are left in.\<close>

lemma main_ok:
  assumes "boot_kernel_ok (m_kernel s)" "boot_memory_ok (m_kernel s)" "disk_ok (fs_disk (m_fs s))"
  obtains tty m st c k fs fs1 where
    "main l env s = Inr (s\<lparr>m_gdtr := lgdt (gdt_addr l) (of_nat (8 * MAX_GDT_TERMS)), m_tty := tty\<lparr>screen := c, pic := st\<rparr>,
       m_kernel := k, m_fs := fs1, m_interrupts := True\<rparr>)"
    "idtr st = (2047, idt_addr l)"
    "\<forall>v < 256. idt st v = make_idt_desc 8 (if v = 14 then page_fault_handler l
       else if v = 33 then keyboard_interrupt_handler l else if v = 32 then timer_interrupt_handler l else ignore_int l)"
    "memory_init (kernel_pd (m_kernel s)) (page_fault_handler l) (mem (m_kernel s), pic tty) = Inr (m, st)"
    "mapped_upto m (kernel_pd (m_kernel s)) 65536" "cr3 m = kernel_pd (m_kernel s)" "bit (cr0 m) 31"
    "boot_kernel_ok ((m_kernel s)\<lparr>mem := m\<rparr>)"
    "sched_init (idle_addr l) (idle_stack_0 l) (idle_stack_1 l) ((m_kernel s)\<lparr>mem := m\<rparr>) = Inr k"
    "fs_init (m_fs s) = Inr fs" "fs_test fs = Inr fs1"
proof -
  let ?k = "m_kernel s" and ?pd = "kernel_pd (m_kernel s)"
  define st0 where "st0 = interrupt_init (idt_addr l) (ignore_int l) (pic (m_tty s))"
  obtain tr where tr: "time_init (timer_interrupt_handler l) st0 = Inr (set_idt 0x20 (timer_interrupt_handler l) (st0\<lparr>iports := tr\<rparr>))"
    using time_init_ok by blast
  define tty where "tty = tty_init env (keyboard_interrupt_handler l)
    ((m_tty s)\<lparr>pic := set_idt 0x20 (timer_interrupt_handler l) (st0\<lparr>iports := tr\<rparr>)\<rparr>)"
  define st where "st = set_idt PAGE_FAULT_INTERRUPT (page_fault_handler l) (pic tty)"
  have B: "aligned ?pd" "unat ?pd < 0x800000" "\<And>i. i < 1024 \<Longrightarrow> entry (ram (mem ?k)) ?pd i = 0" "\<And>a. \<not> page_used (mem ?k) a"
    using assms(2) by (simp_all add: boot_memory_ok_def)
  obtain m where m: "memory_init ?pd (page_fault_handler l) (mem ?k, pic tty) = Inr (m, st)"
    "mapped_upto m ?pd 65536" "cr3 m = ?pd" "bit (cr0 m) 31"
    using memory_init_ok [OF B, of "page_fault_handler l" "pic tty"] unfolding st_def by blast
  have bk: "boot_kernel_ok (?k\<lparr>mem := m\<rparr>)" using assms(1) by (simp add: boot_kernel_ok_def sleep_ok_def)
  obtain k where k: "sched_init (idle_addr l) (idle_stack_0 l) (idle_stack_1 l) (?k\<lparr>mem := m\<rparr>) = Inr k"
    using sched_init_ok [OF bk] by blast
  from fs_started [OF assms(3)] obtain fs fs1 where fs: "fs_init (m_fs s) = Inr fs" "fs_test fs = Inr fs1" by blast
  obtain c where c: "printf (c_lit (''MAIN END'' @ [CHR 0x0A])) (screen tty) = Inr c"
    by (simp add: printf_def c_lit_def)
  have run: "main l env s = Inr (s\<lparr>m_gdtr := lgdt (gdt_addr l) (of_nat (8 * MAX_GDT_TERMS)), m_tty := tty\<lparr>screen := c, pic := st\<rparr>,
       m_kernel := k, m_fs := fs1, m_interrupts := True\<rparr>)"
    using c by (simp add: main_def Let_def reload_gdt_def st0_def [symmetric] tr tty_def [symmetric] m(1) k(1) fs sti_def)
  show thesis
    by (rule that [OF run _ _ m bk k fs])
      (simp_all add: st_def tty_def tty_init_idt st0_def interrupt_init_simps)
qed

text \<open>
  Claim C6: starting the kernel brings every component into its initial state: \<open>main\<close> reaches its
  endless loop with interrupts on, the whole GDT loaded, the three handlers in their gates and the
  default handler in all others, paging on with exactly the lower 256 MiB mapped to themselves, the
  two idle processes ready under the scheduler's invariant, and the file \<open>usr/\<close> on the disk.
\<close>
theorem main_starts_kernel:
  assumes "boot_kernel_ok (m_kernel s)" "boot_memory_ok (m_kernel s)" "disk_ok (fs_disk (m_fs s))"
  shows "\<exists>s'. main l env s = Inr s' \<and> m_interrupts s' \<and> m_gdtr s' = (0xFFFF, gdt_addr l) \<and>
    idtr (pic (m_tty s')) = (2047, idt_addr l) \<and>
    (\<forall>v < 256. idt (pic (m_tty s')) v = make_idt_desc 8 (if v = 14 then page_fault_handler l
      else if v = 33 then keyboard_interrupt_handler l else if v = 32 then timer_interrupt_handler l else ignore_int l)) \<and>
    bit (cr0 (mem (m_kernel s'))) 31 \<and> cr3 (mem (m_kernel s')) = kernel_pd (m_kernel s) \<and>
    (\<forall>v. has_addr (kernel_pd (m_kernel s)) v (mem (m_kernel s')) \<longleftrightarrow> v < ITSELF_END) \<and>
    (\<forall>v < ITSELF_END. addr_translate (kernel_pd (m_kernel s)) v (mem (m_kernel s')) = v) \<and>
    sched_inv 5 6 (m_kernel s') \<and> rq (m_kernel s') = [5, 6] \<and> pid_running (tm (m_kernel s')) = NOT_FOUND \<and>
    (\<forall>f. length (parent_dir_name (path_state f)) = FILE_PATH_MAXLENGTH \<longrightarrow>
      (\<exists>f'. load_file_cached [117, 115, 114, 47, 0] f (m_fs s') = Inr (FILE_RESULT_SUCCESS, f') \<and>
        first_sector (fcb f') = 1026 \<and> file_size (fcb f') = 508))"
proof -
  obtain tty m st c k fs fs1 where
    main: "main l env s = Inr (s\<lparr>m_gdtr := lgdt (gdt_addr l) (of_nat (8 * MAX_GDT_TERMS)), m_tty := tty\<lparr>screen := c, pic := st\<rparr>,
       m_kernel := k, m_fs := fs1, m_interrupts := True\<rparr>)" "idtr st = (2047, idt_addr l)"
    "\<forall>v < 256. idt st v = make_idt_desc 8 (if v = 14 then page_fault_handler l
       else if v = 33 then keyboard_interrupt_handler l else if v = 32 then timer_interrupt_handler l else ignore_int l)"
    and "memory_init (kernel_pd (m_kernel s)) (page_fault_handler l) (mem (m_kernel s), pic tty) = Inr (m, st)"
    and m: "mapped_upto m (kernel_pd (m_kernel s)) 65536" "cr3 m = kernel_pd (m_kernel s)" "bit (cr0 m) 31"
    and k: "boot_kernel_ok ((m_kernel s)\<lparr>mem := m\<rparr>)"
      "sched_init (idle_addr l) (idle_stack_0 l) (idle_stack_1 l) ((m_kernel s)\<lparr>mem := m\<rparr>) = Inr k"
    and fs: "fs_init (m_fs s) = Inr fs" "fs_test fs = Inr fs1" by (rule main_ok [OF assms, of l env])
  from sched_init_ok [OF k(1), of "idle_addr l" "idle_stack_0 l" "idle_stack_1 l"] k(2) have
    "sched_inv 5 6 k" "rq k = [5, 6]" "pid_running (tm k) = NOT_FOUND"
    "mem k = new_directory (kernel_pd (m_kernel s)) (new_directory (kernel_pd (m_kernel s)) m)" by auto
  moreover from fs_started [OF assms(3)] fs have "\<forall>f. length (parent_dir_name (path_state f)) = FILE_PATH_MAXLENGTH \<longrightarrow>
        (\<exists>f'. load_file_cached [117, 115, 114, 47, 0] f fs1 = Inr (FILE_RESULT_SUCCESS, f') \<and>
          first_sector (fcb f') = 1026 \<and> file_size (fcb f') = 508)" by simp
  moreover have "lgdt (gdt_addr l) (of_nat (8 * MAX_GDT_TERMS)) = (0xFFFF, gdt_addr l)" by (simp add: lgdt_def)
  moreover note two_directories [OF m(1)]
  ultimately show ?thesis using main m(2,3) by simp
qed

definition demo_machine :: machine where
  "demo_machine = \<lparr>m_gdtr = (0, 0),
     m_tty = \<lparr>kbd = \<lparr>caps_pressed = False, left_shift_pressed = False, right_shift_pressed = False,
         ctrl_pressed = False, left_alt_pressed = False, right_alt_pressed = False\<rparr>,
       screen = fs_console (demo_fs three_blocks), pic = \<lparr>idt = (\<lambda>_. \<lparr>d_low = 0, d_high = 0\<rparr>), idtr = (0, 0), iports = []\<rparr>\<rparr>,
     m_kernel = boot_kernel, m_fs = demo_fs three_blocks, m_ticks = 0, m_interrupts = False\<rparr>"

definition demo_linker :: linker where
  "demo_linker = \<lparr>gdt_addr = 0x120000, idt_addr = 0x130000, ignore_int = 0x100100, timer_interrupt_handler = 0x100200,
     keyboard_interrupt_handler = 0x100300, page_fault_handler = 0x100400, idle_addr = 0x100500, idle_stack_0 = 0x140000,
     idle_stack_1 = 0x141000\<rparr>"

theorem main_starts_kernel_witness:
  "\<exists>s'. main demo_linker (\<lambda>_ _. 0xFF) demo_machine = Inr s' \<and> m_interrupts s' \<and> rq (m_kernel s') = [5, 6] \<and>
     addr_translate 0x200000 0xB8000 (mem (m_kernel s')) = 0xB8000"
proof -
  have e: "entry (ram (blank_machine 0)) t i = 0" for t i
    by (simp add: entry_def load32_def blank_machine_def join32_def)
  have "boot_memory_ok (m_kernel demo_machine)"
    by (simp add: boot_memory_ok_def demo_machine_def boot_kernel_def aligned_def e blank_used)
  moreover have "boot_kernel_ok (m_kernel demo_machine)" "disk_ok (fs_disk (m_fs demo_machine))"
    "kernel_pd (m_kernel demo_machine) = 0x200000"
    using boot_kernel_ok three_blocks_ok(1) by (simp_all add: demo_machine_def) (simp add: boot_kernel_def)
  ultimately show ?thesis
    using main_starts_kernel [of demo_machine demo_linker "\<lambda>_ _. 0xFF"] by (fastforce simp: word_less_nat_alt)
qed

text \<open>
  The 16-bit loader leaves interrupts off, the A20 line on (every other bit of its port as
  it was read), bit 0 of \<open>cr0\<close> set and every other bit as before, and its own table of three
  descriptors loaded, whose code and data segments both start at 0 and cover 4 GiB.
\<close>
theorem loader_enters_protected_mode:
  "\<exists>v. l_ports (loader_entry a env s) = l_ports s @ [(0x92, v)] \<and> (\<forall>k. bit v k \<longleftrightarrow> k = 1 \<or> bit (env (l_ports s) 0x92) k) \<and>
     \<not> l_interrupts (loader_entry a env s) \<and> l_gdtr (loader_entry a env s) = (8 * 3 - 1, a) \<and>
     (\<forall>k. bit (l_cr0 (loader_entry a env s)) k \<longleftrightarrow> k = 0 \<or> bit (l_cr0 s) k) \<and>
     (\<forall>d \<in> {gdt_temp ! 1, gdt_temp ! 2}. seg_base d = 0 \<and> seg_limit d = 0xFFFFF \<and> seg_pages d \<and> seg_present d \<and> seg_dpl d = 0)"
proof -
  have two: "bit (2 :: u8) k \<longleftrightarrow> k = 1" for k
    using bit_u8_exp [of 1 k] by simp
  have "bit (env (l_ports s) 0x92 OR 2) k \<longleftrightarrow> k = 1 \<or> bit (env (l_ports s) 0x92) k" for k
    by (simp only: bit_or_iff two) blast
  moreover have "bit (l_cr0 s OR 1) k \<longleftrightarrow> k = 0 \<or> bit (l_cr0 s) k" for k
    by (auto simp: bit_or_iff bit_1_iff)
  moreover have "\<forall>d \<in> {gdt_temp ! 1, gdt_temp ! 2}. seg_base d = 0 \<and> seg_limit d = 0xFFFFF \<and> seg_pages d \<and> seg_present d \<and> seg_dpl d = 0"
    by (simp add: gdt_temp_def desc_decode)
  ultimately show ?thesis
    by (simp add: loader_entry_def cli_def open_A20_def enter_protected_mode_def write_cr0_def read_cr0_def lgdt_def
        outb_def inb_def Let_def) (simp add: gdt_temp_def)
qed

text \<open>A machine in real mode whose port 0x92 reads 0x24.\<close>

theorem loader_enters_protected_mode_witness:
  "let s' = loader_entry 0x90000 (\<lambda>_ _. 0x24) \<lparr>l_interrupts = True, l_gdtr = (0, 0), l_cr0 = 0x10, l_ports = []\<rparr>
   in \<not> l_interrupts s' \<and> l_gdtr s' = (23, 0x90000) \<and> bit (l_cr0 s') 0 \<and> bit (l_cr0 s') 4 \<and>
     seg_base (gdt_temp ! 1) = 0 \<and> seg_limit (gdt_temp ! 2) = 0xFFFFF"
  using loader_enters_protected_mode [of "0x90000" "\<lambda>_ _. 0x24"
      "\<lparr>l_interrupts = True, l_gdtr = (0, 0), l_cr0 = 0x10, l_ports = []\<rparr>"]
  by (auto simp: Let_def bit_simps)

text \<open>
  \<open>load_kernel\<close> copies the 512 sectors from number 128 on, byte by byte and in order, to
  the 256 KiB of memory from 0x100000 on, and nothing else.
\<close>
theorem load_kernel_copies:
  assumes "disk_ok dk"
  shows "(\<forall>k < 262144. load_kernel dk r (0x100000 + of_nat k) = dk (128 + k div 512) ! (k mod 512)) \<and>
    (\<forall>a. a < 0x100000 \<or> 0x140000 \<le> a \<longrightarrow> load_kernel dk r a = r a)"
proof (intro conjI allI impI)
  have l: "length (disk_read dk 128 512) = 262144" using length_disk_read [OF assms, of 128 512] by simp
  show "load_kernel dk r (0x100000 + of_nat k) = dk (128 + k div 512) ! (k mod 512)" if "k < 262144" for k
  proof -
    have "unat (of_nat k :: u32) = k" using that by (intro unat_of_nat_small) simp
    then show ?thesis using that l disk_read_nth [OF assms, of k 512 128] by (simp add: load_kernel_def Let_def)
  qed
  show "load_kernel dk r a = r a" if "a < 0x100000 \<or> 0x140000 \<le> a" for a
  proof -
    have "\<not> unat (a - 0x100000) < 262144"
      using that unat_u32_less [of a] unat_sub_if' [of a "0x100000"] by (auto simp: word_less_nat_alt word_le_nat_alt)
    then show ?thesis using l by (simp add: load_kernel_def Let_def)
  qed
qed

theorem load_kernel_copies_witness: "load_kernel three_blocks (\<lambda>_. 7) 0x13FFFF = three_blocks 639 ! 511"
  using load_kernel_copies [OF three_blocks_ok(1), of "\<lambda>_. 7"] by (auto dest!: spec [of _ 262143])

lemma printf_lit: "\<exists>c'. printf (c_lit t) c = Inr c'"
  by (simp add: printf_def strlen_eq c_lit_def)

lemma sint_pred: "sint t = int (Suc n) \<Longrightarrow> sint (t - 1) = int n" for t :: u32
  using signed_take_bit_int_eq_self [of 31 "sint t - 1"] sint_lt [of t] by (simp add: sint_word_ariths)

lemma sell_loop_ok: "sint t = int n \<Longrightarrow> \<exists>c'. sell_loop n who t c = Inr (0, c')"
proof (induction n arbitrary: t c)
  case 0
  then have "t = 0" by (simp add: signed_eq_0_iff)
  then show ?case by simp
next
  case (Suc n)
  note t = sint_pred [OF Suc.prems]
  obtain c1 where c1: "printf (c_lit (who @ '' sold out a ticket,remaining tickets:'')) c = Inr c1" using printf_lit by blast
  have "int n < 2 ^ 31" using t sint_lt [of "t - 1"] by simp
  then obtain num where num: "get_itoa (t - 1) 10 (replicate 32 0) = Inr num" "0 \<in> set num"
    using itoa_ok [of 10 "int n" "replicate 32 0"] by (auto simp: get_itoa_def t)
  obtain c2 where c2: "printf num c1 = Inr c2" using num(2) by (simp add: printf_def strlen_eq)
  obtain c' where "sell_loop n who (t - 1) (println c2) = Inr (0, c')" using Suc.IH [OF t] by blast
  then show ?case using Suc.prems by (simp add: c1 num(1) c2)
qed

text \<open>
  A ticket seller that runs undisturbed ends: its loop sells all tickets that are left, and
  the process leaves the scheduler.
\<close>
theorem sell_ticket_terminates:
  assumes "sched_inv i j k" "pid_running (tm k) \<notin> {NOT_FOUND, i, j}" "0 \<le> sint t"
  shows "\<exists>c' k'. sell_ticket who t c k = Inr (0, c', k') \<and> sched_inv i j k' \<and> pid_running (tm k) \<notin> set (active k')"
proof -
  obtain c' where "sell_loop (nat (sint t)) who t c = Inr (0, c')" using sell_loop_ok [of t "nat (sint t)"] assms(3) by auto
  moreover obtain k' where "sys_exit 0 k = Inr k'" "sched_inv i j k'" "pid_running (tm k) \<notin> set (active k')"
    using sys_exit_ok [OF assms(1,2), of 0] by blast
  ultimately show ?thesis by (simp add: sell_ticket_def)
qed

theorem sell_ticket_terminates_witness:
  "\<exists>c' k'. sell_ticket ''A'' 10000 c sem_kernel = Inr (0, c', k')"
proof -
  have "pid_running (tm sem_kernel) \<notin> {NOT_FOUND, 5, 6}" by (simp add: sem_kernel_lists NOT_FOUND_def)
  from sell_ticket_terminates [OF sem_kernel_inv this, of 10000] show ?thesis by fastforce
qed

end
