(* ===== verification/Frames.thy ===== *)
theory Frames
  imports Swap Address_Space
begin

text \<open>
  Which frames of the physical memory an operation of kernel/mm/memory.c and
  kernel/mm/v_memory.c takes and writes, and what it leaves alone: the lemmas that keep the
  address spaces of processes apart. Every lemma is about single bytes, so that tables and
  the content of pages are treated alike.
\<close>

section \<open>Bytes and frames\<close>

lemma frame_at:
  assumes "aligned t" "i < 1024" "j < 4"
  shows "frame (t + 4 * of_nat i + of_nat j) = t"
proof -
  have "unat t mod 4096 = 0" using assms(1) by (simp add: aligned_def)
  then obtain q where "unat t = 4096 * q" by (metis mod_eq_0_iff_dvd dvdE)
  then have "unat (t + 4 * of_nat i + of_nat j) div 4096 = unat t div 4096"
    using entry_addr [OF assms] assms(2,3) by simp
  then show ?thesis by (simp add: frame_eq_iff [OF assms(1)])
qed

lemma frame_at_entry:
  assumes "aligned t" "i < 1024"
  shows "frame (t + 4 * of_nat i) = t" "frame (t + 4 * of_nat i + 1) = t" "frame (t + 4 * of_nat i + 2) = t"
    "frame (t + 4 * of_nat i + 3) = t"
  using frame_at [OF assms, of 0] frame_at [OF assms, of 1] frame_at [OF assms, of 2] frame_at [OF assms, of 3] by simp_all

lemma store_entry_out:
  assumes "aligned t" "i < 1024" "frame a \<noteq> t"
  shows "store32 r (t + 4 * of_nat i) w a = r a"
proof -
  note F = frame_at_entry [OF assms(1,2)]
  have "a \<noteq> t + 4 * of_nat i" using F(1) assms(3) by auto
  moreover have "a \<noteq> t + 4 * of_nat i + 1" using F(2) assms(3) by auto
  moreover have "a \<noteq> t + 4 * of_nat i + 2" using F(3) assms(3) by auto
  moreover have "a \<noteq> t + 4 * of_nat i + 3" using F(4) assms(3) by auto
  ultimately show ?thesis by (simp add: store32_def)
qed

lemma entry_same:
  assumes "aligned t" "i < 1024" "\<And>a. frame a = t \<Longrightarrow> r' a = r a"
  shows "entry r' t i = entry r t i"
  using frame_at_entry [OF assms(1,2)] by (simp add: entry_def load32_def assms(3))

lemma frame_far: "aligned t \<Longrightarrow> frame a \<noteq> t \<Longrightarrow> 4096 \<le> unat (a - t)"
proof (rule ccontr)
  assume t: "aligned t" "frame a \<noteq> t" and "\<not> 4096 \<le> unat (a - t)"
  then have l: "unat (a - t) < 4096" by simp
  have "unat t mod 4096 = 0" using t(1) by (simp add: aligned_def)
  then obtain q where "unat t = 4096 * q" by (metis mod_eq_0_iff_dvd dvdE)
  moreover have "unat a = unat t + unat (a - t)" using byte_addr [OF t(1) l] by simp
  ultimately have "unat a div 4096 = unat t div 4096" using l by simp
  then show False using t by (simp add: frame_eq_iff)
qed

lemma frame_near: "aligned t \<Longrightarrow> unat (a - t) < 4096 \<Longrightarrow> frame a = t"
  using frame_far [of t a] by (auto simp: not_le)

lemma page_used_frame: "page_used m (frame a) = page_used m a"
  by (simp add: page_used_def unat_frame)

section \<open>Taking free frames\<close>

text \<open>
  \<open>grows A m m'\<close>: the operation from \<open>m\<close> to \<open>m'\<close> has taken the free frames \<open>A\<close>, the lowest ones, and has
  written nowhere else.
\<close>

definition grows :: "u32 set \<Rightarrow> mm_state \<Rightarrow> mm_state \<Rightarrow> bool" where
  "grows A m m' \<longleftrightarrow> A \<subseteq> free_pages m \<and> (pages_ok m \<longrightarrow> pages_ok m') \<and>
     (\<forall>c. page_used m' c \<longleftrightarrow> page_used m c \<or> frame c \<in> A) \<and> (\<forall>a. frame a \<notin> A \<longrightarrow> ram m' a = ram m a) \<and>
     (\<forall>a \<in> A. \<forall>c < a. page_used m' c)"

lemma grows_refl: "grows {} m m"
  by (simp add: grows_def)

lemma grows_used: "grows A m m' \<Longrightarrow> page_used m a \<Longrightarrow> page_used m' a \<and> ram m' a = ram m a"
  using page_used_frame [of m a] by (auto simp: grows_def free_pages_def)

lemma grows_trans:
  assumes "grows A m m1" "grows B m1 m2"
  shows "grows (A \<union> B) m m2"
proof -
  have "B \<subseteq> free_pages m" using assms by (auto simp: grows_def free_pages_def)
  then show ?thesis using assms unfolding grows_def by auto
qed

text \<open>Writing in frames that were taken before.\<close>

lemma grows_write:
  assumes "grows A m m1" "\<And>a. frame a \<notin> A \<Longrightarrow> r a = ram m1 a"
  shows "grows A m (m1\<lparr>ram := r\<rparr>)"
proof -
  have "page_used (m1\<lparr>ram := r\<rparr>) = page_used m1" "pages_ok (m1\<lparr>ram := r\<rparr>) = pages_ok m1"
    by (simp_all add: page_used_def pages_ok_def fun_eq_iff)
  then show ?thesis using assms unfolding grows_def by auto
qed

lemma malloc_lowest: "p_malloc m = (m1, a) \<Longrightarrow> pages_ok m \<Longrightarrow> a \<noteq> -1 \<Longrightarrow> c < a \<Longrightarrow> page_used m c"
proof -
  assume a: "p_malloc m = (m1, a)" "pages_ok m" "a \<noteq> -1" "c < a"
  have "frame c \<le> c" by (simp add: word_le_nat_alt unat_frame)
  then show ?thesis using p_malloc_ok(5) [OF a(1-3), of "frame c"] a(4) p_malloc_ok(5) [OF a(1-3), of c] by simp
qed

lemma grows_malloc:
  assumes "p_malloc m = (m1, a)" "pages_ok m" "a \<noteq> -1"
  shows "grows {a} m m1"
proof -
  note P = p_malloc_ok [OF assms]
  have "ram m1 = ram m" using p_malloc_simps(1) [of m] by (simp add: assms(1))
  moreover have "\<forall>c < a. page_used m1 c" using malloc_lowest [OF assms] P(3) by blast
  ultimately show ?thesis using P(1-4) by (auto simp: grows_def free_pages_def)
qed

lemma free_count_grows:
  assumes "grows A m m'" "finite A"
  shows "card (free_pages m) - card A \<le> card (free_pages m')"
  using assms by (intro free_pages_grow) (auto simp: grows_def)

text \<open>As many of the lowest pages are below 256 MiB as there are free ones there.\<close>

definition low_pages :: "mm_state \<Rightarrow> u32 set" where
  "low_pages m = {a \<in> free_pages m. a < ITSELF_END}"

lemma low_pages_le: "card (low_pages m) \<le> card (free_pages m)"
  by (rule card_mono) (auto simp: low_pages_def)

lemma grows_low:
  assumes "grows A m m'" "finite A" "card A \<le> card (low_pages m)" "a \<in> A"
  shows "a < ITSELF_END"
proof (rule ccontr)
  assume a: "\<not> a < ITSELF_END"
  have "low_pages m \<subseteq> A - {a}"
  proof
    fix c assume c: "c \<in> low_pages m"
    then have "c < a" using a unfolding low_pages_def mem_Collect_eq by (meson less_le_trans not_less)
    then have "page_used m' c" using assms(1,4) unfolding grows_def by blast
    then have "frame c \<in> A" using assms(1) c by (auto simp: grows_def low_pages_def free_pages_def)
    then show "c \<in> A - {a}" using c \<open>c < a\<close> by (auto simp: low_pages_def free_pages_def aligned_frame_eq)
  qed
  then have "card (low_pages m) \<le> card (A - {a})" using assms(2) by (intro card_mono) auto
  then show False using assms(2-4) card_Diff1_less [of A a] by simp
qed

lemma grows_count:
  assumes "grows A m m'" "finite A"
  shows "card (free_pages m') + card A = card (free_pages m)"
proof -
  have "free_pages m' = free_pages m - A" "A \<subseteq> free_pages m"
    using assms(1) by (auto simp: grows_def free_pages_def aligned_frame_eq)
  then show ?thesis using assms(2) card_Diff_subset [of A "free_pages m"] card_mono [of "free_pages m" A] by simp
qed

lemma low_count_grows:
  assumes "grows A m m'" "finite A"
  shows "card (low_pages m) \<le> card (low_pages m') + card A"
proof -
  have "low_pages m - A \<subseteq> low_pages m'"
    using assms(1) by (auto simp: grows_def low_pages_def free_pages_def aligned_frame_eq)
  then have "card (low_pages m - A) \<le> card (low_pages m')" by (intro card_mono) simp
  moreover have "card (low_pages m) - card A \<le> card (low_pages m - A)" by (rule diff_card_le_card_Diff [OF assms(2)])
  ultimately show ?thesis by linarith
qed

section \<open>The frames of a directory\<close>

definition walk_frames :: "mm_state \<Rightarrow> u32 \<Rightarrow> u32 set" where
  "walk_frames m pd = insert pd {table_of (ram m) pd i | i. i < 1024 \<and> present (entry (ram m) pd i)}"

lemma walk_frames_used: "pd_ok m pd \<Longrightarrow> t \<in> walk_frames m pd \<Longrightarrow> aligned t \<and> page_used m t"
  by (auto simp: walk_frames_def pd_ok_def table_of_def)

text \<open>As long as nothing is written in these frames, the directory translates as before.\<close>

lemma same_walk:
  assumes "pd_ok m pd" "\<forall>a. frame a \<in> walk_frames m pd \<longrightarrow> ram m' a = ram m a"
  shows "\<And>i. i < 1024 \<Longrightarrow> entry (ram m') pd i = entry (ram m) pd i" "walk_frames m' pd = walk_frames m pd"
    "\<And>v. present (entry (ram m) pd (pdi v)) \<Longrightarrow> pte (ram m') pd v = pte (ram m) pd v"
    "space_of pd m' = space_of pd m"
proof -
  have pd: "aligned pd" "pd \<in> walk_frames m pd" using assms(1) by (simp_all add: pd_ok_def walk_frames_def)
  show e: "entry (ram m') pd i = entry (ram m) pd i" if "i < 1024" for i
    using pd assms(2) by (intro entry_same [OF _ that]) auto
  then have t: "table_of (ram m') pd i = table_of (ram m) pd i" if "i < 1024" for i using that by (simp add: table_of_def)
  show "walk_frames m' pd = walk_frames m pd" using e t unfolding walk_frames_def
    by (intro arg_cong [of _ _ "insert pd"] Collect_cong) (metis (no_types, lifting))
  show p: "pte (ram m') pd v = pte (ram m) pd v" if v: "present (entry (ram m) pd (pdi v))" for v
  proof -
    have "table_of (ram m) pd (pdi v) \<in> walk_frames m pd" using v by (auto simp: walk_frames_def)
    then show ?thesis using assms(2) unfolding pte_def t [OF pdi_less]
      by (intro entry_same) (auto simp: table_of_def)
  qed
  have "has_addr pd v m' = has_addr pd v m \<and> (has_addr pd v m \<longrightarrow> addr_translate pd v m' = addr_translate pd v m)" for v
    using p [of v] e [OF pdi_less, of v] by (auto simp: has_addr_walk addr_translate_walk)
  then show "space_of pd m' = space_of pd m" by (intro ext) (simp add: space_of_def)
qed

lemma pd_ok_same:
  assumes "pd_ok m pd" "pages_ok m'" "\<And>a. page_used m a \<Longrightarrow> page_used m' a" "\<And>i. i < 1024 \<Longrightarrow> entry (ram m') pd i = entry (ram m) pd i"
  shows "pd_ok m' pd"
  using assms by (simp add: pd_ok_def table_of_def)

lemma grows_walk:
  assumes "grows A m m'" "pd_ok m pd"
  shows "pd_ok m' pd" "\<And>i. i < 1024 \<Longrightarrow> entry (ram m') pd i = entry (ram m) pd i" "walk_frames m' pd = walk_frames m pd"
    "\<And>v. present (entry (ram m) pd (pdi v)) \<Longrightarrow> pte (ram m') pd v = pte (ram m) pd v"
    "space_of pd m' = space_of pd m"
proof -
  have u: "\<forall>a. frame a \<in> walk_frames m pd \<longrightarrow> ram m' a = ram m a"
    using grows_used [OF assms(1)] walk_frames_used [OF assms(2)] page_used_frame by blast
  note S = same_walk [OF assms(2) u]
  show "\<And>i. i < 1024 \<Longrightarrow> entry (ram m') pd i = entry (ram m) pd i" "walk_frames m' pd = walk_frames m pd"
    "\<And>v. present (entry (ram m) pd (pdi v)) \<Longrightarrow> pte (ram m') pd v = pte (ram m) pd v"
    "space_of pd m' = space_of pd m" using S by blast+
  show "pd_ok m' pd"
    by (rule pd_ok_same [OF assms(2)]) (use assms grows_used [OF assms(1)] S(1) in \<open>auto simp: grows_def pd_ok_def\<close>)
qed

section \<open>The operations on page tables\<close>

text \<open>\<open>set_mmap\<close> writes in the table, and in the directory when the table is new.\<close>

lemma set_mmap_ram:
  assumes "pd_ok m pd" "table_room pd (pdi v) m" "set_mmap pd v p f m = (m', ok)"
    "frame a \<noteq> table_of (ram m') pd (pdi v)" "ok \<or> frame a \<noteq> pd"
  shows "ram m' a = ram m a"
proof -
  define m1 where "m1 = with_table pd (pdi v) m"
  note W = with_table_ok [OF assms(1) pdi_less assms(2), folded m1_def]
  have m': "m' = m1\<lparr>ram := store32 (ram m1) (table_of (ram m1) pd (pdi v) + 4 * of_nat (pti v)) (p OR ucast f)\<rparr>"
    and ok: "ok = present (entry (ram m) pd (pdi v))"
    using assms(3) by (simp_all add: set_mmap_unfold m1_def Let_def)
  have t: "table_of (ram m') pd (pdi v) = table_of (ram m1) pd (pdi v)"
    using store_pte(2) [OF W(1,2) pdi_less pti_less [of v] pdi_less, where x = "p OR ucast f", folded m'] by (simp add: table_of_def)
  have "ram m' a = ram m1 a"
    using assms(4) unfolding t by (simp add: m' store_entry_out table_of_def)
  moreover have "ram m1 a = ram m a"
  proof (cases ok)
    case True
    then show ?thesis by (simp add: m1_def with_table_def ok)
  next
    case False
    obtain m2 b where M: "p_malloc m = (m2, b)" by fastforce
    have "ram m2 = ram m" using p_malloc_simps(1) [of m] by (simp add: M)
    then show ?thesis
      using False assms(1,5) by (simp add: m1_def with_table_def ok M store_entry_out pd_ok_def)
  qed
  ultimately show ?thesis by simp
qed

text \<open>A directory in a frame that was taken gets a new table.\<close>

lemma grows_set_mmap:
  assumes "grows A m0 m" "pd \<in> A" "pd_ok m pd" "0 < card (free_pages m)" "\<not> present (entry (ram m) pd (pdi v))"
    "set_mmap pd v p f m = (m', ok)"
  obtains t where "grows (insert t A) m0 m'" "pd_ok m' pd" "t \<in> free_pages m" "table_of (ram m') pd (pdi v) = t"
    "present (entry (ram m') pd (pdi v))" "\<And>i. i < 1024 \<Longrightarrow> i \<noteq> pdi v \<Longrightarrow> entry (ram m') pd i = entry (ram m) pd i"
    "pte (ram m') pd v = p OR ucast f"
proof -
  note R = room_for_table [OF assms(3,4)]
  note S = set_mmap_ok [OF assms(3) R assms(6)]
  have ok: "\<not> ok" using S(4) assms(5) by simp
  have t: "table_of (ram m') pd (pdi v) = snd (p_malloc m)" using set_mmap_table [OF assms(3) R] assms(6) ok by simp
  have pg: "pages_ok m" using assms(3) by (simp add: pd_ok_def)
  have fr: "snd (p_malloc m) \<in> free_pages m" using p_malloc_free(4) [OF pg assms(4)] .
  have r: "ram m' a = ram m a" if "frame a \<noteq> snd (p_malloc m)" "frame a \<noteq> pd" for a
    using set_mmap_ram [OF assms(3) R assms(6)] that by (simp add: t)
  have "pages_ok m'" using S(1) by (simp add: pd_ok_def)
  moreover have "ram m' a = ram m0 a" if "frame a \<notin> insert (snd (p_malloc m)) A" for a
    using r [of a] assms(1,2) that unfolding grows_def by (metis insertCI)
  moreover have "page_used m c" if "c < snd (p_malloc m)" for c
    by (rule malloc_lowest [OF surjective_pairing pg p_malloc_free(1) [OF pg assms(4)] that])
  ultimately have "grows (insert (snd (p_malloc m)) A) m0 m'"
    using assms(1) fr S(9) ok by (auto simp: grows_def free_pages_def)
  then show thesis using that S(1-3) S(5) fr t by blast
qed

text \<open>The copy of a directory in a new frame.\<close>

lemma copy_pts_ram:
  assumes "aligned to" "aligned from" "to \<noteq> from" "frame a \<noteq> to"
  shows "ram (copy_pts from to m) a = ram m a"
  using mem_copy_at [OF assms(1-3), of 4096] frame_far [OF assms(1,4)] by (simp add: copy_pts_def)

lemma grows_copy:
  assumes "pd_ok m from" "p_malloc m = (m1, to)" "to \<noteq> -1"
  shows "grows {to} m (copy_pts from to m1)" "pd_ok (copy_pts from to m1) to"
    "\<And>i. i < 1024 \<Longrightarrow> entry (ram (copy_pts from to m1)) to i = entry (ram m) from i"
proof -
  have pg: "pages_ok m" "aligned from" using assms(1) by (auto simp: pd_ok_def)
  note P = p_malloc_ok [OF assms(2) pg(1) assms(3)]
  have ne: "to \<noteq> from" using P(2) assms(1) by (auto simp: pd_ok_def)
  have r: "ram m1 = ram m" using p_malloc_simps(1) [of m] by (simp add: assms(2))
  have "copy_pts from to m1 = m1\<lparr>ram := ram (copy_pts from to m1)\<rparr>" by (simp add: copy_pts_def)
  moreover have "grows {to} m (m1\<lparr>ram := ram (copy_pts from to m1)\<rparr>)"
    by (rule grows_write [OF grows_malloc [OF assms(2) pg(1) assms(3)]]) (simp add: copy_pts_ram [OF P(1) pg(2) ne])
  ultimately show g: "grows {to} m (copy_pts from to m1)" by simp
  show e: "entry (ram (copy_pts from to m1)) to i = entry (ram m) from i" if "i < 1024" for i
    using copy_pts_ok(1) [OF P(1) pg(2) ne that, of m1] by (simp add: r)
  have "table_of (ram m) from i \<noteq> to" if "i < 1024" "present (entry (ram m) from i)" for i
    using assms(1) P(2) that by (auto simp: pd_ok_def)
  then show "pd_ok (copy_pts from to m1) to"
    using assms(1) P(1) g by (auto simp: pd_ok_def e table_of_def grows_def aligned_frame_eq)
qed

text \<open>No free frame looks like a table with present entries, and none is made to.\<close>

lemma clean_grows:
  assumes "clean_pd kpd m" "grows A m m'" "pd_ok m' pd"
  shows "clean_pd pd m'"
proof -
  have "\<not> present (entry (ram m') a j)" if "a \<in> free_pages m'" "j < 1024" for a j
  proof -
    have a: "aligned a" "a \<in> free_pages m" "a \<notin> A" using that(1) assms(2) by (auto simp: grows_def free_pages_def aligned_frame_eq)
    then have "entry (ram m') a j = entry (ram m) a j"
      using assms(2) by (intro entry_same [OF _ that(2)]) (auto simp: grows_def)
    then show ?thesis using assms(1) a(2) that(2) by (simp add: clean_pd_def)
  qed
  then show ?thesis using assms(3) by (simp add: clean_pd_def)
qed

section \<open>What belongs to a process\<close>

text \<open>
  The tables of a directory from index 64 on, with the directory itself, and the frames mapped at
  addresses from 256 MiB on: below, all directories share the tables of \<open>kernel_pd\<close>.
\<close>

definition own_tables :: "mm_state \<Rightarrow> u32 \<Rightarrow> u32 set" where
  "own_tables m pd = insert pd {table_of (ram m) pd i | i. 64 \<le> i \<and> i < 1024 \<and> present (entry (ram m) pd i)}"

definition own_data :: "mm_state \<Rightarrow> u32 \<Rightarrow> u32 set" where
  "own_data m pd = {frame a | a. \<exists>v. ITSELF_END \<le> v \<and> space_of pd m v = Some a}"

lemma itself_end_iff: "ITSELF_END \<le> v \<longleftrightarrow> 64 \<le> pdi v"
  by (simp add: pdi_def word_le_nat_alt less_eq_div_iff_mult_less_eq)

lemma own_data_mapped: "pd_ok m pd \<Longrightarrow> ITSELF_END \<le> v \<Longrightarrow> has_addr pd v m \<Longrightarrow> table_of (ram m) pd (pdi v) \<in> own_tables m pd"
  by (auto simp: own_tables_def itself_end_iff has_addr_walk)

text \<open>
  \<open>spaces_ok kpd P d m\<close>: the address spaces of the processes \<open>P\<close> with directories \<open>d\<close> share the lower
  part with \<open>kpd\<close> and nothing else; no process has one of its tables, or of the shared ones,
  mapped in its upper part.
\<close>

definition space_ok :: "u32 \<Rightarrow> mm_state \<Rightarrow> u32 \<Rightarrow> bool" where
  "space_ok kpd m pd \<longleftrightarrow> pd_ok m pd \<and> (\<forall>i < 64. entry (ram m) pd i = entry (ram m) kpd i) \<and>
     own_data m pd \<subseteq> used_pages m \<and> (own_tables m pd \<union> own_data m pd) \<inter> walk_frames m kpd = {} \<and>
     own_tables m pd \<inter> own_data m pd = {}"

definition spaces_ok :: "u32 \<Rightarrow> u16 set \<Rightarrow> (u16 \<Rightarrow> u32) \<Rightarrow> mm_state \<Rightarrow> bool" where
  "spaces_ok kpd P d m \<longleftrightarrow> clean_pd kpd m \<and> (\<forall>i < 1024. present (entry (ram m) kpd i) \<longleftrightarrow> i < 64) \<and>
     (\<forall>p \<in> P. space_ok kpd m (d p)) \<and>
     (\<forall>p \<in> P. \<forall>q \<in> P. p \<noteq> q \<longrightarrow>
        (own_tables m (d p) \<union> own_data m (d p)) \<inter> (own_tables m (d q) \<union> own_data m (d q)) = {})"

lemma own_tables_used: "pd_ok m pd \<Longrightarrow> own_tables m pd \<subseteq> used_pages m"
  by (auto simp: own_tables_def pd_ok_def used_pages_def table_of_def)

lemma walk_own:
  assumes "\<forall>i < 64. entry (ram m) pd i = entry (ram m) kpd i"
  shows "walk_frames m pd \<subseteq> own_tables m pd \<union> walk_frames m kpd"
proof
  fix t
  assume "t \<in> walk_frames m pd"
  then consider "t = pd" | i where "i < 1024" "present (entry (ram m) pd i)" "t = table_of (ram m) pd i"
    by (auto simp: walk_frames_def)
  then show "t \<in> own_tables m pd \<union> walk_frames m kpd"
  proof cases
    case (2 i)
    then show ?thesis
    proof (cases "i < 64")
      case True
      with 2 assms show ?thesis by (auto simp: walk_frames_def table_of_def)
    next
      case False
      with 2 show ?thesis by (auto simp: own_tables_def)
    qed
  qed (simp add: own_tables_def)
qed

text \<open>What belongs to a directory depends on its entries and its translations.\<close>

lemma own_same:
  assumes "\<And>i. i < 1024 \<Longrightarrow> entry (ram m') pd i = entry (ram m) pd i" "space_of pd m' = space_of pd m"
  shows "own_tables m' pd = own_tables m pd" "own_data m' pd = own_data m pd"
proof -
  show "own_tables m' pd = own_tables m pd"
    using assms(1) unfolding own_tables_def table_of_def
    by (intro arg_cong [of _ _ "insert pd"] Collect_cong) (metis (no_types, lifting))
  show "own_data m' pd = own_data m pd" by (simp add: own_data_def assms(2))
qed

lemma space_grows:
  assumes "space_ok kpd m pd" "grows A m m'" "pd_ok m kpd"
  shows "space_ok kpd m' pd" "own_tables m' pd = own_tables m pd" "own_data m' pd = own_data m pd"
proof -
  have pd: "pd_ok m pd" using assms(1) by (simp add: space_ok_def)
  note G = grows_walk [OF assms(2) pd] and K = grows_walk [OF assms(2,3)]
  from own_same [OF G(2,5)] show O: "own_tables m' pd = own_tables m pd" "own_data m' pd = own_data m pd" by simp_all
  have "used_pages m \<subseteq> used_pages m'" using grows_used [OF assms(2)] by (auto simp: used_pages_def)
  then show "space_ok kpd m' pd" using assms(1) G(1,2) K(2,3) by (auto simp: space_ok_def O)
qed

text \<open>A new process whose tables and pages are among the frames that were taken.\<close>

lemma spaces_grow:
  assumes "spaces_ok kpd P d m" "grows A m m'" "\<forall>q \<in> P. d' q = d q"
    and new: "pd_ok m' (d' p)" "\<forall>i < 64. entry (ram m') (d' p) i = entry (ram m) kpd i"
      "own_tables m' (d' p) \<union> own_data m' (d' p) \<subseteq> A" "own_tables m' (d' p) \<inter> own_data m' (d' p) = {}"
  shows "spaces_ok kpd (insert p P) d' m'"
proof (cases "p \<in> P")
  case True
  have k: "clean_pd kpd m" "pd_ok m kpd" using assms(1) by (simp_all add: spaces_ok_def clean_pd_def)
  have "space_ok kpd m (d' p)" using True assms(1,3) by (simp add: spaces_ok_def)
  then have "d' p \<in> own_tables m' (d' p)" "pd_ok m (d' p)" by (simp_all add: own_tables_def space_ok_def)
  then show ?thesis using new(3) assms(2) by (auto simp: grows_def free_pages_def pd_ok_def)
next
  case p: False
  have k: "clean_pd kpd m" "pd_ok m kpd" using assms(1) by (simp_all add: spaces_ok_def clean_pd_def)
  note K = grows_walk [OF assms(2) k(2)]
  have S: "space_ok kpd m' (d' q)" "own_tables m' (d' q) \<union> own_data m' (d' q) = own_tables m (d' q) \<union> own_data m (d' q)"
    "own_tables m (d' q) \<union> own_data m (d' q) \<subseteq> used_pages m" if "q \<in> P" for q
  proof -
    have q: "space_ok kpd m (d' q)" using that assms(1,3) by (simp add: spaces_ok_def)
    note G = space_grows [OF q assms(2) k(2)]
    show "space_ok kpd m' (d' q)" "own_tables m' (d' q) \<union> own_data m' (d' q) = own_tables m (d' q) \<union> own_data m (d' q)"
      using G by simp_all
    show "own_tables m (d' q) \<union> own_data m (d' q) \<subseteq> used_pages m"
      using q own_tables_used [of m "d' q"] by (simp add: space_ok_def)
  qed
  have A: "A \<inter> used_pages m = {}" "A \<subseteq> used_pages m'"
    using assms(2) by (auto simp: grows_def free_pages_def used_pages_def aligned_frame_eq)
  have "walk_frames m kpd \<subseteq> used_pages m" using walk_frames_used [OF k(2)] by (auto simp: used_pages_def)
  then have n: "space_ok kpd m' (d' p)" using new A K(2,3) by (auto simp: space_ok_def)
  have "(own_tables m' (d' q) \<union> own_data m' (d' q)) \<inter> (own_tables m' (d' p) \<union> own_data m' (d' p)) = {}" if "q \<in> P" for q
    using S(2,3) [OF that] new(3) A(1) by blast
  moreover have "(own_tables m' (d' q) \<union> own_data m' (d' q)) \<inter> (own_tables m' (d' r) \<union> own_data m' (d' r)) = {}"
    if "q \<in> P" "r \<in> P" "q \<noteq> r" for q r
    using S(2) [OF that(1)] S(2) [OF that(2)] that assms(1,3) by (simp add: spaces_ok_def)
  moreover have "\<forall>i < 1024. present (entry (ram m') kpd i) \<longleftrightarrow> i < 64" using assms(1) K(2) by (simp add: spaces_ok_def)
  ultimately show ?thesis
    using n S(1) clean_grows [OF k(1) assms(2) K(1)] p unfolding spaces_ok_def by (auto simp: Int_commute)
qed

lemma spaces_fewer: "spaces_ok kpd P d m \<Longrightarrow> P' \<subseteq> P \<Longrightarrow> (\<And>p. p \<in> P' \<Longrightarrow> d' p = d p) \<Longrightarrow> spaces_ok kpd P' d' m"
  by (simp add: spaces_ok_def subset_iff)

section \<open>A copied directory, and the memory of a new program\<close>

text \<open>What \<open>create_task\<close> gives a process: the shared tables, and nothing above them.\<close>

lemma own_of_copy:
  assumes "\<forall>i < 1024. present (entry (ram m) kpd i) \<longleftrightarrow> i < 64" "\<And>i. i < 1024 \<Longrightarrow> entry (ram m') pd i = entry (ram m) kpd i"
  shows "own_tables m' pd = {pd}" "own_data m' pd = {}" "ITSELF_END \<le> v \<Longrightarrow> space_of pd m' v = None"
proof -
  have e: "\<not> present (entry (ram m') pd i)" if "64 \<le> i" "i < 1024" for i using assms that by auto
  then show "own_tables m' pd = {pd}" by (auto simp: own_tables_def)
  have n: "space_of pd m' v = None" if "ITSELF_END \<le> v" for v
    using e [OF that [unfolded itself_end_iff] pdi_less] by (simp add: space_of_def has_addr_walk)
  then show "own_data m' pd = {}" "ITSELF_END \<le> v \<Longrightarrow> space_of pd m' v = None" by (auto simp: own_data_def)
qed

lemma swap_sector_set_space:
  assumes "pd_ok m pd" "present (entry (ram m) pd (pdi v))"
  shows "space_of pd (swap_sector_set pd v x m) w = (if unat w div 4096 = unat v div 4096 then None else space_of pd m w)"
  using swap_sector_set_ok(2) [OF assms pdi_less, of x w] swap_sector_set_ok(3) [OF assms, of w x] swap_sector_bits(1) [of x]
  by (auto simp: space_of_def has_addr_walk addr_translate_walk split: if_splits)

lemma frame_offset: "aligned a \<Longrightarrow> frame (a + (w AND 0xFFF)) = a"
proof -
  assume a: "aligned a"
  have "unat (a + (w AND 0xFFF) - a) < 4096" by (simp add: unat_offset)
  then show ?thesis by (rule frame_near [OF a])
qed

lemma own_tables_listed:
  assumes "\<forall>i < 1024. present (entry (ram m) kpd i) \<longleftrightarrow> i < 64"
    "\<And>i. i < 1024 \<Longrightarrow> i \<notin> I \<Longrightarrow> entry (ram m') pd i = entry (ram m) kpd i"
  shows "own_tables m' pd \<subseteq> insert pd (table_of (ram m') pd ` I)"
proof
  fix a assume "a \<in> own_tables m' pd"
  then consider "a = pd" | i where "64 \<le> i" "i < 1024" "present (entry (ram m') pd i)" "a = table_of (ram m') pd i"
    by (auto simp: own_tables_def)
  then show "a \<in> insert pd (table_of (ram m') pd ` I)"
  proof cases
    case (2 i)
    then have "\<not> present (entry (ram m) kpd i)" using assms(1) by simp
    then have "i \<in> I" using assms(2) [of i] 2(2,3) by metis
    then show ?thesis using 2(4) by blast
  qed simp
qed

text \<open>The code page: a table of its own, and the swap sector in place of the entry.\<close>

lemma code_page_space:
  fixes x :: u32
  assumes "clean_pd kpd m" "\<forall>i < 1024. present (entry (ram m) kpd i) \<longleftrightarrow> i < 64" "p_malloc m = (m1, pd)" "3 \<le> card (free_pages m)"
    "ITSELF_END \<le> v" "set_mmap pd v 0 3 (copy_pts kpd pd m1) = (m2, ok)"
  defines "m3 \<equiv> swap_sector_set pd v x m2"
  obtains t where "grows {t, pd} m m3" "pd_ok m3 pd" "table_of (ram m3) pd (pdi v) = t" "pte (ram m3) pd v = SWAP_SECTOR_SET x"
    "\<And>i. i < 1024 \<Longrightarrow> i \<noteq> pdi v \<Longrightarrow> entry (ram m3) pd i = entry (ram m) kpd i" "present (entry (ram m3) pd (pdi v))"
    "\<And>w. ITSELF_END \<le> w \<Longrightarrow> space_of pd m3 w = None" "t \<noteq> pd"
proof -
  have k: "pd_ok m kpd" "pages_ok m" using assms(1) by (simp_all add: clean_pd_def pd_ok_def)
  have pd: "pd \<noteq> -1" using p_malloc_free(1) [OF k(2)] assms(3,4) by simp
  define mA where "mA = copy_pts kpd pd m1"
  note C = grows_copy [OF k(1) assms(3) pd, folded mA_def]
  have O: "space_of pd mA w = None" if "ITSELF_END \<le> w" for w by (rule own_of_copy(3) [OF assms(2) C(3) that])
  have cl: "clean_pd pd mA" by (rule clean_grows [OF assms(1) C(1,2)])
  have free: "0 < card (free_pages mA)" using free_count_grows [OF C(1)] assms(4) by simp
  have np: "\<not> present (entry (ram mA) pd (pdi v))" using assms(2,5) by (simp add: C(3) itself_end_iff not_less)
  obtain t where t: "grows (insert t {pd}) m m2" "pd_ok m2 pd" "table_of (ram m2) pd (pdi v) = t"
    "present (entry (ram m2) pd (pdi v))" "\<And>i. i < 1024 \<Longrightarrow> i \<noteq> pdi v \<Longrightarrow> entry (ram m2) pd i = entry (ram mA) pd i"
    "t \<in> free_pages mA"
    using grows_set_mmap [OF C(1) _ C(2) free np assms(6) [folded mA_def]] by blast
  note W = swap_sector_set_ok [OF t(2,4), where x = x, folded m3_def]
  have "aligned t" using t(3) by (auto simp: table_of_def)
  then have "grows {t, pd} m (m2\<lparr>ram := store32 (ram m2) (t + 4 * of_nat (pti v)) (SWAP_SECTOR_SET x)\<rparr>)"
    by (intro grows_write [OF t(1)] store_entry_out) auto
  then have g: "grows {t, pd} m m3" by (simp add: m3_def swap_sector_set_walk t(3))
  have "space_of pd m2 = remap v 0 (space_of pd mA)"
    using set_mmap_space [OF cl free, of 0 3 v] assms(6) by (simp add: mA_def aligned_def page_flags_def)
  then have n: "space_of pd m3 w = None" if "ITSELF_END \<le> w" for w
    using O [OF that] by (simp add: m3_def swap_sector_set_space [OF t(2,4)] remap_def)
  have "t \<noteq> pd" using t(6) C(2) by (auto simp: free_pages_def pd_ok_def)
  then show thesis
    by (intro that [OF g W(1)]) (use W(2) W(3) [OF t(4)] t(3,4) C(3) t(5) n in \<open>simp_all add: table_of_def\<close>)
qed

text \<open>The stack page on top of it.\<close>

lemma stack_space:
  assumes "grows A m m3" "pd \<in> A" "clean_pd pd m3" "pd_ok m3 pd" "3 \<le> card (free_pages m3)" "load_memory pd w 3 m3 = (m5, st)"
    and v: "pdi v \<noteq> pdi w" "present (entry (ram m3) pd (pdi v))" and w: "\<not> present (entry (ram m3) pd (pdi w))"
  obtains t where "grows (insert t (insert st A)) m m5" "pd_ok m5 pd" "table_of (ram m5) pd (pdi w) = t" "has_addr pd w m5"
    "\<And>i. i < 1024 \<Longrightarrow> i \<noteq> pdi w \<Longrightarrow> entry (ram m5) pd i = entry (ram m3) pd i" "pte (ram m5) pd v = pte (ram m3) pd v"
    "space_of pd m5 = remap w st (space_of pd m3)" "aligned st" "\<not> page_used m3 st" "st \<noteq> t" "t \<notin> A"
proof -
  have f3: "0 < card (free_pages m3)" "2 \<le> card (free_pages m3)" using assms(5) by simp_all
  obtain m4 ok' where M: "p_malloc m3 = (m4, st)" "set_mmap pd w st 3 m4 = (m5, ok')"
    using assms(6) by (auto simp: load_memory_def split: prod.splits)
  have pg: "pages_ok m3" using assms(4) by (simp add: pd_ok_def)
  have f: "page_flags 3" "unat (3 :: u16) < 4096" "bit (3 :: u16) 0" by (simp_all add: page_flags_def)
  have st: "st \<noteq> -1" using p_malloc_free(1) [OF pg f3(1)] M(1) by simp
  note P = p_malloc_ok [OF M(1) pg st]
  have g3: "grows {st} m3 m4" by (rule grows_malloc [OF M(1) pg st])
  note G = grows_walk [OF g3 assms(4)]
  have f4: "0 < card (free_pages m4)" using free_count_grows [OF g3] assms(5) by simp
  have np: "\<not> present (entry (ram m4) pd (pdi w))" using w by (simp add: G(2))
  obtain t where t: "grows (insert t (A \<union> {st})) m m5" "pd_ok m5 pd" "t \<in> free_pages m4" "table_of (ram m5) pd (pdi w) = t"
    "\<And>i. i < 1024 \<Longrightarrow> i \<noteq> pdi w \<Longrightarrow> entry (ram m5) pd i = entry (ram m4) pd i"
    using grows_set_mmap [OF grows_trans [OF assms(1) g3] _ G(1) f4 np M(2)] assms(2) by blast
  have room: "table_room pd (pdi w) m4" by (rule room_for_table [OF G(1) f4])
  have "page_used m4 st" using P(1,3) by (simp add: aligned_frame_eq)
  then have "st \<noteq> t" using t(3) by (auto simp: free_pages_def)
  moreover have "t \<notin> A" using t(3) assms(1) g3 by (auto simp: grows_def free_pages_def aligned_frame_eq)
  ultimately show thesis
    using t(1,2,4,5) G(2) P(1,2) load_memory_ok(5) [OF assms(4) M(1) st room assms(6) f(2,3) v]
      maps_page_walk(1) [OF load_memory_ok(2) [OF assms(4) M(1) st room assms(6) f(2,3)]]
      tables.load_ok(5) [OF assms(3) f3(2) f(1) assms(6)]
    by (intro that [of t]) (simp_all add: insert_commute)
qed

lemma program_space:
  assumes "clean_pd kpd m" "\<forall>i < 1024. present (entry (ram m) kpd i) \<longleftrightarrow> i < 64" "p_malloc m = (m1, pd)" "5 \<le> card (free_pages m)"
    "set_mmap pd v 0 3 (copy_pts kpd pd m1) = (m2, ok)" "load_memory pd w 3 (swap_sector_set pd v x m2) = (m5, st)"
    and far: "ITSELF_END \<le> v" "ITSELF_END \<le> w" "pdi v \<noteq> pdi w"
  obtains A where "grows A m m5" "finite A" "card A = 4" "pd \<in> A" "pd_ok m5 pd" "\<forall>i < 64. entry (ram m5) pd i = entry (ram m) kpd i"
    "own_tables m5 pd \<union> own_data m5 pd \<subseteq> A" "own_tables m5 pd \<inter> own_data m5 pd = {}"
    "present (entry (ram m5) pd (pdi v))" "pte (ram m5) pd v = SWAP_SECTOR_SET x" "has_addr pd w m5"
proof -
  define m3 where "m3 = swap_sector_set pd v x m2"
  have "3 \<le> card (free_pages m)" using assms(4) by simp
  from code_page_space [OF assms(1-3) this far(1) assms(5), of x, folded m3_def] obtain t where
    t: "grows {t, pd} m m3" "pd_ok m3 pd" "table_of (ram m3) pd (pdi v) = t" "pte (ram m3) pd v = SWAP_SECTOR_SET x"
    "\<And>i. i < 1024 \<Longrightarrow> i \<noteq> pdi v \<Longrightarrow> entry (ram m3) pd i = entry (ram m) kpd i" "present (entry (ram m3) pd (pdi v))"
    "\<And>u. ITSELF_END \<le> u \<Longrightarrow> space_of pd m3 u = None" "t \<noteq> pd" by blast
  have cl: "clean_pd pd m3" by (rule clean_grows [OF assms(1) t(1,2)])
  have "card {t, pd} \<le> 2" by (simp add: card_insert_le_m1)
  then have f3: "3 \<le> card (free_pages m3)" using free_count_grows [OF t(1)] assms(4) by simp
  have wi: "\<not> present (entry (ram m3) pd (pdi w))" using assms(2) far t(5) [OF pdi_less, of w] by (simp add: itself_end_iff not_less)
  obtain t2 where t2: "grows (insert t2 (insert st {t, pd})) m m5" "pd_ok m5 pd" "table_of (ram m5) pd (pdi w) = t2" "has_addr pd w m5"
    "\<And>i. i < 1024 \<Longrightarrow> i \<noteq> pdi w \<Longrightarrow> entry (ram m5) pd i = entry (ram m3) pd i" "pte (ram m5) pd v = pte (ram m3) pd v"
    "space_of pd m5 = remap w st (space_of pd m3)" "aligned st" "\<not> page_used m3 st" "st \<noteq> t2" "t2 \<notin> {t, pd}"
    using stack_space [OF t(1) _ cl t(2) f3 assms(6) [folded m3_def] far(3) t(6) wi] by blast
  have "entry (ram m5) pd i = entry (ram m) kpd i" if "i < 1024" "i \<notin> {pdi w, pdi v}" for i
    using t2(5) [of i] t(5) [of i] that by simp
  from own_tables_listed [OF assms(2), of "{pdi w, pdi v}", OF this] have tabs: "own_tables m5 pd \<subseteq> {t2, t, pd}"
    using t2(3) t(3) t2(5) [OF pdi_less far(3)] by (auto simp: table_of_def)
  have data: "own_data m5 pd \<subseteq> {st}"
    using t(7) frame_offset [OF t2(8)] by (auto simp: own_data_def t2(7) remap_def split: if_splits)
  have "st \<notin> {t2, t, pd}" using t(2,3,6) t2(9,10) by (auto simp: pd_ok_def)
  moreover from this have "card {t2, st, t, pd} = 4" using t(8) t2(10,11) by auto
  moreover have "entry (ram m5) pd i = entry (ram m) kpd i" if "i < 64" for i
    using t2(5) [of i] t(5) [of i] far that by (auto simp: itself_end_iff)
  moreover have "present (entry (ram m5) pd (pdi v))" using t(6) t2(5) [OF pdi_less far(3)] by simp
  ultimately show thesis
    using t2(1,2,4,6) tabs data t(4) by (intro that [of "{t2, st, t, pd}"]) auto
qed

section \<open>The memory after a page fault\<close>

text \<open>\<open>frame_written t f m m'\<close>: only the new frame \<open>f\<close> and the table \<open>t\<close> have changed.\<close>

definition frame_written :: "u32 \<Rightarrow> u32 \<Rightarrow> mm_state \<Rightarrow> mm_state \<Rightarrow> bool" where
  "frame_written t f m m' \<longleftrightarrow> page_used m t \<and> f \<in> free_pages m \<and> pages_ok m' \<and>
     (\<forall>c. page_used m' c \<longleftrightarrow> page_used m c \<or> frame c = f) \<and>
     (\<forall>a. frame a \<noteq> f \<longrightarrow> frame a \<noteq> t \<longrightarrow> ram m' a = ram m a) \<and> (\<forall>c < f. page_used m' c)"

lemma written_walk:
  assumes "frame_written t f m m'" "pd_ok m pd" "t \<notin> walk_frames m pd"
  shows "pd_ok m' pd" "\<And>i. i < 1024 \<Longrightarrow> entry (ram m') pd i = entry (ram m) pd i" "walk_frames m' pd = walk_frames m pd"
    "\<And>v. present (entry (ram m) pd (pdi v)) \<Longrightarrow> pte (ram m') pd v = pte (ram m) pd v" "space_of pd m' = space_of pd m"
proof -
  have "\<forall>a. frame a \<in> walk_frames m pd \<longrightarrow> ram m' a = ram m a"
    using walk_frames_used [OF assms(2)] assms(1,3) unfolding frame_written_def free_pages_def by (metis (no_types, lifting) mem_Collect_eq)
  note S = same_walk [OF assms(2) this]
  show "\<And>i. i < 1024 \<Longrightarrow> entry (ram m') pd i = entry (ram m) pd i" "walk_frames m' pd = walk_frames m pd"
    "\<And>v. present (entry (ram m) pd (pdi v)) \<Longrightarrow> pte (ram m') pd v = pte (ram m) pd v" "space_of pd m' = space_of pd m"
    using S by blast+
  show "pd_ok m' pd" by (rule pd_ok_same [OF assms(2)]) (use assms(1) S(1) in \<open>auto simp: frame_written_def\<close>)
qed

lemma written_clean:
  assumes "frame_written t f m m'" "clean_pd kpd m" "pd_ok m' kpd"
  shows "clean_pd kpd m'"
proof -
  have "\<not> present (entry (ram m') a j)" if a: "a \<in> free_pages m'" "j < 1024" for a j
  proof -
    have af: "aligned a" "\<not> page_used m a" "frame a \<noteq> f" using a(1) assms(1) by (simp_all add: free_pages_def frame_written_def)
    then have "a \<noteq> f" "a \<noteq> t" using assms(1) aligned_frame_eq [OF af(1)] by (auto simp: frame_written_def)
    then have "entry (ram m') a j = entry (ram m) a j"
      using assms(1) by (intro entry_same [OF af(1) a(2)]) (simp add: frame_written_def)
    moreover have "a \<in> free_pages m" using af by (simp add: free_pages_def)
    ultimately show ?thesis using assms(2) a(2) by (simp add: clean_pd_def)
  qed
  then show ?thesis using assms(3) by (simp add: clean_pd_def)
qed

text \<open>
  The handler takes one frame, which it fills from the swap area and maps, and writes one
  entry of one table of the directory.
\<close>

lemma fault_mapped:
  assumes "pd_ok m0 pd" "present (entry (ram m0) pd (pdi v))" "p_malloc m0 = (m1, a)" "a \<noteq> -1"
    "set_mmap pd v a 3 m1 = (m2, True)" "maps_page m2 pd v a"
    and out: "\<And>x. 4096 \<le> unat (x - a) \<Longrightarrow> r x = ram m2 x"
  defines "m \<equiv> m2\<lparr>ram := r\<rparr>"
  shows "frame_written (table_of (ram m0) pd (pdi v)) a m0 m" "pd_ok m pd"
    "\<And>i. i < 1024 \<Longrightarrow> entry (ram m) pd i = entry (ram m0) pd i"
    "\<And>u. unat u div 4096 \<noteq> unat v div 4096 \<Longrightarrow> present (entry (ram m0) pd (pdi u)) \<Longrightarrow> pte (ram m) pd u = pte (ram m0) pd u"
proof -
  have pg: "pages_ok m0" using assms(1) by (simp add: pd_ok_def)
  note P = p_malloc_ok [OF assms(3) pg assms(4)]
  have r1: "ram m1 = ram m0" using p_malloc_simps(1) [of m0] by (simp add: assms(3))
  have ok1: "pd_ok m1 pd" using assms(1) P(3,4) by (auto simp: pd_ok_def r1)
  have room: "table_room pd (pdi v) m1" using assms(2) by (simp add: table_room_def r1)
  note S = set_mmap_ok [OF ok1 room assms(5)]
  show pm: "pd_ok m pd" using maps_page_outside(1) [OF assms(6) out] by (simp add: maps_page_def m_def)
  have ram2: "ram m x = ram m0 x" if "frame x \<noteq> a" "frame x \<noteq> table_of (ram m0) pd (pdi v)" for x
    using set_mmap_ram [OF ok1 room assms(5), of x] that S(5) [OF pdi_less, of v] out [OF frame_far [OF P(1) that(1)]]
    by (simp add: table_of_def r1 m_def)
  have "page_used m c \<longleftrightarrow> page_used m0 c \<or> frame c = a" for c
    using S(9) [of c] P(3) [of c] by (auto simp: m_def page_used_def)
  with ram2 show "frame_written (table_of (ram m0) pd (pdi v)) a m0 m"
    using P(1,2) pm assms(1,2) malloc_lowest [OF assms(3) pg assms(4)] by (simp add: frame_written_def free_pages_def pd_ok_def)
  show e: "entry (ram m) pd i = entry (ram m0) pd i" if "i < 1024" for i
  proof -
    have "aligned pd" "pd \<noteq> a" using assms(1,6) by (simp_all add: pd_ok_def maps_page_def)
    then have "entry r pd i = entry (ram m2) pd i" by (intro entry_outside [OF out _ P(1) _ that])
    then show ?thesis using S(5) [OF that] by (simp add: m_def r1)
  qed
  show "pte (ram m) pd u = pte (ram m0) pd u" if u: "unat u div 4096 \<noteq> unat v div 4096" "present (entry (ram m0) pd (pdi u))" for u
  proof -
    have e2: "entry (ram m2) pd (pdi u) = entry (ram m0) pd (pdi u)" using S(5) [OF pdi_less] by (simp add: r1)
    have "pte (ram m2) pd u = pte (ram m0) pd u"
      using S(6) [of u] S(7) [of u] u by (auto simp: same_page r1)
    moreover have "table_of (ram m2) pd (pdi u) \<noteq> a" using assms(6) u(2) by (simp add: maps_page_def e2)
    then have "entry r (table_of (ram m2) pd (pdi u)) (pti u) = entry (ram m2) (table_of (ram m2) pd (pdi u)) (pti u)"
      by (intro entry_outside [OF out _ P(1) _ pti_less]) (simp_all add: table_of_def)
    moreover have "table_of (ram m) pd (pdi u) = table_of (ram m2) pd (pdi u)" using e [OF pdi_less, of u] e2 by (simp add: table_of_def)
    ultimately show ?thesis by (simp add: pte_def m_def)
  qed
qed

lemma fault_space:
  assumes "pd_ok (vm_mm s) pd" "cr3 (vm_mm s) = pd" "present (entry (ram (vm_mm s)) pd (pdi v))"
    "pte (ram (vm_mm s)) pd v = SWAP_SECTOR_SET sector" "unat sector < 2 ^ 29"
    "0 < card (free_pages (vm_mm s))" "aligned v" "disk_ok (vm_disk s)"
  obtains m f where "on_page_fault v e s = Inr (s\<lparr>vm_mm := m\<rparr>)"
    "frame_written (table_of (ram (vm_mm s)) pd (pdi v)) f (vm_mm s) m"
    "space_of pd m = remap v f (space_of pd (vm_mm s))"
    "\<And>k. k < 4096 \<Longrightarrow> ram m (f + of_nat k) = disk_read (vm_disk s) (unat sector) 8 ! k"
    "\<And>i. i < 1024 \<Longrightarrow> entry (ram m) pd i = entry (ram (vm_mm s)) pd i" "pd_ok m pd"
    "\<And>u. unat u div 4096 \<noteq> unat v div 4096 \<Longrightarrow> present (entry (ram (vm_mm s)) pd (pdi u)) \<Longrightarrow> pte (ram m) pd u = pte (ram (vm_mm s)) pd u"
proof -
  define m0 where "m0 = vm_mm s"
  note A = assms [folded m0_def]
  have pg: "pages_ok m0" using A(1) by (simp add: pd_ok_def)
  obtain m1 a where M: "p_malloc m0 = (m1, a)" by fastforce
  have an: "a \<noteq> -1" using p_malloc_free(1) [OF pg A(6)] by (simp add: M)
  note P = p_malloc_ok [OF M pg an]
  have "cr3 m0 = pd" by (rule A(2))
  with on_page_fault_start [of s v sector m1 a e, folded m0_def, unfolded \<open>cr3 m0 = pd\<close>, OF A(1,3,4,5) M an] obtain m2 where
    m2: "on_page_fault v e s = rbind (store_virtual pd v (disk_read (vm_disk s) (unat sector) 8) m2) (\<lambda>m3. Inr (s\<lparr>vm_mm := m3\<rparr>))"
      "maps_page m2 pd v a" "set_mmap pd v a 3 m1 = (m2, True)"
      "\<forall>w. unat w div 4096 \<noteq> unat v div 4096 \<longrightarrow> has_addr pd w m2 = has_addr pd w m0 \<and>
        (has_addr pd w m0 \<longrightarrow> addr_translate pd w m2 = addr_translate pd w m0)" by blast
  let ?bs = "disk_read (vm_disk s) (unat sector) 8"
  have l: "length ?bs = 4096" using length_disk_read [OF assms(8), of "unat sector" 8] by simp
  from store_virtual_page [OF m2(2) assms(7), of 0 ?bs] l obtain r where
    r: "store_virtual pd v ?bs m2 = Inr (m2\<lparr>ram := r\<rparr>)" "\<And>x. r x = (if unat (x - a) < 4096 then ?bs ! unat (x - a) else ram m2 x)"
    by auto
  define m where "m = m2\<lparr>ram := r\<rparr>"
  have out: "r x = ram m2 x" if "4096 \<le> unat (x - a)" for x using that r(2) by simp
  note O = maps_page_outside [OF m2(2) out, folded m_def]
  have sp: "space_of pd m = remap v a (space_of pd m0)"
  proof (rule ext)
    fix w
    show "space_of pd m w = remap v a (space_of pd m0) w"
      using m2(4) O(2,3) [of w] maps_page_walk [OF m2(2), of w] by (auto simp: space_of_def remap_def)
  qed
  have "unat (of_nat k :: u32) = k" if "k < 4096" for k using that by (intro unat_of_nat_small) simp
  then have c: "ram m (a + of_nat k) = ?bs ! k" if "k < 4096" for k using that r(2) [of "a + of_nat k"] by (simp add: m_def)
  have run: "on_page_fault v e s = Inr (s\<lparr>vm_mm := m\<rparr>)" using m2(1) r(1) by (simp add: m_def)
  note F = fault_mapped [OF A(1,3) M an m2(3,2) out, folded m_def]
  show thesis by (rule that [folded m0_def, OF run F(1) sp c F(3,2,4)])
qed

text \<open>Such a change leaves the address spaces apart when the table belongs to the process that gets the frame.\<close>

lemma spaces_fault:
  assumes "spaces_ok kpd P d m" "r \<in> P" "t \<in> own_tables m (d r)" "frame_written t f m m'"
    and dir: "space_of (d r) m' = remap v f (space_of (d r) m)" "\<And>i. i < 1024 \<Longrightarrow> entry (ram m') (d r) i = entry (ram m) (d r) i"
      "pd_ok m' (d r)"
  shows "spaces_ok kpd P d m'"
proof -
  define Own where "Own m q = own_tables m (d q) \<union> own_data m (d q)" for m q
  have k: "clean_pd kpd m" "pd_ok m kpd" and S: "\<And>q. q \<in> P \<Longrightarrow> space_ok kpd m (d q)"
    and apart: "\<And>p q. p \<in> P \<Longrightarrow> q \<in> P \<Longrightarrow> p \<noteq> q \<Longrightarrow> Own m p \<inter> Own m q = {}"
    using assms(1) by (auto simp: spaces_ok_def clean_pd_def Own_def)
  have used: "\<And>c. page_used m' c \<longleftrightarrow> page_used m c \<or> frame c = f" and fresh: "\<not> page_used m f" "aligned f"
    using assms(4) by (auto simp: frame_written_def free_pages_def)
  have tk: "t \<notin> walk_frames m kpd" using S [OF assms(2)] assms(3) by (auto simp: space_ok_def)
  note K = written_walk [OF assms(4) k(2) tk]
  have up: "used_pages m \<subseteq> used_pages m'" "f \<in> used_pages m'" using used fresh(2) by (auto simp: used_pages_def aligned_frame_eq)
  have same: "Own m' q = Own m q \<and> space_ok kpd m' (d q)" if q: "q \<in> P" "q \<noteq> r" for q
  proof -
    have so: "space_ok kpd m (d q)" and pd: "pd_ok m (d q)" using S [OF q(1)] by (simp_all add: space_ok_def)
    have "walk_frames m (d q) \<subseteq> own_tables m (d q) \<union> walk_frames m kpd" using so by (intro walk_own) (simp add: space_ok_def)
    then have "t \<notin> walk_frames m (d q)" using apart [OF q(1) assms(2) q(2)] assms(3) tk by (auto simp: Own_def)
    note Q = written_walk [OF assms(4) pd this]
    from own_same [OF Q(2,5)] have o: "own_tables m' (d q) = own_tables m (d q)" "own_data m' (d q) = own_data m (d q)" by simp_all
    then show ?thesis using so up(1) Q(1,2) K(2,3) by (auto simp: space_ok_def Own_def)
  qed
  have rt: "own_tables m' (d r) = own_tables m (d r)"
    using dir(2) unfolding own_tables_def table_of_def by (intro arg_cong [of _ _ "insert (d r)"] Collect_cong) (metis (no_types, lifting))
  have rd: "own_data m' (d r) \<subseteq> insert f (own_data m (d r))"
    using frame_offset [OF fresh(2)] by (auto simp: own_data_def dir(1) remap_def split: if_splits)
  have nf: "f \<notin> Own m q" if "q \<in> P" for q
    using S [OF that] own_tables_used [of m "d q"] fresh(1) by (auto simp: space_ok_def used_pages_def Own_def)
  have "f \<notin> walk_frames m kpd" using walk_frames_used [OF k(2)] fresh(1) by auto
  then have "space_ok kpd m' (d r)"
    using S [OF assms(2)] dir(2,3) K(2,3) rd nf [OF assms(2)] up unfolding space_ok_def rt Own_def by auto
  with same have s': "\<forall>q \<in> P. space_ok kpd m' (d q)" by blast
  have r: "Own m' r \<subseteq> insert f (Own m r)" using rd rt by (auto simp: Own_def)
  have "Own m' p \<inter> Own m' q = {}" if "p \<in> P" "q \<in> P" "p \<noteq> q" for p q
    using apart [OF that] nf [OF that(1)] nf [OF that(2)] same [OF that(1)] same [OF that(2)] r that(3)
    by (cases "p = r"; cases "q = r") auto
  then show ?thesis
    using written_clean [OF assms(4) k(1) K(1)] K(2) s' assms(1) unfolding spaces_ok_def Own_def by simp
qed

section \<open>Why physical addresses can be used\<close>

text \<open>
  The kernel takes the address of a frame for a pointer to it, with paging on. That is right as long as
  the frames in use are in the lower 256 MiB, which every directory maps to themselves.
\<close>

definition flat_ok :: "u32 \<Rightarrow> mm_state \<Rightarrow> bool" where
  "flat_ok kpd m \<longleftrightarrow> (\<forall>v < ITSELF_END. space_of kpd m v = Some v) \<and> (\<forall>a. page_used m a \<longrightarrow> a < ITSELF_END)"

lemma frame_below: "aligned f \<Longrightarrow> f < ITSELF_END \<Longrightarrow> frame a = f \<Longrightarrow> a < ITSELF_END"
proof -
  assume f: "aligned f" "f < ITSELF_END" "frame a = f"
  then have "unat a div 4096 = unat f div 4096" by (simp add: frame_eq_iff)
  moreover have "unat f < 268435456" using f(2) by (simp add: word_less_nat_alt)
  moreover have "unat f div 4096 < 65536" using calculation(2) by (simp add: less_mult_imp_div_less)
  moreover have "unat a = unat a div 4096 * 4096 + unat a mod 4096" "unat a mod 4096 < 4096" by simp_all
  ultimately have "unat a < 268435456" by linarith
  then show ?thesis by (simp add: word_less_nat_alt)
qed

lemma flat_grows:
  assumes "flat_ok kpd m" "pd_ok m kpd" "grows A m m'" "finite A" "card A \<le> card (low_pages m)"
  shows "flat_ok kpd m'"
proof -
  have "a < ITSELF_END" if "page_used m' a" for a
  proof (cases "page_used m a")
    case True
    then show ?thesis using assms(1) by (simp add: flat_ok_def)
  next
    case False
    then have "frame a \<in> A" "aligned (frame a)" using that assms(3) by (auto simp: grows_def free_pages_def)
    then show ?thesis using grows_low [OF assms(3-5)] frame_below [of "frame a" a] by simp
  qed
  then show ?thesis using assms(1) grows_walk(5) [OF assms(3,2)] by (simp add: flat_ok_def)
qed

lemma flat_written:
  assumes "flat_ok kpd m" "pd_ok m kpd" "frame_written t f m m'" "t \<notin> walk_frames m kpd" "0 < card (low_pages m)"
  shows "flat_ok kpd m'"
proof -
  obtain b where b: "b \<in> low_pages m" using assms(5) by (auto simp: card_gt_0_iff)
  have "f < ITSELF_END"
  proof (rule ccontr)
    assume "\<not> f < ITSELF_END"
    then have lt: "b < f" using b unfolding low_pages_def mem_Collect_eq by (meson less_le_trans not_less)
    then have "page_used m' b" using assms(3) unfolding frame_written_def by blast
    then have "frame b = f" using assms(3) b by (auto simp: frame_written_def low_pages_def free_pages_def)
    then show False using lt b by (simp add: low_pages_def free_pages_def aligned_frame_eq)
  qed
  moreover have "aligned f" using assms(3) by (simp add: frame_written_def free_pages_def)
  ultimately have "a < ITSELF_END" if "frame a = f" for a using frame_below that by blast
  then show ?thesis using assms(1,3) written_walk(5) [OF assms(3,2,4)] by (auto simp: flat_ok_def frame_written_def)
qed

lemma flat_process:
  assumes "flat_ok kpd m" "space_ok kpd m pd" "v < ITSELF_END"
  shows "space_of pd m v = Some v"
proof -
  have "pdi v < 64" using assms(3) itself_end_iff [of v] by (simp add: not_le [symmetric])
  then have "entry (ram m) pd (pdi v) = entry (ram m) kpd (pdi v)" using assms(2) by (simp add: space_ok_def)
  then have "space_of pd m v = space_of kpd m v"
    by (simp add: space_of_def has_addr_walk addr_translate_walk pte_def table_of_def)
  then show ?thesis using assms(1,3) by (simp add: flat_ok_def)
qed

text \<open>What was written is in use afterwards, and so is what was in use.\<close>

lemma grows_changes:
  assumes "grows A m m'"
  shows "ram m' a \<noteq> ram m a \<Longrightarrow> page_used m' a" "page_used m a \<Longrightarrow> page_used m' a"
  using assms unfolding grows_def by blast+

lemma written_changes:
  assumes "frame_written t f m m'"
  shows "ram m' a \<noteq> ram m a \<Longrightarrow> page_used m' a" "page_used m a \<Longrightarrow> page_used m' a"
    "card (free_pages m') + 1 = card (free_pages m)"
proof -
  show "ram m' a \<noteq> ram m a \<Longrightarrow> page_used m' a"
    using assms page_used_frame [of m a] unfolding frame_written_def by metis
  show "page_used m a \<Longrightarrow> page_used m' a" using assms by (simp add: frame_written_def)
  have "free_pages m' = free_pages m - {f}" "f \<in> free_pages m"
    using assms by (auto simp: frame_written_def free_pages_def aligned_frame_eq)
  then show "card (free_pages m') + 1 = card (free_pages m)"
    by (metis Suc_eq_plus1 card_Suc_Diff1 finite)
qed

section \<open>The memory the kernel starts with\<close>

lemma mmap_itself_clean:
  "mmap_itself_from fuel pd (of_nat (k * 4096)) ITSELF_END m = Inr m' \<Longrightarrow> mapped_upto m pd k \<Longrightarrow> k \<le> 65536 \<Longrightarrow>
   clean_pd pd m \<Longrightarrow> clean_pd pd m'"
proof (induction fuel arbitrary: k m)
  case 0
  then show ?case by (subst (asm) mmap_itself_from.simps) (simp split: if_splits)
next
  case (Suc fuel)
  show ?case
  proof (cases "k < 65536")
    case True
    have "of_nat ((2048 + (k + 1023) div 1024) * 4096) \<in> free_pages m"
      using p_malloc_mapped(2,3) [OF Suc.prems(2) True] by (simp add: free_pages_def aligned_def)
    then have "0 < card (free_pages m)" by (auto simp: card_gt_0_iff)
    from set_mmap_clean(1) [OF Suc.prems(4) this] have c: "clean_pd pd (fst (set_mmap pd (of_nat (k * 4096)) (of_nat (k * 4096)) 3 m))" .
    have "(of_nat (k * 4096) :: u32) < ITSELF_END" using page_number [of k] True by (simp add: word_less_nat_alt)
    moreover have "(of_nat (k * 4096) :: u32) + of_nat 4096 = of_nat (Suc k * 4096)" by simp
    ultimately have "mmap_itself_from fuel pd (of_nat (Suc k * 4096)) ITSELF_END
        (fst (set_mmap pd (of_nat (k * 4096)) (of_nat (k * 4096)) 3 m)) = Inr m'"
      using Suc.prems(1) by (subst (asm) mmap_itself_from.simps) (simp add: add.commute)
    from Suc.IH [OF this mapped_step [OF Suc.prems(2) True] _ c] True show ?thesis by simp
  next
    case False
    then have "k = 65536" using Suc.prems(3) by simp
    then show ?thesis using Suc.prems(1,4) by (subst (asm) mmap_itself_from.simps) simp
  qed
qed

text \<open>If no frame above the kernel holds a word that looks like a present entry, none does after \<open>memory_init\<close>.\<close>

lemma memory_init_clean:
  assumes "memory_init pd h (m, st) = Inr (m', st')" "mapped_upto (memory_alloc_init m) pd 0"
    "\<And>a j. aligned a \<Longrightarrow> 0x800000 \<le> unat a \<Longrightarrow> j < 1024 \<Longrightarrow> \<not> present (entry (ram m) a j)"
  shows "clean_pd pd m'"
proof -
  obtain m1 where m1: "mmap_itself_from (2 ^ 20) pd 0 ITSELF_END (memory_alloc_init m) = Inr m1" "m' = enable_page (m1\<lparr>cr3 := pd\<rparr>)"
    using assms(1) by (auto simp: memory_init_def add_mmap_to_itself_def rbind_eq_Inr)
  have "clean_pd pd (memory_alloc_init m)"
    using assms(2,3) by (auto simp: clean_pd_def mapped_upto_def free_pages_def memory_alloc_init_ok not_less)
  then have c: "clean_pd pd m1" using mmap_itself_clean [of "2 ^ 20" pd 0 "memory_alloc_init m" m1] m1(1) assms(2) by simp
  have "ram m' = ram m1" "page_used m' b = page_used m1 b" "pages_ok m' = pages_ok m1" for b
    by (simp_all add: m1(2) enable_page_def page_used_def pages_ok_def)
  then show ?thesis using c by (simp add: clean_pd_def pd_ok_def free_pages_def)
qed

end
