(* ===== verification/File_Insert.thy ===== *)
theory File_Insert
  imports Directory
begin

text \<open>
  \<open>sys_write\<close> as a whole: with the bytes of a file as a list, it inserts the buffer at the write
  pointer, and the directory entry records the new size. The theorem covers a file in the root
  directory whose blocks suffice and a rest that passes at most one block border; beyond that
  \<open>covering_write_follows_user_data\<close> of theory \<open>File_Write\<close> applies.
\<close>

section \<open>The steps\<close>

definition content :: "disk \<Rightarrow> u32 list \<Rightarrow> file_t \<Rightarrow> u8 list" where
  "content dk ss f = take (nat (file_size f)) (file_bytes dk ss)"

lemma dump_ok: "label \<noteq> 0 \<Longrightarrow> \<exists>c. dump label temp s = Inr (s\<lparr>fs_console := c\<rparr>)"
  by (simp add: dump_def printf_def) blast

lemma shift_up_ok:
  "n + i \<le> length temp \<Longrightarrow> \<exists>temp'. shift_up i (int n) temp = Inr temp' \<and> length temp' = length temp \<and>
     slice n i temp' = take i temp \<and> drop (n + i) temp' = drop (n + i) temp"
proof (induction i arbitrary: temp)
  case (Suc i)
  let ?t = "overwrite temp (n + i) [temp ! i]"
  have t: "length ?t = length temp" "take i ?t = take i temp" "drop (n + i) ?t = temp ! i # drop (Suc (n + i)) temp"
    using Suc.prems by (simp_all add: overwrite_def)
  have "buf_write temp (n + i) [temp ! i] = Inr ?t" using Suc.prems by (intro buf_write_ok) simp
  moreover obtain temp' where temp': "shift_up i (int n) ?t = Inr temp'" "length temp' = length temp"
    "slice n i temp' = take i temp" "drop (n + i) temp' = temp ! i # drop (Suc (n + i)) temp"
    using Suc.IH [of ?t] Suc.prems unfolding t by auto
  moreover have "slice n (Suc i) temp' = take (Suc i) temp"
    using slice_append [of n i 1 temp'] temp'(3,4) Suc.prems by (simp add: take_Suc_conv_app_nth) (simp add: slice_def)
  moreover have "drop (n + Suc i) temp' = drop (n + Suc i) temp"
    using arg_cong [OF temp'(4), of tl] by (simp add: drop_Suc tl_drop)
  ultimately show ?case using Suc.prems by (simp add: nat_add_distrib)
qed simp

text \<open>The part of \<open>sys_write\<close> that prepares the buffer: the rest of the file behind the new bytes.\<close>

lemma rest_read:
  assumes "disk_ok (fs_disk s)" "file_on (fs_disk s) (fcb f) ss" "nat (file_size (fcb f)) = z" "p \<le> z"
    "read_seek (io_state f) = int q" "q \<le> z" "read_sector (io_state f) = ss ! (q div 508)" "length temp = 4096"
    "z - (if p < z then p else q) \<le> 4092"
  shows "\<exists>f' temp'. read_remains (snd (sys_rseek f (int p) s)) temp s = Inr (f', temp') \<and> length temp' = 4096 \<and>
    take (z - p) temp' = slice p (z - p) (file_bytes (fs_disk s) ss) \<and>
    fcb f' = fcb f \<and> path_state f' = path_state f \<and>
    write_seek (io_state f') = write_seek (io_state f) \<and> write_sector (io_state f') = write_sector (io_state f)"
proof -
  have z: "file_size (fcb f) = int z" using assms(2) unfolding assms(3) [symmetric] by (simp add: file_on_def)
  define q' where "q' = (if p < z then p else q)"
  define f2 where "f2 = f\<lparr>io_state := (io_state f)\<lparr>read_sector := ss ! (q' div 508), read_seek := int q'\<rparr>\<rparr>"
  have f2: "snd (sys_rseek f (int p) s) = f2"
  proof (cases "p < z")
    case True
    then show ?thesis using sys_rseek_ok [OF assms(2,1), of p] by (simp add: f2_def q'_def z)
  next
    case False
    then show ?thesis using assms(5,7) by (simp add: sys_rseek_def z f2_def q'_def)
  qed
  have q': "q' \<le> z" "z - q' \<le> 4092" using assms(4,6,9) by (auto simp: q'_def)
  define m where "m = z - q'"
  have m: "q' + m = z" "q' \<le> z" "m \<le> 4092" using q' by (simp_all add: m_def)
  have "\<exists>temp'. sys_read f2 temp 0 (int m) s = Inr (FILE_RESULT_SUCCESS, f2\<lparr>io_state := (io_state f2)
        \<lparr>read_sector := ss ! ((q' + m) div 508), read_seek := (if (q' + m) div 508 = q' div 508
          then int (q' + m) else int ((q' + m) div 508 * 508))\<rparr>\<rparr>, temp') \<and>
      reads_to temp 0 (slice q' m (file_bytes (fs_disk s) ss)) temp'"
    by (rule sys_read_ok) (use assms(1,2,8) m(3) in \<open>simp_all add: f2_def z m(1) [symmetric]\<close>)
  then obtain temp' f' where
    r: "sys_read f2 temp 0 (int m) s = Inr (FILE_RESULT_SUCCESS, f', temp')"
      "reads_to temp 0 (slice q' m (file_bytes (fs_disk s) ss)) temp'"
      and keep: "fcb f' = fcb f2" "path_state f' = path_state f2"
      "write_seek (io_state f') = write_seek (io_state f2)" "write_sector (io_state f') = write_sector (io_state f2)"
    by force
  have "file_size (fcb f2) - read_seek (io_state f2) = int m" using m by (simp add: f2_def z)
  then have "read_remains f2 temp s = Inr (f', temp')" by (simp add: read_remains_def r(1))
  moreover have "take (z - p) temp' = slice p (z - p) (file_bytes (fs_disk s) ss)"
  proof (cases "p < z")
    case True
    have "length (slice p (z - p) (file_bytes (fs_disk s) ss)) = z - p"
      using file_on_room(4) [OF assms(2,1), of p "z - p"] True z by simp
    then show ?thesis using reads_to_slice [OF r(2)] True by (simp add: q'_def m_def slice_def)
  qed (use assms(4) in simp)
  ultimately show ?thesis
    unfolding f2 using keep reads_to_length [OF r(2)] assms(8) by (auto simp: f2_def)
qed

lemma rseek_keeps [simp]:
  "fcb (snd (sys_rseek f k s)) = fcb f" "path_state (snd (sys_rseek f k s)) = path_state f"
  "write_seek (io_state (snd (sys_rseek f k s))) = write_seek (io_state f)"
  "write_sector (io_state (snd (sys_rseek f k s))) = write_sector (io_state f)"
  by (simp_all add: sys_rseek_def)

lemma wseek_keeps [simp]:
  "fcb (snd (sys_wseek f k s)) = fcb f" "path_state (snd (sys_wseek f k s)) = path_state f"
  "write_seek (io_state (snd (sys_wseek f k s))) = k"
  by (simp_all add: sys_wseek_def)

text \<open>\<open>sys_write\<close> without the expansion, with the projections instead of the patterns.\<close>

lemma sys_write_unfold:
  assumes "uint32 (NTH_BLOCK (file_size (fcb f) + len) + 1) \<le> int (unat (sector_count (fcb f)))"
  shows "sys_write f buf len s =
    (let remain = file_size (fcb f) - write_seek (io_state f) in
     rbind (read_remains (snd (sys_rseek f (write_seek (io_state f)) s)) (uninit 5 4096 s) s) (\<lambda>(f3, temp1).
     rbind (dump 65 temp1 s) (\<lambda>s2.
     rbind (shift_up (nat remain) len temp1) (\<lambda>temp2.
     rbind (dump 66 temp2 s2) (\<lambda>s3.
     rbind (memcpy temp2 buf (nat (uint32 len))) (\<lambda>temp3.
     rbind (dump 67 temp3 s3) (\<lambda>s4.
     rbind (covering_write f3 temp3 (remain + len) s4) (\<lambda>(f4, s5).
       let f6 = snd (sys_rseek (snd (sys_wseek f4 (write_seek (io_state f) + len) s5)) (read_seek (io_state f)) s5);
           f7 = f6\<lparr>fcb := (fcb f6)\<lparr>file_size := file_size (fcb f6) + len\<rparr>\<rparr>
       in rbind (store_file_cached f7 s5) (\<lambda>s6. Inr (f7, s6))))))))))"
  using assms by (simp add: sys_write_def Let_def case_prod_unfold)

text \<open>What is left of \<open>sys_write\<close> once the buffer has been put together.\<close>

definition write_and_store :: "file_cached_t \<Rightarrow> u8 list \<Rightarrow> file_cached_t \<Rightarrow> int \<Rightarrow> fs_state \<Rightarrow> (file_cached_t \<times> fs_state) res" where
  "write_and_store f temp f3 len s4 =
     rbind (covering_write f3 temp (file_size (fcb f) - write_seek (io_state f) + len) s4) (\<lambda>(f4, s5).
       let f6 = snd (sys_rseek (snd (sys_wseek f4 (write_seek (io_state f) + len) s5)) (read_seek (io_state f)) s5);
           f7 = f6\<lparr>fcb := (fcb f6)\<lparr>file_size := file_size (fcb f6) + len\<rparr>\<rparr>
       in rbind (store_file_cached f7 s5) (\<lambda>s6. Inr (f7, s6)))"

lemma buffer_built:
  assumes "disk_ok (fs_disk s)" "file_on (fs_disk s) (fcb f) ss" "file_size (fcb f) = int z" "p \<le> z"
    "read_seek (io_state f) = int q" "q \<le> z" "read_sector (io_state f) = ss ! (q div 508)"
    "z - (if p < z then p else q) \<le> 4092" "write_seek (io_state f) = int p" "n \<le> length buf" "z - p + n \<le> 4096"
    "(z + n) div 508 < unat (sector_count (fcb f))" "z + n < 2 ^ 31"
  shows "\<exists>f3 temp c. sys_write f buf (int n) s = write_and_store f temp f3 (int n) (s\<lparr>fs_console := c\<rparr>) \<and>
    length temp = 4096 \<and> take (n + (z - p)) temp = take n buf @ slice p (z - p) (file_bytes (fs_disk s) ss) \<and>
    fcb f3 = fcb f \<and> path_state f3 = path_state f \<and>
    write_seek (io_state f3) = int p \<and> write_sector (io_state f3) = write_sector (io_state f)"
proof -
  have zz: "nat (file_size (fcb f)) = z" "nat (file_size (fcb f) - write_seek (io_state f)) = z - p"
    using assms(3,4,9) by simp_all
  from rest_read [OF assms(1,2) zz(1) assms(4-7), of "uninit 5 4096 s"] assms(8,9) obtain f3 t1 where
    f3: "read_remains (snd (sys_rseek f (write_seek (io_state f)) s)) (uninit 5 4096 s) s = Inr (f3, t1)" "length t1 = 4096"
      "take (z - p) t1 = slice p (z - p) (file_bytes (fs_disk s) ss)" "fcb f3 = fcb f" "path_state f3 = path_state f"
      "write_seek (io_state f3) = int p" "write_sector (io_state f3) = write_sector (io_state f)"
    by (auto simp: uninit_def)
  obtain c1 where c1: "dump 65 t1 s = Inr (s\<lparr>fs_console := c1\<rparr>)" using dump_ok [of 65 t1 s] by auto
  obtain t2 where t2: "shift_up (z - p) (int n) t1 = Inr t2" "length t2 = 4096" "slice n (z - p) t2 = take (z - p) t1"
    using shift_up_ok [of n "z - p" t1] f3(2) assms(11) by auto
  obtain c2 where c2: "dump 66 t2 (s\<lparr>fs_console := c1\<rparr>) = Inr (s\<lparr>fs_console := c2\<rparr>)"
    using dump_ok [of 66 t2 "s\<lparr>fs_console := c1\<rparr>"] by auto
  define t3 where "t3 = take n buf @ drop n t2"
  have m: "memcpy t2 buf (nat (uint32 (int n))) = Inr t3"
    using assms(10,11,13) t2(2) by (simp add: uint32_of_nat memcpy_ok t3_def)
  obtain c3 where c3: "dump 67 t3 (s\<lparr>fs_console := c2\<rparr>) = Inr (s\<lparr>fs_console := c3\<rparr>)"
    using dump_ok [of 67 t3 "s\<lparr>fs_console := c2\<rparr>"] by auto
  have "(z + n) div 508 + 1 < 2 ^ 32" using assms(13) div_le_dividend [of "z + n" 508] by simp
  then have "uint32 (NTH_BLOCK (file_size (fcb f) + int n) + 1) = int ((z + n) div 508 + 1)"
    using assms(3,13) NTH_BLOCK_of_nat [of "z + n"] uint32_of_nat [of "(z + n) div 508 + 1"] by (simp add: add.commute)
  then have "uint32 (NTH_BLOCK (file_size (fcb f) + int n) + 1) \<le> int (unat (sector_count (fcb f)))"
    using assms(12) by linarith
  then have "sys_write f buf (int n) s = write_and_store f t3 f3 (int n) (s\<lparr>fs_console := c3\<rparr>)"
    by (simp add: sys_write_unfold Let_def f3(1) c1 zz(2) t2(1) c2 m c3 write_and_store_def)
  moreover have "take (n + (z - p)) t3 = take n buf @ slice p (z - p) (file_bytes (fs_disk s) ss)"
    using t2(3) f3(3) assms(10) by (simp add: t3_def slice_def)
  moreover have "length t3 = 4096" using t2(2) assms(10,11) by (simp add: t3_def)
  ultimately show ?thesis using f3(4-7) by blast
qed

text \<open>Sectors that a write leaves alone keep their chains and their bytes.\<close>

lemma same_sectors:
  assumes "\<forall>i \<in> unat ` set ds. dk' i = dk i"
  shows "chain dk' w ds = chain dk w ds" "file_bytes dk' ds = file_bytes dk ds" "entry_at dk' ds j = entry_at dk ds j"
proof -
  show "chain dk' w ds = chain dk w ds" using assms by (intro chain_cong) simp
  show "file_bytes dk' ds = file_bytes dk ds" using assms by (intro file_bytes_cong) (simp add: block_data_def)
  then show "entry_at dk' ds j = entry_at dk ds j" by (simp add: entry_at_def)
qed

lemma inserted_bytes:
  assumes "length D = m" "p \<le> z" "z + n \<le> m" "length xs = n"
  shows "take (z + n) (overwrite D p (xs @ slice p (z - p) D)) = take p (take z D) @ xs @ drop p (take z D)"
proof -
  have "length (slice p (z - p) D) = z - p" using assms by (intro length_slice) simp
  then have "take (z + n) (overwrite D p (xs @ slice p (z - p) D)) = take p D @ xs @ slice p (z - p) D"
    using assms by (simp add: overwrite_def)
  then show ?thesis using assms(2) by (simp add: slice_def drop_take min_def)
qed

text \<open>
  A cached file of the root directory: \<open>i\<close> is the index of its entry, \<open>ds\<close> are the sectors of the
  directory.
\<close>

definition in_root :: "fs_state \<Rightarrow> file_cached_t \<Rightarrow> nat \<Rightarrow> u32 list \<Rightarrow> bool" where
  "in_root s f i ds \<longleftrightarrow> hd (parent_dir_name (path_state f)) = 0 \<and> parent_dir_name (path_state f) \<noteq> [] \<and>
     has_parent (path_state f) \<and> index_in_parent_dir (path_state f) = int i \<and>
     chain (fs_disk s) (first_sector (root_fcb s)) ds \<and> distinct ds \<and>
     84 * i + 84 < 2 ^ 32 \<and> (84 * i + 84) div 508 < length ds"

lemma in_root_cong:
  assumes "in_root s f i ds" "path_state f' = path_state f" "root_fcb s' = root_fcb s"
    "\<And>w. chain (fs_disk s') w ds = chain (fs_disk s) w ds"
  shows "in_root s' f' i ds"
  using assms by (simp add: in_root_def)

text \<open>
  The entry of a file is stored after some of its sectors \<open>ss\<close> have changed: the directory holds
  the cached entry, and the sectors of the file stay as they are.
\<close>

lemma store_elsewhere:
  assumes keep5: "\<And>k. k \<notin> unat ` set ss \<Longrightarrow> fs_disk s5 k = fs_disk s k" and d5: "disk_ok (fs_disk s5)"
    and wf: "wf_file (fcb f)" and dir: "in_root s f i ds" "set ds \<inter> set ss = {}" "1024 \<notin> unat ` set ss"
  shows "\<exists>s6. store_file_cached f s5 = Inr s6 \<and> s6 = s5\<lparr>fs_disk := fs_disk s6\<rparr> \<and> disk_ok (fs_disk s6) \<and>
    chain (fs_disk s6) (first_sector (root_fcb s)) ds \<and>
    (\<forall>j. entry_at (fs_disk s6) ds j = (if j = i then fcb f else entry_at (fs_disk s) ds j)) \<and>
    (\<forall>k. k \<notin> unat ` set ds \<longrightarrow> fs_disk s6 k = fs_disk s5 k)"
proof -
  have dis: "unat x \<notin> unat ` set ss" if "x \<in> set ds" for x using dir(2) that by (auto simp: word_unat_eq_iff [symmetric])
  then have ds5: "chain (fs_disk s5) w ds = chain (fs_disk s) w ds" "entry_at (fs_disk s5) ds j = entry_at (fs_disk s) ds j" for w j
    using keep5 by (auto intro!: same_sectors)
  obtain rest where rest: "parent_dir_name (path_state f) = 0 # rest"
    using dir(1) unfolding in_root_def by (cases "parent_dir_name (path_state f)") auto
  define d where "d = (opened ((fs_cached s5 1)\<lparr>fcb := root_fcb s5\<rparr>))\<lparr>path_state := (path_state (fs_cached s5 1))\<lparr>has_parent := False\<rparr>\<rparr>"
  have root: "fcb d = root_fcb s" using keep5 [OF dir(3)] by (simp add: d_def opened_def root_fcb_def read_block_eq)
  have ld: "load_file_cached (parent_dir_name (path_state f)) (fs_cached s5 1) s5 = Inr (FILE_RESULT_SUCCESS, d)"
    unfolding rest d_def by (rule load_root)
  have i: "has_parent (path_state f)" "index_in_parent_dir (path_state f) = int i" "84 * i + 84 < 2 ^ 32"
    "(84 * i + 84) div 508 < length ds" "distinct ds" "chain (fs_disk s5) (first_sector (fcb d)) ds"
    using dir(1) by (simp_all add: in_root_def ds5(1) root)
  from store_ok [OF ld i(1,2) wf d5 i(6,5,3,4)] root obtain s6 where
    st: "store_file_cached f s5 = Inr s6"
    and ow6: "overwritten (first_sector (root_fcb s)) ds (84 * i) (encode_file (fcb f)) s5 s6" by auto
  have "84 * i + 84 < 508 * length ds" using i(4) by (simp add: div_less_iff_less_mult mult.commute)
  then have "entry_at (fs_disk s6) ds j = (if j = i then fcb f else entry_at (fs_disk s) ds j)" for j
    using overwritten_entry [OF ow6 wf d5] ds5(2) by simp
  then show ?thesis using st ow6 by (auto simp: overwritten_def)
qed

text \<open>What the directory and the file look like afterwards, in terms of the state at the start.\<close>

lemma stored_sectors:
  assumes "\<forall>k. k \<notin> unat ` set ds \<longrightarrow> fs_disk s6 k = fs_disk s5 k" "set ds \<inter> set ss = {}"
  shows "chain (fs_disk s6) w ss = chain (fs_disk s5) w ss" "file_bytes (fs_disk s6) ss = file_bytes (fs_disk s5) ss"
proof -
  have "unat x \<notin> unat ` set ds" if "x \<in> set ss" for x using assms(2) that by (auto simp: word_unat_eq_iff [symmetric])
  then have "\<forall>k \<in> unat ` set ss. fs_disk s6 k = fs_disk s5 k" using assms(1) by auto
  then show "chain (fs_disk s6) w ss = chain (fs_disk s5) w ss" "file_bytes (fs_disk s6) ss = file_bytes (fs_disk s5) ss"
    by (rule same_sectors)+
qed

section \<open>The write as a whole\<close>

text \<open>
  A cached file on the sectors \<open>ss\<close>, with \<open>z\<close> bytes, the write pointer at \<open>p\<close> and the read pointer
  at \<open>q\<close>.
\<close>

definition cached_on :: "fs_state \<Rightarrow> file_cached_t \<Rightarrow> u32 list \<Rightarrow> nat \<Rightarrow> nat \<Rightarrow> nat \<Rightarrow> bool" where
  "cached_on s f ss z p q \<longleftrightarrow> disk_ok (fs_disk s) \<and> file_on (fs_disk s) (fcb f) ss \<and> distinct ss \<and> wf_file (fcb f) \<and>
     file_size (fcb f) = int z \<and> p \<le> z \<and> q \<le> z \<and>
     read_seek (io_state f) = int q \<and> read_sector (io_state f) = ss ! (q div 508) \<and>
     write_seek (io_state f) = int p \<and> write_sector (io_state f) = ss ! (p div 508) \<and>
     unat (sector_count (fcb f)) = length ss"

text \<open>
  How much \<open>sys_write\<close> can move: its buffer has 4096 bytes, and a rest that passes more than one
  block border runs into the loop over whole blocks, which destroys the links: the new end of the file has to be in the
  block of the write pointer or in the next one.
\<close>

definition insertable :: "nat \<Rightarrow> nat \<Rightarrow> nat \<Rightarrow> nat \<Rightarrow> bool" where
  "insertable z p q n \<longleftrightarrow> z - (if p < z then p else q) \<le> 4092 \<and> z - p + n \<le> 4096 \<and> z + n < 2 ^ 31 \<and>
     (z + n) div 508 \<le> Suc (p div 508)"

definition inserted :: "nat \<Rightarrow> u8 list \<Rightarrow> u8 list \<Rightarrow> u8 list" where
  "inserted p xs bs = take p bs @ xs @ drop p bs"

lemma write_and_store_ok:
  assumes f: "cached_on s f ss z p q" and n: "insertable z p q n" "(z + n) div 508 < length ss" "length xs = n"
    and dir: "in_root s f i ds" "set ds \<inter> set ss = {}" "1024 \<notin> unat ` set ss"
    and t: "length temp = 4096" "take (n + (z - p)) temp = xs @ slice p (z - p) (file_bytes (fs_disk s) ss)"
    and f3: "fcb f3 = fcb f" "path_state f3 = path_state f" "write_seek (io_state f3) = int p"
      "write_sector (io_state f3) = write_sector (io_state f)"
  shows "\<exists>f' s'. write_and_store f temp f3 (int n) s = Inr (f', s') \<and>
    content (fs_disk s') ss (fcb f') = inserted p xs (content (fs_disk s) ss (fcb f)) \<and>
    write_seek (io_state f') = int (p + n) \<and> fcb f' = (fcb f)\<lparr>file_size := int (z + n)\<rparr> \<and> path_state f' = path_state f \<and>
    disk_ok (fs_disk s') \<and> chain (fs_disk s') (first_sector (fcb f)) ss \<and> chain (fs_disk s') (first_sector (root_fcb s)) ds \<and>
    (\<forall>j. entry_at (fs_disk s') ds j = (if j = i then fcb f' else entry_at (fs_disk s) ds j)) \<and>
    (\<forall>k. k \<notin> unat ` (set ss \<union> set ds) \<longrightarrow> fs_disk s' k = fs_disk s k) \<and> s' = s\<lparr>fs_disk := fs_disk s'\<rparr>"
proof -
  let ?D = "file_bytes (fs_disk s) ss"
  have F: "disk_ok (fs_disk s)" "chain (fs_disk s) (first_sector (fcb f)) ss" "distinct ss" "wf_file (fcb f)" "file_size (fcb f) = int z"
    "p \<le> z" "write_seek (io_state f) = int p" "write_sector (io_state f) = ss ! (p div 508)" "read_seek (io_state f) = int q"
    using f by (simp_all add: cached_on_def file_on_def)
  have I: "z - p + n \<le> 4096" "z + n < 2 ^ 31" "(z + n) div 508 \<le> Suc (p div 508)"
    using n(1) by (simp_all add: insertable_def)
  define m where "m = n + (z - p)"
  have pm: "p + m = z + n" using F(6) by (simp add: m_def)
  from covering_write_ok [OF F(1-3) f3(3), of m temp] f3(4) F(8) I n(2) t(1) obtain f4 s5 where
    cw: "covering_write f3 temp (int m) s = Inr (f4, s5)" "fcb f4 = fcb f3" "path_state f4 = path_state f3"
    and O: "disk_ok (fs_disk s5)" "chain (fs_disk s5) (first_sector (fcb f)) ss" "file_bytes (fs_disk s5) ss = overwrite ?D p (take m temp)"
      "\<And>k. k \<notin> unat ` set ss \<Longrightarrow> fs_disk s5 k = fs_disk s k" "s5 = s\<lparr>fs_disk := fs_disk s5\<rparr>"
    unfolding pm overwritten_def by (auto simp: m_def)
  define f6 where "f6 = snd (sys_rseek (snd (sys_wseek f4 (int p + int n) s5)) (int q) s5)"
  define f7 where "f7 = f6\<lparr>fcb := (fcb f4)\<lparr>file_size := file_size (fcb f4) + int n\<rparr>\<rparr>"
  have f7: "fcb f7 = (fcb f)\<lparr>file_size := int (z + n)\<rparr>" "path_state f7 = path_state f" "write_seek (io_state f7) = int (p + n)"
    using cw(2,3) f3(1,2) F(5) by (simp_all add: f7_def f6_def)
  have wf: "wf_file (fcb f7)" using F(4) I(2) by (simp add: f7(1) wf_file_def)
  have "in_root s f7 i ds" by (rule in_root_cong [OF dir(1) f7(2) refl refl])
  from store_elsewhere [OF O(4) O(1) wf this dir(2,3)] obtain s6 where st: "store_file_cached f7 s5 = Inr s6"
    and s6: "s6 = s5\<lparr>fs_disk := fs_disk s6\<rparr>" "disk_ok (fs_disk s6)" "chain (fs_disk s6) (first_sector (root_fcb s)) ds"
    and ent: "\<forall>j. entry_at (fs_disk s6) ds j = (if j = i then fcb f7 else entry_at (fs_disk s) ds j)"
    and keep: "\<forall>k. k \<notin> unat ` set ds \<longrightarrow> fs_disk s6 k = fs_disk s5 k" by blast
  note S = stored_sectors [OF keep dir(2)]
  have "z + n < 508 * length ss" using n(2) by (simp add: div_less_iff_less_mult mult.commute)
  then have "content (fs_disk s6) ss (fcb f7) = inserted p xs (content (fs_disk s) ss (fcb f))"
    using inserted_bytes [of ?D "508 * length ss" p z n xs] F(1,5,6) n(3) t(2)
    by (simp add: content_def f7(1) S(2) O(3) m_def nat_add_distrib inserted_def)
  moreover have len: "file_size (fcb f) - write_seek (io_state f) + int n = int m" using F(5-7) by (simp add: m_def)
  have "write_and_store f temp f3 (int n) s = Inr (f7, s6)"
    unfolding write_and_store_def len cw(1)
    using st by (simp add: Let_def F(7,9) f6_def [symmetric] f7_def [symmetric])
  moreover have "fs_disk s6 k = fs_disk s k" if "k \<notin> unat ` (set ss \<union> set ds)" for k
    using that keep O(4) [of k] unfolding image_Un by simp
  moreover have "s6 = s\<lparr>fs_disk := fs_disk s6\<rparr>" by (subst s6(1), subst O(5)) simp
  ultimately show ?thesis using f7 ent s6(2,3) S(1) O(2) by (intro exI [of _ f7] exI [of _ s6]) blast
qed

lemma sys_write_ok:
  assumes f: "cached_on s f ss z p q" and n: "insertable z p q n" "n \<le> length buf" "(z + n) div 508 < length ss"
    and dir: "in_root s f i ds" "set ds \<inter> set ss = {}" "1024 \<notin> unat ` set ss"
  shows "\<exists>f' s'. sys_write f buf (int n) s = Inr (f', s') \<and>
    content (fs_disk s') ss (fcb f') = inserted p (take n buf) (content (fs_disk s) ss (fcb f)) \<and>
    write_seek (io_state f') = int (p + n) \<and> fcb f' = (fcb f)\<lparr>file_size := int (z + n)\<rparr> \<and> path_state f' = path_state f \<and>
    disk_ok (fs_disk s') \<and> chain (fs_disk s') (first_sector (fcb f)) ss \<and> chain (fs_disk s') (first_sector (root_fcb s)) ds \<and>
    (\<forall>j. entry_at (fs_disk s') ds j = (if j = i then fcb f' else entry_at (fs_disk s) ds j)) \<and>
    (\<forall>k. k \<notin> unat ` (set ss \<union> set ds) \<longrightarrow> fs_disk s' k = fs_disk s k) \<and>
    (\<exists>c. s' = s\<lparr>fs_console := c, fs_disk := fs_disk s'\<rparr>)"
proof -
  have F: "disk_ok (fs_disk s)" "file_on (fs_disk s) (fcb f) ss" "file_size (fcb f) = int z" "p \<le> z"
    "read_seek (io_state f) = int q" "q \<le> z" "read_sector (io_state f) = ss ! (q div 508)" "write_seek (io_state f) = int p"
    "unat (sector_count (fcb f)) = length ss"
    using f by (simp_all add: cached_on_def)
  have I: "z - (if p < z then p else q) \<le> 4092" "z - p + n \<le> 4096" "z + n < 2 ^ 31"
    using n(1) by (simp_all add: insertable_def)
  from buffer_built [OF F(1-7) I(1) F(8) n(2) I(2) _ I(3)] F(9) n(3) obtain f3 temp c where
    w: "sys_write f buf (int n) s = write_and_store f temp f3 (int n) (s\<lparr>fs_console := c\<rparr>)"
    and t: "length temp = 4096" "take (n + (z - p)) temp = take n buf @ slice p (z - p) (file_bytes (fs_disk s) ss)"
    and f3: "fcb f3 = fcb f" "path_state f3 = path_state f" "write_seek (io_state f3) = int p"
      "write_sector (io_state f3) = write_sector (io_state f)" by auto
  define s4 where "s4 = s\<lparr>fs_console := c\<rparr>"
  have s4: "fs_disk s4 = fs_disk s" "root_fcb s4 = root_fcb s" by (simp_all add: s4_def root_fcb_def read_block_def)
  have c4: "cached_on s4 f ss z p q" "in_root s4 f i ds" using f dir(1) by (simp_all add: cached_on_def in_root_def s4)
  have l: "length (take n buf) = n" using n(2) by simp
  from write_and_store_ok [OF c4(1) n(1,3) l c4(2) dir(2,3) t(1) _ f3, unfolded s4] t(2) obtain f' s' where
    "write_and_store f temp f3 (int n) s4 = Inr (f', s')" and R:
    "content (fs_disk s') ss (fcb f') = inserted p (take n buf) (content (fs_disk s) ss (fcb f))"
    "write_seek (io_state f') = int (p + n)" "fcb f' = (fcb f)\<lparr>file_size := int (z + n)\<rparr>" "path_state f' = path_state f"
    "disk_ok (fs_disk s')" "chain (fs_disk s') (first_sector (fcb f)) ss" "chain (fs_disk s') (first_sector (root_fcb s)) ds"
    "\<forall>j. entry_at (fs_disk s') ds j = (if j = i then fcb f' else entry_at (fs_disk s) ds j)"
    "\<forall>k. k \<notin> unat ` (set ss \<union> set ds) \<longrightarrow> fs_disk s' k = fs_disk s k" "s' = s4\<lparr>fs_disk := fs_disk s'\<rparr>" by blast
  moreover have "s' = s\<lparr>fs_console := c, fs_disk := fs_disk s'\<rparr>" by (rule R(10) [unfolded s4_def])
  moreover have "sys_write f buf (int n) s = write_and_store f temp f3 (int n) s4" using w by (simp add: s4_def)
  ultimately show ?thesis by (intro exI [of _ f'] exI [of _ s']) force
qed

section \<open>The property\<close>

text \<open>
  \<open>sys_write\<close> is an insertion: for a file of the root directory whose blocks suffice, the
  content afterwards is the old one with the \<open>n\<close> bytes of the buffer put in at the write pointer;
  the pointer moves behind them, the directory entry is the cached one with the new size, and no
  sector outside the file and the root directory changes.
\<close>
theorem sys_write_inserts:
  assumes "disk_ok (fs_disk s)" "file_on (fs_disk s) (fcb f) ss" "distinct ss" "wf_file (fcb f)"
    "file_size (fcb f) = int z" "p \<le> z" "read_seek (io_state f) = int q" "q \<le> z"
    "read_sector (io_state f) = ss ! (q div 508)" "z - (if p < z then p else q) \<le> 4092"
    "write_seek (io_state f) = int p" "write_sector (io_state f) = ss ! (p div 508)"
    "n \<le> length buf" "z - p + n \<le> 4096" "z + n < 2 ^ 31"
    "unat (sector_count (fcb f)) = length ss" "(z + n) div 508 < length ss" "(z + n) div 508 \<le> Suc (p div 508)"
    and dir: "parent_dir_name (path_state f) = 0 # rest" "has_parent (path_state f)"
    "index_in_parent_dir (path_state f) = int i" "chain (fs_disk s) (first_sector (root_fcb s)) ds" "distinct ds"
    "84 * i + 84 < 2 ^ 32" "(84 * i + 84) div 508 < length ds" "set ds \<inter> set ss = {}" "1024 \<notin> unat ` set ss"
  shows "\<exists>f' s'. sys_write f buf (int n) s = Inr (f', s') \<and>
    content (fs_disk s') ss (fcb f') = take p (content (fs_disk s) ss (fcb f)) @ take n buf @ drop p (content (fs_disk s) ss (fcb f)) \<and>
    write_seek (io_state f') = int (p + n) \<and> fcb f' = (fcb f)\<lparr>file_size := int (z + n)\<rparr> \<and>
    (\<forall>j. entry_at (fs_disk s') ds j = (if j = i then fcb f' else entry_at (fs_disk s) ds j)) \<and>
    (\<forall>k. k \<notin> unat ` (set ss \<union> set ds) \<longrightarrow> fs_disk s' k = fs_disk s k)"
proof -
  have f: "cached_on s f ss z p q" using assms by (simp add: cached_on_def)
  have n: "insertable z p q n" using assms by (simp add: insertable_def)
  have d: "in_root s f i ds" using dir by (simp add: in_root_def)
  show ?thesis using sys_write_ok [OF f n assms(13,17) d dir(8,9)] by (fastforce simp: inserted_def)
qed

theorem sys_write_inserts_witness:
  "\<exists>f' s'. sys_write (three_block_file\<lparr>fcb := demo_usr, io_state := (io_state three_block_file)\<lparr>write_seek := 5\<rparr>\<rparr>) [1, 2] 2
       (demo_fs dir_disk) = Inr (f', s') \<and>
     content (fs_disk s') [1026] (fcb f') = replicate 5 7 @ [1, 2] @ replicate 5 7 \<and> entry_at (fs_disk s') [1025] 0 = fcb f'"
proof -
  define s where "s = demo_fs dir_disk"
  define f where "f = three_block_file\<lparr>fcb := demo_usr, io_state := (io_state three_block_file)\<lparr>write_seek := 5\<rparr>\<rparr>"
  have c: "content (fs_disk s) [1026] (fcb f) = replicate 10 7"
    by (simp add: content_def file_bytes_def block_data_def dir_disk_def set_next_sector_def demo_usr_def s_def f_def)
  have on: "disk_ok (fs_disk s)" "file_on (fs_disk s) (fcb f) [1026]"
    using dir_disk_ok(1) by (simp_all add: s_def f_def file_on_def demo_usr_def dir_disk_def)
  have p: "parent_dir_name (path_state f) = 0 # replicate 511 0"
    by (simp add: three_block_file_def f_def replicate_Suc [symmetric] del: replicate_Suc)
  have d: "chain (fs_disk s) (first_sector (root_fcb s)) [1025]"
    by (simp add: dir_disk_ok(2) s_def) (simp add: dir_disk_def demo_root_def)
  have v: "file_size (fcb f) = int 10" "write_seek (io_state f) = int 5" "read_seek (io_state f) = int 0"
    "read_sector (io_state f) = 1026" "write_sector (io_state f) = 1026" "sector_count (fcb f) = 1" "wf_file (fcb f)"
    "has_parent (path_state f)" "index_in_parent_dir (path_state f) = int 0"
    using demo_wf(2) by (simp_all add: three_block_file_def demo_usr_def f_def)
  obtain f' s' where "sys_write f [1, 2] (int 2) s = Inr (f', s')"
    "content (fs_disk s') [1026] (fcb f') = take 5 (replicate 10 7) @ take 2 [1, 2] @ drop 5 (replicate 10 7)"
    "entry_at (fs_disk s') [1025] 0 = fcb f'"
    using sys_write_inserts [OF on _ v(7,1) _ v(3) _ _ _ v(2) _ _ _ _ _ _ _ p v(8,9) d, of 2 "[1, 2]"] v(4-6) unfolding c by auto
  then show ?thesis unfolding f_def [symmetric] s_def [symmetric]
    by (intro exI [of _ f'] exI [of _ s']) simp
qed

end
