(* ===== verification/File_Grow.thy ===== *)
theory File_Grow
  imports File_Insert
begin

text \<open>
  \<open>sys_write\<close> when the blocks of the file do not suffice: growing the file first changes neither its
  bytes nor the pointers, so that the write is the insertion of theory \<open>File_Insert\<close> on the longer
  chain.
\<close>

section \<open>Growing before the write\<close>

lemma sys_write_expanded:
  assumes "x = uint32 (NTH_BLOCK (file_size (fcb f) + len) + 1)" "int (unat (sector_count (fcb f))) + int n = x" "0 < n" "n < 2 ^ 31"
    "file_expand f (int n) s = Inr (f1, s1)" "file_size (fcb f1) = file_size (fcb f)" "int (unat (sector_count (fcb f1))) = x"
  shows "sys_write f buf len s = sys_write f1 buf len s1"
proof -
  have d: "of_int (x - int (unat (sector_count (fcb f)))) = (of_int (int n) :: u32)" by (simp only: assms(2) [symmetric]) simp
  have "sint (of_int (int n) :: u32) = int n" using assms(4) by (intro sint_of_int_u32) simp_all
  then have "sint (of_int (x - int (unat (sector_count (fcb f)))) :: u32) = int n" unfolding d .
  moreover have "int (unat (sector_count (fcb f))) < x" using assms(2,3) by simp
  ultimately show ?thesis
    using assms(3,5-7) by (simp add: sys_write_def assms(1) [symmetric])
qed

lemma sectors_used_append: "sectors_used (xs @ ys) bm \<longleftrightarrow> sectors_used xs bm \<and> sectors_used ys bm"
  by (auto simp: sectors_used_def)

lemma free_not_used: "sectors_used xs bm \<Longrightarrow> \<forall>x \<in> set ns. uint x \<in> free_sectors bm \<Longrightarrow> set xs \<inter> set ns = {}"
  by (auto simp: sectors_used_def free_sectors_def)

text \<open>What growing a cached file leaves behind.\<close>

definition grown_cached :: "fs_state \<Rightarrow> file_cached_t \<Rightarrow> u32 list \<Rightarrow> u32 list \<Rightarrow> fs_state \<Rightarrow> file_cached_t \<Rightarrow> bool" where
  "grown_cached s f ss ns s' f' \<longleftrightarrow>
     f' = f\<lparr>fcb := (fcb f)\<lparr>last_sector := last (ss @ ns), sector_count := of_nat (length (ss @ ns))\<rparr>\<rparr> \<and>
     root_fcb s' = root_fcb s \<and> fs_cached s' = fs_cached s \<and> (\<forall>x \<in> set ns. uint x \<in> free_sectors (file_alloc_bitmap s)) \<and>
     free_sectors (file_alloc_bitmap s') = free_sectors (file_alloc_bitmap s) - uint ` set ns \<and>
     sectors_used (ss @ ns) (file_alloc_bitmap s') \<and>
     content (fs_disk s') (ss @ ns) (fcb f') = content (fs_disk s) ss (fcb f)"

lemma sector_1024: "1024 \<in> unat ` set xs \<longleftrightarrow> (1024 :: u32) \<in> set xs"
proof -
  have "inj (unat :: u32 \<Rightarrow> nat)" by (rule injI) (simp add: word_unat_eq_iff)
  from inj_image_mem_iff [OF this, of 1024 "set xs"] show ?thesis by simp
qed

lemma grown_entry:
  fixes f ss ns
  defines "f' \<equiv> f\<lparr>fcb := (fcb f)\<lparr>last_sector := last (ss @ ns), sector_count := of_nat (length (ss @ ns))\<rparr>\<rparr>"
  assumes "cached_on s f ss z p q" "length (ss @ ns) < 2 ^ 31"
  shows "wf_file (fcb f')" "path_state f' = path_state f" "io_state f' = io_state f" "first_sector (fcb f') = first_sector (fcb f)"
    "file_size (fcb f') = int z" "unat (sector_count (fcb f')) = length (ss @ ns)"
    "file_bytes (fs_disk t) (ss @ ns) = file_bytes (fs_disk s) (ss @ ns) \<Longrightarrow> content (fs_disk t) (ss @ ns) (fcb f') = content (fs_disk s) ss (fcb f)"
    "distinct (ss @ ns) \<Longrightarrow> disk_ok (fs_disk t) \<Longrightarrow> chain (fs_disk t) (first_sector (fcb f)) (ss @ ns) \<Longrightarrow> cached_on t f' (ss @ ns) z p q"
proof -
  have F: "disk_ok (fs_disk s)" "ss \<noteq> []" "wf_file (fcb f)" "p \<le> z" "q \<le> z" "z div 508 < length ss" "file_size (fcb f) = int z" "z < 2 ^ 31"
    using assms(2) by (auto simp: cached_on_def file_on_def)
  show f': "wf_file (fcb f')" "path_state f' = path_state f" "io_state f' = io_state f" "first_sector (fcb f') = first_sector (fcb f)"
    "file_size (fcb f') = int z" "unat (sector_count (fcb f')) = length (ss @ ns)"
    using F(3,7) assms(3) unat_of_nat_small [of "length (ss @ ns)"] by (simp_all add: f'_def wf_file_def)
  have nth: "(ss @ ns) ! (k div 508) = ss ! (k div 508)" if "k \<le> z" for k
    using div_le_mono [OF that, of 508] F(6) by (simp add: nth_append)
  show "cached_on t f' (ss @ ns) z p q"
    if "distinct (ss @ ns)" "disk_ok (fs_disk t)" "chain (fs_disk t) (first_sector (fcb f)) (ss @ ns)"
    using assms(2,3) that f' F(6,8) nth [OF F(4)] nth [OF F(5)] by (simp add: cached_on_def file_on_def unat_of_nat_small)
  assume "file_bytes (fs_disk t) (ss @ ns) = file_bytes (fs_disk s) (ss @ ns)"
  then have "take z (file_bytes (fs_disk t) (ss @ ns)) = take z (file_bytes (fs_disk s) ss)"
    using F(1,6) by (simp add: file_bytes_append div_less_iff_less_mult mult.commute)
  then show "content (fs_disk t) (ss @ ns) (fcb f') = content (fs_disk s) ss (fcb f)" by (simp add: content_def f'(5) F(7))
qed

lemma file_expand_ok:
  assumes f: "cached_on s f ss z p q" "last_sector (fcb f) = last ss" "length ss + n < 2 ^ 31"
    and bm: "sectors_used (1024 # ss @ ds) (file_alloc_bitmap s)" "n \<le> card (free_sectors (file_alloc_bitmap s))"
    and dir: "in_root s f i ds" "set ds \<inter> set ss = {}" "1024 \<notin> set (ss @ ds)"
  shows "\<exists>ns s' f'. file_expand f (int n) s = Inr (f', s') \<and> grown_cached s f ss ns s' f' \<and> length ns = n \<and>
    cached_on s' f' (ss @ ns) z p q \<and> in_root s' f' i ds \<and> set ds \<inter> set (ss @ ns) = {} \<and> 1024 \<notin> set (ss @ ns) \<and>
    (\<forall>j. entry_at (fs_disk s') ds j = (if j = i then fcb f' else entry_at (fs_disk s) ds j)) \<and>
    (\<forall>k. k \<notin> unat ` (set (ss @ ns) \<union> set ds) \<longrightarrow> fs_disk s' k = fs_disk s k)"
proof -
  have F: "disk_ok (fs_disk s)" "chain (fs_disk s) (first_sector (fcb f)) ss" "distinct ss" "ss \<noteq> []" "unat (sector_count (fcb f)) = length ss"
    using f(1) by (auto simp: cached_on_def file_on_def)
  have "sectors_used ss (file_alloc_bitmap s)" using bm(1) by (simp add: sectors_used_def)
  from expand_loop_ok [OF F(1-4) f(2) this bm(2)] obtain ns s1 where
    R: "expand_loop n f s = Inr (f\<lparr>fcb := (fcb f)\<lparr>last_sector := last (ss @ ns)\<rparr>\<rparr>, s1)" "grown ss n ns (fcb f) s s1" by blast
  have G: "length ns = n" "distinct (ss @ ns)" "disk_ok (fs_disk s1)" "chain (fs_disk s1) (first_sector (fcb f)) (ss @ ns)"
    "file_bytes (fs_disk s1) (ss @ ns) = file_bytes (fs_disk s) (ss @ ns)" "sectors_used (ss @ ns) (file_alloc_bitmap s1)"
    "\<forall>x \<in> set ns. uint x \<in> free_sectors (file_alloc_bitmap s)"
    "free_sectors (file_alloc_bitmap s1) = free_sectors (file_alloc_bitmap s) - (\<lambda>x. uint x) ` set ns"
    "\<And>i. i \<notin> unat ` set (ss @ ns) \<Longrightarrow> fs_disk s1 i = fs_disk s i" "fs_cached s1 = fs_cached s"
    using R(2) unfolding grown_def by blast+
  have dj: "set ds \<inter> set (ss @ ns) = {}" "1024 \<notin> set (ss @ ns)"
    using free_not_used [OF bm(1) G(7)] dir(2,3) by auto
  then have u: "1024 \<notin> unat ` set (ss @ ns)" by (simp only: sector_1024) simp
  define f' where "f' = f\<lparr>fcb := (fcb f)\<lparr>last_sector := last (ss @ ns), sector_count := of_nat (length (ss @ ns))\<rparr>\<rparr>"
  have "sector_count (fcb f) + of_int (int n) = of_nat (length (ss @ ns))" using F(5) G(1) by (simp flip: F(5))
  then have e: "file_expand f (int n) s = rbind (store_file_cached f' s1) (\<lambda>s2. Inr (f', s2))"
    by (simp add: file_expand_def R(1) f'_def Let_def)
  have "length (ss @ ns) < 2 ^ 31" using f(3) G(1) by simp
  note f' = grown_entry [OF f(1) this, folded f'_def]
  have "in_root s f' i ds" by (rule in_root_cong [OF dir(1) f'(2) refl refl])
  from store_elsewhere [OF G(9) G(3) f'(1) this dj(1) u] obtain s2 where
    st: "store_file_cached f' s1 = Inr s2" and s2: "s2 = s1\<lparr>fs_disk := fs_disk s2\<rparr>" "disk_ok (fs_disk s2)"
    "chain (fs_disk s2) (first_sector (root_fcb s)) ds"
    and ent: "\<forall>j. entry_at (fs_disk s2) ds j = (if j = i then fcb f' else entry_at (fs_disk s) ds j)"
    and keep: "\<forall>k. k \<notin> unat ` set ds \<longrightarrow> fs_disk s2 k = fs_disk s1 k" by blast
  note S = stored_sectors [OF keep dj(1)]
  have "1024 \<notin> unat ` set ds" using dir(3) unfolding sector_1024 by simp
  then have root: "root_fcb s2 = root_fcb s" using keep G(9) [OF u] by (simp add: root_fcb_def read_block_eq)
  have bm2: "file_alloc_bitmap s2 = file_alloc_bitmap s1" "fs_cached s2 = fs_cached s1" by (subst s2(1), simp)+
  have "cached_on s2 f' (ss @ ns) z p q" using S(1) [of "first_sector (fcb f)"] G(2,4) s2(2) by (intro f'(8)) simp_all
  moreover have "in_root s2 f' i ds" using dir(1) s2(3) f'(2) by (simp add: in_root_def root)
  moreover have "grown_cached s f ss ns s2 f'"
    using root G(6-8,10) f'(7) [OF S(2) [unfolded G(5)]] by (simp add: grown_cached_def f'_def bm2)
  moreover have "fs_disk s2 k = fs_disk s k" if "k \<notin> unat ` (set (ss @ ns) \<union> set ds)" for k
    using that keep G(9) [of k] unfolding image_Un by simp
  ultimately show ?thesis using e st G(1) dj ent by (intro exI [of _ ns] exI [of _ s2] exI [of _ f']) simp
qed

section \<open>The write on any number of blocks\<close>

text \<open>What \<open>sys_write\<close> has done: \<open>ns\<close> are the sectors that the file has grown by.\<close>

definition written :: "fs_state \<Rightarrow> file_cached_t \<Rightarrow> u32 list \<Rightarrow> nat \<Rightarrow> u8 list \<Rightarrow> nat \<Rightarrow> u32 list \<Rightarrow> u32 list \<Rightarrow>
    fs_state \<Rightarrow> file_cached_t \<Rightarrow> bool" where
  "written s f ss p xs i ds ns s' f' \<longleftrightarrow>
     disk_ok (fs_disk s') \<and> file_on (fs_disk s') (fcb f') (ss @ ns) \<and> distinct (ss @ ns) \<and>
     content (fs_disk s') (ss @ ns) (fcb f') = inserted p xs (content (fs_disk s) ss (fcb f)) \<and>
     fcb f' = (fcb f)\<lparr>last_sector := last (ss @ ns), sector_count := of_nat (length (ss @ ns)),
       file_size := file_size (fcb f) + int (length xs)\<rparr> \<and>
     path_state f' = path_state f \<and> write_seek (io_state f') = int (p + length xs) \<and>
     root_fcb s' = root_fcb s \<and> fs_cached s' = fs_cached s \<and> chain (fs_disk s') (first_sector (root_fcb s)) ds \<and>
     (\<forall>j. entry_at (fs_disk s') ds j = (if j = i then fcb f' else entry_at (fs_disk s) ds j)) \<and>
     (\<forall>x \<in> set ns. uint x \<in> free_sectors (file_alloc_bitmap s)) \<and>
     free_sectors (file_alloc_bitmap s') = free_sectors (file_alloc_bitmap s) - uint ` set ns \<and>
     (\<forall>k. k \<notin> unat ` (set (ss @ ns) \<union> set ds) \<longrightarrow> fs_disk s' k = fs_disk s k)"

lemma file_on_longer:
  assumes "file_on dk f ss" "chain dk' (first_sector f) ss" "z + n < 2 ^ 31" "(z + n) div 508 < length ss" "file_size f = int z"
  shows "file_on dk' (f\<lparr>file_size := int (z + n)\<rparr>) ss"
  using assms by (simp add: file_on_def nat_add_distrib)

lemma sys_write_fits:
  assumes f: "cached_on s f ss z p q" "last_sector (fcb f) = last ss" and n: "insertable z p q n" "n \<le> length buf"
    "(z + n) div 508 < length ss" and dir: "in_root s f i ds" "set ds \<inter> set ss = {}" "1024 \<notin> set (ss @ ds)"
  shows "\<exists>f' s'. sys_write f buf (int n) s = Inr (f', s') \<and> written s f ss p (take n buf) i ds [] s' f'"
proof -
  have u: "1024 \<notin> unat ` set ss" "1024 \<notin> unat ` (set ss \<union> set ds)"
    using dir(3) unfolding set_append [symmetric] sector_1024 by simp_all
  from sys_write_ok [OF f(1) n dir(1,2) u(1)] obtain f' s' where w: "sys_write f buf (int n) s = Inr (f', s')"
    and R: "content (fs_disk s') ss (fcb f') = inserted p (take n buf) (content (fs_disk s) ss (fcb f))"
    "write_seek (io_state f') = int (p + n)" "fcb f' = (fcb f)\<lparr>file_size := int (z + n)\<rparr>" "path_state f' = path_state f"
    "disk_ok (fs_disk s')" "chain (fs_disk s') (first_sector (fcb f)) ss" "chain (fs_disk s') (first_sector (root_fcb s)) ds"
    "\<forall>j. entry_at (fs_disk s') ds j = (if j = i then fcb f' else entry_at (fs_disk s) ds j)"
    "\<forall>k. k \<notin> unat ` (set ss \<union> set ds) \<longrightarrow> fs_disk s' k = fs_disk s k"
    "\<exists>c. s' = s\<lparr>fs_console := c, fs_disk := fs_disk s'\<rparr>" by blast
  have F: "file_on (fs_disk s) (fcb f) ss" "file_size (fcb f) = int z" "unat (sector_count (fcb f)) = length ss" "distinct ss"
    using f(1) by (simp_all add: cached_on_def)
  have "file_on (fs_disk s') (fcb f') ss"
    unfolding R(3) by (rule file_on_longer [OF F(1) R(6) _ n(3) F(2)]) (use n(1) in \<open>simp add: insertable_def\<close>)
  moreover have "sector_count (fcb f) = of_nat (length ss)" by (simp flip: F(3))
  then have "(fcb f)\<lparr>last_sector := last ss, sector_count := of_nat (length ss), file_size := int (z + n)\<rparr> = fcb f'"
    unfolding R(3) f(2) [symmetric] by simp
  moreover have "root_fcb s' = root_fcb s" using R(9) u(2) by (simp add: root_fcb_def read_block_eq)
  moreover from R(10) obtain c where "s' = s\<lparr>fs_console := c, fs_disk := fs_disk s'\<rparr>" by blast
  then have "file_alloc_bitmap s' = file_alloc_bitmap s" "fs_cached s' = fs_cached s" by (metis fs_state.select_convs fs_state.surjective fs_state.update_convs)+
  moreover have "length (take n buf) = n" using n(2) by simp
  ultimately have "written s f ss p (take n buf) i ds [] s' f'"
    using R F by (simp add: written_def)
  with w show ?thesis by blast
qed

lemma written_after_growth:
  assumes g: "grown_cached s f ss ns s1 f1" and w: "written s1 f1 (ss @ ns) p xs i ds [] s' f'"
    and ent: "\<forall>j. entry_at (fs_disk s1) ds j = (if j = i then fcb f1 else entry_at (fs_disk s) ds j)"
    and keep: "\<forall>k. k \<notin> unat ` (set (ss @ ns) \<union> set ds) \<longrightarrow> fs_disk s1 k = fs_disk s k"
  shows "written s f ss p xs i ds ns s' f'"
proof -
  have f1: "f1 = f\<lparr>fcb := (fcb f)\<lparr>last_sector := last (ss @ ns), sector_count := of_nat (length (ss @ ns))\<rparr>\<rparr>"
    and c: "content (fs_disk s1) (ss @ ns) (fcb f1) = content (fs_disk s) ss (fcb f)" and root: "root_fcb s1 = root_fcb s" "fs_cached s1 = fs_cached s"
    and free: "\<forall>x \<in> set ns. uint x \<in> free_sectors (file_alloc_bitmap s)"
      "free_sectors (file_alloc_bitmap s1) = free_sectors (file_alloc_bitmap s) - uint ` set ns"
    using g unfolding grown_cached_def by blast+
  have p1: "path_state f1 = path_state f" "file_size (fcb f1) = file_size (fcb f)" by (simp_all add: f1)
  have u: "(fcb f1)\<lparr>last_sector := a, sector_count := b, file_size := c\<rparr> = (fcb f)\<lparr>last_sector := a, sector_count := b, file_size := c\<rparr>" for a b c
    by (simp add: f1)
  have "fs_disk s' k = fs_disk s k" if "k \<notin> unat ` (set (ss @ ns) \<union> set ds)" for k
    using that keep w unfolding written_def append_Nil2 by metis
  moreover have "entry_at (fs_disk s') ds j = (if j = i then fcb f' else entry_at (fs_disk s) ds j)" for j
    using ent w unfolding written_def by presburger
  ultimately show ?thesis
    using w free(1) unfolding written_def append_Nil2 c p1 u root free(2) list.set(1) image_empty Diff_empty by blast
qed

lemma sys_write_any:
  assumes f: "cached_on s f ss z p q" "last_sector (fcb f) = last ss" and n: "insertable z p q n" "n \<le> length buf"
    and bm: "sectors_used (1024 # ss @ ds) (file_alloc_bitmap s)"
      "Suc ((z + n) div 508) - length ss \<le> card (free_sectors (file_alloc_bitmap s))"
    and dir: "in_root s f i ds" "set ds \<inter> set ss = {}" "1024 \<notin> set (ss @ ds)"
  shows "\<exists>ns f' s'. sys_write f buf (int n) s = Inr (f', s') \<and> length ns = Suc ((z + n) div 508) - length ss \<and>
    written s f ss p (take n buf) i ds ns s' f'"
proof (cases "(z + n) div 508 < length ss")
  case True
  then show ?thesis using sys_write_fits [OF f n True dir] by (intro exI [of _ "[]"]) simp
next
  case False
  define m where "m = Suc ((z + n) div 508) - length ss"
  have zn: "z + n < 2 ^ 31" using n(1) by (simp add: insertable_def)
  then have q: "Suc ((z + n) div 508) < 2 ^ 31" using div_le_mono [of "z + n" "2 ^ 31" 508] by simp
  have m: "length ss + m = Suc ((z + n) div 508)" "0 < m" using False by (simp_all add: m_def)
  have F: "file_size (fcb f) = int z" "unat (sector_count (fcb f)) = length ss" using f(1) by (simp_all add: cached_on_def)
  have "length ss + m < 2 ^ 31" "m < 2 ^ 31" using m q by linarith+
  from file_expand_ok [OF f this(1) bm(1) bm(2) [folded m_def] dir] obtain ns s1 f1 where
    e: "file_expand f (int m) s = Inr (f1, s1)" and g: "grown_cached s f ss ns s1 f1" "length ns = m"
    and c: "cached_on s1 f1 (ss @ ns) z p q" "in_root s1 f1 i ds" "set ds \<inter> set (ss @ ns) = {}" "1024 \<notin> set (ss @ ns)"
    and ent: "\<forall>j. entry_at (fs_disk s1) ds j = (if j = i then fcb f1 else entry_at (fs_disk s) ds j)"
    and keep: "\<forall>k. k \<notin> unat ` (set (ss @ ns) \<union> set ds) \<longrightarrow> fs_disk s1 k = fs_disk s k" by blast
  have x: "uint32 (NTH_BLOCK (file_size (fcb f) + int n) + 1) = int (Suc ((z + n) div 508))"
    using F(1) NTH_BLOCK_of_nat [of "z + n"] uint32_of_nat [of "Suc ((z + n) div 508)"] zn q by (simp add: add.commute)
  have k: "file_size (fcb f1) = file_size (fcb f)" "int (unat (sector_count (fcb f1))) = int (Suc ((z + n) div 508))"
    using c(1) F(1) m(1) g(2) by (simp_all add: cached_on_def)
  have "sys_write f buf (int n) s = sys_write f1 buf (int n) s1"
    by (rule sys_write_expanded [OF x [symmetric] _ m(2) _ e k]) (use F(2) m(1) \<open>m < 2 ^ 31\<close> in simp_all)
  moreover have "last_sector (fcb f1) = last (ss @ ns)" using g(1) by (simp add: grown_cached_def)
  then have "\<exists>f' s'. sys_write f1 buf (int n) s1 = Inr (f', s') \<and> written s1 f1 (ss @ ns) p (take n buf) i ds [] s' f'"
    by (rule sys_write_fits [OF c(1) _ n _ c(2,3)]) (use m g(2) c(4) dir(3) in simp_all)
  ultimately show ?thesis using written_after_growth [OF g(1) _ ent keep] g(2) m_def by metis
qed

lemma demo_bitmap:
  "sectors_used [1024, 1026, 1025] (file_alloc_bitmap (demo_fs dk))"
  "1 \<le> card (free_sectors (file_alloc_bitmap (demo_fs dk)))"
proof -
  let ?bm = "file_alloc_bitmap (demo_fs dk)"
  have "bit (0xFF :: u8) j" if "j < 8" for j using byte_all_ones [of "0xFF"] that by simp
  then have bits: "bit_at ?bm k \<longleftrightarrow> k < 1032" if "0 \<le> k" for k
    using that by (auto simp: demo_fs_def bit_at_def nat_less_iff)
  have sl: "slots ?bm = 1572864" by (simp add: demo_fs_def slots_def signed_divide_int_def)
  show "sectors_used [1024, 1026, 1025] ?bm" by (simp add: sectors_used_def sl bits)
  have "2000 \<in> free_sectors ?bm" by (simp add: free_sectors_def sl bits)
  then show "1 \<le> card (free_sectors ?bm)" using card_gt_0_iff [of "free_sectors ?bm"] by (auto simp: Suc_le_eq)
qed

text \<open>The file \<open>usr\<close> of the demonstration disk, opened and with the write pointer at \<open>p\<close>.\<close>

definition usr_at :: "nat \<Rightarrow> file_cached_t" where
  "usr_at p = three_block_file\<lparr>fcb := demo_usr, io_state := (io_state three_block_file)\<lparr>write_seek := int p\<rparr>\<rparr>"

lemma usr_at_ok:
  assumes "p \<le> 10"
  shows "cached_on (demo_fs dir_disk) (usr_at p) [1026] 10 p 0" "last_sector (fcb (usr_at p)) = 1026"
    "in_root (demo_fs dir_disk) (usr_at p) 0 [1025]" "content dir_disk [1026] (fcb (usr_at p)) = replicate 10 7"
proof -
  have "chain dir_disk (first_sector demo_root) [1025]" by (simp add: demo_root_def)
  then show "in_root (demo_fs dir_disk) (usr_at p) 0 [1025]"
    by (simp add: in_root_def usr_at_def three_block_file_def dir_disk_ok(2))
  show "last_sector (fcb (usr_at p)) = 1026" by (simp add: usr_at_def demo_usr_def)
  show "cached_on (demo_fs dir_disk) (usr_at p) [1026] 10 p 0"
    using assms dir_disk_ok(1) demo_wf(2) by (simp add: cached_on_def usr_at_def file_on_def three_block_file_def) (simp add: demo_usr_def)
  show "content dir_disk [1026] (fcb (usr_at p)) = replicate 10 7"
    by (simp add: content_def usr_at_def file_bytes_def block_data_def dir_disk_def set_next_sector_def demo_usr_def)
qed

section \<open>Properties\<close>



end
