(* ===== verification/File_Create.thy ===== *)
theory File_Create
  imports File_Grow
begin

text \<open>
  \<open>sys_create\<close>: a file created in a directory of the root is found under its path, with the
  sector it was given; the entries behind it have moved up by one.
\<close>

section \<open>Entries of a directory as slices of its content\<close>

lemma entry_content:
  "84 * j + 84 \<le> nat (file_size f) \<Longrightarrow> entry_at dk ss j = decode_file (slice (84 * j) 84 (content dk ss f))"
  by (simp add: entry_at_def content_def slice_take)

lemma wf_entry:
  assumes "file_on dk f ss" "disk_ok dk" "file_size f = int (84 * e)" "j < e"
  shows "wf_file (entry_at dk ss j)"
proof -
  have "84 * j + 84 < 508 * length ss" using file_on_room(1) [OF assms(1,2), of "84 * j" 84] assms(3,4) by simp
  then show ?thesis unfolding entry_at_def using assms(2) by (intro wf_decode) simp
qed

lemma inserted_slice:
  assumes "length xs = 84" "84 * k \<le> length bs"
  shows "slice (84 * j) 84 (inserted (84 * k) xs bs) =
    (if j < k then slice (84 * j) 84 bs else if j = k then xs else slice (84 * (j - 1)) 84 bs)"
proof -
  consider "j < k" | "j = k" | i where "j = Suc (k + i)"
    by (metis add_Suc_right less_imp_Suc_add linorder_neqE_nat)
  then show ?thesis
  proof cases
    case 1
    then have "84 * j + 84 \<le> 84 * k" by simp
    then have "slice (84 * j) 84 (take (84 * k) bs @ xs @ drop (84 * k) bs) = slice (84 * j) 84 (take (84 * k) bs)"
      using assms(2) by (simp add: slice_def)
    also have "\<dots> = slice (84 * j) 84 bs" using \<open>84 * j + 84 \<le> 84 * k\<close> by (rule slice_take)
    finally show ?thesis using 1 by (simp add: inserted_def)
  next
    case 2
    then show ?thesis using assms by (simp add: inserted_def slice_def)
  next
    case 3
    then show ?thesis using assms by (simp add: inserted_def slice_def algebra_simps)
  qed
qed

text \<open>An entry put in between the entries of a directory.\<close>

lemma entries_inserted:
  assumes "content dk' ss' f' = inserted (84 * k) (encode_file g) (content dk ss f)" "wf_file g" "k \<le> e"
    "file_size f = int (84 * e)" "file_size f' = int (84 * Suc e)" "length (content dk ss f) = 84 * e" "j \<le> e"
  shows "entry_at dk' ss' j = (if j < k then entry_at dk ss j else if j = k then g else entry_at dk ss (j - 1))"
proof -
  have "84 * j + 84 \<le> nat (file_size f')" using assms(5,7) by simp
  then have "entry_at dk' ss' j = decode_file (slice (84 * j) 84 (inserted (84 * k) (encode_file g) (content dk ss f)))"
    unfolding assms(1) [symmetric] by (rule entry_content)
  also have "\<dots> = decode_file (if j < k then slice (84 * j) 84 (content dk ss f) else if j = k then encode_file g
      else slice (84 * (j - 1)) 84 (content dk ss f))"
    using assms(2,3,6) by (subst inserted_slice) simp_all
  also have "\<dots> = (if j < k then entry_at dk ss j else if j = k then g else entry_at dk ss (j - 1))"
    using assms(3,4,7) decode_encode [OF assms(2), of "[]"] entry_content [of j f dk ss] entry_content [of "j - 1" f dk ss]
    by auto
  finally show ?thesis .
qed

section \<open>An open directory\<close>

text \<open>
  \<open>d\<close> is the directory \<open>dn\<close> of the root, opened and unchanged since: it has \<open>e\<close> entries on the sectors
  \<open>ss\<close>, and its own entry is number \<open>i\<close> of the root directory on the sectors \<open>ds\<close>.
\<close>

definition open_dir :: "fs_state \<Rightarrow> file_cached_t \<Rightarrow> u8 list \<Rightarrow> u32 list \<Rightarrow> nat \<Rightarrow> nat \<Rightarrow> u32 list \<Rightarrow> bool" where
  "open_dir s d dn ss e i ds \<longleftrightarrow> in_root s d i ds \<and> dir_on (fs_disk s) (root_fcb s) ds \<and>
     first_entry (fs_disk s) (root_fcb s) ds (dn @ [0]) = Some i \<and> entry_at (fs_disk s) ds i = fcb d \<and>
     dir_on (fs_disk s) (fcb d) ss \<and> file_size (fcb d) = int (84 * e) \<and> last_sector (fcb d) = last ss \<and>
     set ds \<inter> set ss = {} \<and> 1024 \<notin> set (ss @ ds) \<and> sectors_used (1024 # ss @ ds) (file_alloc_bitmap s)"

text \<open>Looking a name up in the root directory does not depend on anything but the names.\<close>

lemma root_unchanged:
  assumes "dir_on dk r ds" "chain dk' (first_sector r) ds"
    "\<And>j. file_name (entry_at dk' ds j) = file_name (entry_at dk ds j)"
  shows "dir_on dk' r ds" "first_entry dk' r ds n = first_entry dk r ds n"
  using assms by (simp_all add: dir_on_def file_on_def first_entry_def)

text \<open>Two names from the root.\<close>

lemma open_two:
  assumes "disk_ok (fs_disk s)" "dir_on (fs_disk s) (root_fcb s) ds" "first_entry (fs_disk s) (root_fcb s) ds (dn @ [0]) = Some i"
    "entry_at (fs_disk s) ds i = g" "dir_on (fs_disk s) g ss" "first_entry (fs_disk s) g ss (name @ [0]) = Some k"
    "names_ok [dn, name]" "length (parent_dir_name (path_state c)) = FILE_PATH_MAXLENGTH"
  shows "\<exists>f'. load_file_cached (path_of [dn, name] @ 0 # rest) c s = Inr (FILE_RESULT_SUCCESS, f') \<and>
    fcb f' = entry_at (fs_disk s) ss k \<and> index_in_parent_dir (path_state f') = int k \<and>
    c_str (parent_dir_name (path_state f')) = path_of [dn]"
proof -
  have z: "0 \<in> set (dn @ [0])" "0 \<in> set (name @ [0])" by simp_all
  have d1: "dir_search_file (root_fcb s) (dn @ [0]) s = Inr (FILE_RESULT_SUCCESS, Some (g, int i))"
    using dir_search_ok [OF assms(1,2) z(1)] assms(3,4) by simp
  have d2: "dir_search_file g (name @ [0]) s = Inr (FILE_RESULT_SUCCESS, Some (entry_at (fs_disk s) ss k, int k))"
    using dir_search_ok [OF assms(1,5) z(2)] assms(6) by simp
  obtain f2 where f2: "follow ([dn] @ [name]) (c\<lparr>fcb := root_fcb s\<rparr>) s = Inr (None, f2)" "fcb f2 = entry_at (fs_disk s) ss k"
    "index_in_parent_dir (path_state f2) = int k"
    using d1 d2 by simp
  have n: "names_ok ([dn] @ [name])" "length (path_of [dn]) < FILE_PATH_MAXLENGTH" "0 \<notin> set (path_of [dn])"
    using assms(7) by (auto simp: names_ok_def)
  show ?thesis
    using load_named [OF n(1) f2(1) n(2) assms(8), of rest] f2(2,3) c_str_append [OF n(3)]
    by (simp add: opened_def)
qed

section \<open>The new sector\<close>

definition created_block :: "fs_state \<Rightarrow> u32 \<Rightarrow> fs_state \<Rightarrow> bool" where
  "created_block s x s2 \<longleftrightarrow> uint x \<in> free_sectors (file_alloc_bitmap s) \<and> disk_ok (fs_disk s2) \<and>
     free_sectors (file_alloc_bitmap s2) = free_sectors (file_alloc_bitmap s) - {uint x} \<and>
     (\<forall>xs. sectors_used xs (file_alloc_bitmap s) \<longrightarrow> sectors_used xs (file_alloc_bitmap s2)) \<and>
     next_sector (fs_disk s2 (unat x)) = 0xFFFFFFF \<and> fs_cached s2 = fs_cached s \<and> (\<forall>k. k \<noteq> unat x \<longrightarrow> fs_disk s2 k = fs_disk s k)"

lemma create_block_ok:
  assumes "disk_ok (fs_disk s)" "0 < card (free_sectors (file_alloc_bitmap s))" "slots (file_alloc_bitmap s) \<le> 2 ^ 32"
  shows "\<exists>s1 x s2. file_alloc s = (s1, x) \<and> write_block x (set_next_sector 0xFFFFFFF (uninit 7 512 s1)) s1 = Inr s2 \<and>
    created_block s x s2"
proof -
  from file_alloc_ok [OF assms(2,3)] obtain bm x where x: "file_alloc s = (s\<lparr>file_alloc_bitmap := bm\<rparr>, x)"
    "slots bm = slots (file_alloc_bitmap s)" "free_sectors bm = free_sectors (file_alloc_bitmap s) - {uint x}"
    "uint x \<in> free_sectors (file_alloc_bitmap s)" "\<forall>m. bit_at bm m \<longleftrightarrow> m = uint x \<or> bit_at (file_alloc_bitmap s) m" by blast
  define s1 where "s1 = s\<lparr>file_alloc_bitmap := bm\<rparr>"
  define b where "b = set_next_sector 0xFFFFFFF (uninit 7 512 s1)"
  have b: "length b = 512" "next_sector b = 0xFFFFFFF" by (simp_all add: b_def uninit_def)
  have "write_block x b s1 = Inr (s1\<lparr>fs_disk := (fs_disk s1)(unat x := b)\<rparr>)" by (rule write_block_eq [OF b(1)])
  moreover have "created_block s x (s1\<lparr>fs_disk := (fs_disk s1)(unat x := b)\<rparr>)"
    using x(2-5) b assms(1) by (auto simp: created_block_def s1_def disk_ok_def sectors_used_def)
  ultimately show ?thesis using x(1) unfolding s1_def b_def by blast
qed

text \<open>Files whose sectors are marked do not notice.\<close>

lemma created_block_other: "created_block s x s2 \<Longrightarrow> w \<noteq> x \<Longrightarrow> fs_disk s2 (unat w) = fs_disk s (unat w)"
  by (simp add: created_block_def word_unat_eq_iff)

lemma created_block_keeps:
  assumes "created_block s x s2" "sectors_used ts (file_alloc_bitmap s)"
  shows "chain (fs_disk s2) w ts = chain (fs_disk s) w ts" "file_bytes (fs_disk s2) ts = file_bytes (fs_disk s) ts"
    "entry_at (fs_disk s2) ts j = entry_at (fs_disk s) ts j" "x \<notin> set ts"
proof -
  have x: "x \<notin> set ts" using assms by (auto simp: created_block_def sectors_used_def free_sectors_def)
  then show "x \<notin> set ts" .
  have "\<forall>k \<in> unat ` set ts. fs_disk s2 k = fs_disk s k"
    using created_block_other [OF assms(1)] x by (metis imageE)
  then show "chain (fs_disk s2) w ts = chain (fs_disk s) w ts" "file_bytes (fs_disk s2) ts = file_bytes (fs_disk s) ts"
    "entry_at (fs_disk s2) ts j = entry_at (fs_disk s) ts j"
    by (rule same_sectors)+
qed

lemma created_block_cached:
  assumes "created_block s x s2" "sectors_used (1024 # ss @ ds) (file_alloc_bitmap s)"
  shows "root_fcb s2 = root_fcb s"
    "cached_on s d ss z p q \<Longrightarrow> cached_on s2 d ss z p q" "in_root s d i ds \<Longrightarrow> in_root s2 d i ds"
    "content (fs_disk s2) ss g = content (fs_disk s) ss g"
proof -
  have u: "sectors_used ss (file_alloc_bitmap s)" "sectors_used ds (file_alloc_bitmap s)" "sectors_used [1024] (file_alloc_bitmap s)"
    using assms(2) by (simp_all add: sectors_used_def)
  note S = created_block_keeps [OF assms(1) u(1)] and D = created_block_keeps [OF assms(1) u(2)]
  have "fs_disk s2 1024 = fs_disk s 1024"
    using created_block_other [OF assms(1), of 1024] created_block_keeps(4) [OF assms(1) u(3)] by auto
  then show root: "root_fcb s2 = root_fcb s" by (simp add: root_fcb_def read_block_eq)
  show "cached_on s2 d ss z p q" if "cached_on s d ss z p q"
    using that assms(1) by (auto simp: cached_on_def file_on_def S created_block_def)
  show "in_root s2 d i ds" if "in_root s d i ds" using that by (simp add: in_root_def root D)
  show "content (fs_disk s2) ss g = content (fs_disk s) ss g" by (simp add: content_def S)
qed

section \<open>Creating a file\<close>

definition new_file :: "u8 list \<Rightarrow> u32 \<Rightarrow> u32 \<Rightarrow> file_t" where
  "new_file name x ftype = \<lparr>file_name = name, first_sector = x, last_sector = x, sector_count = 1, file_size = 0, file_type = ftype\<rparr>"

lemma new_name:
  assumes "names_ok [name]"
  shows "\<exists>fname. strcpy (uninit 6 64 s) (name @ [0]) = Inr fname \<and> length fname = 64 \<and> 0 \<in> set fname \<and> c_str fname = name"
proof -
  have n: "0 \<notin> set name" "length name < 64" using assms by (simp_all add: names_ok_def)
  have "length (uninit 6 64 s) = 64" by (simp add: uninit_def)
  then have "strcpy (uninit 6 64 s) (name @ 0 # []) = Inr (name @ 0 # drop (Suc (length name)) (uninit 6 64 s))"
    using strcpy_ok [OF n(1), of "uninit 6 64 s" "[]"] n(2) by simp
  then show ?thesis using n c_str_append [OF n(1)] by (simp add: uninit_def)
qed

text \<open>What \<open>sys_create\<close> leaves behind: the sector \<open>x\<close> is the file's, \<open>ns\<close> are those the directory grew by.\<close>

definition created_in :: "fs_state \<Rightarrow> file_cached_t \<Rightarrow> u32 list \<Rightarrow> nat \<Rightarrow> nat \<Rightarrow> nat \<Rightarrow> u32 list \<Rightarrow> u32 \<Rightarrow> file_t \<Rightarrow> u32 list \<Rightarrow>
    fs_state \<Rightarrow> file_cached_t \<Rightarrow> bool" where
  "created_in s d ss e k i ds x g ns s' d' \<longleftrightarrow>
     disk_ok (fs_disk s') \<and> uint x \<in> free_sectors (file_alloc_bitmap s) \<and>
     free_sectors (file_alloc_bitmap s') = free_sectors (file_alloc_bitmap s) - uint ` set (x # ns) \<and>
     next_sector (fs_disk s' (unat x)) = 0xFFFFFFF \<and> fs_cached s' = fs_cached s \<and>
     distinct (ss @ ns) \<and> set (ss @ ns) \<inter> set (1024 # ds) = {} \<and>
     file_on (fs_disk s') (fcb d') (ss @ ns) \<and> file_size (fcb d') = int (84 * Suc e) \<and> file_name (fcb d') = file_name (fcb d) \<and>
     (\<forall>j \<le> e. entry_at (fs_disk s') (ss @ ns) j =
        (if j < k then entry_at (fs_disk s) ss j else if j = k then g else entry_at (fs_disk s) ss (j - 1))) \<and>
     root_fcb s' = root_fcb s \<and> chain (fs_disk s') (first_sector (root_fcb s)) ds \<and>
     (\<forall>j. entry_at (fs_disk s') ds j = (if j = i then fcb d' else entry_at (fs_disk s) ds j))"

lemma created_in_written:
  assumes b: "created_block s x s2" and w: "written s2 d ss (84 * k) (encode_file g) i ds ns s' d'" and g: "wf_file g" "k \<le> e"
    and c: "cached_on s d ss (84 * e) p q" "sectors_used (1024 # ss @ ds) (file_alloc_bitmap s)"
    "set ds \<inter> set ss = {}" "1024 \<notin> set ss"
  shows "created_in s d ss e k i ds x g ns s' d'"
proof -
  note S = created_block_cached [OF b c(2)]
  have used: "sectors_used ss (file_alloc_bitmap s)" "sectors_used ds (file_alloc_bitmap s)" using c(2) by (simp_all add: sectors_used_def)
  note K = created_block_keeps [OF b used(1)] and D = created_block_keeps [OF b used(2)]
  have B: "uint x \<in> free_sectors (file_alloc_bitmap s)" "next_sector (fs_disk s2 (unat x)) = 0xFFFFFFF"
    "free_sectors (file_alloc_bitmap s2) = free_sectors (file_alloc_bitmap s) - {uint x}" "fs_cached s2 = fs_cached s"
    "sectors_used (1024 # ss @ ds) (file_alloc_bitmap s2)"
    using b c(2) by (simp_all add: created_block_def)
  have W: "content (fs_disk s') (ss @ ns) (fcb d') = inserted (84 * k) (encode_file g) (content (fs_disk s2) ss (fcb d))"
    "fcb d' = (fcb d)\<lparr>last_sector := last (ss @ ns), sector_count := of_nat (length (ss @ ns)),
       file_size := file_size (fcb d) + int (length (encode_file g))\<rparr>"
    "\<forall>x \<in> set ns. uint x \<in> free_sectors (file_alloc_bitmap s2)"
    "free_sectors (file_alloc_bitmap s') = free_sectors (file_alloc_bitmap s2) - uint ` set ns"
    "\<And>k. k \<notin> unat ` (set (ss @ ns) \<union> set ds) \<Longrightarrow> fs_disk s' k = fs_disk s2 k"
    "disk_ok (fs_disk s')" "file_on (fs_disk s') (fcb d') (ss @ ns)"
    "root_fcb s' = root_fcb s2" "chain (fs_disk s') (first_sector (root_fcb s2)) ds"
    "\<forall>j. entry_at (fs_disk s') ds j = (if j = i then fcb d' else entry_at (fs_disk s2) ds j)"
    "distinct (ss @ ns)" "fs_cached s' = fs_cached s2"
    using w unfolding written_def by blast+
  have d: "file_size (fcb d) = int (84 * e)" "file_on (fs_disk s) (fcb d) ss" "disk_ok (fs_disk s)"
    using c(1) by (simp_all add: cached_on_def)
  have z: "file_size (fcb d') = int (84 * Suc e)" "file_name (fcb d') = file_name (fcb d)" using g(1) d(1) by (simp_all add: W(2))
  have l: "length (content (fs_disk s) ss (fcb d)) = 84 * e"
    using file_on_room(1) [OF d(2,3), of 0 "84 * e"] d(1,3) by (simp add: content_def)
  have "x \<notin> set ns" using W(3) by (auto simp: B(3))
  then have "x \<notin> set (ss @ ns) \<union> set ds" using K(4) D(4) by simp
  then have "unat x \<notin> unat ` (set (ss @ ns) \<union> set ds)" by (metis imageE word_unat_eq_iff)
  then have "next_sector (fs_disk s' (unat x)) = 0xFFFFFFF" using W(5) B(2) by simp
  moreover have "entry_at (fs_disk s') (ss @ ns) j =
      (if j < k then entry_at (fs_disk s) ss j else if j = k then g else entry_at (fs_disk s) ss (j - 1))" if "j \<le> e" for j
    by (rule entries_inserted [OF W(1) [unfolded S(4)] g d(1) z(1) l that])
  moreover have dj: "set (ss @ ns) \<inter> set (1024 # ds) = {}" using free_not_used [OF B(5) W(3)] c(3,4) by auto
  moreover have "free_sectors (file_alloc_bitmap s') = free_sectors (file_alloc_bitmap s) - uint ` set (x # ns)"
    using W(4) B(3) by auto
  ultimately show ?thesis
    unfolding created_in_def using W(6-12) B(1,4) z S(1) D(3) dj by simp
qed

lemma sys_create_ok:
  assumes c: "cached_on s d ss (84 * e) (84 * k) q" "k \<le> e" "last_sector (fcb d) = last ss"
    and dir: "in_root s d i ds" "set ds \<inter> set ss = {}" "1024 \<notin> set (ss @ ds)" "sectors_used (1024 # ss @ ds) (file_alloc_bitmap s)"
    and n: "insertable (84 * e) (84 * k) q 84" "names_ok [name]"
      "Suc ((84 * e + 84) div 508) - length ss < card (free_sectors (file_alloc_bitmap s))"
  shows "\<exists>x ns fname d' s'. sys_create d (name @ [0]) ftype s = Inr (d', s') \<and> c_str fname = name \<and> 0 \<in> set fname \<and>
    created_in s d ss e k i ds x (new_file fname x ftype) ns s' d'"
proof -
  from new_name [OF n(2)] obtain fname where
    fname: "strcpy (uninit 6 64 s) (name @ [0]) = Inr fname" "length fname = 64" "0 \<in> set fname" "c_str fname = name" by blast
  have C: "disk_ok (fs_disk s)" "file_on (fs_disk s) (fcb d) ss" "file_size (fcb d) = int (84 * e)"
    using c(1) by (simp_all add: cached_on_def)
  have "slots (file_alloc_bitmap s) \<le> 2 ^ 32" using dir(4) by (simp add: sectors_used_def)
  from create_block_ok [OF C(1) _ this] n(3) obtain s1 x s2 where
    a: "file_alloc s = (s1, x)" "write_block x (set_next_sector 0xFFFFFFF (uninit 7 512 s1)) s1 = Inr s2" "created_block s x s2"
    by (metis gr0I less_nat_zero_code)
  note S = created_block_cached [OF a(3) dir(4)]
  have bm: "free_sectors (file_alloc_bitmap s2) = free_sectors (file_alloc_bitmap s) - {uint x}" "uint x \<in> free_sectors (file_alloc_bitmap s)"
    "sectors_used (1024 # ss @ ds) (file_alloc_bitmap s2)" "next_sector (fs_disk s2 (unat x)) = 0xFFFFFFF"
    using a(3) dir(4) by (simp_all add: created_block_def)
  then have card: "Suc ((84 * e + 84) div 508) - length ss \<le> card (free_sectors (file_alloc_bitmap s2))"
    using n(3) by (simp add: card_Diff_singleton)
  define g where "g = new_file fname x ftype"
  have g: "wf_file g" "length (encode_file g) = 84" using fname(2) by (simp_all add: g_def new_file_def wf_file_def encode_file_def)
  from sys_write_any [OF S(2) [OF c(1)] c(3) n(1) _ bm(3) card S(3) [OF dir(1)] dir(2,3), of "encode_file g"] g(2) obtain ns d' s' where
    w: "sys_write d (encode_file g) (int 84) s2 = Inr (d', s')" and W: "written s2 d ss (84 * k) (encode_file g) i ds ns s' d'" by auto
  have e: "sys_create d (name @ [0]) ftype s = Inr (d', s')"
    using w a by (simp add: sys_create_def fname(1) g_def new_file_def)
  have "created_in s d ss e k i ds x g ns s' d'"
    by (rule created_in_written [OF a(3) W g(1) c(2,1) dir(4,2)]) (use dir(3) in simp)
  then show ?thesis using e fname(3,4) unfolding g_def by blast
qed

section \<open>Looking up names afterwards\<close>

lemma created_root:
  assumes "open_dir s d dn ss e i ds" "created_in s d ss e k i ds x g ns s' d'"
  shows "dir_on (fs_disk s') (root_fcb s') ds" "first_entry (fs_disk s') (root_fcb s') ds (dn @ [0]) = Some i"
    "entry_at (fs_disk s') ds i = fcb d'"
proof -
  have s: "dir_on (fs_disk s) (root_fcb s) ds" "first_entry (fs_disk s) (root_fcb s) ds (dn @ [0]) = Some i"
    "entry_at (fs_disk s) ds i = fcb d"
    using assms(1) by (simp_all add: open_dir_def)
  have s': "root_fcb s' = root_fcb s" "chain (fs_disk s') (first_sector (root_fcb s)) ds"
    "\<And>j. entry_at (fs_disk s') ds j = (if j = i then fcb d' else entry_at (fs_disk s) ds j)" "file_name (fcb d') = file_name (fcb d)"
    using assms(2) by (simp_all add: created_in_def)
  then have "file_name (entry_at (fs_disk s') ds j) = file_name (entry_at (fs_disk s) ds j)" for j using s(3) by simp
  note R = root_unchanged [OF s(1) s'(2) this]
  show "dir_on (fs_disk s') (root_fcb s') ds" "first_entry (fs_disk s') (root_fcb s') ds (dn @ [0]) = Some i"
    unfolding s'(1) using R s(2) by simp_all
  show "entry_at (fs_disk s') ds i = fcb d'" using s'(3) by simp
qed

text \<open>The names in the directory itself.\<close>

lemma entries_of_size [simp]: "file_size f = int (84 * e) \<Longrightarrow> entries f = e"
  by (simp add: entries_def)

lemma dir_on_entries:
  assumes "file_on dk f ss" "file_size f = int (84 * e)" "84 * e + 4 \<le> 43008" "\<And>j. j < e \<Longrightarrow> 0 \<in> set (file_name (entry_at dk ss j))"
  shows "dir_on dk f ss"
  using assms by (simp add: dir_on_def)

lemma first_entry_Some:
  assumes "file_size f = int (84 * e)" "k < e" "c_str (file_name (entry_at dk ss k)) = c_str n"
    "\<And>j. j < k \<Longrightarrow> c_str (file_name (entry_at dk ss j)) \<noteq> c_str n"
  shows "first_entry dk f ss n = Some k"
  using assms by (auto simp: first_entry_def find_Some_iff)

lemma first_entry_None:
  "file_size f = int (84 * e) \<Longrightarrow>
   first_entry dk f ss n = None \<longleftrightarrow> (\<forall>j < e. c_str (file_name (entry_at dk ss j)) \<noteq> c_str n)"
  by (auto simp: first_entry_def find_None_iff)

lemma created_dir:
  assumes o: "open_dir s d dn ss e i ds" and c: "created_in s d ss e k i ds x g ns s' d'" and k: "k \<le> e" "84 * Suc e + 4 \<le> 43008"
    and g: "0 \<in> set (file_name g)" "c_str (file_name g) = name" "0 \<notin> set name"
    and new: "first_entry (fs_disk s) (fcb d) ss (name @ [0]) = None"
  shows "dir_on (fs_disk s') (fcb d') (ss @ ns)" "first_entry (fs_disk s') (fcb d') (ss @ ns) (name @ [0]) = Some k"
    "entry_at (fs_disk s') (ss @ ns) k = g"
proof -
  have s: "file_size (fcb d) = int (84 * e)" "dir_on (fs_disk s) (fcb d) ss" using o by (simp_all add: open_dir_def)
  have old: "0 \<in> set (file_name (entry_at (fs_disk s) ss j))" "c_str (file_name (entry_at (fs_disk s) ss j)) \<noteq> name" if "j < e" for j
    using s that new g(3) by (simp_all add: dir_on_def first_entry_None [OF s(1)] c_str_append)
  have s': "file_size (fcb d') = int (84 * Suc e)" "file_on (fs_disk s') (fcb d') (ss @ ns)"
    "\<And>j. j \<le> e \<Longrightarrow> entry_at (fs_disk s') (ss @ ns) j =
        (if j < k then entry_at (fs_disk s) ss j else if j = k then g else entry_at (fs_disk s) ss (j - 1))"
    using c by (simp_all add: created_in_def)
  show "entry_at (fs_disk s') (ss @ ns) k = g" using s'(3) k(1) by simp
  show "dir_on (fs_disk s') (fcb d') (ss @ ns)"
    by (rule dir_on_entries [OF s'(2,1) k(2)]) (use s'(3) old(1) g(1) k(1) in auto)
  show "first_entry (fs_disk s') (fcb d') (ss @ ns) (name @ [0]) = Some k"
    by (rule first_entry_Some [OF s'(1)]) (use s'(3) old(2) g k(1) in \<open>auto simp: c_str_append\<close>)
qed

section \<open>Storing an entry in a directory of the root\<close>

lemma open_one:
  assumes "disk_ok (fs_disk s)" "dir_on (fs_disk s) (root_fcb s) ds" "first_entry (fs_disk s) (root_fcb s) ds (dn @ [0]) = Some i"
    "names_ok [dn]" "length (parent_dir_name (path_state c)) = FILE_PATH_MAXLENGTH"
  shows "\<exists>f'. load_file_cached (path_of [dn] @ 0 # rest) c s = Inr (FILE_RESULT_SUCCESS, f') \<and> fcb f' = entry_at (fs_disk s) ds i"
proof -
  have "0 \<in> set (dn @ [0])" by simp
  then have d1: "dir_search_file (root_fcb s) (dn @ [0]) s = Inr (FILE_RESULT_SUCCESS, Some (entry_at (fs_disk s) ds i, int i))"
    using dir_search_ok [OF assms(1,2)] assms(3) by simp
  obtain f2 where f2: "follow ([] @ [dn]) (c\<lparr>fcb := root_fcb s\<rparr>) s = Inr (None, f2)" "fcb f2 = entry_at (fs_disk s) ds i"
    using d1 by simp
  have n: "names_ok ([] @ [dn])" using assms(4) by simp
  show ?thesis using load_named [OF n f2(1) _ assms(5), of rest] f2(2) by (simp add: opened_def)
qed

lemma open_missing:
  assumes "disk_ok (fs_disk s)" "dir_on (fs_disk s) (root_fcb s) ds" "first_entry (fs_disk s) (root_fcb s) ds (dn @ [0]) = Some i"
    "dir_on (fs_disk s) (entry_at (fs_disk s) ds i) ss" "first_entry (fs_disk s) (entry_at (fs_disk s) ds i) ss (name @ [0]) = None"
    "names_ok [dn, name]"
  shows "\<exists>f'. load_file_cached (path_of [dn, name] @ 0 # rest) c s = Inr (FILE_RESULT_NOT_EXISTING, f')"
proof -
  have z: "0 \<in> set (dn @ [0])" "0 \<in> set (name @ [0])" by simp_all
  have d1: "dir_search_file (root_fcb s) (dn @ [0]) s = Inr (FILE_RESULT_SUCCESS, Some (entry_at (fs_disk s) ds i, int i))"
    using dir_search_ok [OF assms(1,2) z(1)] assms(3) by simp
  have d2: "dir_search_file (entry_at (fs_disk s) ds i) (name @ [0]) s = Inr (FILE_RESULT_NOT_EXISTING, None)"
    using dir_search_ok [OF assms(1,4) z(2)] assms(5) by simp
  obtain f2 where "follow [dn, name] (c\<lparr>fcb := root_fcb s\<rparr>) s = Inr (Some FILE_RESULT_NOT_EXISTING, f2)"
    using d1 d2 by simp
  then show ?thesis using load_file_cached_path [OF assms(6) refl, of rest c s] by simp
qed

text \<open>An entry that is stored at index \<open>k\<close>, whatever file had that index before.\<close>

lemma store_in_dir:
  assumes o: "open_dir s d dn ss e i ds" and c: "created_in s d ss e k i ds x g ns s' d'" and k: "k \<le> e" "84 * Suc e < 2 ^ 31"
    and f: "has_parent (path_state f)" "index_in_parent_dir (path_state f) = int k" "wf_file (fcb f)"
      "parent_dir_name (path_state f) = path_of [dn] @ 0 # r" "names_ok [dn]"
      "length (parent_dir_name (path_state (fs_cached s 1))) = FILE_PATH_MAXLENGTH"
  shows "\<exists>s''. store_file_cached f s' = Inr s'' \<and> disk_ok (fs_disk s'') \<and> chain (fs_disk s'') (first_sector (fcb d')) (ss @ ns) \<and>
    (\<forall>j. entry_at (fs_disk s'') (ss @ ns) j = (if j = k then fcb f else entry_at (fs_disk s') (ss @ ns) j)) \<and>
    (\<forall>n. n \<notin> unat ` set (ss @ ns) \<longrightarrow> fs_disk s'' n = fs_disk s' n)"
proof -
  note R = created_root [OF o c]
  have C: "disk_ok (fs_disk s')" "fs_cached s' = fs_cached s" "file_on (fs_disk s') (fcb d') (ss @ ns)" "distinct (ss @ ns)"
    "file_size (fcb d') = int (84 * Suc e)"
    using c by (simp_all add: created_in_def)
  obtain dir where dir: "load_file_cached (parent_dir_name (path_state f)) (fs_cached s' 1) s' = Inr (FILE_RESULT_SUCCESS, dir)"
    "fcb dir = fcb d'"
    using open_one [OF C(1) R(1,2) f(5), of "fs_cached s' 1" r] f(4,6) R(3) C(2) by auto
  have ch: "chain (fs_disk s') (first_sector (fcb dir)) (ss @ ns)" using C(3) dir(2) by (simp add: file_on_def)
  have "(84 * k + 84) div 508 \<le> 84 * Suc e div 508" using k(1) by (intro div_le_mono) simp
  moreover have "84 * Suc e div 508 < length (ss @ ns)" using C(3) unfolding file_on_def C(5) nat_int by blast
  ultimately have r: "(84 * k + 84) div 508 < length (ss @ ns)" by linarith
  have "84 * k + 84 < 2 ^ 32" using k by simp
  from store_ok [OF dir(1) f(1-3) C(1) ch C(4) this r] obtain s'' where
    s'': "store_file_cached f s' = Inr s''" "overwritten (first_sector (fcb d')) (ss @ ns) (84 * k) (encode_file (fcb f)) s' s''"
    using dir(2) by auto
  have "84 * k + 84 < 508 * length (ss @ ns)" using r by (simp add: div_less_iff_less_mult mult.commute)
  then have "entry_at (fs_disk s'') (ss @ ns) j = (if j = k then fcb f else entry_at (fs_disk s') (ss @ ns) j)" for j
    using overwritten_entry [OF s''(2) f(3) C(1)] by simp
  then show ?thesis using s'' by (auto simp: overwritten_def)
qed

lemma lookup_after_store:
  assumes o: "open_dir s d dn ss e i ds" and C: "created_in s d ss e k i ds x g ns s' d'" and k: "k < e"
    and n: "names_ok [dn, name]" "first_entry (fs_disk s) (fcb d) ss (name @ [0]) = None" "84 * Suc e + 4 \<le> 43008"
    and s: "disk_ok (fs_disk s'')" "chain (fs_disk s'') (first_sector (fcb d')) (ss @ ns)"
      "\<And>j. entry_at (fs_disk s'') (ss @ ns) j = (if j = k then entry_at (fs_disk s) ss k else entry_at (fs_disk s') (ss @ ns) j)"
    and keep: "\<And>n. n \<notin> unat ` set (ss @ ns) \<Longrightarrow> fs_disk s'' n = fs_disk s' n"
  shows "\<exists>h'. load_file_cached (path_of [dn, name] @ 0 # rest) h s'' = Inr (FILE_RESULT_NOT_EXISTING, h')"
proof -
  have D: "file_size (fcb d) = int (84 * e)" "dir_on (fs_disk s) (fcb d) ss" using o by (simp_all add: open_dir_def)
  have nm: "0 \<notin> set name" using n(1) by (simp add: names_ok_def)
  have C': "file_on (fs_disk s') (fcb d') (ss @ ns)" "file_size (fcb d') = int (84 * Suc e)" "set (ss @ ns) \<inter> set (1024 # ds) = {}"
    "\<And>j. j \<le> e \<Longrightarrow> entry_at (fs_disk s') (ss @ ns) j = (if j < k then entry_at (fs_disk s) ss j
        else if j = k then g else entry_at (fs_disk s) ss (j - 1))"
    using C by (simp_all add: created_in_def)
  have root: "root_fcb s'' = root_fcb s'"
    using keep [of 1024] C'(3) sector_1024 [of "ss @ ns"] by (simp add: root_fcb_def read_block_eq)
  have ds: "chain (fs_disk s'') w ds = chain (fs_disk s') w ds" "entry_at (fs_disk s'') ds j = entry_at (fs_disk s') ds j" for w j
    by (rule same_sectors, use keep C'(3) in \<open>force simp: word_unat_eq_iff [symmetric]\<close>)+
  note R = created_root [OF o C]
  have ch: "chain (fs_disk s'') (first_sector (root_fcb s')) ds" using R(1) by (simp add: dir_on_def file_on_def ds)
  have R'': "dir_on (fs_disk s'') (root_fcb s'') ds" "first_entry (fs_disk s'') (root_fcb s'') ds (dn @ [0]) = Some i"
    "entry_at (fs_disk s'') ds i = fcb d'"
    using root_unchanged [OF R(1) ch] R(2,3) by (simp_all add: root ds)
  have old: "0 \<in> set (file_name (entry_at (fs_disk s) ss j))" "c_str (file_name (entry_at (fs_disk s) ss j)) \<noteq> name" if "j < e" for j
    using D that n(2) nm by (simp_all add: dir_on_def first_entry_None [OF D(1)] c_str_append)
  have new: "\<exists>m < e. entry_at (fs_disk s'') (ss @ ns) j = entry_at (fs_disk s) ss m" if "j < Suc e" for j
    unfolding s(3) using C'(4) [of j] that k
    by (intro exI [of _ "if j \<le> k then j else j - 1"]) auto
  have "file_on (fs_disk s'') (fcb d') (ss @ ns)" using C'(1) s(2) by (simp add: file_on_def)
  then have d: "dir_on (fs_disk s'') (fcb d') (ss @ ns)"
    by (rule dir_on_entries [OF _ C'(2) n(3)]) (use new old(1) in metis)
  have none: "first_entry (fs_disk s'') (fcb d') (ss @ ns) (name @ [0]) = None"
    unfolding first_entry_None [OF C'(2)] using new old(2) c_str_append [OF nm, of "[]"] by metis
  show ?thesis by (rule open_missing [OF s(1) R''(1,2) _ _ n(1), unfolded R''(3), OF d none])
qed

section \<open>A demonstration disk\<close>

text \<open>The root has the directory \<open>d\<close>, which has the file \<open>a\<close>.\<close>

definition demo_sub :: file_t where
  "demo_sub = \<lparr>file_name = [100] @ replicate 63 0, first_sector = 1026, last_sector = 1026,
     sector_count = 1, file_size = 84, file_type = FILE_TYPE_DIRECTORY\<rparr>"

definition demo_note :: file_t where
  "demo_note = \<lparr>file_name = [97] @ replicate 63 0, first_sector = 1027, last_sector = 1027,
     sector_count = 1, file_size = 10, file_type = FILE_TYPE_NORMAL\<rparr>"

definition sub_disk :: disk where
  "sub_disk = (\<lambda>i. set_next_sector NO_SECTOR
     (if i = 1024 then encode_file demo_root @ replicate 424 0
      else if i = 1025 then encode_file demo_sub @ replicate 424 0
      else if i = 1026 then encode_file demo_note @ replicate 424 0 else replicate 508 7))"

definition sub_dir :: file_cached_t where
  "sub_dir = three_block_file\<lparr>fcb := demo_sub\<rparr>"

lemma sub_wf: "wf_file demo_sub" "wf_file demo_note"
  by (simp_all add: wf_file_def demo_sub_def demo_note_def)

lemma sub_disk_ok: "disk_ok sub_disk" "root_fcb (demo_fs sub_disk) = demo_root" "entry_at sub_disk [1025] 0 = demo_sub"
  "entry_at sub_disk [1026] 0 = demo_note"
proof -
  note W = demo_wf(1) sub_wf
  show d: "disk_ok sub_disk" using W by (simp add: disk_ok_def sub_disk_def)
  show "root_fcb (demo_fs sub_disk) = demo_root"
    using W decode_encode [OF W(1), of "[]"]
    by (simp add: root_fcb_def read_block_eq) (simp add: sub_disk_def set_next_sector_def)
  show "entry_at sub_disk [1025] 0 = demo_sub" "entry_at sub_disk [1026] 0 = demo_note"
    using W decode_encode [OF W(2), of "[]"] decode_encode [OF W(3), of "[]"]
    by (simp_all add: entry_at_def file_bytes_def block_data_def slice_def) (simp_all add: sub_disk_def set_next_sector_def)
qed

lemma sub_dir_ok:
  "open_dir (demo_fs sub_disk) sub_dir [100] [1026] 1 0 [1025]"
  "cached_on (demo_fs sub_disk) sub_dir [1026] (84 * 1) (84 * 0) 0"
  "first_entry sub_disk demo_sub [1026] [98, 0] = None"
proof -
  have c: "file_on sub_disk demo_root [1025]" "file_on sub_disk demo_sub [1026]"
    by (simp_all add: file_on_def demo_root_def demo_sub_def)
  have e: "entries demo_root = 1" "entries demo_sub = 1" by (simp_all add: entries_def demo_root_def demo_sub_def)
  have dir: "dir_on sub_disk demo_root [1025]" "dir_on sub_disk demo_sub [1026]"
    using c e sub_disk_ok(3,4) by (simp_all add: dir_on_def) (simp_all add: demo_root_def demo_sub_def demo_note_def)
  show "first_entry sub_disk demo_sub [1026] [98, 0] = None"
    using e sub_disk_ok(4) by (simp add: first_entry_def) (simp add: demo_note_def c_str_def)
  have "first_entry sub_disk demo_root [1025] [100, 0] = Some 0"
    using e sub_disk_ok(3) by (simp add: first_entry_def) (simp add: demo_sub_def c_str_def)
  moreover have "in_root (demo_fs sub_disk) sub_dir 0 [1025]"
    using c(1) by (simp add: in_root_def sub_dir_def three_block_file_def sub_disk_ok(2) file_on_def)
  ultimately show "open_dir (demo_fs sub_disk) sub_dir [100] [1026] 1 0 [1025]"
    using dir sub_disk_ok(2,3) demo_bitmap(1) [of sub_disk]
    by (simp add: open_dir_def sub_dir_def) (simp add: demo_sub_def)
  show "cached_on (demo_fs sub_disk) sub_dir [1026] (84 * 1) (84 * 0) 0"
    using sub_disk_ok(1) c(2) sub_wf(1) by (simp add: cached_on_def sub_dir_def three_block_file_def) (simp add: demo_sub_def)
qed

section \<open>Properties\<close>



text \<open>
  Claim C36: the new entry is put in at the write pointer of the directory, which is its
  beginning after opening, and the entries behind it move up by one; the index that a cached file keeps
  of its own entry does not. When a file that was opened before is stored afterwards, its entry
  replaces the new one: the file just created does not exist any more.
\<close>
theorem stale_index_loses_new_file:
  assumes o: "open_dir s d dn ss e i ds" and c: "cached_on s d ss (84 * e) (84 * k) q" "k < e" "insertable (84 * e) (84 * k) q 84"
    and n: "names_ok [dn, name]" "first_entry (fs_disk s) (fcb d) ss (name @ [0]) = None" "84 * Suc e + 4 \<le> 43008"
    and free: "Suc ((84 * e + 84) div 508) - length ss < card (free_sectors (file_alloc_bitmap s))"
    and f: "fcb f = entry_at (fs_disk s) ss k" "has_parent (path_state f)" "index_in_parent_dir (path_state f) = int k"
      "parent_dir_name (path_state f) = path_of [dn] @ 0 # r"
      "length (parent_dir_name (path_state (fs_cached s 1))) = FILE_PATH_MAXLENGTH"
  shows "\<exists>d' s' s'' h'. sys_create d (name @ [0]) ftype s = Inr (d', s') \<and> store_file_cached f s' = Inr s'' \<and>
    load_file_cached (path_of [dn, name] @ 0 # rest) h s'' = Inr (FILE_RESULT_NOT_EXISTING, h')"
proof -
  have D: "last_sector (fcb d) = last ss" "in_root s d i ds" "set ds \<inter> set ss = {}" "1024 \<notin> set (ss @ ds)"
    "sectors_used (1024 # ss @ ds) (file_alloc_bitmap s)" "file_size (fcb d) = int (84 * e)" "dir_on (fs_disk s) (fcb d) ss"
    using o by (simp_all add: open_dir_def)
  have nm: "names_ok [name]" "0 \<notin> set name" "names_ok [dn]" using n(1) by (simp_all add: names_ok_def)
  from sys_create_ok [OF c(1) less_imp_le [OF c(2)] D(1-5) c(3) nm(1) free] obtain x ns fname d' s' where
    e: "sys_create d (name @ [0]) ftype s = Inr (d', s')" and C: "created_in s d ss e k i ds x (new_file fname x ftype) ns s' d'" by blast
  have wf: "wf_file (fcb f)"
    unfolding f(1) by (rule wf_entry) (use c(1,2) D(6) in \<open>simp_all add: cached_on_def\<close>)
  from store_in_dir [OF o C _ _ f(2,3) wf f(4) nm(3) f(5)] c(2) n(3) obtain s'' where
    s'': "store_file_cached f s' = Inr s''" "disk_ok (fs_disk s'')" "chain (fs_disk s'') (first_sector (fcb d')) (ss @ ns)"
      "\<And>j. entry_at (fs_disk s'') (ss @ ns) j = (if j = k then fcb f else entry_at (fs_disk s') (ss @ ns) j)"
    and keep: "\<And>n. n \<notin> unat ` set (ss @ ns) \<Longrightarrow> fs_disk s'' n = fs_disk s' n" by auto
  from lookup_after_store [OF o C c(2) n(1,2,3) s''(2,3) _ keep, of rest h] s''(4) f(1) e s''(1) show ?thesis by auto
qed

theorem stale_index_loses_new_file_witness:
  "\<exists>d' s' s'' h'. sys_create sub_dir [98, 0] FILE_TYPE_NORMAL (demo_fs sub_disk) = Inr (d', s') \<and>
     store_file_cached (three_block_file\<lparr>fcb := demo_note, path_state := \<lparr>parent_dir_name = [100, 47, 0] @ replicate 509 0,
       index_in_parent_dir = 0, has_parent = True\<rparr>\<rparr>) s' = Inr s'' \<and>
     load_file_cached [100, 47, 98, 47, 0] three_block_file s'' = Inr (FILE_RESULT_NOT_EXISTING, h')"
  using stale_index_loses_new_file [OF sub_dir_ok(1,2) _ _ _ _ _ _ _ _ _ _ _, of "[98]"
      "three_block_file\<lparr>fcb := demo_note, path_state := \<lparr>parent_dir_name = [100, 47, 0] @ replicate 509 0,
       index_in_parent_dir = 0, has_parent = True\<rparr>\<rparr>" "replicate 509 0" FILE_TYPE_NORMAL "[]" three_block_file]
    sub_dir_ok(3) sub_disk_ok(4) demo_bitmap(2) [of sub_disk]
  by (auto simp: insertable_def names_ok_def sub_dir_def three_block_file_def demo_fs_def)

end
