(* ===== verification/File_Types.thy ===== *)
theory File_Types
  imports File_Create
begin

text \<open>
  The types of kernel/fs/fs.c as an invariant: blocks have 512 bytes, names 64, paths 512. Every
  call keeps them, with any arguments and on any disk, well-formed as a file system or not: what a
  wrong link or an overlong write destroys are contents, never the shape of the data.
\<close>

section \<open>Buffers keep their length\<close>

lemma length_copy_loop: "copy_loop dest src i n = Inr d \<Longrightarrow> length d = length dest"
proof (induction dest src i n rule: copy_loop.induct)
  case (1 dest src i n)
  then show ?case by (subst (asm) copy_loop.simps) (auto split: if_splits)
qed

lemma length_memcpy: "memcpy dest src n = Inr d \<Longrightarrow> length d = length dest"
  by (simp add: memcpy_def length_copy_loop)

lemma length_memcpy_at: "memcpy_at dest i src j n = Inr d \<Longrightarrow> length d = length dest"
  by (auto simp: memcpy_at_def rbind_eq_Inr dest!: length_memcpy)

lemma length_strcpy: "strcpy dest src = Inr d \<Longrightarrow> length d = length dest"
  by (auto simp: strcpy_def rbind_eq_Inr dest!: length_copy_loop)

lemma length_buf_write: "buf_write buf off xs = Inr b \<Longrightarrow> length b = length buf"
  by (auto simp: buf_write_def length_overwrite split: if_splits)

lemmas same_length = length_memcpy length_memcpy_at length_strcpy length_buf_write

lemma length_read_whole: "read_whole n f buf off s = Inr (f', b, o') \<Longrightarrow> length b = length buf \<and> fcb f' = fcb f \<and> path_state f' = path_state f"
  by (induction n arbitrary: f buf off) (fastforce simp: rbind_eq_Inr dest: same_length)+

lemma sys_read_shape:
  "sys_read f buf off len s = Inr (r, f', b) \<Longrightarrow> length b = length buf \<and> fcb f' = fcb f \<and> path_state f' = path_state f"
  by (auto simp: sys_read_def Let_def rbind_eq_Inr split: if_splits dest!: same_length length_read_whole)

section \<open>The invariant\<close>

definition typed_cached :: "file_cached_t \<Rightarrow> bool" where
  "typed_cached f \<longleftrightarrow> length (file_name (fcb f)) = FILE_NAME_MAXLENGTH \<and>
     length (parent_dir_name (path_state f)) = FILE_PATH_MAXLENGTH"

definition typed_fs :: "fs_state \<Rightarrow> bool" where
  "typed_fs s \<longleftrightarrow> disk_ok (fs_disk s) \<and> (\<forall>v. typed_cached (fs_cached s v))"

lemma typed_cached_cong: "file_name (fcb f') = file_name (fcb f) \<Longrightarrow> path_state f' = path_state f \<Longrightarrow> typed_cached f' = typed_cached f"
  by (simp add: typed_cached_def)

lemma write_block_typed: "write_block w bs s = Inr s' \<Longrightarrow> typed_fs s \<Longrightarrow> typed_fs s'"
  by (auto simp: write_block_def typed_fs_def disk_ok_def disk_write_one split: if_splits)

lemma write_whole_typed:
  "write_whole n f buf off s = Inr (f', o', s') \<Longrightarrow> typed_fs s \<Longrightarrow>
   typed_fs s' \<and> fcb f' = fcb f \<and> path_state f' = path_state f"
  by (induction n arbitrary: f off s) (fastforce simp: rbind_eq_Inr dest: write_block_typed)+

lemma covering_write_typed:
  "covering_write f buf len s = Inr (f', s') \<Longrightarrow> typed_fs s \<Longrightarrow> typed_fs s' \<and> fcb f' = fcb f \<and> path_state f' = path_state f"
  by (fastforce simp: covering_write_def Let_def rbind_eq_Inr split: if_splits dest: write_block_typed write_whole_typed)

section \<open>Directories and paths\<close>

lemma search_from_in_buffer: "search_from i n files name = Inr (Some j) \<Longrightarrow> 84 * j < length files"
proof (induction i n files name rule: search_from.induct)
  case (1 i n files name)
  show ?case
  proof (cases "i < n")
    case True
    with 1(2) obtain c where c: "strcmp (drop (84 * i) files) name = Inr c"
      "(if c = 0 then Inr (Some i) else search_from (i + 1) n files name) = Inr (Some j)"
      by (subst (asm) search_from.simps) (auto simp: rbind_eq_Inr)
    then have "0 \<in> set (drop (84 * i) files)"
      by (auto simp: strcmp_def rbind_eq_Inr strlen_eq split: if_splits)
    then have "84 * i < length files" by (cases "84 * i < length files") auto
    then show ?thesis using c(2) 1(1) [OF True] c(1) by (auto split: if_splits)
  next
    case False
    then show ?thesis using 1(2) by (subst (asm) search_from.simps) simp
  qed
qed

lemma dir_search_typed:
  assumes "dir_search_file d name s = Inr (r, Some (t, i))"
  shows "length (file_name t) = FILE_NAME_MAXLENGTH"
proof -
  obtain files j where f: "read_all d (uninit 1 (512 * 84) s) s = Inr files"
    "search_from 0 (nat (uint32 (file_size d) div 84)) files name = Inr (Some j)"
    and t: "t = decode_file (slice (84 * j) 84 files)"
    using assms by (auto simp: dir_search_file_def rbind_eq_Inr split: option.splits)
  have "length files = 512 * 84"
    using f(1) by (auto simp: read_all_def Let_def rbind_eq_Inr uninit_def dest!: sys_read_shape)
  moreover from this have "84 * j < 84 * 512" using search_from_in_buffer [OF f(2)] by simp
  ultimately have "length (slice (84 * j) 84 files) = 84" by (intro length_slice) simp
  then show ?thesis by (simp add: t decode_file_def)
qed

lemma load_from_typed:
  "load_from path len i temp j f s = Inr (r, f') \<Longrightarrow> typed_cached f \<Longrightarrow> typed_cached f'"
proof (induction path len i temp j f s rule: load_from.induct)
  case (1 path len i temp j f s)
  show ?case
  proof (cases "i < len")
    case False
    then show ?thesis using 1(3,4) by (subst (asm) load_from.simps) simp
  next
    case len: True
    show ?thesis
    proof (cases "path ! i = 47")
      case False
      with 1(3) len obtain temp1 where "buf_write temp j [path ! i] = Inr temp1" "load_from path len (i + 1) temp1 (j + 1) f s = Inr (r, f')"
        by (subst (asm) load_from.simps) (auto simp: rbind_eq_Inr)
      then show ?thesis using 1(2) [OF len False] 1(4) by blast
    next
      case True
      note R = 1(3) [unfolded load_from.simps [of path len i temp j f s]]
      obtain temp1 where t1: "buf_write temp j [0] = Inr temp1" using R len True by (cases "buf_write temp j [0]") auto
      obtain q found where t2: "dir_search_file (fcb f) temp1 s = Inr (q, found)"
        using R len True t1 by (cases "dir_search_file (fcb f) temp1 s") auto
      show ?thesis
      proof (cases found)
        case None
        then show ?thesis using R len True t1 t2 1(4) by (auto split: if_splits)
      next
        case (Some ti)
        obtain target index where ti: "ti = (target, index)" by fastforce
        let ?f = "f\<lparr>fcb := target, path_state := (path_state f)\<lparr>index_in_parent_dir := index\<rparr>\<rparr>"
        have "typed_cached ?f" using dir_search_typed [of "fcb f" temp1 s q target index] t2 Some ti 1(4) by (simp add: typed_cached_def)
        moreover have "load_from path len (i + 1) temp1 0 ?f s = Inr (r, f')" using R len True t1 t2 Some ti by simp
        ultimately show ?thesis using 1(1) [OF len True t1 t2 refl Some ti [symmetric]] by blast
      qed
    qed
  qed
qed

lemma load_file_cached_typed:
  assumes "load_file_cached path f s = Inr (r, f')" "typed_cached f" "typed_fs s"
  shows "typed_cached f'"
proof -
  let ?f1 = "f\<lparr>fcb := decode_file (take 84 (read_block s SECTOR_WITH_ROOT_FCB))\<rparr>"
  have "typed_cached ?f1" using assms(2,3) by (simp add: typed_cached_def typed_fs_def decode_file_def read_block_eq)
  moreover obtain len q f2 where "load_from path len 0 (uninit 2 64 s) 0 ?f1 s = Inr (q, f2)"
    and f': "file_name (fcb f') = file_name (fcb f2)" "length (parent_dir_name (path_state f')) = length (parent_dir_name (path_state f2))"
    using assms(1) by (fastforce simp: load_file_cached_def Let_def rbind_eq_Inr split: option.splits if_splits dest: length_strcpy)
  ultimately have "typed_cached f2" by (blast dest: load_from_typed)
  then show ?thesis using f' by (simp add: typed_cached_def)
qed

lemma store_file_cached_typed: "store_file_cached f s = Inr s' \<Longrightarrow> typed_fs s \<Longrightarrow> typed_fs s'"
  by (auto simp: store_file_cached_def Let_def rbind_eq_Inr split: if_splits prod.splits
      dest: write_block_typed covering_write_typed)

section \<open>Growing, writing, creating\<close>

lemma file_alloc_typed: "file_alloc s = (s', w) \<Longrightarrow> typed_fs s \<Longrightarrow> typed_fs s'"
  by (auto simp: file_alloc_def typed_fs_def split: prod.splits)

lemma expand_loop_typed:
  "expand_loop n f s = Inr (f', s') \<Longrightarrow> typed_fs s \<Longrightarrow>
   typed_fs s' \<and> file_name (fcb f') = file_name (fcb f) \<and> path_state f' = path_state f"
proof (induction n arbitrary: f s)
  case (Suc n)
  from Suc.prems(1) obtain s0 w s1 s2 where "file_alloc s = (s0, w)" "write_block (last_sector (fcb f)) (set_next_sector w (read_block s0 (last_sector (fcb f)))) s0 = Inr s1"
    "write_block w (set_next_sector NO_SECTOR (read_block s1 w)) s1 = Inr s2"
    "expand_loop n (f\<lparr>fcb := (fcb f)\<lparr>last_sector := w\<rparr>\<rparr>) s2 = Inr (f', s')"
    by (auto simp: Let_def rbind_eq_Inr split: prod.splits)
  with Suc.prems(2) show ?case by (fastforce dest: Suc.IH file_alloc_typed write_block_typed)
qed simp

lemma file_expand_typed:
  "file_expand f need s = Inr (f', s') \<Longrightarrow> typed_fs s \<Longrightarrow>
   typed_fs s' \<and> file_name (fcb f') = file_name (fcb f) \<and> path_state f' = path_state f"
  by (auto simp: file_expand_def Let_def rbind_eq_Inr dest: expand_loop_typed store_file_cached_typed)

lemma dump_typed: "dump label t s = Inr s' \<Longrightarrow> typed_fs s \<Longrightarrow> typed_fs s'"
  by (auto simp: dump_def rbind_eq_Inr typed_fs_def)

lemma read_remains_shape: "read_remains f buf s = Inr (f', b) \<Longrightarrow> fcb f' = fcb f \<and> path_state f' = path_state f"
  by (auto simp: read_remains_def Let_def rbind_eq_Inr dest: sys_read_shape)

lemma sys_write_typed:
  assumes "sys_write f buf len s = Inr (f', s')" "typed_fs s"
  shows "typed_fs s' \<and> file_name (fcb f') = file_name (fcb f) \<and> path_state f' = path_state f"
proof -
  let ?x = "uint32 (NTH_BLOCK (file_size (fcb f) + len) + 1)" and ?c = "int (unat (sector_count (fcb f)))"
  obtain f1 s1 where g: "(if ?x > ?c then
           let need = sint (of_int (?x - ?c) :: u32) in
           if need \<le> 0 then Inl Hang else file_expand f need s
         else Inr (f, s)) = Inr (f1, s1)"
    and R: "rbind (read_remains (snd (sys_rseek f1 (write_seek (io_state f1)) s1)) (uninit 5 4096 s1) s1) (\<lambda>(f3, temp1).
     rbind (dump 65 temp1 s1) (\<lambda>s2.
     rbind (shift_up (nat (file_size (fcb f1) - write_seek (io_state f1))) len temp1) (\<lambda>temp2.
     rbind (dump 66 temp2 s2) (\<lambda>s3.
     rbind (memcpy temp2 buf (nat (uint32 len))) (\<lambda>temp3.
     rbind (dump 67 temp3 s3) (\<lambda>s4.
     rbind (covering_write f3 temp3 (file_size (fcb f1) - write_seek (io_state f1) + len) s4) (\<lambda>(f4, s5).
       let f6 = snd (sys_rseek (snd (sys_wseek f4 (write_seek (io_state f1) + len) s5)) (read_seek (io_state f1)) s5);
           f7 = f6\<lparr>fcb := (fcb f6)\<lparr>file_size := file_size (fcb f6) + len\<rparr>\<rparr>
       in rbind (store_file_cached f7 s5) (\<lambda>s6. Inr (f7, s6))))))))) = Inr (f', s')"
    using assms(1) by (simp only: sys_write_def Let_def rbind_eq_Inr case_prod_unfold) (auto simp: rbind_eq_Inr)
  have 1: "typed_fs s1" "file_name (fcb f1) = file_name (fcb f)" "path_state f1 = path_state f"
    using g assms(2) by (auto simp: Let_def split: if_splits dest: file_expand_typed)
  have keep: "fcb (snd (sys_rseek g k t)) = fcb g" "path_state (snd (sys_rseek g k t)) = path_state g"
    "fcb (snd (sys_wseek g k t)) = fcb g" "path_state (snd (sys_wseek g k t)) = path_state g" for g k t
    by (simp_all add: sys_rseek_def sys_wseek_def)
  show ?thesis
    using R 1 by (auto simp: rbind_eq_Inr Let_def case_prod_unfold keep
        dest!: read_remains_shape dump_typed covering_write_typed store_file_cached_typed)
qed

lemma encode_set_next_typed: "length bs = 512 \<Longrightarrow> length (set_next_sector w bs) = 512"
  by (simp add: set_next_sector_def)

lemma sys_create_typed:
  "sys_create d name t s = Inr (d', s') \<Longrightarrow> typed_fs s \<Longrightarrow>
   typed_fs s' \<and> file_name (fcb d') = file_name (fcb d) \<and> path_state d' = path_state d"
  by (cases "file_alloc s") (auto simp: sys_create_def Let_def rbind_eq_Inr
      dest!: file_alloc_typed write_block_typed sys_write_typed)

section \<open>The calls\<close>

text \<open>
  What a user of the file system may do with one cached file: the calls of
  include/comm/fs.h with their arguments. A directory is a cached file like any other.
\<close>

datatype fs_call =
  Open_File "u8 list" | Read_File "u8 list" nat int | Write_File "u8 list" int | Create_File "u8 list" u32
  | Seek_Read int | Seek_Write int | Store_File

fun fs_do :: "fs_call \<Rightarrow> file_cached_t \<times> fs_state \<Rightarrow> (file_cached_t \<times> fs_state) res" where
  "fs_do (Open_File path) (f, s) = rbind (load_file_cached path f s) (\<lambda>(r, f'). Inr (f', s))"
| "fs_do (Read_File buf off n) (f, s) = rbind (sys_read f buf off n s) (\<lambda>(r, f', b). Inr (f', s))"
| "fs_do (Write_File buf n) (f, s) = sys_write f buf n s"
| "fs_do (Create_File name t) (f, s) = sys_create f name t s"
| "fs_do (Seek_Read k) (f, s) = Inr (snd (sys_rseek f k s), s)"
| "fs_do (Seek_Write k) (f, s) = Inr (snd (sys_wseek f k s), s)"
| "fs_do Store_File (f, s) = rbind (store_file_cached f s) (\<lambda>s'. Inr (f, s'))"

fun typed_state :: "file_cached_t \<times> fs_state \<Rightarrow> bool" where
  "typed_state (f, s) \<longleftrightarrow> typed_cached f \<and> typed_fs s"

lemma fs_do_typed: "fs_do a c = Inr c' \<Longrightarrow> typed_state c \<Longrightarrow> typed_state c'"
proof (induction a c rule: fs_do.induct)
  case (1 path f s)
  then show ?case by (auto simp: rbind_eq_Inr dest: load_file_cached_typed)
next
  case (2 buf off n f s)
  then show ?case by (auto simp: rbind_eq_Inr typed_cached_def dest!: sys_read_shape)
next
  case (3 buf n f s)
  then show ?case by (cases c') (auto simp: typed_cached_def dest!: sys_write_typed)
next
  case (4 name t f s)
  then show ?case by (cases c') (auto simp: typed_cached_def dest!: sys_create_typed)
next
  case (7 f s)
  then show ?case by (auto simp: rbind_eq_Inr dest: store_file_cached_typed)
qed (auto simp: sys_rseek_def sys_wseek_def typed_cached_def)

end
