(* ===== verification/Machine.thy ===== *)
theory Machine
  imports Boot Frames File_Types
begin

text \<open>
  The running machine: everything that happens after \<open>main\<close> of kernel/init/main.c has reached its
  endless loop. The processor delivers the timer and the keyboard interrupt and the page fault to
  the handlers of kernel/time/time.c, kernel/dev/keyboard.c and kernel/mm/v_memory.c, through interrupt
  gates; the running process calls the kernel (kernel/proc/sched.c, kernel/proc/semaphore.c,
  kernel/mm/execve.c, kernel/fs/fs.c), with interrupts off. Each
  input is one call of the modelled C function on the part of the state it works on; theory \<open>System\<close>
  is the abstract machine that this one refines.
\<close>

section \<open>State and inputs\<close>

text \<open>
  The machine of theory \<open>Boot\<close> with the semaphore, the static counter of \<open>swap_alloc\<close>, and the
  processes that have executed \<open>cli\<close>. A file call has the cached file of the caller as its argument;
  \<open>Use_Stack\<close> is any use of the stack between two calls: afterwards the uninitialised local variables hold
  something else.
\<close>

record world =
  hw :: machine
  sem :: semaphore_t
  swap :: u32
  masked :: "u16 set"

datatype input =
    Timer | Key port_env | Call event | Exec "u8 list" | Fault_At u32 u32
  | File_Call fs_call file_cached_t | Use_Stack "nat \<Rightarrow> nat \<Rightarrow> u8" "nat \<Rightarrow> file_cached_t"

definition system_of :: "world \<Rightarrow> system" where
  "system_of w = \<lparr>sys_kernel = m_kernel (hw w), sys_sem = sem w, sys_masked = masked w\<rparr>"

text \<open>The file system prints on the screen of the machine.\<close>

definition files_of :: "world \<Rightarrow> fs_state" where
  "files_of w = (m_fs (hw w))\<lparr>fs_console := screen (m_tty (hw w))\<rparr>"

definition exec_of :: "world \<Rightarrow> exec_state" where
  "exec_of w = \<lparr>ex_fs = m_fs (hw w), ex_kernel = m_kernel (hw w), ex_swap = swap w\<rparr>"

text \<open>The directory of a process; the processor loads it from the TSS when it switches to the process.\<close>

definition dir :: "kernel \<Rightarrow> u16 \<Rightarrow> u32" where
  "dir k p = tss_cr3 (tss (tasks (tm k) (unat p)))"

definition fault_state :: "world \<Rightarrow> vm_state" where
  "fault_state w = (let k = m_kernel (hw w) in
     vm_of (exec_of w)\<lparr>vm_mm := (mem k)\<lparr>cr3 := dir k (pid_running (tm k))\<rparr>\<rparr>)"

fun respond :: "input \<Rightarrow> world \<Rightarrow> world res" where
  "respond Timer w = rbind (on_timer (hw w)) (\<lambda>m. Inr (w\<lparr>hw := m\<rparr>))"
| "respond (Key env) w = Inr (w\<lparr>hw := (hw w)\<lparr>m_tty := on_keyboard env (m_tty (hw w))\<rparr>\<rparr>)"
| "respond (Call e) w = rbind (perform e (system_of w)) (\<lambda>s.
     Inr (w\<lparr>hw := (hw w)\<lparr>m_kernel := sys_kernel s\<rparr>, sem := sys_sem s, masked := sys_masked s\<rparr>))"
| "respond (Exec path) w = rbind (sys_execve path (exec_of w)) (\<lambda>s.
     Inr (w\<lparr>hw := (hw w)\<lparr>m_fs := ex_fs s, m_kernel := ex_kernel s\<rparr>, swap := ex_swap s\<rparr>))"
| "respond (Fault_At v e) w = rbind (on_page_fault v e (fault_state w)) (\<lambda>s.
     Inr (w\<lparr>hw := (hw w)\<lparr>m_kernel := (m_kernel (hw w))\<lparr>mem := vm_mm s\<rparr>\<rparr>\<rparr>))"
| "respond (File_Call a f) w = rbind (fs_do a (f, files_of w)) (\<lambda>(_, s).
     Inr (w\<lparr>hw := (hw w)\<lparr>m_fs := s, m_tty := (m_tty (hw w))\<lparr>screen := fs_console s\<rparr>\<rparr>\<rparr>))"
| "respond (Use_Stack g c) w = Inr (w\<lparr>hw := (hw w)\<lparr>m_fs := (m_fs (hw w))\<lparr>fs_stack := g, fs_cached := c\<rparr>\<rparr>\<rparr>)"

text \<open>
  When an input can happen. Interrupts need the flag of the running code, calls of the kernel
  need it clear (\<open>enabled\<close> says what else). Creating a process takes a free page, loading a program five,
  and a free GDT entry; the pages are among the lower 256 MiB, the only ones that are mapped. A program has to fit into the
  page that \<open>sys_execve\<close> reads it to, less the four bytes of its last block. The page of a fault
  has a table, whose absent entry holds a swap sector, and the fault is at the start of the page. A file
  call is one that returns: it neither leaves a buffer nor runs in circles (theories \<open>File_Read\<close> to
  \<open>File_Create\<close> say when).
\<close>

definition loadable :: "u8 list \<Rightarrow> world \<Rightarrow> file_cached_t \<Rightarrow> u32 list \<Rightarrow> bool" where
  "loadable path w f ss \<longleftrightarrow>
     load_file_cached path (fs_cached (m_fs (hw w)) 2) (m_fs (hw w)) = Inr (FILE_RESULT_SUCCESS, f) \<and>
     file_on (fs_disk (m_fs (hw w))) (fcb f) ss \<and> file_size (fcb f) \<le> 4092 \<and>
     get_pid_empty (m_kernel (hw w)) \<noteq> NOT_FOUND \<and> 5 \<le> card (low_pages (mem (m_kernel (hw w)))) \<and> unat (swap w) < 2 ^ 29"

definition swapped_out :: "u32 \<Rightarrow> u32 \<Rightarrow> world \<Rightarrow> bool" where
  "swapped_out v sector w \<longleftrightarrow> (let k = m_kernel (hw w); pd = dir k (pid_running (tm k)) in
     aligned v \<and> ITSELF_END \<le> v \<and> present (entry (ram (mem k)) pd (pdi v)) \<and>
     pte (ram (mem k)) pd v = SWAP_SECTOR_SET sector \<and> unat sector < 2 ^ 29)"

fun possible :: "input \<Rightarrow> world \<Rightarrow> bool" where
  "possible Timer w \<longleftrightarrow> m_interrupts (hw w) \<and> interrupts_on (system_of w)"
| "possible (Key env) w \<longleftrightarrow> m_interrupts (hw w) \<and> interrupts_on (system_of w)"
| "possible (Call e) w \<longleftrightarrow> e \<noteq> Tick \<and> enabled e (system_of w) \<and>
     (is_create e \<longrightarrow> 0 < card (low_pages (mem (m_kernel (hw w)))))"
| "possible (Exec path) w \<longleftrightarrow> \<not> interrupts_on (system_of w) \<and> ((\<exists>f ss. loadable path w f ss) \<or>
     (\<exists>r f. load_file_cached path (fs_cached (m_fs (hw w)) 2) (m_fs (hw w)) = Inr (r, f) \<and> r \<noteq> FILE_RESULT_SUCCESS))"
| "possible (Fault_At v e) w \<longleftrightarrow> pid_running (tm (m_kernel (hw w))) \<noteq> NOT_FOUND \<and>
     (\<exists>sector. swapped_out v sector w) \<and> 0 < card (low_pages (mem (m_kernel (hw w))))"
| "possible (File_Call a f) w \<longleftrightarrow> \<not> interrupts_on (system_of w) \<and> typed_cached f \<and> (\<exists>c. fs_do a (f, files_of w) = Inr c)"
| "possible (Use_Stack g c) w \<longleftrightarrow> (\<forall>v. typed_cached (c v))"

text \<open>
  Memory before \<open>main\<close>: no word above the kernel looks like a present page table entry. New page
  tables are not cleared, so the code relies on it.
\<close>

definition clean_memory :: "mm_state \<Rightarrow> bool" where
  "clean_memory m \<longleftrightarrow> (\<forall>a j. aligned a \<longrightarrow> 0x800000 \<le> unat a \<longrightarrow> j < 1024 \<longrightarrow> \<not> present (entry (ram m) a j))"

inductive started :: "world \<Rightarrow> bool" where
  start: "boot_kernel_ok (m_kernel s) \<Longrightarrow> boot_memory_ok (m_kernel s) \<Longrightarrow> clean_memory (mem (m_kernel s)) \<Longrightarrow>
    typed_fs (m_fs s) \<Longrightarrow> main l env s = Inr m \<Longrightarrow> 0 \<le> sint n \<Longrightarrow>
    started \<lparr>hw = m, sem = semaphore_init n q, swap = DISK_SWAP_START_SECTOR, masked = {}\<rparr>"
| respond: "started w \<Longrightarrow> possible i w \<Longrightarrow> respond i w = Inr w' \<Longrightarrow> started w'"

section \<open>The invariant\<close>

definition world_inv :: "world \<Rightarrow> bool" where
  "world_inv w \<longleftrightarrow> sys_inv (system_of w) \<and> typed_fs (m_fs (hw w)) \<and> m_interrupts (hw w) \<and>
     (let k = m_kernel (hw w) in spaces_ok (kernel_pd k) (set (active k)) (dir k) (mem k) \<and> flat_ok (kernel_pd k) (mem k))"

lemma active_bounds: "sys_inv s \<Longrightarrow> p \<in> set (active (sys_kernel s)) \<Longrightarrow> 5 \<le> unat p \<and> unat p < 8192"
  by (auto simp: sys_inv_def dest: sched_invD(4))

lemma call_active:
  assumes "sys_inv s" "sys_inv s'" "perform e s = Inr s'" "\<not> is_create e"
  shows "set (active (sys_kernel s')) \<subseteq> set (active (sys_kernel s))"
proof
  fix p assume "p \<in> set (active (sys_kernel s'))"
  then have p: "5 \<le> unat p" "unat p < 8192" "\<not> empty_desc (gdt (sys_kernel s') (unat p))"
    using active_bounds [OF assms(2)] assms(2) by (auto simp: sys_inv_def gdt_exact_def)
  have "\<not> empty_desc (gdt (sys_kernel s) (unat p))" by (rule perform_kept(4) [OF assms(3,4) p(3)])
  moreover have "gdt_exact (sys_kernel s)" using assms(1) by (simp add: sys_inv_def)
  ultimately show "p \<in> set (active (sys_kernel s))" using p(1,2) unfolding gdt_exact_def by blast
qed

lemma call_spaces:
  assumes "sys_inv s" "sys_inv s'" "perform e s = Inr s'" "\<not> is_create e"
    "spaces_ok (kernel_pd (sys_kernel s)) (set (active (sys_kernel s))) (dir (sys_kernel s)) (mem (sys_kernel s))"
  shows "spaces_ok (kernel_pd (sys_kernel s')) (set (active (sys_kernel s'))) (dir (sys_kernel s')) (mem (sys_kernel s'))"
  using spaces_fewer [OF assms(5) call_active [OF assms(1-4)], of "dir (sys_kernel s')"] perform_kept(1-3) [OF assms(3,4)]
  by (simp add: dir_def)

text \<open>The directory of a created process, and the others.\<close>

lemma process_dir:
  assumes "created flag eip esp d p k k'"
  shows "dir k' p = snd (p_malloc (mem k))" "q \<noteq> p \<Longrightarrow> dir k' q = dir k q" "kernel_pd k' = kernel_pd k"
    "mem k' = copy_pts (kernel_pd k) (dir k' p) (fst (p_malloc (mem k)))" "set (active k') = insert p (set (active k))"
  using assms by (auto simp: created_def dir_def new_tss_def init_segments_def active_def)

lemma created_spaces:
  assumes "spaces_ok (kernel_pd k) P (dir k) (mem k)" "created flag eip esp d p k k'" "p \<notin> P" "0 < card (low_pages (mem k))"
  shows "grows {dir k' p} (mem k) (mem k')" "spaces_ok (kernel_pd k') (insert p P) (dir k') (mem k')"
    "flat_ok (kernel_pd k) (mem k) \<Longrightarrow> flat_ok (kernel_pd k') (mem k')"
proof -
  have room: "0 < card (free_pages (mem k))" using assms(4) low_pages_le [of "mem k"] by linarith
  note D = process_dir [OF assms(2)]
  have S: "pd_ok (mem k) (kernel_pd k)" "\<forall>i < 1024. present (entry (ram (mem k)) (kernel_pd k) i) \<longleftrightarrow> i < 64"
    using assms(1) by (simp_all add: spaces_ok_def clean_pd_def)
  have pg: "pages_ok (mem k)" using S(1) by (simp add: pd_ok_def)
  have M: "p_malloc (mem k) = (fst (p_malloc (mem k)), dir k' p)" by (simp add: D(1))
  have "dir k' p \<noteq> -1" using p_malloc_free(1) [OF pg room] by (simp add: D(1))
  note C = grows_copy [OF S(1) M this, folded D(4)]
  show "grows {dir k' p} (mem k) (mem k')" by (rule C(1))
  show "flat_ok (kernel_pd k') (mem k')" if "flat_ok (kernel_pd k) (mem k)"
    using flat_grows [OF that S(1) C(1)] assms(4) by (simp add: D(3))
  have o: "own_tables (mem k') (dir k' p) = {dir k' p}" "own_data (mem k') (dir k' p) = {}"
    by (rule own_of_copy [OF S(2)], simp add: C(3))+
  have "\<forall>q \<in> P. dir k' q = dir k q" using assms(3) D(2) by metis
  from spaces_grow [OF assms(1) C(1) this C(2)] C(3) o show "spaces_ok (kernel_pd k') (insert p P) (dir k') (mem k')"
    by (simp add: D(3))
qed

text \<open>Loading a program: the process of \<open>create_task\<close>, four frames, and a new area of the disk.\<close>

lemma exec_parts:
  assumes "loadable path w f ss" "world_inv w"
  defines "k \<equiv> m_kernel (hw w)" and "fs \<equiv> m_fs (hw w)"
  obtains k1 m pd A code where
    "respond (Exec path) w = Inr (w\<lparr>hw := (hw w)\<lparr>m_fs := fs\<lparr>fs_disk := disk_write (unat (swap w)) code (fs_disk fs)\<rparr>,
       m_kernel := k1\<lparr>mem := m\<rparr>\<rparr>, swap := swap w + 8\<rparr>)"
    "length code = 512 * 8" "\<forall>i < nat (file_size (fcb f)). code ! i = file_bytes (fs_disk fs) ss ! i"
    "create_task TASK_FLAG_KERNEL TEMP_CODE_START INIT_ESP_VMA 0xFF k = Inr (k1, get_pid_empty k)"
    "created TASK_FLAG_KERNEL TEMP_CODE_START INIT_ESP_VMA 0xFF (get_pid_empty k) k k1" "dir k1 (get_pid_empty k) = pd"
    "grows A (mem k) m" "pd \<in> A" "pd_ok m pd" "\<forall>i < 64. entry (ram m) pd i = entry (ram (mem k)) (kernel_pd k) i"
    "own_tables m pd \<union> own_data m pd \<subseteq> A" "own_tables m pd \<inter> own_data m pd = {}"
    "present (entry (ram m) pd (pdi TEMP_CODE_START))" "pte (ram m) pd TEMP_CODE_START = SWAP_SECTOR_SET (swap w)" "has_addr pd INIT_ESP_VMA m"
    "finite A" "card A = 4"
proof -
  have I: "sched_inv 5 6 k" "disk_ok (fs_disk fs)" and sp: "clean_pd (kernel_pd k) (mem k)"
    "\<forall>i < 1024. present (entry (ram (mem k)) (kernel_pd k) i) \<longleftrightarrow> i < 64"
    using assms(2) by (simp_all add: world_inv_def sys_inv_def system_of_def spaces_ok_def typed_fs_def Let_def k_def fs_def)
  have L: "load_file_cached path (fs_cached fs 2) fs = Inr (FILE_RESULT_SUCCESS, f)" "file_on (fs_disk fs) (fcb f) ss"
    "file_size (fcb f) \<le> 4092" "get_pid_empty k \<noteq> NOT_FOUND" "5 \<le> card (free_pages (mem k))"
    using assms(1) low_pages_le [of "mem k"] by (simp_all add: loadable_def k_def fs_def)
  from code_read [OF I(2) L(2,3)] obtain code where
    code: "read_all (fcb f) (uninit 8 4096 fs) fs = Inr code" "length code = 512 * 8"
    "\<forall>i < nat (file_size (fcb f)). code ! i = file_bytes (fs_disk fs) ss ! i" by blast
  from create_task_inv [OF I(1) L(4), of TASK_FLAG_KERNEL TEMP_CODE_START INIT_ESP_VMA "0xFF"] obtain k1 where
    k1: "create_task TASK_FLAG_KERNEL TEMP_CODE_START INIT_ESP_VMA 0xFF k = Inr (k1, get_pid_empty k)"
    "created TASK_FLAG_KERNEL TEMP_CODE_START INIT_ESP_VMA 0xFF (get_pid_empty k) k k1" by blast
  define pd where "pd = dir k1 (get_pid_empty k)"
  note D = process_dir [OF k1(2), folded pd_def]
  have M: "p_malloc (mem k) = (fst (p_malloc (mem k)), pd)" by (simp add: D(1))
  obtain m2 ok m5 st where m: "set_mmap pd TEMP_CODE_START 0 3 (copy_pts (kernel_pd k) pd (fst (p_malloc (mem k)))) = (m2, ok)"
    "load_memory pd INIT_ESP_VMA 3 (swap_sector_set pd TEMP_CODE_START (swap w) m2) = (m5, st)" by (metis surj_pair)
  have far: "ITSELF_END \<le> TEMP_CODE_START" "ITSELF_END \<le> INIT_ESP_VMA" "pdi TEMP_CODE_START \<noteq> pdi INIT_ESP_VMA"
    by (simp_all add: pdi_def)
  obtain A where A: "grows A (mem k) m5" "finite A" "card A = 4" "pd \<in> A" "pd_ok m5 pd" "\<forall>i < 64. entry (ram m5) pd i = entry (ram (mem k)) (kernel_pd k) i"
    "own_tables m5 pd \<union> own_data m5 pd \<subseteq> A" "own_tables m5 pd \<inter> own_data m5 pd = {}"
    "present (entry (ram m5) pd (pdi TEMP_CODE_START))" "pte (ram m5) pd TEMP_CODE_START = SWAP_SECTOR_SET (swap w)" "has_addr pd INIT_ESP_VMA m5"
    by (rule program_space [OF sp M L(5) m far])
  have run: "respond (Exec path) w = Inr (w\<lparr>hw := (hw w)\<lparr>m_fs := fs\<lparr>fs_disk := disk_write (unat (swap w)) code (fs_disk fs)\<rparr>,
       m_kernel := k1\<lparr>mem := m5\<rparr>\<rparr>, swap := swap w + 8\<rparr>)"
    using L(1) code(1) k1(1) m pd_def D(4)
    by (simp add: sys_execve_def exec_of_def vm_of_def swap_alloc_def Let_def dir_def k_def [symmetric] fs_def [symmetric])
  show thesis by (rule that [OF run code(2,3) k1 pd_def [symmetric] A(1,4-) A(2,3)])
qed

section \<open>Every input keeps the invariant\<close>

text \<open>What each input is for the abstract system, which does not look at memory.\<close>

fun abstracts :: "input \<Rightarrow> system \<Rightarrow> system \<Rightarrow> bool" where
  "abstracts Timer s s' \<longleftrightarrow> step Tick s s'"
| "abstracts (Key env) s s' \<longleftrightarrow> s' = s"
| "abstracts (Call e) s s' \<longleftrightarrow> step e s s'"
| "abstracts (Exec path) s s' \<longleftrightarrow> s' = s \<or>
     (\<exists>s1 m. step (Create TASK_FLAG_KERNEL TEMP_CODE_START INIT_ESP_VMA 0xFF) s s1 \<and> s' = s1\<lparr>sys_kernel := (sys_kernel s1)\<lparr>mem := m\<rparr>\<rparr>)"
| "abstracts (Fault_At v e) s s' \<longleftrightarrow> (\<exists>m. s' = s\<lparr>sys_kernel := (sys_kernel s)\<lparr>mem := m\<rparr>\<rparr>)"
| "abstracts (File_Call a f) s s' \<longleftrightarrow> s' = s"
| "abstracts (Use_Stack g c) s s' \<longleftrightarrow> s' = s"

text \<open>The tables of the processor, the ticks, and who writes to the screen: the keyboard and the file system.\<close>

definition devices_kept :: "input \<Rightarrow> machine \<Rightarrow> machine \<Rightarrow> bool" where
  "devices_kept i s s' \<longleftrightarrow> m_gdtr s' = m_gdtr s \<and> idt (pic (m_tty s')) = idt (pic (m_tty s)) \<and>
     idtr (pic (m_tty s')) = idtr (pic (m_tty s)) \<and> m_interrupts s' = m_interrupts s \<and>
     m_ticks s' = m_ticks s + (if i = Timer then 1 else 0) \<and>
     (i \<notin> range Key \<longrightarrow> kbd (m_tty s') = kbd (m_tty s)) \<and>
     (i \<notin> range Key \<union> range (case_prod File_Call) \<longrightarrow> screen (m_tty s') = screen (m_tty s))"

lemma active_mem: "active (k\<lparr>mem := m\<rparr>) = active k"
  by (simp add: active_def running_list_def)

lemma sys_inv_mem: "sys_inv (s\<lparr>sys_kernel := (sys_kernel s)\<lparr>mem := m\<rparr>\<rparr>) = sys_inv s"
  using proc_inv_mem [where k = "sys_kernel s" and m = m and a = "kernel_pd (sys_kernel s)"]
  by (simp add: sys_inv_def sched_inv_def sem_inv_def gdt_exact_def active_mem running_list_def)

definition responds :: "input \<Rightarrow> world \<Rightarrow> bool" where
  "responds i w \<longleftrightarrow> (\<exists>w'. respond i w = Inr w' \<and> world_inv w' \<and> abstracts i (system_of w) (system_of w') \<and> devices_kept i (hw w) (hw w'))"

lemma world_invD:
  assumes "world_inv w"
  shows "sys_inv (system_of w)" "disk_ok (fs_disk (m_fs (hw w)))" "m_interrupts (hw w)"
    "spaces_ok (kernel_pd (m_kernel (hw w))) (set (active (m_kernel (hw w)))) (dir (m_kernel (hw w))) (mem (m_kernel (hw w)))"
    "typed_fs (m_fs (hw w))" "flat_ok (kernel_pd (m_kernel (hw w))) (mem (m_kernel (hw w)))"
  using assms by (simp_all add: world_inv_def Let_def typed_fs_def)

lemma timer_responds: "world_inv w \<Longrightarrow> possible Timer w \<Longrightarrow> responds Timer w"
proof -
  assume w: "world_inv w" and p: "possible Timer w"
  note W = world_invD [OF w]
  obtain s' where s': "perform Tick (system_of w) = Inr s'" "sys_inv s'" using tick_inv [OF W(1)] by blast
  have e: "step Tick (system_of w) s'" using s'(1) p by (simp add: step_iff)
  have sp: "spaces_ok (kernel_pd (sys_kernel s')) (set (active (sys_kernel s'))) (dir (sys_kernel s')) (mem (sys_kernel s'))"
    by (rule call_spaces [OF W(1) s'(2,1)]) (use W(4) in \<open>simp_all add: system_of_def\<close>)
  have fl: "flat_ok (kernel_pd (sys_kernel s')) (mem (sys_kernel s'))"
    using W(6) perform_kept(1,2) [OF s'(1)] by (simp add: system_of_def)
  obtain k where k: "check_task_affairs (m_kernel (hw w)) = Inr k" "s' = (system_of w)\<lparr>sys_kernel := k\<rparr>"
    using s'(1) by (auto simp: rbind_eq_Inr system_of_def)
  then obtain m where m: "on_timer (hw w) = Inr m" "m_kernel m = k" "m_fs m = m_fs (hw w)" "devices_kept Timer (hw w) m"
    by (simp add: on_timer_def Let_def devices_kept_def)
  have "system_of (w\<lparr>hw := m\<rparr>) = s'" by (simp add: system_of_def k(2) m(2))
  then show ?thesis
    using m e s'(2) sp fl W(3,5) by (simp add: responds_def world_inv_def Let_def k(2)) (simp add: devices_kept_def)
qed

lemma key_responds: "world_inv w \<Longrightarrow> responds (Key env) w"
  by (auto simp: responds_def world_inv_def system_of_def devices_kept_def on_keyboard_def Let_def on_key_pic)

lemma call_responds:
  assumes "world_inv w" "possible (Call e) w"
  shows "responds (Call e) w"
proof -
  note W = world_invD [OF assms(1)]
  have en: "enabled e (system_of w)" and room: "is_create e \<Longrightarrow> 0 < card (low_pages (mem (m_kernel (hw w))))"
    using assms(2) by simp_all
  obtain s' where s': "perform e (system_of w) = Inr s'" "sys_inv s'" using perform_inv [OF W(1) en] by blast
  have st: "step e (system_of w) s'" using s'(1) en by (simp add: step_iff)
  have sp: "spaces_ok (kernel_pd (sys_kernel s')) (set (active (sys_kernel s'))) (dir (sys_kernel s')) (mem (sys_kernel s')) \<and>
    flat_ok (kernel_pd (sys_kernel s')) (mem (sys_kernel s'))"
  proof (cases "is_create e")
    case False
    have "flat_ok (kernel_pd (sys_kernel s')) (mem (sys_kernel s'))"
      using W(6) perform_kept(1,2) [OF s'(1) False] by (simp add: system_of_def)
    moreover have "spaces_ok (kernel_pd (sys_kernel s')) (set (active (sys_kernel s'))) (dir (sys_kernel s')) (mem (sys_kernel s'))"
      by (rule call_spaces [OF W(1) s'(2,1) False]) (use W(4) in \<open>simp add: system_of_def\<close>)
    ultimately show ?thesis by simp
  next
    case True
    then obtain flag eip esp d where e: "e = Create flag eip esp d" by (cases e) auto
    let ?k = "m_kernel (hw w)"
    have "sched_inv 5 6 ?k" "get_pid_empty ?k \<noteq> NOT_FOUND" using W(1) en by (simp_all add: sys_inv_def system_of_def e)
    from create_task_ok [of ?k flag eip esp d] this obtain k' where k': "create_task flag eip esp d ?k = Inr (k', get_pid_empty ?k)"
      "created flag eip esp d (get_pid_empty ?k) ?k k'" "get_pid_empty ?k \<notin> set (active ?k)" by (auto simp: sched_inv_def)
    have "sys_kernel s' = k'" using s'(1) k'(1) by (auto simp: e system_of_def)
    then show ?thesis using created_spaces(2,3) [OF W(4) k'(2,3) room [OF True]] W(6) process_dir(5) [OF k'(2)] by simp
  qed
  have "system_of (w\<lparr>hw := (hw w)\<lparr>m_kernel := sys_kernel s'\<rparr>, sem := sys_sem s', masked := sys_masked s'\<rparr>) = s'" by (simp add: system_of_def)
  then show ?thesis
    using s' st sp W(3,5) by (simp add: responds_def world_inv_def Let_def devices_kept_def)
qed

lemma exec_responds:
  assumes "world_inv w" "possible (Exec path) w"
  shows "responds (Exec path) w"
proof (cases "\<exists>f ss. loadable path w f ss")
  case False
  then obtain r f where "load_file_cached path (fs_cached (m_fs (hw w)) 2) (m_fs (hw w)) = Inr (r, f)" "r \<noteq> FILE_RESULT_SUCCESS"
    using assms(2) by auto
  then have "respond (Exec path) w = Inr w" by (simp add: sys_execve_def exec_of_def Let_def)
  then show ?thesis using assms(1) by (simp add: responds_def devices_kept_def)
next
  case True
  then obtain f ss where L: "loadable path w f ss" by blast
  let ?k = "m_kernel (hw w)" and ?p = "get_pid_empty (m_kernel (hw w))" and ?dk = "fs_disk (m_fs (hw w))"
  note W = world_invD [OF assms(1)]
  obtain k1 m pd A code where
    x: "respond (Exec path) w = Inr (w\<lparr>hw := (hw w)\<lparr>m_fs := (m_fs (hw w))\<lparr>fs_disk := disk_write (unat (swap w)) code ?dk\<rparr>,
       m_kernel := k1\<lparr>mem := m\<rparr>\<rparr>, swap := swap w + 8\<rparr>)"
    "length code = 512 * 8" "\<forall>i < nat (file_size (fcb f)). code ! i = file_bytes ?dk ss ! i"
    "create_task TASK_FLAG_KERNEL TEMP_CODE_START INIT_ESP_VMA 0xFF ?k = Inr (k1, ?p)"
    "created TASK_FLAG_KERNEL TEMP_CODE_START INIT_ESP_VMA 0xFF ?p ?k k1" "dir k1 ?p = pd"
    and m: "grows A (mem ?k) m" "pd \<in> A" "pd_ok m pd" "\<forall>i < 64. entry (ram m) pd i = entry (ram (mem ?k)) (kernel_pd ?k) i"
    "own_tables m pd \<union> own_data m pd \<subseteq> A" "own_tables m pd \<inter> own_data m pd = {}"
    "present (entry (ram m) pd (pdi TEMP_CODE_START))" "pte (ram m) pd TEMP_CODE_START = SWAP_SECTOR_SET (swap w)" "has_addr pd INIT_ESP_VMA m"
    "finite A" "card A = 4"
    by (rule exec_parts [OF L assms(1)])
  note D = process_dir [OF x(5)]
  let ?e = "Create TASK_FLAG_KERNEL TEMP_CODE_START INIT_ESP_VMA 0xFF" and ?s1 = "(system_of w)\<lparr>sys_kernel := k1\<rparr>"
  have "0 < card (free_pages (mem ?k))" "card A \<le> card (low_pages (mem ?k))"
    using L low_pages_le [of "mem ?k"] m(11) by (simp_all add: loadable_def)
  then have en: "enabled ?e (system_of w)" and room: "card A \<le> card (low_pages (mem ?k))"
    using L assms(2) by (simp_all add: loadable_def free_count_def) (simp_all add: system_of_def)
  have pf: "perform ?e (system_of w) = Inr ?s1" by (simp add: x(4) system_of_def)
  then have inv: "sys_inv ?s1" using perform_inv [OF W(1) en] by simp
  have st: "step ?e (system_of w) ?s1" using pf en by (simp add: step_iff)
  have "?p \<notin> set (active ?k)"
    using create_task_ok [of ?k] L W(1) by (auto simp: loadable_def sys_inv_def system_of_def sched_inv_def)
  then have "\<forall>q \<in> set (active ?k). dir k1 q = dir ?k q" using D(2) by metis
  from spaces_grow [OF W(4) m(1) this] m(3-6) have sp: "spaces_ok (kernel_pd k1) (set (active k1)) (dir k1) m"
    by (simp add: D(3,5) x(6))
  have "dir (k1\<lparr>mem := m\<rparr>) = dir k1" by (intro ext) (simp add: dir_def)
  moreover have "typed_fs ((m_fs (hw w))\<lparr>fs_disk := disk_write (unat (swap w)) code ?dk\<rparr>)"
    using disk_write_ok [OF W(2) x(2)] W(5) by (simp add: typed_fs_def)
  moreover have "pd_ok (mem ?k) (kernel_pd ?k)" using W(4) by (simp add: spaces_ok_def clean_pd_def)
  from flat_grows [OF W(6) this m(1,10) room] have "flat_ok (kernel_pd k1) m" by (simp add: D(3))
  moreover have "sys_inv (?s1\<lparr>sys_kernel := k1\<lparr>mem := m\<rparr>\<rparr>)" using inv sys_inv_mem [where s = ?s1 and m = m] by simp
  ultimately show ?thesis
    using x(1) sp W(3) st
    by (auto simp: responds_def world_inv_def Let_def devices_kept_def active_mem system_of_def intro!: disjI2 exI [of _ ?s1] exI [of _ m])
qed

text \<open>A page fault: the running process gets the page, under the directory that belongs to it.\<close>

lemma running_active: "pid_running (tm k) \<noteq> NOT_FOUND \<Longrightarrow> pid_running (tm k) \<in> set (active k)"
  by (simp add: active_def running_list_def)

lemma fault_parts:
  assumes "world_inv w" "pid_running (tm (m_kernel (hw w))) \<noteq> NOT_FOUND" "swapped_out v sector w"
    "0 < card (low_pages (mem (m_kernel (hw w))))"
  defines "k \<equiv> m_kernel (hw w)"
  defines "pd \<equiv> dir k (pid_running (tm k))"
  obtains m f where "respond (Fault_At v e) w = Inr (w\<lparr>hw := (hw w)\<lparr>m_kernel := k\<lparr>mem := m\<rparr>\<rparr>\<rparr>)"
    "frame_written (table_of (ram (mem k)) pd (pdi v)) f (mem k) m" "table_of (ram (mem k)) pd (pdi v) \<in> own_tables (mem k) pd"
    "space_of pd m = remap v f (space_of pd (mem k))"
    "\<And>i. i < 4096 \<Longrightarrow> ram m (f + of_nat i) = disk_read (fs_disk (m_fs (hw w))) (unat sector) 8 ! i"
    "\<And>i. i < 1024 \<Longrightarrow> entry (ram m) pd i = entry (ram (mem k)) pd i" "pd_ok m pd"
    "\<And>u. unat u div 4096 \<noteq> unat v div 4096 \<Longrightarrow> present (entry (ram (mem k)) pd (pdi u)) \<Longrightarrow> pte (ram m) pd u = pte (ram (mem k)) pd u"
proof -
  note W = world_invD [OF assms(1), folded k_def]
  have "pid_running (tm k) \<in> set (active k)" using assms(2) by (simp add: running_active k_def)
  then have pd: "pd_ok (mem k) pd" using W(4) by (simp add: spaces_ok_def space_ok_def pd_def)
  have S: "aligned v" "ITSELF_END \<le> v" "present (entry (ram (mem k)) pd (pdi v))" "pte (ram (mem k)) pd v = SWAP_SECTOR_SET sector"
    "unat sector < 2 ^ 29" using assms(3) by (simp_all add: swapped_out_def k_def pd_def Let_def)
  have f: "vm_mm (fault_state w) = (mem k)\<lparr>cr3 := pd\<rparr>" "vm_disk (fault_state w) = fs_disk (m_fs (hw w))"
    by (simp_all add: fault_state_def vm_of_def exec_of_def k_def pd_def Let_def)
  have c: "free_pages ((mem k)\<lparr>cr3 := pd\<rparr>) = free_pages (mem k)" "space_of pd ((mem k)\<lparr>cr3 := pd\<rparr>) = space_of pd (mem k)"
    "frame_written t g ((mem k)\<lparr>cr3 := pd\<rparr>) m = frame_written t g (mem k) m" for t g m
    by (simp_all add: free_pages_def page_used_def frame_written_def space_of_def has_addr_walk addr_translate_walk fun_eq_iff)
  have r: "ram ((mem k)\<lparr>cr3 := pd\<rparr>) = ram (mem k)" "cr3 ((mem k)\<lparr>cr3 := pd\<rparr>) = pd" by simp_all
  have room: "0 < card (free_pages (mem k))" using assms(4) low_pages_le [of "mem k"] by (simp add: k_def)
  obtain m g where F: "on_page_fault v e (fault_state w) = Inr ((fault_state w)\<lparr>vm_mm := m\<rparr>)"
    "frame_written (table_of (ram (mem k)) pd (pdi v)) g (mem k) m" "space_of pd m = remap v g (space_of pd (mem k))"
    "\<And>i. i < 4096 \<Longrightarrow> ram m (g + of_nat i) = disk_read (fs_disk (m_fs (hw w))) (unat sector) 8 ! i"
    "\<And>i. i < 1024 \<Longrightarrow> entry (ram m) pd i = entry (ram (mem k)) pd i" "pd_ok m pd"
    "\<And>u. unat u div 4096 \<noteq> unat v div 4096 \<Longrightarrow> present (entry (ram (mem k)) pd (pdi u)) \<Longrightarrow> pte (ram m) pd u = pte (ram (mem k)) pd u"
    by (rule fault_space [of "fault_state w" pd v sector e, unfolded f c r pd_ok_cr3, OF pd refl S(3-5) room S(1) W(2)]) blast
  have run: "respond (Fault_At v e) w = Inr (w\<lparr>hw := (hw w)\<lparr>m_kernel := k\<lparr>mem := m\<rparr>\<rparr>\<rparr>)" by (simp add: F(1) k_def)
  have t: "table_of (ram (mem k)) pd (pdi v) \<in> own_tables (mem k) pd" using S(2,3) by (auto simp: own_tables_def itself_end_iff)
  show thesis by (rule that [OF run F(2) t F(3-7)])
qed

lemma fault_responds:
  assumes "world_inv w" "possible (Fault_At v e) w"
  shows "responds (Fault_At v e) w"
proof -
  let ?k = "m_kernel (hw w)" and ?r = "pid_running (tm (m_kernel (hw w)))"
  note W = world_invD [OF assms(1)]
  obtain sector where s: "?r \<noteq> NOT_FOUND" "swapped_out v sector w" "0 < card (low_pages (mem ?k))" using assms(2) by auto
  obtain m f where m: "respond (Fault_At v e) w = Inr (w\<lparr>hw := (hw w)\<lparr>m_kernel := ?k\<lparr>mem := m\<rparr>\<rparr>\<rparr>)"
    "frame_written (table_of (ram (mem ?k)) (dir ?k ?r) (pdi v)) f (mem ?k) m"
    "table_of (ram (mem ?k)) (dir ?k ?r) (pdi v) \<in> own_tables (mem ?k) (dir ?k ?r)"
    "space_of (dir ?k ?r) m = remap v f (space_of (dir ?k ?r) (mem ?k))"
    "\<And>i. i < 1024 \<Longrightarrow> entry (ram m) (dir ?k ?r) i = entry (ram (mem ?k)) (dir ?k ?r) i" "pd_ok m (dir ?k ?r)"
    by (rule fault_parts [OF assms(1) s, of e]) blast
  have sp: "spaces_ok (kernel_pd ?k) (set (active ?k)) (dir ?k) m"
    by (rule spaces_fault [OF W(4) running_active [OF s(1)] m(3,2,4,5,6)])
  have k: "pd_ok (mem ?k) (kernel_pd ?k)" "space_ok (kernel_pd ?k) (mem ?k) (dir ?k ?r)"
    using W(4) running_active [OF s(1)] by (simp_all add: spaces_ok_def clean_pd_def)
  then have "table_of (ram (mem ?k)) (dir ?k ?r) (pdi v) \<notin> walk_frames (mem ?k) (kernel_pd ?k)"
    using m(3) by (auto simp: space_ok_def)
  from flat_written [OF W(6) k(1) m(2) this s(3)] have "flat_ok (kernel_pd ?k) m" .
  moreover have "dir (?k\<lparr>mem := m\<rparr>) = dir ?k" by (intro ext) (simp add: dir_def)
  moreover have "sys_inv ((system_of w)\<lparr>sys_kernel := ?k\<lparr>mem := m\<rparr>\<rparr>)" using W(1) sys_inv_mem [where s = "system_of w" and m = m] by (simp add: system_of_def)
  ultimately show ?thesis
    using m(1) sp W(3,5)
    by (auto simp: responds_def world_inv_def Let_def devices_kept_def active_mem system_of_def)
qed

lemma file_responds:
  assumes "world_inv w" "possible (File_Call a f) w"
  shows "responds (File_Call a f) w"
proof -
  note W = world_invD [OF assms(1)]
  obtain f' s where c: "fs_do a (f, files_of w) = Inr (f', s)" "typed_cached f" using assms(2) by auto
  have "typed_fs (files_of w)" using W(5) by (simp add: files_of_def typed_fs_def)
  with fs_do_typed [OF c(1)] c(2) have "typed_fs s" by simp
  then show ?thesis using c(1) assms(1)
    by (simp add: responds_def world_inv_def system_of_def devices_kept_def Let_def image_iff)
qed

lemma stack_responds: "world_inv w \<Longrightarrow> possible (Use_Stack g c) w \<Longrightarrow> responds (Use_Stack g c) w"
  by (simp add: responds_def world_inv_def system_of_def devices_kept_def typed_fs_def Let_def)

lemma respond_ok: "world_inv w \<Longrightarrow> possible i w \<Longrightarrow> responds i w"
  by (cases i) (simp_all only: timer_responds key_responds call_responds exec_responds fault_responds file_responds stack_responds)

section \<open>The machine after \<open>main\<close>\<close>

lemma identity_free: "mapped_upto m pd 65536 \<Longrightarrow> 7 \<le> card (low_pages m)"
proof -
  assume m: "mapped_upto m pd 65536"
  let ?A = "{0x840000, 0x841000, 0x842000, 0x843000, 0x844000, 0x845000, 0x846000} :: u32 set"
  have "?A \<subseteq> low_pages m" using m by (simp add: low_pages_def free_pages_def aligned_def mapped_upto_def)
  then have "card ?A \<le> card (low_pages m)" by (intro card_mono) simp
  then show ?thesis by simp
qed

lemma identity_flat: "mapped_upto m pd 65536 \<Longrightarrow> flat_ok pd m"
proof -
  assume m: "mapped_upto m pd 65536"
  have "a < ITSELF_END" if "page_used m a" for a
  proof -
    have "unat a div 4096 < 2112" using that m by (simp add: mapped_upto_def)
    then have "unat a < 8650752" by (simp add: less_mult_imp_div_less div_less_iff_less_mult)
    then show ?thesis by (simp add: word_less_nat_alt)
  qed
  then show ?thesis using mapped_upto_identity [OF m] by (simp add: flat_ok_def space_of_def)
qed

lemma idle_spaces:
  assumes "mapped_upto (mem k) (kernel_pd k) 65536" "clean_pd (kernel_pd k) (mem k)"
    "created f0 e0 s0 d0 5 k k1" "created f1 e1 s1 d1 6 k1 k2" "set (active k) = {}"
  shows "spaces_ok (kernel_pd k2) (set (active k2)) (dir k2) (mem k2) \<and> flat_ok (kernel_pd k2) (mem k2)"
proof -
  have "\<forall>i < 1024. present (entry (ram (mem k)) (kernel_pd k) i) \<longleftrightarrow> i < 64" using assms(1) by (auto simp: mapped_upto_def)
  then have s0: "spaces_ok (kernel_pd k) {} (dir k) (mem k)" using assms(2) by (simp add: spaces_ok_def)
  have f: "2 \<le> card (low_pages (mem k))" using identity_free [OF assms(1)] by simp
  then have "0 < card (low_pages (mem k))" by simp
  note A = created_spaces [OF s0 assms(3) _ this, simplified]
  have "0 < card (low_pages (mem k1))" using low_count_grows [OF A(1)] f by simp
  from created_spaces(2,3) [OF A(2) assms(4) _ this] show ?thesis
    using assms(5) A(3) identity_flat [OF assms(1)] by (simp add: process_dir(5) [OF assms(3)] process_dir(5) [OF assms(4)])
qed

lemma main_parts:
  assumes "boot_kernel_ok (m_kernel s)" "boot_memory_ok (m_kernel s)" "disk_ok (fs_disk (m_fs s))"
  obtains s' pt st m fs where "main l env s = Inr s'" "m_interrupts s'"
    "memory_init (kernel_pd (m_kernel s)) (page_fault_handler l) (mem (m_kernel s), pt) = Inr (m, st)"
    "mapped_upto m (kernel_pd (m_kernel s)) 65536" "boot_kernel_ok ((m_kernel s)\<lparr>mem := m\<rparr>)"
    "sched_init (idle_addr l) (idle_stack_0 l) (idle_stack_1 l) ((m_kernel s)\<lparr>mem := m\<rparr>) = Inr (m_kernel s')"
    "fs_init (m_fs s) = Inr fs" "fs_test fs = Inr (m_fs s')"
proof (rule main_ok [OF assms, of l env])
  fix tty m st c k fs fs1
  let ?s = "s\<lparr>m_gdtr := lgdt (gdt_addr l) (of_nat (8 * MAX_GDT_TERMS)), m_tty := tty\<lparr>screen := c, pic := st\<rparr>,
       m_kernel := k, m_fs := fs1, m_interrupts := True\<rparr>"
  have s': "m_kernel ?s = k" "m_fs ?s = fs1" "m_interrupts ?s" by simp_all
  assume "main l env s = Inr ?s" "memory_init (kernel_pd (m_kernel s)) (page_fault_handler l) (mem (m_kernel s), pic tty) = Inr (m, st)"
    "mapped_upto m (kernel_pd (m_kernel s)) 65536" "boot_kernel_ok ((m_kernel s)\<lparr>mem := m\<rparr>)"
    "sched_init (idle_addr l) (idle_stack_0 l) (idle_stack_1 l) ((m_kernel s)\<lparr>mem := m\<rparr>) = Inr k"
    "fs_init (m_fs s) = Inr fs" "fs_test fs = Inr fs1"
  then show thesis by (intro that [of ?s "pic tty" m st fs]) (simp_all only: s')
qed

lemma start_inv:
  assumes "boot_kernel_ok (m_kernel s)" "boot_memory_ok (m_kernel s)" "clean_memory (mem (m_kernel s))" "typed_fs (m_fs s)"
    "main l env s = Inr s'" "0 \<le> sint n"
  shows "world_inv \<lparr>hw = s', sem = semaphore_init n q, swap = x, masked = {}\<rparr>"
proof -
  let ?k = "m_kernel s"
  have dk: "disk_ok (fs_disk (m_fs s))" using assms(4) by (simp add: typed_fs_def)
  obtain pt st m fs where main: "m_interrupts s'" "memory_init (kernel_pd ?k) (page_fault_handler l) (mem ?k, pt) = Inr (m, st)"
    "mapped_upto m (kernel_pd ?k) 65536" and k: "boot_kernel_ok (?k\<lparr>mem := m\<rparr>)"
    "sched_init (idle_addr l) (idle_stack_0 l) (idle_stack_1 l) (?k\<lparr>mem := m\<rparr>) = Inr (m_kernel s')"
    and fs: "fs_init (m_fs s) = Inr fs" "fs_test fs = Inr (m_fs s')"
    by (rule main_parts [OF assms(1,2) dk, of l env]) (use assms(5) in auto)
  define k0 where "k0 = ?k\<lparr>mem := m, tm := task_manager_init (tm ?k)\<rparr>"
  obtain k1 where k1: "created TASK_FLAG_KERNEL (idle_addr l) (idle_stack_0 l) 0xFF 5 k0 k1"
    "created TASK_FLAG_KERNEL (idle_addr l) (idle_stack_1 l) 0xFF 6 k1 (m_kernel s')"
    using sched_init_ok [OF k(1), of "idle_addr l" "idle_stack_0 l" "idle_stack_1 l"] k(2) by (auto simp: k0_def)
  have "mapped_upto (memory_alloc_init (mem ?k)) (kernel_pd ?k) 0"
    using assms(2) by (intro mapped_upto_0) (simp_all add: boot_memory_ok_def)
  from memory_init_clean [OF main(2) this] assms(3) have cl: "clean_pd (kernel_pd ?k) m" by (simp add: clean_memory_def)
  have "set (active k0) = {}"
    using assms(1) wf_pid_queue_init by (simp add: k0_def active_def running_list_def task_manager_init_def boot_kernel_ok_def)
  from idle_spaces [OF _ _ k1 this] main(3) cl have sp: "spaces_ok (kernel_pd (m_kernel s')) (set (active (m_kernel s'))) (dir (m_kernel s')) (mem (m_kernel s')) \<and>
    flat_ok (kernel_pd (m_kernel s')) (mem (m_kernel s'))"
    by (simp add: k0_def)
  have "typed_fs (m_fs s')" using fs_started [OF dk] fs assms(4) by (auto simp: typed_fs_def)
  then show ?thesis using boot_inv [OF k assms(6)] sp main(1) by (simp add: world_inv_def system_of_def)
qed

lemma started_inv: "started w \<Longrightarrow> world_inv w"
proof (induction rule: started.induct)
  case (start s l env m n q)
  then show ?case by (intro start_inv)
next
  case (respond w i w')
  from respond_ok [OF respond.IH respond.hyps(2)] respond.hyps(3) show ?case by (simp add: responds_def)
qed

section \<open>Properties\<close>

text \<open>The state that \<open>main\<close> leaves is one the abstract system can start in.\<close>

lemma start_reachable:
  assumes "boot_kernel_ok (m_kernel s)" "boot_memory_ok (m_kernel s)" "disk_ok (fs_disk (m_fs s))" "main l env s = Inr s'" "0 \<le> sint n"
  shows "reachable (system_of \<lparr>hw = s', sem = semaphore_init n q, swap = x, masked = {}\<rparr>)"
proof -
  obtain m where "boot_kernel_ok ((m_kernel s)\<lparr>mem := m\<rparr>)"
    "sched_init (idle_addr l) (idle_stack_0 l) (idle_stack_1 l) ((m_kernel s)\<lparr>mem := m\<rparr>) = Inr (m_kernel s')"
    by (rule main_parts [OF assms(1-3), of l env]) (use assms(4) in auto)
  then show ?thesis using reach_boot [OF _ _ assms(5)] by (simp add: system_of_def)
qed

subsection \<open>A machine for the examples\<close>

text \<open>The example machine of theory \<open>Boot\<close> after \<open>main\<close>, with the file \<open>usr\<close> as a program.\<close>

lemma demo_ok:
  "boot_kernel_ok (m_kernel demo_machine)" "boot_memory_ok (m_kernel demo_machine)" "clean_memory (mem (m_kernel demo_machine))"
  "m_fs demo_machine = demo_fs three_blocks" "typed_fs (m_fs demo_machine)"
proof -
  have e: "entry (ram (blank_machine 0)) t i = 0" for t i
    by (simp add: entry_def load32_def blank_machine_def join32_def)
  have "mem (m_kernel demo_machine) = blank_machine 0" "kernel_pd (m_kernel demo_machine) = 0x200000"
    by (simp_all add: demo_machine_def) (simp_all add: boot_kernel_def)
  then show "boot_memory_ok (m_kernel demo_machine)" "clean_memory (mem (m_kernel demo_machine))"
    by (simp_all add: boot_memory_ok_def clean_memory_def aligned_def e blank_used)
  show "boot_kernel_ok (m_kernel demo_machine)" "m_fs demo_machine = demo_fs three_blocks"
    using boot_kernel_ok by (simp_all add: demo_machine_def)
  then show "typed_fs (m_fs demo_machine)" using three_blocks_ok(1)
    by (simp add: typed_fs_def typed_cached_def demo_fs_def three_block_file_def)
qed

lemma demo_disk: "disk_ok (fs_disk (m_fs demo_machine))"
  using demo_ok(5) by (simp add: typed_fs_def)

lemma usr_loadable:
  assumes "fs_init (demo_fs three_blocks) = Inr fs" "fs_test fs = Inr fs1"
  obtains f where "load_file_cached [117, 115, 114, 47, 0] (fs_cached fs1 2) fs1 = Inr (FILE_RESULT_SUCCESS, f)"
    "file_on (fs_disk fs1) (fcb f) [1026, 1027, 1028]" "file_size (fcb f) = 508" "file_bytes (fs_disk fs1) [1026, 1027, 1028] ! 3 = 1"
proof -
  from fs_started [of "demo_fs three_blocks"] three_blocks_ok(1) assms have F:
    "\<forall>i. i \<notin> {1024, 1025} \<longrightarrow> fs_disk fs1 i = three_blocks i" "fs_cached fs1 = fs_cached (demo_fs three_blocks)"
    "\<forall>f. length (parent_dir_name (path_state f)) = FILE_PATH_MAXLENGTH \<longrightarrow>
      (\<exists>f'. load_file_cached [117, 115, 114, 47, 0] f fs1 = Inr (FILE_RESULT_SUCCESS, f') \<and>
        first_sector (fcb f') = 1026 \<and> file_size (fcb f') = 508)" by auto
  have "length (parent_dir_name (path_state (fs_cached fs1 2))) = FILE_PATH_MAXLENGTH"
    by (simp add: F(2) demo_fs_def three_block_file_def)
  with F(3) obtain f where f: "load_file_cached [117, 115, 114, 47, 0] (fs_cached fs1 2) fs1 = Inr (FILE_RESULT_SUCCESS, f)"
    "first_sector (fcb f) = 1026" "file_size (fcb f) = 508" by blast
  have sec: "fs_disk fs1 1026 = three_blocks 1026" "fs_disk fs1 1027 = three_blocks 1027" "fs_disk fs1 1028 = three_blocks 1028"
    using F(1) by simp_all
  have "chain three_blocks 1026 [1026, 1027, 1028]" using three_blocks_ok(2) by (simp add: file_on_def three_block_file_def)
  then have "file_on (fs_disk fs1) (fcb f) [1026, 1027, 1028]" by (simp add: file_on_def f(2,3) sec)
  moreover have "file_bytes (fs_disk fs1) [1026, 1027, 1028] ! 3 = 1"
    by (simp add: file_bytes_def block_data_def sec nth_append) (simp add: three_blocks_def set_next_sector_def nth_append)
  ultimately show thesis using that f(1,3) by blast
qed

lemma new_directory_low:
  assumes "pd_ok m pd" "0 < card (free_pages m)"
  shows "card (low_pages m) \<le> card (low_pages (new_directory pd m)) + 1" "pd_ok (new_directory pd m) pd"
    "card (free_pages m) \<le> card (free_pages (new_directory pd m)) + 1"
proof -
  have pg: "pages_ok m" using assms(1) by (simp add: pd_ok_def)
  obtain m1 a where M: "p_malloc m = (m1, a)" by fastforce
  have "a \<noteq> -1" using p_malloc_free(1) [OF pg assms(2)] M by simp
  from grows_copy(1) [OF assms(1) M this] have g: "grows {a} m (new_directory pd m)" by (simp add: new_directory_def M)
  show "card (low_pages m) \<le> card (low_pages (new_directory pd m)) + 1" using low_count_grows [OF g] by simp
  show "pd_ok (new_directory pd m) pd" by (rule grows_walk(1) [OF g assms(1)])
  show "card (free_pages m) \<le> card (free_pages (new_directory pd m)) + 1" using grows_count [OF g] by simp
qed

text \<open>\<open>main\<close> has executed \<open>cli\<close>.\<close>

lemma demo_started:
  obtains w f where "started w" "loadable [117, 115, 114, 47, 0] w f [1026, 1027, 1028]" "file_size (fcb f) = 508"
    "get_pid_empty (m_kernel (hw w)) = 7" "rq (m_kernel (hw w)) = [5, 6]" "schdule_counter (tm (m_kernel (hw w))) = 100"
    "file_bytes (fs_disk (m_fs (hw w))) [1026, 1027, 1028] ! 3 = 1" "masked w = {NOT_FOUND}" "pid_running (tm (m_kernel (hw w))) = NOT_FOUND"
proof -
  let ?s = demo_machine and ?l = demo_linker
  obtain s' pt st m fs where main: "main ?l (\<lambda>_ _. 0xFF) ?s = Inr s'" and "m_interrupts s'"
    "memory_init (kernel_pd (m_kernel ?s)) (page_fault_handler ?l) (mem (m_kernel ?s), pt) = Inr (m, st)"
    and m: "mapped_upto m (kernel_pd (m_kernel ?s)) 65536" and k: "boot_kernel_ok ((m_kernel ?s)\<lparr>mem := m\<rparr>)"
    "sched_init (idle_addr ?l) (idle_stack_0 ?l) (idle_stack_1 ?l) ((m_kernel ?s)\<lparr>mem := m\<rparr>) = Inr (m_kernel s')"
    and fs: "fs_init (m_fs ?s) = Inr fs" "fs_test fs = Inr (m_fs s')"
    by (rule main_parts [OF demo_ok(1,2) demo_disk, of ?l "\<lambda>_ _. 0xFF"])
  define w0 where "w0 = \<lparr>hw = s', sem = semaphore_init 1 demo_sem, swap = DISK_SWAP_START_SECTOR, masked = {}\<rparr>"
  have st0: "started w0" unfolding w0_def by (rule started.start [OF demo_ok(1-3,5) main]) simp
  define w where "w = w0\<lparr>masked := {pid_running (tm (m_kernel s'))}\<rparr>"
  have st: "started w" by (rule started.respond [OF st0, of "Call Cli"]) (simp_all add: w_def w0_def system_of_def running_def)
  have w: "m_kernel (hw w) = m_kernel s'" "m_fs (hw w) = m_fs s'" "swap w = 1030" by (simp_all add: w_def w0_def)
  from sched_init_ok [OF k(1), of "idle_addr ?l" "idle_stack_0 ?l" "idle_stack_1 ?l"] k(2) obtain k1 where
    K: "rq (m_kernel s') = [5, 6]" "\<And>n. 1 \<le> n \<Longrightarrow> n < 8192 \<Longrightarrow> empty_desc (gdt (m_kernel s') n) = (7 \<le> n)"
    "mem (m_kernel s') = new_directory (kernel_pd (m_kernel ?s)) (new_directory (kernel_pd (m_kernel ?s)) m)"
    "pid_running (tm (m_kernel s')) = NOT_FOUND"
    "created TASK_FLAG_KERNEL (idle_addr ?l) (idle_stack_0 ?l) 0xFF 5 ((m_kernel ?s)\<lparr>mem := m, tm := task_manager_init (tm (m_kernel ?s))\<rparr>) k1"
    "created TASK_FLAG_KERNEL (idle_addr ?l) (idle_stack_1 ?l) 0xFF 6 k1 (m_kernel s')" by auto
  have cnt: "schdule_counter (tm (m_kernel s')) = 100" using K(5,6) by (simp add: created_def task_manager_init_def)
  have pid: "get_pid_empty (m_kernel s') = of_nat 7" by (rule first_empty) (auto simp: K(2))
  have pd: "pd_ok m (kernel_pd (m_kernel ?s))" using m by (simp add: mapped_upto_def)
  have low: "7 \<le> card (low_pages m)" "7 \<le> card (free_pages m)" using identity_free [OF m] low_pages_le [of m] by simp_all
  then have "0 < card (free_pages m)" by simp
  note N = new_directory_low [OF pd this]
  have "0 < card (free_pages (new_directory (kernel_pd (m_kernel ?s)) m))" using N(3) low(2) by linarith
  from new_directory_low(1) [OF N(2) this] N(1) low(1) have free: "5 \<le> card (low_pages (mem (m_kernel s')))" unfolding K(3) by linarith
  obtain f where f: "load_file_cached [117, 115, 114, 47, 0] (fs_cached (m_fs s') 2) (m_fs s') = Inr (FILE_RESULT_SUCCESS, f)"
    "file_on (fs_disk (m_fs s')) (fcb f) [1026, 1027, 1028]" "file_size (fcb f) = 508"
    "file_bytes (fs_disk (m_fs s')) [1026, 1027, 1028] ! 3 = 1" by (rule usr_loadable [OF fs [unfolded demo_ok(4)]])
  have "unat (7 :: u16) = 7" "(7 :: u16) \<noteq> NOT_FOUND" by (simp_all add: NOT_FOUND_def)
  then show thesis
    using that [OF st _ f(3)] f(1,2,4) f(3) pid K(1,4) cnt free by (simp add: w loadable_def) (simp add: w_def K(4))
qed

subsection \<open>The machine and the abstract system\<close>

text \<open>
  Claim C1: the whole machine refines the abstract system of processes, for processes that call the kernel with
  interrupts off. In every state that the machine can get into after \<open>main\<close>, each input that is \<open>possible\<close> is handled without
  fault: the timer interrupt is the tick of the abstract system, a keyboard interrupt is no step of
  it, a system call is its event, \<open>sys_execve\<close> is the creation of a process or nothing, a page fault changes memory only,
  and a file call nothing but files and the screen. The GDT
  register and the gates stay as \<open>main\<close> set them, only the timer counts ticks, and
  only the keyboard interrupt and the file system write to the screen. \<open>possible\<close> asks for: interrupts on for an
  interrupt, off for a call; calls not from the idle processes; for a new process a free GDT entry and a free page
  below 256 MiB, for a program five of them and a file of at most 4092 bytes; fewer than seven processes waiting, a count below
  32767; a fault at the start of a page that has a table and a swap sector; a file call that returns.
\<close>
theorem machine_refines_system:
  assumes "started w" "possible i w"
  shows "\<exists>w'. respond i w = Inr w' \<and> started w' \<and> abstracts i (system_of w) (system_of w') \<and> devices_kept i (hw w) (hw w')"
  using respond_ok [OF started_inv [OF assms(1)] assms(2)] started.respond [OF assms] by (auto simp: responds_def)

theorem machine_refines_system_witness:
  "\<exists>w w'. started w \<and> respond Timer w = Inr w' \<and> step Tick (system_of w) (system_of w') \<and> m_ticks (hw w') = m_ticks (hw w) + 1"
proof -
  obtain w where w: "started w" by (rule demo_started)
  have "started (w\<lparr>masked := masked w - {running (system_of w)}\<rparr>)"
    by (rule started.respond [OF w, of "Call Sti"]) (simp_all add: system_of_def)
  moreover from this have "possible Timer (w\<lparr>masked := masked w - {running (system_of w)}\<rparr>)"
    using started_inv [OF w] by (simp add: world_inv_def interrupts_on_def system_of_def running_def)
  ultimately show ?thesis using machine_refines_system [of _ Timer] by (fastforce simp: devices_kept_def)
qed

end
