(* ===== verification/Cpu.thy ===== *)
theory Cpu
  imports Sched_Safety
begin

text \<open>
  The code that is written in assembly: the entries of the interrupt handlers (kernel/dev/dev_asm.s,
  kernel/time/time_asm.s, kernel/mm/mm_asm.s, kernel/interrupt/interrupt_start.s) and the
  macros of include/comm/asm.h that work on the flags and on the privilege level. A program is a
  list of instructions, run on the registers and the linear memory of a 32-bit processor in
  protected mode. What the processor does is the published behaviour of the instructions that
  occur here: the checks when a segment register is loaded, interrupt gates, \<open>iret\<close>. A
  check that fails would raise an exception and is \<open>None\<close>.
\<close>

unbundle bit_operations_syntax

section \<open>The processor\<close>

datatype reg = EAX | ECX | EDX | EBX | ESP | EBP | ESI | EDI
datatype seg = ES | CS | SS | DS | FS | GS

record cpu =
  c_regs :: "reg \<Rightarrow> u32"
  c_segs :: "seg \<Rightarrow> u16"
  c_eip :: u32
  c_eflags :: u32
  c_cr2 :: u32
  c_mem :: ram

abbreviation put_reg :: "reg \<Rightarrow> u32 \<Rightarrow> cpu \<Rightarrow> cpu" where
  "put_reg r v s \<equiv> s\<lparr>c_regs := (c_regs s)(r := v)\<rparr>"

abbreviation put_seg :: "seg \<Rightarrow> u16 \<Rightarrow> cpu \<Rightarrow> cpu" where
  "put_seg r v s \<equiv> s\<lparr>c_segs := (c_segs s)(r := v)\<rparr>"

definition push :: "u32 \<Rightarrow> cpu \<Rightarrow> cpu" where
  "push v s = (let a = c_regs s ESP - 4 in s\<lparr>c_regs := (c_regs s)(ESP := a), c_mem := store32 (c_mem s) a v\<rparr>)"

text \<open>The dword at a distance above the top of the stack.\<close>

definition at_sp :: "u32 \<Rightarrow> cpu \<Rightarrow> u32" where
  "at_sp k s = load32 (c_mem s) (c_regs s ESP + k)"

definition add_sp :: "u32 \<Rightarrow> cpu \<Rightarrow> cpu" where
  "add_sp k s = put_reg ESP (c_regs s ESP + k) s"

subsection \<open>Segments\<close>

definition rpl :: "u16 \<Rightarrow> u32" where "rpl sel = ucast sel AND 3"
definition cpl :: "cpu \<Rightarrow> u32" where "cpl s = rpl (c_segs s CS)"
definition null_sel :: "u16 \<Rightarrow> bool" where "null_sel sel \<longleftrightarrow> sel AND 0xFFFC = 0"

text \<open>No local descriptor table is ever loaded, so that bit 2 of a selector has to be clear.\<close>

definition descriptor :: "(nat \<Rightarrow> gdt_desc) \<Rightarrow> u16 \<Rightarrow> gdt_desc option" where
  "descriptor g sel = (if null_sel sel \<or> bit sel 2 then None else Some (g (unat (drop_bit 3 sel))))"

definition code_desc :: "gdt_desc \<Rightarrow> bool" where
  "code_desc d \<longleftrightarrow> \<not> seg_system d \<and> seg_present d \<and> bit (seg_type d) 3"

definition conforming :: "gdt_desc \<Rightarrow> bool" where
  "conforming d \<longleftrightarrow> code_desc d \<and> bit (seg_type d) 2"

definition readable :: "gdt_desc \<Rightarrow> bool" where
  "readable d \<longleftrightarrow> \<not> seg_system d \<and> seg_present d \<and> (bit (seg_type d) 3 \<longrightarrow> bit (seg_type d) 1)"

definition writable :: "gdt_desc \<Rightarrow> bool" where
  "writable d \<longleftrightarrow> \<not> seg_system d \<and> seg_present d \<and> \<not> bit (seg_type d) 3 \<and> bit (seg_type d) 1"

text \<open>Loading ds, es, fs or gs: a null selector can be loaded, but not be used.\<close>

definition data_ok :: "(nat \<Rightarrow> gdt_desc) \<Rightarrow> u32 \<Rightarrow> u16 \<Rightarrow> bool" where
  "data_ok g pl sel \<longleftrightarrow> null_sel sel \<or> (case descriptor g sel of None \<Rightarrow> False
     | Some d \<Rightarrow> readable d \<and> (conforming d \<or> (pl \<le> seg_dpl d \<and> rpl sel \<le> seg_dpl d)))"

definition stack_ok :: "(nat \<Rightarrow> gdt_desc) \<Rightarrow> u32 \<Rightarrow> u16 \<Rightarrow> bool" where
  "stack_ok g pl sel \<longleftrightarrow> (case descriptor g sel of None \<Rightarrow> False
     | Some d \<Rightarrow> writable d \<and> rpl sel = pl \<and> seg_dpl d = pl)"

text \<open>On return to an outer level the data segments that are not allowed there become null.\<close>

definition outer_seg :: "(nat \<Rightarrow> gdt_desc) \<Rightarrow> u32 \<Rightarrow> u16 \<Rightarrow> u16" where
  "outer_seg g pl sel = (case descriptor g sel of None \<Rightarrow> sel
     | Some d \<Rightarrow> if \<not> conforming d \<and> seg_dpl d < pl then 0 else sel)"

subsection \<open>Flags, interrupts and \<open>iret\<close>\<close>

text \<open>Bit 1 of the flags register is always set, bits 3, 5, 15 and from 22 on are always clear.\<close>

definition flags_of :: "u32 \<Rightarrow> u32" where "flags_of v = (v AND 0x3F7FD5) OR 2"

text \<open>\<open>popfl\<close> at level 0 clears RF, VIF and VIP and leaves VM; \<open>pushfl\<close> stores RF and VM as clear.\<close>

definition popped_flags :: "u32 \<Rightarrow> u32 \<Rightarrow> u32" where
  "popped_flags old v = (v AND 0x247FD5) OR (old AND 0x20000) OR 2"

definition pushed_flags :: "u32 \<Rightarrow> u32" where "pushed_flags v = v AND 0xFCFFFF"

text \<open>
  \<open>iret\<close> at level 0, which is where the kernel uses it: not from a nested task (NT) and not to
  virtual 8086 mode (VM).
\<close>

definition iret :: "(nat \<Rightarrow> gdt_desc) \<Rightarrow> cpu \<Rightarrow> cpu option" where
  "iret g s =
     (let ip = at_sp 0 s; cs = ucast (at_sp 4 s) :: u16; fl = at_sp 8 s; pl = rpl cs in
      if cpl s \<noteq> 0 \<or> bit (c_eflags s) 14 \<or> bit fl 17 then None
      else case descriptor g cs of None \<Rightarrow> None
      | Some d \<Rightarrow>
         if \<not> code_desc d \<or> (if conforming d then pl < seg_dpl d else seg_dpl d \<noteq> pl) then None
         else let s1 = s\<lparr>c_eip := ip, c_eflags := flags_of fl\<rparr> in
           if pl = 0 then Some (put_seg CS cs (add_sp 12 s1))
           else let ss = ucast (at_sp 16 s) :: u16 in
             if \<not> stack_ok g pl ss then None
             else Some (put_reg ESP (at_sp 12 s) (s1\<lparr>c_segs := (\<lambda>r. case r of CS \<Rightarrow> cs | SS \<Rightarrow> ss
                    | _ \<Rightarrow> outer_seg g pl (c_segs s r))\<rparr>)))"

text \<open>
  Delivery of interrupt \<open>n\<close>, for some exceptions with an error code: the gate has to be a 32-bit
  interrupt gate to a code segment of level 0; from another level the stack comes from the TSS of
  the running task. The flags that are cleared are VM, RF, NT, IF and TF.
\<close>

definition deliver :: "(nat \<Rightarrow> gdt_desc) \<Rightarrow> (nat \<Rightarrow> idt_desc) \<Rightarrow> tss_t \<Rightarrow> nat \<Rightarrow> u32 option \<Rightarrow> cpu \<Rightarrow> cpu option" where
  "deliver g it t n err s =
     (let gate = it n; cs = gate_selector gate; ss0 = ucast (tss_ss0 t) :: u16 in
      if \<not> seg_present gate \<or> \<not> seg_system gate \<or> seg_type gate \<noteq> 0xE then None
      else case descriptor g cs of None \<Rightarrow> None
      | Some d \<Rightarrow>
         if \<not> code_desc d \<or> conforming d \<or> seg_dpl d \<noteq> 0 then None
         else if cpl s \<noteq> 0 \<and> \<not> stack_ok g 0 ss0 then None
         else
           let s1 = (if cpl s = 0 then s
                     else push (c_regs s ESP) (push (ucast (c_segs s SS)) (put_seg SS ss0 (put_reg ESP (tss_esp0 t) s))));
               s2 = push (c_eip s) (push (ucast (c_segs s CS)) (push (c_eflags s) s1));
               s3 = (case err of None \<Rightarrow> s2 | Some e \<Rightarrow> push e s2)
           in Some (put_seg CS (cs AND 0xFFFC) (s3\<lparr>c_eip := gate_offset gate, c_eflags := c_eflags s AND NOT 0x34300\<rparr>)))"

subsection \<open>Instructions\<close>

text \<open>
  \<open>Call ra\<close> calls a C function \<open>f\<close>, a parameter, which finds the return address \<open>ra\<close> on the
  stack and its arguments above it. \<open>Rep_Movsl\<close> is what the compiler makes of the assignment of a structure.
\<close>

datatype instr =
    Pushad | Popad | Push reg | Push_Imm u32 | Push_Ds | Pop reg | Pop_Ds | Pushfl | Popfl
  | Mov reg reg | Mov_Stack reg u32 | Mov_Cr2 reg | Mov_Ax u16 | Mov_Seg seg | Add_Esp u32
  | Call u32 | Iret | Rep_Movsl

definition pushad :: "cpu \<Rightarrow> cpu" where
  "pushad s = fold (\<lambda>r. push (c_regs s r)) [EAX, ECX, EDX, EBX, ESP, EBP, ESI, EDI] s"

definition popad :: "cpu \<Rightarrow> cpu" where
  "popad s = s\<lparr>c_regs := (\<lambda>r. case r of EDI \<Rightarrow> at_sp 0 s | ESI \<Rightarrow> at_sp 4 s | EBP \<Rightarrow> at_sp 8 s
     | EBX \<Rightarrow> at_sp 16 s | EDX \<Rightarrow> at_sp 20 s | ECX \<Rightarrow> at_sp 24 s | EAX \<Rightarrow> at_sp 28 s | ESP \<Rightarrow> c_regs s ESP + 32)\<rparr>"

definition load_seg :: "(nat \<Rightarrow> gdt_desc) \<Rightarrow> seg \<Rightarrow> u16 \<Rightarrow> cpu \<Rightarrow> cpu option" where
  "load_seg g r sel s = (if data_ok g (cpl s) sel then Some (put_seg r sel s) else None)"

definition call_c :: "u32 \<Rightarrow> (cpu \<Rightarrow> cpu) \<Rightarrow> cpu \<Rightarrow> cpu" where
  "call_c ra f s = (add_sp 4 (f (push ra s)))\<lparr>c_eip := ra\<rparr>"

definition rep_movsl :: "cpu \<Rightarrow> cpu option" where
  "rep_movsl s =
     (let n = unat (c_regs s ECX); d = (if bit (c_eflags s) 10 then -4 else 4) in
      if n = 0 then Some s
      else if null_sel (c_segs s ES) \<or> null_sel (c_segs s DS) then None
      else Some (s\<lparr>c_mem := fold (\<lambda>i m. store32 m (c_regs s EDI + d * of_nat i)
               (load32 m (c_regs s ESI + d * of_nat i))) [0..<n] (c_mem s),
             c_regs := (c_regs s)(ECX := 0, EDI := c_regs s EDI + d * of_nat n, ESI := c_regs s ESI + d * of_nat n)\<rparr>))"

fun exec :: "(nat \<Rightarrow> gdt_desc) \<Rightarrow> (cpu \<Rightarrow> cpu) \<Rightarrow> instr \<Rightarrow> cpu \<Rightarrow> cpu option" where
  "exec g f Pushad s = Some (pushad s)"
| "exec g f Popad s = Some (popad s)"
| "exec g f (Push r) s = Some (push (c_regs s r) s)"
| "exec g f (Push_Imm v) s = Some (push v s)"
| "exec g f Push_Ds s = Some (push (ucast (c_segs s DS)) s)"
| "exec g f (Pop r) s = Some (put_reg r (at_sp 0 s) (add_sp 4 s))"
| "exec g f Pop_Ds s = load_seg g DS (ucast (at_sp 0 s)) (add_sp 4 s)"
| "exec g f Pushfl s = Some (push (pushed_flags (c_eflags s)) s)"
| "exec g f Popfl s = (if cpl s \<noteq> 0 then None
     else Some (add_sp 4 (s\<lparr>c_eflags := popped_flags (c_eflags s) (at_sp 0 s)\<rparr>)))"
| "exec g f (Mov to from) s = Some (put_reg to (c_regs s from) s)"
| "exec g f (Mov_Stack r k) s = Some (put_reg r (at_sp k s) s)"
| "exec g f (Mov_Cr2 r) s = (if cpl s \<noteq> 0 then None else Some (put_reg r (c_cr2 s) s))"
| "exec g f (Mov_Ax v) s = Some (put_reg EAX ((c_regs s EAX AND 0xFFFF0000) OR ucast v) s)"
| "exec g f (Mov_Seg r) s = load_seg g r (ucast (c_regs s EAX)) s"
| "exec g f (Add_Esp k) s = Some (add_sp k s)"
| "exec g f (Call ra) s = Some (call_c ra f s)"
| "exec g f Iret s = iret g s"
| "exec g f Rep_Movsl s = rep_movsl s"

fun run_code :: "(nat \<Rightarrow> gdt_desc) \<Rightarrow> (cpu \<Rightarrow> cpu) \<Rightarrow> instr list \<Rightarrow> cpu \<Rightarrow> cpu option" where
  "run_code g f [] s = Some s"
| "run_code g f (i # is) s = Option.bind (exec g f i s) (run_code g f is)"

lemma run_steps:
  "run_code g f [] = Some" "run_code g f (i # is) = (\<lambda>s. Option.bind (exec g f i s) (run_code g f is))"
  by (simp_all add: fun_eq_iff)

section \<open>The programs\<close>

text \<open>
  The address after each \<open>call\<close>, and that of the label in \<open>move_to_user_mode\<close>, come from the
  assembler.
\<close>

definition timer_stub :: "u32 \<Rightarrow> instr list" where
  "timer_stub ra = [Pushad, Push_Ds, Call ra, Pop_Ds, Popad, Iret]"

definition keyboard_stub :: "u32 \<Rightarrow> instr list" where
  "keyboard_stub ra = [Pushad, Push_Ds, Call ra, Pop_Ds, Popad, Iret]"

definition page_fault_stub :: "u32 \<Rightarrow> instr list" where
  "page_fault_stub ra = [Pushad, Push_Ds, Mov_Stack EAX 0x24, Mov_Cr2 EBX, Push EAX, Push EBX, Call ra,
     Add_Esp 8, Pop_Ds, Popad, Add_Esp 4, Iret]"

definition ignore_int_stub :: "instr list" where "ignore_int_stub = [Iret]"

text \<open>
  The first instruction after the label is \<open>movl $0x23,%%ax\<close> in the source, a 32-bit move into a
  16-bit register, which the assembler would reject if the macro were used; the instruction here is \<open>movw\<close>.
\<close>

definition move_to_user_mode :: "u32 \<Rightarrow> instr list" where
  "move_to_user_mode label = [Mov EAX ESP, Push_Imm 0x23, Push EAX, Pushfl, Push_Imm 0x1b, Push_Imm label, Iret,
     Mov_Ax 0x23, Mov_Seg DS, Mov_Seg ES, Mov_Seg FS, Mov_Seg GS]"

definition read_eflags :: "instr list" where "read_eflags = [Pushfl, Pop EAX]"
definition write_eflags :: "instr list" where "write_eflags = [Push EAX, Popfl]"

section \<open>The stack\<close>

lemma load32_far:
  assumes "4 \<le> unat (b - a)" "unat (b - a) \<le> 4294967292"
  shows "load32 (store32 m a v) b = load32 m b"
proof -
  have "b + y \<noteq> a + x" if "x \<in> {0, 1, 2, 3}" "y \<in> {0, 1, 2, 3}" for x y
  proof
    assume "b + y = a + x"
    then have "b - a = x - y" by (simp add: algebra_simps)
    with assms that show False by (auto simp: unsigned_minus_1_eq_mask mask_eq_exp_minus_1)
  qed
  from this [of 0] this [of 1] this [of 2] this [of 3] have "store32 m a v (b + y) = m (b + y)" if "y \<in> {0, 1, 2, 3}" for y
    using that by (simp add: store32_def)
  from this [of 0] this [of 1] this [of 2] this [of 3] show ?thesis by (simp add: load32_def)
qed

lemma push_regs [simp]: "c_regs (push v s) = (c_regs s)(ESP := c_regs s ESP - 4)"
  by (simp add: push_def Let_def)

lemma push_rest [simp]:
  "c_segs (push v s) = c_segs s" "c_eip (push v s) = c_eip s" "c_eflags (push v s) = c_eflags s" "c_cr2 (push v s) = c_cr2 s"
  by (simp_all add: push_def Let_def)

lemma add_sp_simps [simp]:
  "c_regs (add_sp k s) = (c_regs s)(ESP := c_regs s ESP + k)" "c_segs (add_sp k s) = c_segs s" "c_eip (add_sp k s) = c_eip s"
  "c_eflags (add_sp k s) = c_eflags s" "c_cr2 (add_sp k s) = c_cr2 s" "c_mem (add_sp k s) = c_mem s"
  by (simp_all add: add_sp_def)

lemma at_sp_push:
  "at_sp 0 (push v s) = v"
  "4 \<le> unat k \<Longrightarrow> unat k \<le> 4294967292 \<Longrightarrow> at_sp k (push v s) = at_sp (k - 4) s"
proof -
  show "at_sp 0 (push v s) = v" by (simp add: at_sp_def push_def Let_def load32_store32)
  assume "4 \<le> unat k" "unat k \<le> 4294967292"
  then have "load32 (store32 (c_mem s) (c_regs s ESP - 4) v) (c_regs s ESP - 4 + k) = load32 (c_mem s) (c_regs s ESP - 4 + k)"
    by (intro load32_far) (simp_all add: algebra_simps)
  then show "at_sp k (push v s) = at_sp (k - 4) s" by (simp add: at_sp_def push_def Let_def algebra_simps)
qed

section \<open>Calling C\<close>

text \<open>
  What the compiled C code keeps, which the stubs rely on: the registers that the calling convention
  names, the segment registers, the stack of its caller above the arguments, and the nested task flag.
\<close>

definition obeys_cdecl :: "nat \<Rightarrow> cpu \<Rightarrow> cpu \<Rightarrow> bool" where
  "obeys_cdecl n s s' \<longleftrightarrow> (\<forall>r \<in> {EBX, ESP, EBP, ESI, EDI}. c_regs s' r = c_regs s r) \<and> c_segs s' = c_segs s \<and>
     \<not> bit (c_eflags s') 14 \<and> (\<forall>k \<in> {n + 1..n + 16}. at_sp (4 * of_nat k) s' = at_sp (4 * of_nat k) s)"

lemma ucast_slot [simp]: "ucast (ucast w :: u32) = w" for w :: u16
  by (rule bit_word_eqI) (simp add: bit_unsigned_iff)

lemma at_sp_add [simp]: "at_sp k (add_sp j s) = at_sp (j + k) s"
  by (simp add: at_sp_def add.assoc)

lemma at_sp_upd [simp]:
  "at_sp k (s\<lparr>c_eip := ip\<rparr>) = at_sp k s" "at_sp k (s\<lparr>c_eflags := fl\<rparr>) = at_sp k s" "at_sp k (s\<lparr>c_segs := sg\<rparr>) = at_sp k s"
  "r \<noteq> ESP \<Longrightarrow> at_sp k (put_reg r v s) = at_sp k s"
  by (simp_all add: at_sp_def)

lemma cpl_upd [simp]: "cpl (push v s) = cpl s" "cpl (add_sp k s) = cpl s" "cpl (s\<lparr>c_regs := f\<rparr>) = cpl s" "cpl (s\<lparr>c_eip := ip\<rparr>) = cpl s"
  by (simp_all add: cpl_def)

lemma pushad_simps [simp]:
  "c_regs (pushad s) = (c_regs s)(ESP := c_regs s ESP - 32)" "c_segs (pushad s) = c_segs s" "c_eip (pushad s) = c_eip s"
  "c_eflags (pushad s) = c_eflags s" "c_cr2 (pushad s) = c_cr2 s" "cpl (pushad s) = cpl s"
  by (simp_all add: pushad_def)

lemma at_sp_pushad:
  "at_sp 0 (pushad s) = c_regs s EDI" "at_sp 4 (pushad s) = c_regs s ESI" "at_sp 8 (pushad s) = c_regs s EBP"
  "at_sp 16 (pushad s) = c_regs s EBX" "at_sp 20 (pushad s) = c_regs s EDX" "at_sp 24 (pushad s) = c_regs s ECX"
  "at_sp 28 (pushad s) = c_regs s EAX"
  "at_sp 32 (pushad s) = at_sp 0 s" "at_sp 36 (pushad s) = at_sp 4 s" "at_sp 40 (pushad s) = at_sp 8 s"
  "at_sp 44 (pushad s) = at_sp 12 s" "at_sp 48 (pushad s) = at_sp 16 s" "at_sp 52 (pushad s) = at_sp 20 s"
  by (simp_all add: pushad_def at_sp_push)

lemma at_sp_args:
  "length args + k \<le> 100 \<Longrightarrow> at_sp (4 * of_nat (length args + k)) (fold push args s) = at_sp (4 * of_nat k) s"
proof (induction args arbitrary: s k)
  case (Cons v args)
  have "4 * of_nat (k + 1) = (of_nat (4 * k + 4) :: u32)" by simp
  moreover have "unat (of_nat (4 * k + 4) :: u32) = 4 * k + 4" using Cons.prems by (intro unat_of_nat_small) simp
  ultimately have u: "unat (4 * of_nat (k + 1) :: u32) = 4 * k + 4" by (simp only:)
  have "at_sp (4 * of_nat (length args + (k + 1))) (fold push args (push v s)) = at_sp (4 * of_nat (k + 1)) (push v s)"
    using Cons.prems by (intro Cons.IH) simp
  also have "\<dots> = at_sp (4 * of_nat k) s" using at_sp_push(2) [of "4 * of_nat (k + 1)" v s] u Cons.prems by simp
  finally show ?case by simp
qed simp

lemma fold_push [simp]:
  "c_regs (fold push args s) = (c_regs s)(ESP := c_regs s ESP - 4 * of_nat (length args))" "c_segs (fold push args s) = c_segs s"
  by (induction args arbitrary: s) (simp_all add: algebra_simps)

text \<open>Calling \<open>f\<close> with arguments, and taking them off the stack again, keeps the stack.\<close>

definition call_args :: "u32 \<Rightarrow> (cpu \<Rightarrow> cpu) \<Rightarrow> u32 list \<Rightarrow> cpu \<Rightarrow> cpu" where
  "call_args ra f args s = add_sp (4 * of_nat (length args)) (call_c ra f (fold push args s))"

abbreviation entered :: "u32 \<Rightarrow> u32 list \<Rightarrow> cpu \<Rightarrow> cpu" where
  "entered ra args s \<equiv> push ra (fold push args s)"

lemma call_args_keeps:
  assumes "obeys_cdecl (length args) (entered ra args s) (f (entered ra args s))" "length args \<le> 80"
  shows "c_regs (call_args ra f args s) ESP = c_regs s ESP" "c_segs (call_args ra f args s) = c_segs s"
    "\<not> bit (c_eflags (call_args ra f args s)) 14" "k < 16 \<Longrightarrow> at_sp (4 * of_nat k) (call_args ra f args s) = at_sp (4 * of_nat k) s"
proof -
  let ?e = "entered ra args s"
  have K: "n \<in> {length args + 1..length args + 16} \<Longrightarrow> at_sp (4 * of_nat n) (f ?e) = at_sp (4 * of_nat n) ?e" for n
    using assms(1) by (simp add: obeys_cdecl_def)
  show "c_regs (call_args ra f args s) ESP = c_regs s ESP" "c_segs (call_args ra f args s) = c_segs s"
    "\<not> bit (c_eflags (call_args ra f args s)) 14"
    using assms by (simp_all add: call_args_def call_c_def obeys_cdecl_def)
  assume k: "k < 16"
  have "at_sp (4 * of_nat k) (call_args ra f args s) = at_sp (4 * of_nat (length args + (k + 1))) (f ?e)"
    by (simp add: call_args_def call_c_def algebra_simps)
  also have "\<dots> = at_sp (4 * of_nat (length args + (k + 1))) ?e"
    by (rule K) (use k in simp)
  also have "\<dots> = at_sp (4 * of_nat k) s"
    using at_sp_args [of "args @ [ra]" k s] k assms(2) by (simp add: algebra_simps)
  finally show "at_sp (4 * of_nat k) (call_args ra f args s) = at_sp (4 * of_nat k) s" .
qed

lemma popad_restores:
  assumes "c_regs s' ESP = c_regs s ESP - 32"
    "at_sp 0 s' = c_regs s EDI" "at_sp 4 s' = c_regs s ESI" "at_sp 8 s' = c_regs s EBP" "at_sp 16 s' = c_regs s EBX"
    "at_sp 20 s' = c_regs s EDX" "at_sp 24 s' = c_regs s ECX" "at_sp 28 s' = c_regs s EAX"
  shows "c_regs (popad s') = c_regs s"
proof
  fix r show "c_regs (popad s') r = c_regs s r" using assms by (cases r) (simp_all add: popad_def)
qed

lemma popad_rest [simp]:
  "c_segs (popad s) = c_segs s" "c_eip (popad s) = c_eip s" "c_eflags (popad s) = c_eflags s" "c_cr2 (popad s) = c_cr2 s" "c_mem (popad s) = c_mem s"
  "cpl (popad s) = cpl s"
  by (simp_all add: popad_def cpl_def)

text \<open>The stack after \<open>pushad\<close> and \<open>push ds\<close>, and the way back from it.\<close>

definition saved :: "cpu \<Rightarrow> cpu" where
  "saved s = push (ucast (c_segs s DS)) (pushad s)"

lemma saved_at:
  "at_sp 0 (saved s) = ucast (c_segs s DS)" "at_sp 4 (saved s) = c_regs s EDI" "at_sp 8 (saved s) = c_regs s ESI"
  "at_sp 12 (saved s) = c_regs s EBP" "at_sp 20 (saved s) = c_regs s EBX" "at_sp 24 (saved s) = c_regs s EDX"
  "at_sp 28 (saved s) = c_regs s ECX" "at_sp 32 (saved s) = c_regs s EAX" "at_sp 36 (saved s) = at_sp 0 s"
  "at_sp 40 (saved s) = at_sp 4 s" "at_sp 44 (saved s) = at_sp 8 s" "at_sp 48 (saved s) = at_sp 12 s"
  "at_sp 52 (saved s) = at_sp 16 s" "at_sp 56 (saved s) = at_sp 20 s"
  by (simp_all add: saved_def at_sp_push at_sp_pushad)

lemma saved_cr2 [simp]: "c_cr2 (saved s) = c_cr2 s" "cpl (saved s) = cpl s"
  by (simp_all add: saved_def)

lemma restored:
  assumes "c_regs c ESP = c_regs s ESP - 36" "c_segs c = c_segs s" "\<And>k. k < 15 \<Longrightarrow> at_sp (4 * of_nat k) c = at_sp (4 * of_nat k) (saved s)"
    "data_ok g (cpl s) (c_segs s DS)"
  obtains r where "Option.bind (exec g f Pop_Ds c) (exec g f Popad) = Some r" "c_regs r = c_regs s" "c_segs r = c_segs s"
    "c_mem r = c_mem c" "c_cr2 r = c_cr2 c" "c_eflags r = c_eflags c" "c_eip r = c_eip c" "\<forall>k \<in> {0, 4, 8, 12, 16, 20}. at_sp k r = at_sp k s"
proof -
  define c1 where "c1 = put_seg DS (c_segs s DS) (add_sp 4 c)"
  note K = assms(3) [of 0] assms(3) [of 1] assms(3) [of 2] assms(3) [of 3] assms(3) [of 5] assms(3) [of 6] assms(3) [of 7]
    assms(3) [of 8] assms(3) [of 9] assms(3) [of 10] assms(3) [of 11] assms(3) [of 12] assms(3) [of 13] assms(3) [of 14]
  have A: "at_sp 0 c = ucast (c_segs s DS)" "at_sp 0 c1 = c_regs s EDI" "at_sp 4 c1 = c_regs s ESI" "at_sp 8 c1 = c_regs s EBP"
    "at_sp 16 c1 = c_regs s EBX" "at_sp 20 c1 = c_regs s EDX" "at_sp 24 c1 = c_regs s ECX" "at_sp 28 c1 = c_regs s EAX"
    "at_sp 32 c1 = at_sp 0 s" "at_sp 36 c1 = at_sp 4 s" "at_sp 40 c1 = at_sp 8 s" "at_sp 44 c1 = at_sp 12 s"
    "at_sp 48 c1 = at_sp 16 s" "at_sp 52 c1 = at_sp 20 s"
    using K by (simp_all add: c1_def saved_at)
  have regs: "c_regs (popad c1) = c_regs s"
    using A assms(1) by (intro popad_restores) (simp_all add: c1_def)
  have "cpl (add_sp 4 c) = cpl s" by (simp add: cpl_def assms(2))
  then have "Option.bind (exec g f Pop_Ds c) (exec g f Popad) = Some (popad c1)"
    using A(1) assms(4) by (simp add: load_seg_def c1_def)
  moreover have "at_sp k (popad c1) = at_sp k s" if "k \<in> {0, 4, 8, 12, 16, 20}" for k
  proof -
    have "at_sp k (popad c1) = at_sp (32 + k) c1"
      using assms(1) by (simp add: at_sp_def regs) (simp add: c1_def algebra_simps)
    with that A show ?thesis by auto
  qed
  ultimately show thesis using regs assms(2) by (intro that [of "popad c1"] ballI) (simp_all add: c1_def)
qed

section \<open>Interrupts\<close>

text \<open>The four segments of \<open>reload_gdt\<close>.\<close>

definition flat_gdt :: "(nat \<Rightarrow> gdt_desc) \<Rightarrow> bool" where
  "flat_gdt g \<longleftrightarrow> (\<forall>i \<in> {1, 2, 3, 4}. g i = initial_gdt i)"

lemma flat_entry:
  "code_desc (initial_gdt 1)" "\<not> conforming (initial_gdt 1)" "seg_dpl (initial_gdt 1) = 0"
  "code_desc (initial_gdt 3)" "\<not> conforming (initial_gdt 3)" "seg_dpl (initial_gdt 3) = 3"
  "writable (initial_gdt 2)" "readable (initial_gdt 2)" "seg_dpl (initial_gdt 2) = 0"
  "writable (initial_gdt 4)" "readable (initial_gdt 4)" "seg_dpl (initial_gdt 4) = 3"
  by (simp_all add: initial_gdt_def code_desc_def conforming_def writable_def readable_def desc_decode)

lemmas flat_entries = flat_entry flat_entry [unfolded One_nat_def]

lemma rpl_sels [simp]: "rpl 8 = 0" "rpl 0x10 = 0" "rpl 0x1B = 3" "rpl 0x23 = 3"
  by (simp_all add: rpl_def)

lemma flat_descriptors:
  assumes "flat_gdt g"
  shows "descriptor g 8 = Some (initial_gdt 1)" "descriptor g 0x10 = Some (initial_gdt 2)"
    "descriptor g 0x1B = Some (initial_gdt 3)" "descriptor g 0x23 = Some (initial_gdt 4)"
  using assms by (simp_all add: descriptor_def null_sel_def flat_gdt_def)

lemma flat_ok:
  assumes "flat_gdt g"
  shows "stack_ok g 0 0x10" "stack_ok g 3 0x23" "data_ok g 3 0x23" "data_ok g 0 0x10" "data_ok g 0 0x23"
  using flat_descriptors [OF assms] by (simp_all add: stack_ok_def data_ok_def flat_entries)

lemma data_ok_outer:
  assumes "data_ok g pl sel"
  shows "data_ok g 0 sel" "outer_seg g pl sel = sel"
  using assms by (auto simp: data_ok_def outer_seg_def descriptor_def split: option.splits)

text \<open>
  Code that runs at level 0 or 3 with the segments of the kernel; at level 3 the TSS of its process has a stack for
  level 0. The flags are such as the processor can have outside virtual 8086 mode.
\<close>

definition runs_at :: "(nat \<Rightarrow> gdt_desc) \<Rightarrow> tss_t \<Rightarrow> cpu \<Rightarrow> bool" where
  "runs_at g t s \<longleftrightarrow>
     (c_segs s CS = 8 \<or> c_segs s CS = 0x1B \<and> c_segs s SS = 0x23 \<and> tss_ss0 t = 0x10) \<and>
     (\<forall>r \<in> {DS, ES, FS, GS}. data_ok g (cpl s) (c_segs s r)) \<and>
     flags_of (c_eflags s) = c_eflags s \<and> \<not> bit (c_eflags s) 17"

definition runs_flat :: "(nat \<Rightarrow> gdt_desc) \<Rightarrow> tss_t \<Rightarrow> cpu \<Rightarrow> bool" where
  "runs_flat g t s \<longleftrightarrow> flat_gdt g \<and> runs_at g t s"

abbreviation err_size :: "u32 option \<Rightarrow> u32" where
  "err_size err \<equiv> (case err of None \<Rightarrow> 0 | Some _ \<Rightarrow> 4)"

lemma delivered_nt:
  assumes "deliver g it t n err s = Some e"
  shows "\<not> bit (c_eflags e) 14"
proof -
  have "bit (0x34300 :: u32) 14" by simp
  moreover have "c_eflags e = c_eflags s AND NOT 0x34300"
    using assms by (auto simp: deliver_def Let_def split: option.splits if_splits)
  ultimately show ?thesis by (simp only: bit_and_iff bit_not_iff) simp
qed

lemma delivered_cr2: "deliver g it t n err s = Some e \<Longrightarrow> c_cr2 e = c_cr2 s"
  by (auto simp: deliver_def Let_def split: option.splits if_splits)

lemma gate_ok:
  "seg_present (make_idt_desc 8 h)" "seg_system (make_idt_desc 8 h)" "seg_type (make_idt_desc 8 h) = 0xE"
  "gate_selector (make_idt_desc 8 h) = 8" "gate_offset (make_idt_desc 8 h) = h"
  using make_idt_desc_decodes [of 8 h] by simp_all

lemma delivered:
  assumes "runs_flat g t s" "it n = make_idt_desc 8 h"
  obtains e where "deliver g it t n err s = Some e" "\<forall>r. r \<noteq> ESP \<longrightarrow> c_regs e r = c_regs s r"
    "c_segs e = (c_segs s)(CS := 8, SS := if cpl s = 0 then c_segs s SS else 0x10)" "c_cr2 e = c_cr2 s" "c_eip e = h"
    "err \<noteq> None \<longrightarrow> at_sp 0 e = the err" "at_sp (err_size err) e = c_eip s" "at_sp (err_size err + 4) e = ucast (c_segs s CS)"
    "at_sp (err_size err + 8) e = c_eflags s" "cpl s = 0 \<longrightarrow> c_regs e ESP + err_size err + 12 = c_regs s ESP"
    "cpl s \<noteq> 0 \<longrightarrow> at_sp (err_size err + 12) e = c_regs s ESP \<and> at_sp (err_size err + 16) e = ucast (c_segs s SS)"
proof -
  have g: "flat_gdt g" using assms(1) by (simp add: runs_flat_def runs_at_def)
  note D = flat_descriptors(1) [OF g] flat_ok(1) [OF g]
  have pl: "cpl s = 0 \<and> c_segs s CS = 8 \<or> cpl s = 3 \<and> c_segs s CS = 0x1B \<and> tss_ss0 t = 0x10"
    using assms(1) by (auto simp: runs_flat_def runs_at_def cpl_def)
  define s1 where "s1 = (if cpl s = 0 then s
    else push (c_regs s ESP) (push (ucast (c_segs s SS)) (put_seg SS 0x10 (put_reg ESP (tss_esp0 t) s))))"
  define s2 where "s2 = push (c_eip s) (push (ucast (c_segs s CS)) (push (c_eflags s) s1))"
  define e where "e = put_seg CS 8 ((case err of None \<Rightarrow> s2 | Some x \<Rightarrow> push x s2)\<lparr>c_eip := h, c_eflags := c_eflags s AND NOT 0x34300\<rparr>)"
  have S1: "\<forall>r. r \<noteq> ESP \<longrightarrow> c_regs s1 r = c_regs s r" "c_segs s1 = (c_segs s)(SS := if cpl s = 0 then c_segs s SS else 0x10)"
    "c_cr2 s1 = c_cr2 s" "cpl s = 0 \<longrightarrow> c_regs s1 ESP = c_regs s ESP"
    "cpl s \<noteq> 0 \<longrightarrow> at_sp 0 s1 = c_regs s ESP \<and> at_sp 4 s1 = ucast (c_segs s SS)"
    by (simp_all add: s1_def at_sp_push)
  have S2: "at_sp 0 s2 = c_eip s" "at_sp 4 s2 = ucast (c_segs s CS)" "at_sp 8 s2 = c_eflags s"
    "at_sp 12 s2 = at_sp 0 s1" "at_sp 16 s2 = at_sp 4 s1" "c_regs s2 = (c_regs s1)(ESP := c_regs s1 ESP - 12)" "c_segs s2 = c_segs s1" "c_cr2 s2 = c_cr2 s1"
    by (simp_all add: s2_def at_sp_push)
  have "deliver g it t n err s = Some e"
    using pl by (cases err) (auto simp: deliver_def assms(2) gate_ok D flat_entries Let_def e_def s2_def s1_def)
  moreover have "\<forall>r. r \<noteq> ESP \<longrightarrow> c_regs e r = c_regs s r"
    "c_segs e = (c_segs s)(CS := 8, SS := if cpl s = 0 then c_segs s SS else 0x10)" "c_cr2 e = c_cr2 s" "c_eip e = h"
    using S1(1,2,3) S2(6-8) by (cases err; simp add: e_def fun_eq_iff)+
  moreover have "err \<noteq> None \<longrightarrow> at_sp 0 e = the err" "at_sp (err_size err) e = c_eip s" "at_sp (err_size err + 4) e = ucast (c_segs s CS)"
    "at_sp (err_size err + 8) e = c_eflags s" "cpl s = 0 \<longrightarrow> c_regs e ESP + err_size err + 12 = c_regs s ESP"
    "cpl s \<noteq> 0 \<longrightarrow> at_sp (err_size err + 12) e = c_regs s ESP \<and> at_sp (err_size err + 16) e = ucast (c_segs s SS)"
    using S1(4,5) S2(1-6) by (cases err; simp add: e_def at_sp_push)+
  ultimately show thesis by (rule that [of e])
qed

lemma cpu_eqI:
  "r\<lparr>c_regs := c_regs s, c_segs := c_segs s, c_eip := c_eip s, c_eflags := c_eflags s\<rparr> = s\<lparr>c_mem := c_mem r, c_cr2 := c_cr2 r\<rparr>" for r s :: cpu
  by (rule cpu.equality) simp_all

lemma iret_back:
  assumes "runs_flat g t s" "c_segs r = (c_segs s)(CS := 8, SS := if cpl s = 0 then c_segs s SS else 0x10)"
    "\<And>x. x \<noteq> ESP \<Longrightarrow> c_regs r x = c_regs s x" "\<not> bit (c_eflags r) 14"
    "at_sp 0 r = c_eip s" "at_sp 4 r = ucast (c_segs s CS)" "at_sp 8 r = c_eflags s" "cpl s = 0 \<Longrightarrow> c_regs r ESP + 12 = c_regs s ESP"
    "cpl s \<noteq> 0 \<Longrightarrow> at_sp 12 r = c_regs s ESP \<and> at_sp 16 r = ucast (c_segs s SS)"
  shows "iret g r = Some (s\<lparr>c_mem := c_mem r, c_cr2 := c_cr2 r\<rparr>)"
proof -
  have g: "flat_gdt g" and fl: "flags_of (c_eflags s) = c_eflags s" "\<not> bit (c_eflags s) 17"
    and seg: "\<And>x. x \<in> {DS, ES, FS, GS} \<Longrightarrow> outer_seg g (cpl s) (c_segs s x) = c_segs s x"
    using assms(1) data_ok_outer(2) by (auto simp: runs_flat_def runs_at_def)
  have r0: "cpl r = 0" by (simp add: cpl_def assms(2))
  note D = flat_descriptors [OF g] flat_ok [OF g] flat_entries
  from assms(1) consider "c_segs s CS = 8" "cpl s = 0" | "c_segs s CS = 0x1B" "c_segs s SS = 0x23" "cpl s = 3"
    by (auto simp: runs_flat_def runs_at_def cpl_def)
  then show ?thesis
  proof cases
    case 1
    have "c_segs r = c_segs s" "(c_segs s)(CS := 8) = c_segs s" "(c_regs r)(ESP := c_regs r ESP + 12) = c_regs s"
      using assms(2,3,8) 1 by (auto simp: fun_eq_iff)
    then show ?thesis using 1 r0 fl assms(4-7) D cpu_eqI [of r s] by (simp add: iret_def Let_def add_sp_def)
  next
    case 2
    have "(\<lambda>x. case x of CS \<Rightarrow> 0x1B | SS \<Rightarrow> 0x23 | _ \<Rightarrow> outer_seg g (rpl 0x1B) (c_segs r x)) = c_segs s"
    proof
      fix x show "(case x of CS \<Rightarrow> 0x1B | SS \<Rightarrow> 0x23 | _ \<Rightarrow> outer_seg g (rpl 0x1B) (c_segs r x)) = c_segs s x"
        using seg [of x] 2 by (cases x) (simp_all add: assms(2))
    qed
    moreover have "(c_regs r)(ESP := c_regs s ESP) = c_regs s" using assms(3) by (auto simp: fun_eq_iff)
    ultimately show ?thesis using 2 r0 fl assms(4-7,9) D cpu_eqI [of r s] by (simp add: iret_def Let_def)
  qed
qed

text \<open>The state in which the C function of a handler starts: with the error code and the faulting address as its arguments, if any.\<close>

definition c_entry :: "u32 \<Rightarrow> u32 option \<Rightarrow> cpu \<Rightarrow> cpu" where
  "c_entry ra err e = (case err of None \<Rightarrow> entered ra [] (saved e)
     | Some x \<Rightarrow> entered ra [x, c_cr2 e] (put_reg EBX (c_cr2 e) (put_reg EAX x (saved e))))"

abbreviation c_args :: "u32 option \<Rightarrow> nat" where
  "c_args err \<equiv> (case err of None \<Rightarrow> 0 | Some _ \<Rightarrow> 2)"

text \<open>The stubs up to their \<open>iret\<close>.\<close>

lemma stub_body:
  assumes "data_ok g (cpl e) (c_segs e DS)" "cpl e = 0"
    "obeys_cdecl (c_args err) (c_entry ra err e) (f (c_entry ra err e))" "err \<noteq> None \<longrightarrow> at_sp 0 e = the err"
    "prog = (case err of None \<Rightarrow> timer_stub ra | Some _ \<Rightarrow> page_fault_stub ra)"
  obtains r where "run_code g f prog e = iret g r" "\<forall>y. y \<noteq> ESP \<longrightarrow> c_regs r y = c_regs e y"
    "c_regs r ESP = c_regs e ESP + err_size err" "c_segs r = c_segs e" "c_mem r = c_mem (f (c_entry ra err e))"
    "c_cr2 r = c_cr2 (f (c_entry ra err e))" "\<not> bit (c_eflags r) 14" "\<forall>k \<in> {0, 4, 8, 12, 16}. at_sp k r = at_sp (err_size err + k) e"
proof (cases err)
  case None
  define c where "c = call_args ra f [] (saved e)"
  have o: "obeys_cdecl (length ([] :: u32 list)) (entered ra [] (saved e)) (f (entered ra [] (saved e)))"
    using assms(3) None by (simp add: c_entry_def)
  note K = call_args_keeps [where args = "[]" and ra = ra and s = "saved e" and f = f, OF o, folded c_def]
  have K': "c_regs c ESP = c_regs e ESP - 36" "c_segs c = c_segs e" "\<And>k. k < 15 \<Longrightarrow> at_sp (4 * of_nat k) c = at_sp (4 * of_nat k) (saved e)"
    using K(1,2,4) by (simp_all add: saved_def)
  obtain r where r: "Option.bind (exec g f Pop_Ds c) (exec g f Popad) = Some r" "c_regs r = c_regs e" "c_segs r = c_segs e"
    "c_mem r = c_mem c" "c_cr2 r = c_cr2 c" "c_eflags r = c_eflags c" "c_eip r = c_eip c" "\<forall>k \<in> {0, 4, 8, 12, 16, 20}. at_sp k r = at_sp k e"
    by (rule restored [OF K' assms(1), where f = f])
  have "run_code g f prog e = Option.bind (Option.bind (exec g f Pop_Ds c) (exec g f Popad)) (iret g)"
    by (simp add: assms(5) None timer_stub_def c_def call_args_def saved_def add_sp_def run_steps)
  then have "run_code g f prog e = iret g r" unfolding r(1) by simp
  then show thesis using r(2-6,8) K(3) None by (intro that [of r]) (auto simp: c_def call_args_def call_c_def c_entry_def)
next
  case (Some x)
  define b where "b = put_reg EBX (c_cr2 e) (put_reg EAX x (saved e))"
  define c where "c = call_args ra f [x, c_cr2 e] b"
  have o: "obeys_cdecl (length [x, c_cr2 e]) (entered ra [x, c_cr2 e] b) (f (entered ra [x, c_cr2 e] b))"
    using assms(3) Some by (simp add: c_entry_def b_def numeral_2_eq_2)
  note K = call_args_keeps [where args = "[x, c_cr2 e]" and ra = ra and s = b and f = f, OF o, folded c_def]
  have K': "c_regs c ESP = c_regs e ESP - 36" "c_segs c = c_segs e" "\<And>k. k < 15 \<Longrightarrow> at_sp (4 * of_nat k) c = at_sp (4 * of_nat k) (saved e)"
    using K(1,2,4) by (simp_all add: b_def saved_def at_sp_def)
  obtain r where r: "Option.bind (exec g f Pop_Ds c) (exec g f Popad) = Some r" "c_regs r = c_regs e" "c_segs r = c_segs e"
    "c_mem r = c_mem c" "c_cr2 r = c_cr2 c" "c_eflags r = c_eflags c" "c_eip r = c_eip c" "\<forall>k \<in> {0, 4, 8, 12, 16, 20}. at_sp k r = at_sp k e"
    by (rule restored [OF K' assms(1), where f = f])
  have "at_sp 0x24 (saved e) = x" using assms(4) Some by (simp add: saved_at)
  then have "run_code g f prog e = Option.bind (Option.bind (exec g f Pop_Ds c) (exec g f Popad)) (\<lambda>r. iret g (add_sp 4 r))"
    by (simp add: assms(5) Some page_fault_stub_def c_def call_args_def b_def saved_def [symmetric] assms(2) run_steps)
  then have "run_code g f prog e = iret g (add_sp 4 r)" unfolding r(1) by simp
  then show thesis using r(2-6,8) K(3) Some by (intro that [of "add_sp 4 r"]) (auto simp: c_def call_args_def call_c_def c_entry_def b_def)
qed

text \<open>
  A stub between the interrupt and its \<open>iret\<close>: the C function is entered with its arguments on the stack (the faulting
  address and the error code), and everything but memory and the fault address comes back as it was.
\<close>

lemma stub_transparent:
  assumes "runs_flat g t s" "it n = make_idt_desc 8 h"
    "\<And>e. deliver g it t n err s = Some e \<Longrightarrow> obeys_cdecl (c_args err) (c_entry ra err e) (f (c_entry ra err e))"
    "prog \<in> (case err of None \<Rightarrow> {timer_stub ra, keyboard_stub ra} | Some _ \<Rightarrow> {page_fault_stub ra})"
  shows "\<exists>e. deliver g it t n err s = Some e \<and> c_eip e = h \<and>
    (let c = c_entry ra err e in at_sp 0 c = ra \<and> (err \<noteq> None \<longrightarrow> at_sp 4 c = c_cr2 s \<and> at_sp 8 c = the err) \<and>
       run_code g f prog e = Some (s\<lparr>c_mem := c_mem (f c), c_cr2 := c_cr2 (f c)\<rparr>))"
proof -
  obtain e where e: "deliver g it t n err s = Some e" "\<forall>r. r \<noteq> ESP \<longrightarrow> c_regs e r = c_regs s r"
    "c_segs e = (c_segs s)(CS := 8, SS := if cpl s = 0 then c_segs s SS else 0x10)" "c_cr2 e = c_cr2 s" "c_eip e = h"
    "err \<noteq> None \<longrightarrow> at_sp 0 e = the err" "at_sp (err_size err) e = c_eip s" "at_sp (err_size err + 4) e = ucast (c_segs s CS)"
    "at_sp (err_size err + 8) e = c_eflags s" "cpl s = 0 \<longrightarrow> c_regs e ESP + err_size err + 12 = c_regs s ESP"
    "cpl s \<noteq> 0 \<longrightarrow> at_sp (err_size err + 12) e = c_regs s ESP \<and> at_sp (err_size err + 16) e = ucast (c_segs s SS)"
    by (rule delivered [where g = g and it = it and t = t and n = n and err = err and s = s, OF assms(1,2)])
  have e0: "cpl e = 0" by (simp add: cpl_def e(3))
  have ds: "data_ok g (cpl e) (c_segs e DS)" unfolding e0 e(3) using assms(1) data_ok_outer(1) by (auto simp: runs_flat_def runs_at_def)
  have prog: "prog = (case err of None \<Rightarrow> timer_stub ra | Some _ \<Rightarrow> page_fault_stub ra)"
    using assms(4) by (auto simp: timer_stub_def keyboard_stub_def split: option.splits)
  obtain r where r: "run_code g f prog e = iret g r" "\<forall>y. y \<noteq> ESP \<longrightarrow> c_regs r y = c_regs e y"
    "c_regs r ESP = c_regs e ESP + err_size err" "c_segs r = c_segs e" "c_mem r = c_mem (f (c_entry ra err e))"
    "c_cr2 r = c_cr2 (f (c_entry ra err e))" "\<not> bit (c_eflags r) 14" "\<forall>k \<in> {0, 4, 8, 12, 16}. at_sp k r = at_sp (err_size err + k) e"
    by (rule stub_body [where f = f and g = g and e = e and err = err and ra = ra and prog = prog, OF ds e0 assms(3) [OF e(1)] e(6) prog])
  have "iret g r = Some (s\<lparr>c_mem := c_mem r, c_cr2 := c_cr2 r\<rparr>)"
    by (rule iret_back [OF assms(1)]) (use e r in auto)
  moreover have "at_sp 0 (c_entry ra err e) = ra" "err \<noteq> None \<longrightarrow> at_sp 4 (c_entry ra err e) = c_cr2 s \<and> at_sp 8 (c_entry ra err e) = the err"
    using e(4) by (auto simp: c_entry_def at_sp_push split: option.splits)
  ultimately show ?thesis using e(1,5) r(1,5,6) by (simp add: Let_def)
qed

text \<open>A keyboard handler that changes eax and ecx, as every C function may, and a page fault at 0x80000000.\<close>

definition demo_cpu :: cpu where
  "demo_cpu = \<lparr>c_regs = (\<lambda>r. if r = ESP then 0x90000 else 0xABCD), c_segs = (\<lambda>r. if r = CS then 8 else 0x10), c_eip = 0x100000,
     c_eflags = 0x202, c_cr2 = 0x80000000, c_mem = (\<lambda>_. 0)\<rparr>"

lemma demo_runs: "flat_gdt g \<Longrightarrow> runs_at g t demo_cpu"
  using flat_ok(4) by (simp add: runs_at_def demo_cpu_def cpl_def flags_of_def)

lemma demo_cdecl: "\<not> bit (c_eflags c) 14 \<Longrightarrow> obeys_cdecl n c (c\<lparr>c_regs := (c_regs c)(EAX := 0, ECX := 1)\<rparr>)"
  by (simp add: obeys_cdecl_def at_sp_def)

lemma c_entry_flags [simp]: "c_eflags (c_entry ra err e) = c_eflags e" "c_cr2 (c_entry ra err e) = c_cr2 e"
  by (cases err; simp add: c_entry_def saved_def)+

text \<open>
  \<open>ignore_int\<close>, the handler of all other vectors, returns from an interrupt; but from an exception with an
  error code (such as the general protection fault) it returns to the error code as an address.
\<close>

theorem ignore_int_returns:
  assumes "runs_flat g t s" "it n = make_idt_desc 8 h" "deliver g it t n err s = Some e"
  shows "err = None \<longrightarrow> run_code g f ignore_int_stub e = Some (s\<lparr>c_mem := c_mem e\<rparr>)"
    and "err = Some x \<longrightarrow> run_code g f ignore_int_stub e = Some s' \<longrightarrow> c_eip s' = x \<and> c_segs s' CS = ucast (c_eip s)"
proof -
  obtain e' where e': "deliver g it t n err s = Some e'" "\<forall>r. r \<noteq> ESP \<longrightarrow> c_regs e' r = c_regs s r"
    "c_segs e' = (c_segs s)(CS := 8, SS := if cpl s = 0 then c_segs s SS else 0x10)" "c_cr2 e' = c_cr2 s" "c_eip e' = h"
    "err \<noteq> None \<longrightarrow> at_sp 0 e' = the err" "at_sp (err_size err) e' = c_eip s" "at_sp (err_size err + 4) e' = ucast (c_segs s CS)"
    "at_sp (err_size err + 8) e' = c_eflags s" "cpl s = 0 \<longrightarrow> c_regs e' ESP + err_size err + 12 = c_regs s ESP"
    "cpl s \<noteq> 0 \<longrightarrow> at_sp (err_size err + 12) e' = c_regs s ESP \<and> at_sp (err_size err + 16) e' = ucast (c_segs s SS)"
    by (rule delivered [where g = g and it = it and t = t and n = n and err = err and s = s, OF assms(1,2)])
  have e: "e' = e" using e'(1) assms(3) by simp
  note nt = delivered_nt [OF assms(3)]
  have "err = None \<Longrightarrow> iret g e = Some (s\<lparr>c_mem := c_mem e, c_cr2 := c_cr2 e\<rparr>)"
    by (rule iret_back [OF assms(1)]) (use e' e nt in auto)
  moreover have "s\<lparr>c_mem := c_mem e, c_cr2 := c_cr2 s\<rparr> = s\<lparr>c_mem := c_mem e\<rparr>" by simp
  ultimately show "err = None \<longrightarrow> run_code g f ignore_int_stub e = Some (s\<lparr>c_mem := c_mem e\<rparr>)"
    using e'(4) e by (simp add: ignore_int_stub_def)
  show "err = Some x \<longrightarrow> run_code g f ignore_int_stub e = Some s' \<longrightarrow> c_eip s' = x \<and> c_segs s' CS = ucast (c_eip s)"
    using e'(6,7) e by (auto simp: ignore_int_stub_def iret_def Let_def split: option.splits if_splits)
qed

section \<open>Flags and privilege\<close>

text \<open>
  At level 0, \<open>write_eflags\<close> followed by \<open>read_eflags\<close> gives back the bits of the flags register that can be written,
  and leaves the stack pointer where it was.
\<close>

theorem eflags_roundtrip:
  assumes "cpl s = 0" "\<not> bit (c_eflags s) 17"
  shows "\<exists>s'. run_code g f (write_eflags @ read_eflags) s = Some s' \<and> c_regs s' = (c_regs s)(EAX := (c_regs s EAX AND 0x247FD5) OR 2) \<and>
    c_eflags s' = (c_regs s EAX AND 0x247FD5) OR 2"
proof -
  have "c_eflags s AND 0x20000 = 0"
  proof (rule bit_word_eqI)
    have "(0x20000 :: u32) = 2 ^ 17" by simp
    then have "bit (0x20000 :: u32) n \<longleftrightarrow> n = 17" for n by (simp only: bit_exp_iff) auto
    then show "bit (c_eflags s AND 0x20000) n = bit (0 :: u32) n" for n using assms(2) by (auto simp: bit_and_iff)
  qed
  then have "popped_flags (c_eflags s) v = (v AND 0x247FD5) OR 2" for v by (simp add: popped_flags_def)
  moreover have "((v AND 0x247FD5) OR 2) AND 0xFCFFFF = (v AND 0x247FD5) OR 2" for v :: u32
    by (simp add: bit.conj_disj_distrib2 and.assoc)
  ultimately show ?thesis
    using assms(1) by (simp add: write_eflags_def read_eflags_def run_steps at_sp_push pushed_flags_def fun_eq_iff)
qed

text \<open>
  \<open>move_to_user_mode\<close> goes on at its label, at level 3, with the data and code segments of user programs, on
  the same stack and with the same flags.
\<close>

theorem move_to_user_mode_level_3:
  assumes "flat_gdt g" "cpl s = 0" "\<not> bit (c_eflags s) 14" "\<not> bit (c_eflags s) 17"
  shows "\<exists>m. run_code g f (move_to_user_mode label) s = Some (s\<lparr>c_regs := (c_regs s)(EAX := (c_regs s ESP AND 0xFFFF0000) OR 0x23),
      c_segs := (\<lambda>r. if r = CS then 0x1B else 0x23), c_eip := label, c_eflags := flags_of (pushed_flags (c_eflags s)), c_mem := m\<rparr>)"
proof -
  define s1 where "s1 = push label (push 0x1B (push (pushed_flags (c_eflags s)) (push (c_regs s ESP) (push 0x23 (put_reg EAX (c_regs s ESP) s)))))"
  note D = flat_descriptors [OF assms(1)] flat_ok [OF assms(1)] flat_entries
  have A: "at_sp 0 s1 = label" "at_sp 4 s1 = 0x1B" "at_sp 8 s1 = pushed_flags (c_eflags s)" "at_sp 12 s1 = c_regs s ESP" "at_sp 16 s1 = 0x23"
    "c_eflags s1 = c_eflags s" "cpl s1 = 0"
    using assms(2) by (simp_all add: s1_def at_sp_push)
  have "\<not> bit (pushed_flags (c_eflags s)) 17" using assms(4) by (simp add: pushed_flags_def bit_and_iff)
  then obtain s2 where s2: "iret g s1 = Some s2" "c_segs s2 CS = 0x1B" "c_segs s2 SS = 0x23" "c_regs s2 = (c_regs s1)(ESP := c_regs s ESP)"
    "c_eip s2 = label" "c_eflags s2 = flags_of (pushed_flags (c_eflags s))" "c_cr2 s2 = c_cr2 s1" "c_mem s2 = c_mem s1"
    using A assms(3) D by (simp add: iret_def Let_def)
  have "run_code g f (move_to_user_mode label) s = run_code g f [Mov_Ax 0x23, Mov_Seg DS, Mov_Seg ES, Mov_Seg FS, Mov_Seg GS] s2"
    using s2(1) by (simp add: move_to_user_mode_def s1_def)
  also have "\<dots> = Some (s2\<lparr>c_regs := (c_regs s2)(EAX := (c_regs s2 EAX AND 0xFFFF0000) OR 0x23), c_segs := (\<lambda>r. if r = CS then 0x1B else 0x23)\<rparr>)"
  proof -
    have "(c_segs s2)(DS := 0x23, ES := 0x23, FS := 0x23, GS := 0x23) = (\<lambda>r. if r = CS then 0x1B else 0x23)"
    proof
      fix r show "((c_segs s2)(DS := 0x23, ES := 0x23, FS := 0x23, GS := 0x23)) r = (if r = CS then 0x1B else 0x23)"
        using s2(2,3) by (cases r) simp_all
    qed
    moreover have "ucast ((x AND 0xFFFF0000) OR (0x23 :: u32)) = (0x23 :: u16)" for x
      by (rule bit_word_eqI) (simp only: bit_simps bit_masks, auto simp: bit_simps)
    ultimately show ?thesis using s2(2) D(7) by (simp add: load_seg_def cpl_def)
  qed
  also have "s2\<lparr>c_regs := (c_regs s2)(EAX := (c_regs s2 EAX AND 0xFFFF0000) OR 0x23), c_segs := (\<lambda>r. if r = CS then 0x1B else 0x23)\<rparr> =
      s\<lparr>c_regs := (c_regs s)(EAX := (c_regs s ESP AND 0xFFFF0000) OR 0x23), c_segs := (\<lambda>r. if r = CS then 0x1B else 0x23),
        c_eip := label, c_eflags := flags_of (pushed_flags (c_eflags s)), c_mem := c_mem s2\<rparr>"
    using s2(4-7) by (intro cpu.equality) (auto simp: s1_def fun_eq_iff)
  finally show ?thesis by blast
qed

section \<open>The processor state of a new process\<close>

text \<open>What the processor loads from the TSS when it switches to a task (kernel/proc/task.c fills it in).\<close>

definition cpu_of_tss :: "tss_t \<Rightarrow> u32 \<Rightarrow> ram \<Rightarrow> cpu" where
  "cpu_of_tss t cr m = \<lparr>c_regs = (\<lambda>r. case r of EAX \<Rightarrow> tss_eax t | ECX \<Rightarrow> tss_ecx t | EDX \<Rightarrow> tss_edx t | EBX \<Rightarrow> tss_ebx t
       | ESP \<Rightarrow> tss_esp t | EBP \<Rightarrow> tss_ebp t | ESI \<Rightarrow> tss_esi t | EDI \<Rightarrow> tss_edi t),
     c_segs = (\<lambda>r. ucast (case r of ES \<Rightarrow> tss_es t | CS \<Rightarrow> tss_cs t | SS \<Rightarrow> tss_ss t | DS \<Rightarrow> tss_ds t | FS \<Rightarrow> tss_fs t | GS \<Rightarrow> tss_gs t)),
     c_eip = tss_eip t, c_eflags = flags_of (tss_eflags t), c_cr2 = cr, c_mem = m\<rparr>"

text \<open>An entry of \<open>tasks\<close> that has not been used yet: its TSS is in zeroed memory.\<close>

definition unused_tss :: "tss_t \<Rightarrow> bool" where
  "unused_tss t \<longleftrightarrow> tss_es t = 0 \<and> tss_fs t = 0 \<and> tss_gs t = 0 \<and> tss_ss0 t = 0"

lemma null_zero [simp]: "null_sel 0" "data_ok g pl 0" "\<not> stack_ok g pl 0"
  by (simp_all add: null_sel_def data_ok_def stack_ok_def descriptor_def)

lemma created_flat:
  assumes "flat_gdt (gdt k)" "created flag eip esp d p k k'" "5 \<le> unat p"
  shows "flat_gdt (gdt k')"
  using assms by (simp add: flat_gdt_def created_def)

text \<open>
  Claim C37: the segments a new process starts with: \<open>create_task\<close> leaves es, fs, gs and ss0 of its
  TSS as they were, null in an entry that is used for the first time. A kernel process can be interrupted and goes on
  as before, but the first copy of a structure in C, \<open>rep movsl\<close>, faults as long as nobody else
  has loaded es. A process with \<open>TASK_FLAG_USER\<close> runs at level 3 and cannot even be interrupted: there is no stack for level 0.
\<close>
theorem new_process_segments:
  assumes "sched_inv 5 6 k" "get_pid_empty k \<noteq> NOT_FOUND" "flat_gdt (gdt k)" "unused_tss (tss (tasks (tm k) (unat (get_pid_empty k))))"
  shows "\<exists>k' p. create_task flag eip esp d k = Inr (k', p) \<and>
    (let t = tss (tasks (tm k') (unat p)); s = cpu_of_tss t cr m in
      c_eip s = eip \<and> c_regs s ESP = esp \<and> bit (c_eflags s) 9 \<and>
      (if flag = TASK_FLAG_KERNEL
       then cpl s = 0 \<and> runs_flat (gdt k') t s \<and> (\<forall>s'. c_segs s' = c_segs s \<longrightarrow> c_regs s' ECX \<noteq> 0 \<longrightarrow> exec (gdt k') f Rep_Movsl s' = None)
       else cpl s = 3 \<and> (\<forall>s' it n err. c_segs s' = c_segs s \<longrightarrow> deliver (gdt k') it t n err s' = None)))"
proof -
  let ?p = "get_pid_empty k"
  obtain k' where k': "create_task flag eip esp d k = Inr (k', ?p)" "sched_inv 5 6 k'" "created flag eip esp d ?p k k'"
    using create_task_inv [OF assms(1,2)] by blast
  have "?p \<in> set (active k')" using k'(3) by (simp add: created_def active_def)
  then have g: "flat_gdt (gdt k')" using created_flat [OF assms(3) k'(3)] sched_invD(4) [OF k'(2)] by blast
  define t where "t = tss (tasks (tm k') (unat ?p))"
  obtain pd where t: "t = new_tss flag eip esp pd (tss (tasks (tm k) (unat ?p)))" using k'(3) by (simp add: t_def created_def)
  have T: "tss_es t = 0" "tss_fs t = 0" "tss_gs t = 0" "tss_ss0 t = 0" "tss_eip t = eip" "tss_esp t = esp" "tss_eflags t = 0x202"
    "tss_cs t = (if flag = 0 then 8 else 0x1B)" "tss_ss t = (if flag = 0 then 0x10 else 0x23)" "tss_ds t = (if flag = 0 then 0x10 else 0x23)"
    using assms(4) unfolding t by (simp_all add: new_tss_def init_segments_def unused_tss_def)
  let ?s = "cpu_of_tss t cr m"
  have S: "c_segs ?s = (\<lambda>r. case r of CS \<Rightarrow> if flag = 0 then 8 else 0x1B | SS \<Rightarrow> if flag = 0 then 0x10 else 0x23
    | DS \<Rightarrow> if flag = 0 then 0x10 else 0x23 | _ \<Rightarrow> 0)"
  proof
    fix r show "c_segs ?s r = (case r of CS \<Rightarrow> if flag = 0 then 8 else 0x1B | SS \<Rightarrow> if flag = 0 then 0x10 else 0x23
      | DS \<Rightarrow> if flag = 0 then 0x10 else 0x23 | _ \<Rightarrow> 0)" using T by (cases r) (simp_all add: cpu_of_tss_def)
  qed
  have fl: "c_eflags ?s = 0x202" using T by (simp add: cpu_of_tss_def flags_of_def)
  have P: "cpl ?s = (if flag = 0 then 0 else 3)" by (simp add: cpl_def S)
  have K: "runs_flat (gdt k') t ?s" if "flag = 0"
    using that g flat_ok(4) [OF g] by (simp add: runs_flat_def runs_at_def S P fl) (simp add: flags_of_def)
  have U: "deliver (gdt k') it t n err s' = None" if "flag \<noteq> 0" "c_segs s' = c_segs ?s" for s' it n err
    using that T(4) by (simp add: deliver_def Let_def cpl_def S split: option.splits)
  have M: "exec (gdt k') f Rep_Movsl s' = None" if "c_segs s' = c_segs ?s" "c_regs s' ECX \<noteq> 0" for s'
    using that by (simp add: rep_movsl_def Let_def S unat_eq_0)
  have E: "c_eip ?s = eip" "c_regs ?s ESP = esp" "bit (c_eflags ?s) 9" using T(5,6) unfolding fl by (simp_all add: cpu_of_tss_def)
  show ?thesis
    using k'(1) K U M P E by (intro exI [of _ k'] exI [of _ ?p]) (simp add: t_def [symmetric] Let_def)
qed

text \<open>The third process after the two idle processes that \<open>sched_init\<close> creates.\<close>

theorem new_process_segments_witness:
  "\<exists>k k'. create_task TASK_FLAG_KERNEL 0x80000000 0x90000FFC 0 k = Inr (k', 7) \<and>
     exec (gdt k') id Rep_Movsl (put_reg ECX 21 (cpu_of_tss (tss (tasks (tm k') 7)) 0 (\<lambda>_. 0))) = None"
proof -
  obtain k k1 where k: "sched_inv 5 6 k" "\<forall>n. 1 \<le> n \<longrightarrow> n < 8192 \<longrightarrow> empty_desc (gdt k n) = (7 \<le> n)"
    "created TASK_FLAG_KERNEL 0 0 0xFF 5 (boot_kernel\<lparr>tm := task_manager_init (tm boot_kernel)\<rparr>) k1"
    "created TASK_FLAG_KERNEL 0 0 0xFF 6 k1 k" using sched_init_ok [OF boot_kernel_ok] by blast
  have pid: "get_pid_empty k = 7" using first_empty [of 7 k] k(2) by simp
  have "flat_gdt (gdt boot_kernel)" by (simp add: flat_gdt_def boot_kernel_def)
  then have g: "flat_gdt (gdt k)" using k(3,4) by (simp add: flat_gdt_def created_def)
  have "tasks (tm k) 7 = tasks (tm boot_kernel) 7"
    using k(3,4) by (auto simp: created_def task_manager_init_def dest!: spec [of _ "7 :: u16"])
  then have u: "unused_tss (tss (tasks (tm k) (unat (get_pid_empty k))))" by (simp add: pid unused_tss_def boot_kernel_def)
  have "get_pid_empty k \<noteq> NOT_FOUND" by (simp add: pid NOT_FOUND_def)
  from new_process_segments [OF k(1) this g u, of TASK_FLAG_KERNEL "0x80000000" "0x90000FFC" 0 0 "\<lambda>_. 0" id] show ?thesis
    by - (rule exI [of _ k], auto simp: Let_def create_task_def pid rbind_eq_Inr)
qed

end
