(* ===== verification/Vectors.thy ===== *)
theory Vectors
  imports Machine Cpu
begin

text \<open>
  The interrupt stubs on the running machine: the segments of the GDT and the gates of the IDT that
  \<open>main\<close> (kernel/init/main.c) sets up stay in place whatever the machine does afterwards, so
  that every interrupt reaches its stub (kernel/time/time_asm.s, kernel/dev/dev_asm.s,
  kernel/mm/mm_asm.s) and the stub returns to the code that was interrupted.
\<close>

section \<open>The tables of the processor\<close>

definition handler_of :: "linker \<Rightarrow> nat \<Rightarrow> u32" where
  "handler_of l v = (if v = 14 then page_fault_handler l else if v = 33 then keyboard_interrupt_handler l
     else if v = 32 then timer_interrupt_handler l else ignore_int l)"

definition tables :: "linker \<Rightarrow> world \<Rightarrow> bool" where
  "tables l w \<longleftrightarrow> flat_gdt (gdt (m_kernel (hw w))) \<and>
     (\<forall>v < 256. idt (pic (m_tty (hw w))) v = make_idt_desc 8 (handler_of l v))"

text \<open>The machine right after \<open>main\<close>, and what it goes on to.\<close>

definition booted :: "linker \<Rightarrow> world \<Rightarrow> bool" where
  "booted l w \<longleftrightarrow> (\<exists>s env m n q. boot_kernel_ok (m_kernel s) \<and> boot_memory_ok (m_kernel s) \<and> clean_memory (mem (m_kernel s)) \<and>
     typed_fs (m_fs s) \<and> main l env s = Inr m \<and> 0 \<le> sint n \<and>
     w = \<lparr>hw = m, sem = semaphore_init n q, swap = DISK_SWAP_START_SECTOR, masked = {}\<rparr>)"

inductive goes_on :: "world \<Rightarrow> world \<Rightarrow> bool" where
  go_refl: "goes_on w w"
| go_step: "goes_on w w1 \<Longrightarrow> possible i w1 \<Longrightarrow> respond i w1 = Inr w2 \<Longrightarrow> goes_on w w2"

lemma booted_started: "booted l w \<Longrightarrow> started w"
  by (auto simp: booted_def intro: started.start)

lemma goes_on_started: "goes_on w w' \<Longrightarrow> started w \<Longrightarrow> started w'"
  by (induction rule: goes_on.induct) (auto intro: started.respond)

lemma booted_tables:
  assumes "booted l w"
  shows "tables l w"
proof -
  obtain s env m n q where b: "boot_kernel_ok (m_kernel s)" "boot_memory_ok (m_kernel s)" "disk_ok (fs_disk (m_fs s))"
    "main l env s = Inr m" "hw w = m" using assms by (auto simp: booted_def typed_fs_def)
  obtain tty m1 st c k fs fs1 where M: "main l env s = Inr (s\<lparr>m_gdtr := lgdt (gdt_addr l) (of_nat (8 * MAX_GDT_TERMS)),
       m_tty := tty\<lparr>screen := c, pic := st\<rparr>, m_kernel := k, m_fs := fs1, m_interrupts := True\<rparr>)" "idtr st = (2047, idt_addr l)"
    "\<forall>v < 256. idt st v = make_idt_desc 8 (if v = 14 then page_fault_handler l
       else if v = 33 then keyboard_interrupt_handler l else if v = 32 then timer_interrupt_handler l else ignore_int l)"
    "memory_init (kernel_pd (m_kernel s)) (page_fault_handler l) (mem (m_kernel s), pic tty) = Inr (m1, st)"
    "mapped_upto m1 (kernel_pd (m_kernel s)) 65536" "cr3 m1 = kernel_pd (m_kernel s)" "bit (cr0 m1) 31"
    "boot_kernel_ok ((m_kernel s)\<lparr>mem := m1\<rparr>)"
    "sched_init (idle_addr l) (idle_stack_0 l) (idle_stack_1 l) ((m_kernel s)\<lparr>mem := m1\<rparr>) = Inr k"
    "fs_init (m_fs s) = Inr fs" "fs_test fs = Inr fs1"
    by (rule main_ok [OF b(1-3), of l env])
  obtain k1 where "created TASK_FLAG_KERNEL (idle_addr l) (idle_stack_0 l) 0xFF 5 ((m_kernel s)\<lparr>mem := m1, tm := task_manager_init (tm (m_kernel s))\<rparr>) k1"
    "created TASK_FLAG_KERNEL (idle_addr l) (idle_stack_1 l) 0xFF 6 k1 k"
    using sched_init_ok [OF M(8), of "idle_addr l" "idle_stack_0 l" "idle_stack_1 l"] M(9) by auto
  then have "flat_gdt (gdt k)" using b(1) by (simp add: flat_gdt_def created_def boot_kernel_ok_def)
  moreover have "m_kernel m = k" "pic (m_tty m) = st" using M(1) b(4) by auto
  ultimately show ?thesis using M(3) by (simp add: tables_def b(5) handler_of_def)
qed

text \<open>Every step of the machine leaves the four segments alone: processes have the entries from 5 on.\<close>

lemma step_segments:
  assumes "step e s s'" "sys_inv s" "sys_inv s'" "1 \<le> n" "n \<le> 4"
  shows "gdt (sys_kernel s') n = gdt (sys_kernel s) n"
proof (cases "is_create e")
  case True
  then obtain flag eip esp d where e: "e = Create flag eip esp d" by (cases e) auto
  let ?k = "sys_kernel s"
  have en: "get_pid_empty ?k \<noteq> NOT_FOUND" "perform e s = Inr s'" using assms(1) by (auto simp: step_iff e)
  from assms(2) have "sched_inv 5 6 ?k" by (simp add: sys_inv_def)
  from create_task_inv [OF this en(1), of flag eip esp d] en(2) have c: "created flag eip esp d (get_pid_empty ?k) ?k (sys_kernel s')"
    by (auto simp: e)
  then have "get_pid_empty ?k \<in> set (active (sys_kernel s'))" by (simp add: created_def active_def)
  then have "5 \<le> unat (get_pid_empty ?k)" using active_bounds [OF assms(3)] by blast
  then show ?thesis using c assms(5) by (simp add: created_def)
next
  case False
  have p: "perform e s = Inr s'" "enabled e s" using assms(1) by (auto simp: step_iff)
  have "n \<noteq> unat (pid_running (tm (sys_kernel s)))" if "e \<in> range Exit"
  proof -
    have "pid_running (tm (sys_kernel s)) \<noteq> NOT_FOUND" using that p(2) by (auto simp: user_running_def running_def)
    then have "pid_running (tm (sys_kernel s)) \<in> set (active (sys_kernel s))" by (simp add: active_def running_list_def)
    then show ?thesis using active_bounds [OF assms(2)] assms(5) by fastforce
  qed
  then show ?thesis using perform_kept(5) [OF p(1) False] by blast
qed

lemma abstracts_segments:
  assumes "abstracts i s s'" "sys_inv s" "sys_inv s'" "1 \<le> n" "n \<le> 4"
  shows "gdt (sys_kernel s') n = gdt (sys_kernel s) n"
proof (cases i)
  case (Exec path)
  then consider "s' = s" | s1 m where "step (Create TASK_FLAG_KERNEL TEMP_CODE_START INIT_ESP_VMA 0xFF) s s1"
      "s' = s1\<lparr>sys_kernel := (sys_kernel s1)\<lparr>mem := m\<rparr>\<rparr>" using assms(1) by auto
  then show ?thesis
  proof cases
    case 2
    then have "sys_inv s1" using assms(3) by (simp add: sys_inv_mem)
    from step_segments [OF 2(1) assms(2) this assms(4,5)] 2(2) show ?thesis by simp
  qed simp
qed (use assms step_segments [OF _ assms(2-5)] in auto)

lemma respond_tables:
  assumes "world_inv w" "possible i w" "respond i w = Inr w'" "tables l w"
  shows "tables l w'"
proof -
  have r: "world_inv w'" "abstracts i (system_of w) (system_of w')" "devices_kept i (hw w) (hw w')"
    using respond_ok [OF assms(1,2)] assms(3) by (auto simp: responds_def)
  have "gdt (m_kernel (hw w')) n = gdt (m_kernel (hw w)) n" if "1 \<le> n" "n \<le> 4" for n
    using abstracts_segments [OF r(2) world_invD(1) [OF assms(1)] world_invD(1) [OF r(1)] that] by (simp add: system_of_def)
  moreover have "idt (pic (m_tty (hw w'))) = idt (pic (m_tty (hw w)))" using r(3) by (simp add: devices_kept_def)
  ultimately show ?thesis using assms(4) by (simp add: tables_def flat_gdt_def)
qed

lemma goes_on_tables: "goes_on w w' \<Longrightarrow> booted l w \<Longrightarrow> tables l w'"
proof (induction rule: goes_on.induct)
  case (go_step w w1 i w2)
  have "world_inv w1" by (rule started_inv [OF goes_on_started [OF go_step.hyps(1) booted_started [OF go_step.prems]]])
  from respond_tables [OF this go_step.hyps(2,3) go_step.IH [OF go_step.prems]] show ?case .
qed (rule booted_tables)

section \<open>Interrupts of the running machine\<close>

text \<open>
  Code of the kernel or of a process with \<open>TASK_FLAG_KERNEL\<close>: it runs at level 0, with data segments it can load again.
  (At level 3 nothing in the code gives the processor a stack to change to; see \<open>new_process_segments\<close>.)
\<close>

definition runs_kernel :: "(nat \<Rightarrow> gdt_desc) \<Rightarrow> cpu \<Rightarrow> bool" where
  "runs_kernel g s \<longleftrightarrow> c_segs s CS = 8 \<and> (\<forall>r \<in> {DS, ES, FS, GS}. data_ok g 0 (c_segs s r)) \<and>
     flags_of (c_eflags s) = c_eflags s \<and> \<not> bit (c_eflags s) 17"

lemma runs_kernel_at: "runs_kernel g s \<Longrightarrow> runs_at g t s"
  by (simp add: runs_kernel_def runs_at_def cpl_def)

text \<open>
  Claim C4: an interrupt is invisible to the code it interrupts, at level 0, where the kernel and all its processes run:
  in every state that the machine gets into after \<open>main\<close>,
  the timer interrupt, the keyboard interrupt and the page fault reach their stub through the
  gate; the stub enters the C handler with its arguments on the stack (the faulting address and the error code); and
  when that has returned, every register, every segment register, the flags, the stack pointer and the program counter
  are as they were, and memory is as the handler left it. The handler has to keep what the calling convention asks of it, and
  the interrupted code has to run with data segments that it could load again.
\<close>
theorem interrupts_transparent:
  assumes "booted l w0" "goes_on w0 w" "runs_kernel (gdt (m_kernel (hw w))) s"
    "(v, err, prog) \<in> {(32, None, timer_stub ra), (33, None, keyboard_stub ra), (14, Some x, page_fault_stub ra)}"
    "\<And>e. deliver (gdt (m_kernel (hw w))) (idt (pic (m_tty (hw w)))) t v err s = Some e \<Longrightarrow>
      obeys_cdecl (c_args err) (c_entry ra err e) (f (c_entry ra err e))"
  shows "\<exists>e. deliver (gdt (m_kernel (hw w))) (idt (pic (m_tty (hw w)))) t v err s = Some e \<and> c_eip e = handler_of l v \<and>
    (let c = c_entry ra err e in at_sp 0 c = ra \<and> (v = 14 \<longrightarrow> at_sp 4 c = c_cr2 s \<and> at_sp 8 c = x) \<and>
       run_code (gdt (m_kernel (hw w))) f prog e = Some (s\<lparr>c_mem := c_mem (f c), c_cr2 := c_cr2 (f c)\<rparr>))"
proof -
  have T: "flat_gdt (gdt (m_kernel (hw w)))" "idt (pic (m_tty (hw w))) v = make_idt_desc 8 (handler_of l v)"
    using goes_on_tables [OF assms(2,1)] assms(4) by (auto simp: tables_def)
  have "runs_flat (gdt (m_kernel (hw w))) t s" using T(1) runs_kernel_at [OF assms(3)] by (simp add: runs_flat_def)
  from stub_transparent [where g = "gdt (m_kernel (hw w))" and it = "idt (pic (m_tty (hw w)))" and h = "handler_of l v" and t = t and n = v and err = err and s = s and ra = ra and f = f and prog = prog, OF this T(2) assms(5)] assms(4)
  show ?thesis by (auto simp: Let_def)
qed

lemma demo_booted: obtains w where "booted demo_linker w"
proof -
  obtain s' where main: "main demo_linker (\<lambda>_ _. 0xFF) demo_machine = Inr s'"
    by (rule main_parts [OF demo_ok(1,2) demo_disk, of demo_linker "\<lambda>_ _. 0xFF"]) blast
  have "booted demo_linker \<lparr>hw = s', sem = semaphore_init 1 demo_sem, swap = DISK_SWAP_START_SECTOR, masked = {}\<rparr>"
    unfolding booted_def
    by (rule exI [of _ demo_machine], rule exI [of _ "\<lambda>_ _. 0xFF"], rule exI [of _ s'], rule exI [of _ 1], rule exI [of _ demo_sem])
      (use demo_ok main in simp)
  then show thesis by (rule that)
qed

theorem interrupts_transparent_witness:
  "\<exists>w e m. booted demo_linker w \<and>
     deliver (gdt (m_kernel (hw w))) (idt (pic (m_tty (hw w)))) undefined 14 (Some 2) demo_cpu = Some e \<and> c_eip e = 0x100400 \<and>
     run_code (gdt (m_kernel (hw w))) (\<lambda>c. c\<lparr>c_regs := (c_regs c)(EAX := 0, ECX := 1)\<rparr>) (page_fault_stub 0x2000) e = Some (demo_cpu\<lparr>c_mem := m\<rparr>)"
proof -
  let ?f = "\<lambda>c :: cpu. c\<lparr>c_regs := (c_regs c)(EAX := 0, ECX := 1)\<rparr>"
  obtain w where w: "booted demo_linker w" by (rule demo_booted)
  let ?g = "gdt (m_kernel (hw w))" and ?it = "idt (pic (m_tty (hw w)))"
  have "flat_gdt ?g" using booted_tables [OF w] by (simp add: tables_def)
  then have r: "runs_kernel ?g demo_cpu" using demo_runs [of ?g] by (simp add: runs_at_def runs_kernel_def demo_cpu_def cpl_def)
  have c: "obeys_cdecl n (c_entry ra err e) (?f (c_entry ra err e))" if "deliver ?g ?it undefined 14 (Some 2) demo_cpu = Some e" for e n ra err
    by (rule demo_cdecl) (simp add: delivered_nt [OF that])
  have "\<exists>e. deliver ?g ?it undefined 14 (Some 2) demo_cpu = Some e \<and> c_eip e = handler_of demo_linker 14 \<and>
    (let c = c_entry 0x2000 (Some 2) e in at_sp 0 c = 0x2000 \<and> ((14 :: nat) = 14 \<longrightarrow> at_sp 4 c = c_cr2 demo_cpu \<and> at_sp 8 c = 2) \<and>
       run_code ?g ?f (page_fault_stub 0x2000) e = Some (demo_cpu\<lparr>c_mem := c_mem (?f c), c_cr2 := c_cr2 (?f c)\<rparr>))"
    by (rule interrupts_transparent [OF w go_refl r _ c]) simp_all
  then obtain e where e: "deliver ?g ?it undefined 14 (Some 2) demo_cpu = Some e" "c_eip e = handler_of demo_linker 14"
    "run_code ?g ?f (page_fault_stub 0x2000) e = Some (demo_cpu\<lparr>c_mem := c_mem (?f (c_entry 0x2000 (Some 2) e)), c_cr2 := c_cr2 (?f (c_entry 0x2000 (Some 2) e))\<rparr>)"
    unfolding Let_def by blast
  have "c_cr2 (?f (c_entry 0x2000 (Some 2) e)) = c_cr2 demo_cpu" using delivered_cr2 [OF e(1)] by simp
  moreover have "demo_cpu\<lparr>c_mem := m, c_cr2 := c_cr2 demo_cpu\<rparr> = demo_cpu\<lparr>c_mem := m\<rparr>" for m by simp
  ultimately have "run_code ?g ?f (page_fault_stub 0x2000) e = Some (demo_cpu\<lparr>c_mem := c_mem (?f (c_entry 0x2000 (Some 2) e))\<rparr>)"
    unfolding e(3) by (simp only:)
  moreover have "c_eip e = 0x100400" using e(2) by (simp add: handler_of_def demo_linker_def)
  ultimately show ?thesis using w e(1) by blast
qed

end
