(* ===== verification/Program_Runs.thy ===== *)
theory Program_Runs
  imports Machine
begin

text \<open>
  What a process has of the running machine: a program that \<open>sys_execve\<close> (kernel/mm/execve.c) has loaded waits in the
  swap area until the page fault of its first instruction (kernel/mm/v_memory.c), and its pages are its own.
\<close>

section \<open>A loaded program until it runs\<close>

text \<open>
  What has to stay as it is so that the first instruction of process \<open>p\<close> is fetched from the
  program it was loaded from: the entry of its code page, and the sectors the entry refers to.
\<close>

definition program_waits :: "u16 \<Rightarrow> u8 list \<Rightarrow> u32 \<Rightarrow> world \<Rightarrow> bool" where
  "program_waits p code sector w \<longleftrightarrow> (let k = m_kernel (hw w) in p \<in> set (active k) \<and>
     present (entry (ram (mem k)) (dir k p) (pdi TEMP_CODE_START)) \<and>
     pte (ram (mem k)) (dir k p) TEMP_CODE_START = SWAP_SECTOR_SET sector \<and> unat sector < 2 ^ 29 \<and>
     disk_read (fs_disk (m_fs (hw w))) (unat sector) 8 = code \<and> unat sector + 8 \<le> unat (swap w))"

text \<open>The inputs that end this: \<open>p\<close> itself exits, or faults on the page.\<close>

fun disturbs :: "input \<Rightarrow> bool" where
  "disturbs (Call (Exit c)) = True"
| "disturbs (Fault_At v e) = (v = TEMP_CODE_START)"
| "disturbs i = False"

fun is_file_call :: "input \<Rightarrow> bool" where
  "is_file_call (File_Call a f) = True"
| "is_file_call i = False"

text \<open>
  The sectors from 1030 on that hold the program are sectors that the file system gives to files as
  well; nothing in the code keeps the two apart (\<open>swap_area_overwritten\<close> in theory \<open>Swap\<close>), so that it has to be asked for.
\<close>

definition swap_kept :: "u32 \<Rightarrow> input \<Rightarrow> world \<Rightarrow> world \<Rightarrow> bool" where
  "swap_kept sector i w w' \<longleftrightarrow> (is_file_call i \<longrightarrow>
     disk_read (fs_disk (m_fs (hw w'))) (unat sector) 8 = disk_read (fs_disk (m_fs (hw w))) (unat sector) 8)"

inductive undisturbed :: "u16 \<Rightarrow> u32 \<Rightarrow> world \<Rightarrow> world \<Rightarrow> bool" where
  und_refl: "undisturbed p sector w w"
| und_step: "undisturbed p sector w w1 \<Longrightarrow> possible i w1 \<Longrightarrow> respond i w1 = Inr w2 \<Longrightarrow>
    (pid_running (tm (m_kernel (hw w1))) = p \<longrightarrow> \<not> disturbs i) \<Longrightarrow> swap_kept sector i w1 w2 \<Longrightarrow> undisturbed p sector w w2"

lemma undisturbed_started: "undisturbed p sector w w1 \<Longrightarrow> started w \<Longrightarrow> started w1"
  by (induction rule: undisturbed.induct) (auto intro: started.respond)

lemma undisturbed_trans: "undisturbed p sector w1 w2 \<Longrightarrow> undisturbed p sector w w1 \<Longrightarrow> undisturbed p sector w w2"
  by (induction rule: undisturbed.induct) (auto intro: und_step)

text \<open>Taking frames and writing in them leaves the page table entry alone, and so does a change to another table.\<close>

lemma waits_grows:
  assumes "program_waits p code sector w" "spaces_ok kpd P (dir (m_kernel (hw w))) (mem (m_kernel (hw w)))" "p \<in> P"
    "grows A (mem (m_kernel (hw w))) (mem (m_kernel (hw w')))" "dir (m_kernel (hw w')) p = dir (m_kernel (hw w)) p"
    "p \<in> set (active (m_kernel (hw w')))"
    "disk_read (fs_disk (m_fs (hw w'))) (unat sector) 8 = code" "unat sector + 8 \<le> unat (swap w')"
  shows "program_waits p code sector w'"
proof -
  have "pd_ok (mem (m_kernel (hw w))) (dir (m_kernel (hw w)) p)" using assms(2,3) by (simp add: spaces_ok_def space_ok_def)
  note G = grows_walk [OF assms(4) this]
  show ?thesis using assms(1,5-8) G(2) [OF pdi_less] G(4) by (simp add: program_waits_def Let_def)
qed

lemma call_kernel:
  assumes "respond (Call e) w = Inr w'"
  obtains s' where "perform e (system_of w) = Inr s'" "m_kernel (hw w') = sys_kernel s'" "m_fs (hw w') = m_fs (hw w)" "swap w' = swap w"
  using assms by (auto simp: rbind_eq_Inr)

lemma event_waits:
  assumes "world_inv w" "program_waits p code sector w" "perform e (system_of w) = Inr s'" "sys_inv s'" "\<not> is_create e"
    "e \<in> range Exit \<Longrightarrow> pid_running (tm (m_kernel (hw w))) \<noteq> p"
    "m_kernel (hw w') = sys_kernel s'" "m_fs (hw w') = m_fs (hw w)" "swap w' = swap w"
  shows "program_waits p code sector w'"
proof -
  let ?k = "m_kernel (hw w)"
  note W = world_invD [OF assms(1)]
  note K = perform_kept [OF assms(3,5)]
  have k: "sys_kernel (system_of w) = ?k" by (simp add: system_of_def)
  have p: "p \<in> set (active ?k)" using assms(2) by (simp add: program_waits_def Let_def)
  have b: "5 \<le> unat p" "unat p < 8192" using active_bounds [OF W(1)] p by (simp_all add: k)
  have "gdt_exact ?k" "gdt_exact (sys_kernel s')" using W(1) assms(4) by (simp_all add: sys_inv_def k)
  moreover have "e \<notin> range Exit \<or> unat p \<noteq> unat (pid_running (tm ?k))" using assms(6) by (metis word_unat_eq_iff)
  then have "empty_desc (gdt (sys_kernel s') (unat p)) = empty_desc (gdt ?k (unat p))" using K(5) [of "unat p"] by (simp only: k)
  ultimately have p': "p \<in> set (active (sys_kernel s'))" using p b unfolding gdt_exact_def by blast
  have "grows {} (mem ?k) (mem (m_kernel (hw w')))" using K(1) by (simp add: assms(7) k grows_refl)
  moreover have "dir (m_kernel (hw w')) p = dir ?k p" using K(3) by (simp add: assms(7) k dir_def)
  ultimately show ?thesis
    using assms(2) p' by (intro waits_grows [OF assms(2) W(4) p]) (simp_all add: assms(7-9) program_waits_def Let_def)
qed

lemma call_waits:
  assumes "world_inv w" "program_waits p code sector w" "possible (Call e) w" "respond (Call e) w = Inr w'"
    "pid_running (tm (m_kernel (hw w))) = p \<longrightarrow> \<not> disturbs (Call e)"
  shows "program_waits p code sector w'"
proof -
  let ?k = "m_kernel (hw w)"
  note W = world_invD [OF assms(1)]
  obtain s' where s': "perform e (system_of w) = Inr s'" "m_kernel (hw w') = sys_kernel s'" "m_fs (hw w') = m_fs (hw w)" "swap w' = swap w"
    by (rule call_kernel [OF assms(4)])
  show ?thesis
  proof (cases "is_create e")
    case False
    have "sys_inv s'" using perform_inv [OF W(1)] assms(3) s'(1) by fastforce
    then show ?thesis by (rule event_waits [OF assms(1,2) s'(1) _ False _ s'(2-4)]) (use assms(5) in auto)
  next
    case True
    then obtain flag eip esp d where e: "e = Create flag eip esp d" by (cases e) auto
    have inv: "sched_inv 5 6 ?k" "get_pid_empty ?k \<noteq> NOT_FOUND" using W(1) assms(3) by (simp_all add: sys_inv_def system_of_def e)
    from create_task_ok [of ?k flag eip esp d] inv obtain k' where k': "create_task flag eip esp d ?k = Inr (k', get_pid_empty ?k)"
      "created flag eip esp d (get_pid_empty ?k) ?k k'" "get_pid_empty ?k \<notin> set (active ?k)" by (auto simp: sched_inv_def)
    have k: "m_kernel (hw w') = k'" using s'(1,2) k'(1) by (auto simp: e system_of_def)
    have p: "p \<in> set (active ?k)" using assms(2) by (simp add: program_waits_def Let_def)
    have "0 < card (low_pages (mem ?k))" using assms(3) True by simp
    from created_spaces(1) [OF W(4) k'(2,3) this] have "grows {dir k' (get_pid_empty ?k)} (mem ?k) (mem (m_kernel (hw w')))" by (simp add: k)
    moreover have "dir (m_kernel (hw w')) p = dir ?k p" using process_dir(2) [OF k'(2)] p k'(3) by (metis k)
    ultimately show ?thesis
      using assms(2) process_dir(5) [OF k'(2)]
      by (intro waits_grows [OF assms(2) W(4) p]) (simp_all add: k s'(3,4) program_waits_def Let_def)
  qed
qed

lemma timer_waits:
  assumes "world_inv w" "program_waits p code sector w" "respond Timer w = Inr w'"
  shows "program_waits p code sector w'"
proof -
  obtain s' where s': "perform Tick (system_of w) = Inr s'" "sys_inv s'" using tick_inv [OF world_invD(1) [OF assms(1)]] by blast
  moreover obtain k where "check_task_affairs (m_kernel (hw w)) = Inr k" "m_kernel (hw w') = k" "m_fs (hw w') = m_fs (hw w)" "swap w' = swap w"
    using assms(3) by (auto simp: on_timer_def Let_def rbind_eq_Inr)
  moreover from this s'(1) have "m_kernel (hw w') = sys_kernel s'" by (auto simp: system_of_def)
  ultimately show ?thesis by (intro event_waits [OF assms(1,2) s']) auto
qed

lemma exec_waits:
  assumes "world_inv w" "program_waits p code sector w" "possible (Exec path) w" "respond (Exec path) w = Inr w'"
  shows "program_waits p code sector w'"
proof (cases "\<exists>f ss. loadable path w f ss")
  case False
  then obtain r f where "load_file_cached path (fs_cached (m_fs (hw w)) 2) (m_fs (hw w)) = Inr (r, f)" "r \<noteq> FILE_RESULT_SUCCESS"
    using assms(3) by auto
  then have "respond (Exec path) w = Inr w" by (simp add: sys_execve_def exec_of_def Let_def)
  then show ?thesis using assms(2,4) by simp
next
  case True
  then obtain f ss where L: "loadable path w f ss" by blast
  let ?k = "m_kernel (hw w)" and ?q = "get_pid_empty (m_kernel (hw w))" and ?dk = "fs_disk (m_fs (hw w))"
  note W = world_invD [OF assms(1)]
  obtain k1 m A data where
    x: "respond (Exec path) w = Inr (w\<lparr>hw := (hw w)\<lparr>m_fs := (m_fs (hw w))\<lparr>fs_disk := disk_write (unat (swap w)) data ?dk\<rparr>,
       m_kernel := k1\<lparr>mem := m\<rparr>\<rparr>, swap := swap w + 8\<rparr>)" "length data = 512 * 8"
    "created TASK_FLAG_KERNEL TEMP_CODE_START INIT_ESP_VMA 0xFF ?q ?k k1" and m: "grows A (mem ?k) m"
    by (rule exec_parts [OF L assms(1)]) blast
  have p: "p \<in> set (active ?k)" "unat sector + 8 \<le> unat (swap w)" "disk_read ?dk (unat sector) 8 = code"
    using assms(2) by (simp_all add: program_waits_def Let_def)
  have "?q \<notin> set (active ?k)"
    using create_task_ok [of ?k] L W(1) by (auto simp: loadable_def sys_inv_def system_of_def sched_inv_def)
  then have d: "dir k1 p = dir ?k p" using process_dir(2) [OF x(3)] p(1) by metis
  have "unat (swap w) < 2 ^ 29" using L by (simp add: loadable_def)
  then have sw: "unat (swap w + 8) = unat (swap w) + 8" by (subst unat_plus_simple [THEN iffD1]) (simp_all add: word_le_nat_alt unat_word_ariths)
  have w': "m_kernel (hw w') = k1\<lparr>mem := m\<rparr>" "fs_disk (m_fs (hw w')) = disk_write (unat (swap w)) data ?dk" "swap w' = swap w + 8"
    using assms(4) x(1) by auto
  have "disk_read (disk_write (unat (swap w)) data ?dk) (unat sector) 8 = code"
    using disk_read_write_disjoint [of "unat sector" 8 "unat (swap w)" data ?dk] p(2,3) x(2) by simp
  then show ?thesis
    using p d m sw process_dir(5) [OF x(3)]
    by (intro waits_grows [OF assms(2) W(4) p(1)]) (simp_all add: w' active_mem dir_def)
qed

lemma fault_waits:
  assumes "world_inv w" "program_waits p code sector w" "possible (Fault_At v e) w" "respond (Fault_At v e) w = Inr w'"
    "pid_running (tm (m_kernel (hw w))) = p \<longrightarrow> v \<noteq> TEMP_CODE_START"
  shows "program_waits p code sector w'"
proof -
  let ?k = "m_kernel (hw w)" and ?c = TEMP_CODE_START
  let ?r = "pid_running (tm ?k)"
  note W = world_invD [OF assms(1)]
  obtain x where x: "?r \<noteq> NOT_FOUND" "swapped_out v x w" "0 < card (low_pages (mem ?k))" using assms(3) by auto
  obtain m f where m: "respond (Fault_At v e) w = Inr (w\<lparr>hw := (hw w)\<lparr>m_kernel := ?k\<lparr>mem := m\<rparr>\<rparr>\<rparr>)"
    "frame_written (table_of (ram (mem ?k)) (dir ?k ?r) (pdi v)) f (mem ?k) m"
    "table_of (ram (mem ?k)) (dir ?k ?r) (pdi v) \<in> own_tables (mem ?k) (dir ?k ?r)"
    "\<And>i. i < 1024 \<Longrightarrow> entry (ram m) (dir ?k ?r) i = entry (ram (mem ?k)) (dir ?k ?r) i"
    "\<And>u. unat u div 4096 \<noteq> unat v div 4096 \<Longrightarrow> present (entry (ram (mem ?k)) (dir ?k ?r) (pdi u)) \<Longrightarrow>
      pte (ram m) (dir ?k ?r) u = pte (ram (mem ?k)) (dir ?k ?r) u"
    by (rule fault_parts [OF assms(1) x, of e]) blast
  have p: "p \<in> set (active ?k)" "present (entry (ram (mem ?k)) (dir ?k p) (pdi ?c))"
    using assms(2) by (simp_all add: program_waits_def Let_def)
  have "entry (ram m) (dir ?k p) (pdi ?c) = entry (ram (mem ?k)) (dir ?k p) (pdi ?c) \<and>
    pte (ram m) (dir ?k p) ?c = pte (ram (mem ?k)) (dir ?k p) ?c"
  proof (cases "p = ?r")
    case True
    have "unat ?c div 4096 \<noteq> unat v div 4096"
    proof
      assume "unat ?c div 4096 = unat v div 4096"
      then have "frame ?c = frame v" by (simp only: word_unat_eq_iff unat_frame)
      then show False using True assms(5) x(2) aligned_frame_eq [of v] by (simp add: swapped_out_def Let_def)
    qed
    then show ?thesis using m(4,5) p(2) True by simp
  next
    case False
    have so: "space_ok (kernel_pd ?k) (mem ?k) (dir ?k q)" if "q \<in> set (active ?k)" for q using W(4) that by (simp add: spaces_ok_def)
    note r = running_active [OF x(1)]
    have "own_tables (mem ?k) (dir ?k p) \<inter> own_tables (mem ?k) (dir ?k ?r) = {}" using W(4) p(1) r False unfolding spaces_ok_def by blast
    moreover have "own_tables (mem ?k) (dir ?k ?r) \<inter> walk_frames (mem ?k) (kernel_pd ?k) = {}" using so [OF r] unfolding space_ok_def by blast
    moreover have "walk_frames (mem ?k) (dir ?k p) \<subseteq> own_tables (mem ?k) (dir ?k p) \<union> walk_frames (mem ?k) (kernel_pd ?k)"
      using so [OF p(1)] by (intro walk_own) (simp add: space_ok_def)
    ultimately have t: "table_of (ram (mem ?k)) (dir ?k ?r) (pdi v) \<notin> walk_frames (mem ?k) (dir ?k p)" using m(3) by blast
    have "pd_ok (mem ?k) (dir ?k p)" using so [OF p(1)] by (simp add: space_ok_def)
    from written_walk(2,4) [OF m(2) this t] p(2) show ?thesis by simp
  qed
  then show ?thesis using assms(2,4) m(1) by (auto simp: program_waits_def Let_def active_mem dir_def)
qed

lemma respond_waits:
  assumes "world_inv w" "program_waits p code sector w" "possible i w" "respond i w = Inr w'"
    "pid_running (tm (m_kernel (hw w))) = p \<longrightarrow> \<not> disturbs i" "swap_kept sector i w w'"
  shows "program_waits p code sector w'"
proof (cases i)
  case (Key env)
  then show ?thesis using assms(2,4) by (auto simp: program_waits_def)
next
  case Timer
  show ?thesis by (rule timer_waits [OF assms(1,2)]) (use assms(4) Timer in simp)
next
  case (Call e)
  show ?thesis by (rule call_waits [OF assms(1,2) assms(3-5) [unfolded Call]])
next
  case (Exec path)
  show ?thesis by (rule exec_waits [OF assms(1,2) assms(3,4) [unfolded Exec]])
next
  case (Fault_At v e)
  show ?thesis by (rule fault_waits [OF assms(1,2) assms(3,4) [unfolded Fault_At]]) (use assms(5) Fault_At in simp)
next
  case (File_Call a f)
  have "m_kernel (hw w') = m_kernel (hw w)" "swap w' = swap w" using assms(4) File_Call by (auto simp: rbind_eq_Inr)
  moreover have "disk_read (fs_disk (m_fs (hw w'))) (unat sector) 8 = disk_read (fs_disk (m_fs (hw w))) (unat sector) 8"
    using assms(6) File_Call by (simp add: swap_kept_def)
  ultimately show ?thesis using assms(2) by (simp add: program_waits_def Let_def)
next
  case (Use_Stack g c)
  then show ?thesis using assms(2,4) by (auto simp: program_waits_def)
qed

lemma undisturbed_waits:
  "undisturbed p sector w w1 \<Longrightarrow> started w \<Longrightarrow> program_waits p code sector w \<Longrightarrow> program_waits p code sector w1"
proof (induction rule: undisturbed.induct)
  case (und_step p sector w w1 i w2)
  have "world_inv w1" using undisturbed_started [OF und_step.hyps(1) und_step.prems(1)] by (rule started_inv)
  from respond_waits [OF this und_step.IH [OF und_step.prems] und_step.hyps(2-5)] show ?case .
qed simp

text \<open>After loading, the program waits.\<close>

lemma exec_loads:
  assumes "loadable path w f ss" "world_inv w"
  defines "k \<equiv> m_kernel (hw w)"
  defines "p \<equiv> get_pid_empty k"
  obtains w' code where "respond (Exec path) w = Inr w'" "program_waits p code (swap w) w'" "length code = 512 * 8"
    "\<forall>i < nat (file_size (fcb f)). code ! i = file_bytes (fs_disk (m_fs (hw w))) ss ! i"
    "has_addr (dir (m_kernel (hw w')) p) INIT_ESP_VMA (mem (m_kernel (hw w')))"
    "card (low_pages (mem k)) \<le> card (low_pages (mem (m_kernel (hw w')))) + 4"
    "rq (m_kernel (hw w')) = rq k @ [p]" "schdule_counter (tm (m_kernel (hw w'))) = schdule_counter (tm k)"
    "masked w' = masked w" "pid_running (tm (m_kernel (hw w'))) = pid_running (tm k)"
proof -
  let ?dk = "fs_disk (m_fs (hw w))"
  obtain k1 m pd A code where
    x: "respond (Exec path) w = Inr (w\<lparr>hw := (hw w)\<lparr>m_fs := (m_fs (hw w))\<lparr>fs_disk := disk_write (unat (swap w)) code ?dk\<rparr>,
       m_kernel := k1\<lparr>mem := m\<rparr>\<rparr>, swap := swap w + 8\<rparr>)"
    "length code = 512 * 8" "\<forall>i < nat (file_size (fcb f)). code ! i = file_bytes ?dk ss ! i"
    "created TASK_FLAG_KERNEL TEMP_CODE_START INIT_ESP_VMA 0xFF p k k1" "dir k1 p = pd"
    "present (entry (ram m) pd (pdi TEMP_CODE_START))" "pte (ram m) pd TEMP_CODE_START = SWAP_SECTOR_SET (swap w)" "has_addr pd INIT_ESP_VMA m" and A: "grows A (mem k) m" "finite A" "card A = 4"
    by (rule exec_parts [OF assms(1,2), folded k_def, folded p_def]) blast
  define w' where "w' = w\<lparr>hw := (hw w)\<lparr>m_fs := (m_fs (hw w))\<lparr>fs_disk := disk_write (unat (swap w)) code ?dk\<rparr>,
       m_kernel := k1\<lparr>mem := m\<rparr>\<rparr>, swap := swap w + 8\<rparr>"
  have d: "dir (k1\<lparr>mem := m\<rparr>) p = pd" by (simp add: x(5) [symmetric] dir_def)
  have w': "m_kernel (hw w') = k1\<lparr>mem := m\<rparr>" "fs_disk (m_fs (hw w')) = disk_write (unat (swap w)) code ?dk" "swap w' = swap w + 8"
    by (simp_all add: w'_def)
  have sw: "unat (swap w) < 2 ^ 29" using assms(1) by (simp add: loadable_def)
  then have "unat (swap w + 8) = unat (swap w) + 8" by (subst unat_plus_simple [THEN iffD1]) (simp_all add: word_le_nat_alt unat_word_ariths)
  then have "program_waits p code (swap w) w'"
    using x(2,6,7) sw process_dir(5) [OF x(4)]
    by (simp add: program_waits_def Let_def w' d active_mem disk_read_write_same)
  moreover have "card (low_pages (mem k)) \<le> card (low_pages m) + 4" using low_count_grows [OF A(1,2)] A(3) by simp
  moreover have "running_list k1 = running_list k" using x(4) by (simp add: created_def)
  then have "pid_running (tm k1) = pid_running (tm k)" by (auto simp: running_list_def split: if_splits)
  moreover have "masked w' = masked w" by (simp add: w'_def)
  ultimately show thesis using x(1-4,8) by (intro that [of w' code]) (simp_all add: w' d w'_def [symmetric] created_def)
qed

section \<open>Properties\<close>

subsection \<open>Address spaces\<close>

lemma mapped_own:
  "has_addr pd v m \<Longrightarrow> ITSELF_END \<le> v \<Longrightarrow> frame (addr_translate pd v m) \<in> own_data m pd"
  by (auto simp: own_data_def space_of_def)

text \<open>
  Claim C3: address spaces stay apart, for processes that call the kernel with interrupts off and as long as
  memory lasts: in every state that the machine reaches from \<open>main\<close> by possible inputs (conditions as in the refinement
  above, among them a free page below 256 MiB for every new process and every page fault, and five for a program), a frame
  that a process has mapped at or above
  256 MiB is no page directory and no page table, neither of \<open>kernel_pd\<close> nor of any process, and
  no other process has it mapped there. (Memory above the kernel was free of words that look like present entries;
  below 256 MiB all processes share the tables of the kernel.)
\<close>
theorem address_spaces_apart:
  assumes "started w" "p \<in> set (active (m_kernel (hw w)))" "ITSELF_END \<le> v"
    "has_addr (dir (m_kernel (hw w)) p) v (mem (m_kernel (hw w)))"
  shows "let k = m_kernel (hw w); a = frame (addr_translate (dir k p) v (mem k)) in
    a \<notin> walk_frames (mem k) (kernel_pd k) \<and> (\<forall>q \<in> set (active k). a \<notin> walk_frames (mem k) (dir k q)) \<and>
    (\<forall>q \<in> set (active k). \<forall>u. q \<noteq> p \<longrightarrow> ITSELF_END \<le> u \<longrightarrow> has_addr (dir k q) u (mem k) \<longrightarrow> frame (addr_translate (dir k q) u (mem k)) \<noteq> a)"
proof -
  let ?k = "m_kernel (hw w)"
  define a where "a = frame (addr_translate (dir ?k p) v (mem ?k))"
  have S: "spaces_ok (kernel_pd ?k) (set (active ?k)) (dir ?k) (mem ?k)" using world_invD(4) [OF started_inv [OF assms(1)]] .
  have so: "space_ok (kernel_pd ?k) (mem ?k) (dir ?k q)" if "q \<in> set (active ?k)" for q using S that by (simp add: spaces_ok_def)
  have a: "a \<in> own_data (mem ?k) (dir ?k p)" unfolding a_def by (rule mapped_own [OF assms(4,3)])
  have k: "a \<notin> walk_frames (mem ?k) (kernel_pd ?k)" using so [OF assms(2)] a unfolding space_ok_def by blast
  have own: "a \<notin> own_tables (mem ?k) (dir ?k q)" if q: "q \<in> set (active ?k)" for q
  proof (cases "q = p")
    case True
    then show ?thesis using so [OF assms(2)] a unfolding space_ok_def by blast
  next
    case False
    then show ?thesis using S assms(2) q a unfolding spaces_ok_def by blast
  qed
  have "a \<notin> walk_frames (mem ?k) (dir ?k q)" if q: "q \<in> set (active ?k)" for q
  proof -
    have "walk_frames (mem ?k) (dir ?k q) \<subseteq> own_tables (mem ?k) (dir ?k q) \<union> walk_frames (mem ?k) (kernel_pd ?k)"
      using so [OF q] by (intro walk_own) (simp add: space_ok_def)
    with k own [OF q] show ?thesis by blast
  qed
  moreover have "frame (addr_translate (dir ?k q) u (mem ?k)) \<noteq> a"
    if "q \<in> set (active ?k)" "q \<noteq> p" "ITSELF_END \<le> u" "has_addr (dir ?k q) u (mem ?k)" for q u
    using mapped_own [OF that(4,3)] S assms(2) that(1,2) a unfolding spaces_ok_def by blast
  ultimately show ?thesis using k unfolding Let_def a_def by blast
qed

theorem address_spaces_apart_witness:
  "\<exists>w p. started w \<and> p \<in> set (active (m_kernel (hw w))) \<and>
     frame (addr_translate (dir (m_kernel (hw w)) p) INIT_ESP_VMA (mem (m_kernel (hw w)))) \<notin>
       walk_frames (mem (m_kernel (hw w))) (kernel_pd (m_kernel (hw w)))"
proof -
  obtain w f where w: "started w" "loadable [117, 115, 114, 47, 0] w f [1026, 1027, 1028]" "get_pid_empty (m_kernel (hw w)) = 7"
    "masked w = {NOT_FOUND}" "pid_running (tm (m_kernel (hw w))) = NOT_FOUND" by (rule demo_started)
  obtain w' code where x: "respond (Exec [117, 115, 114, 47, 0]) w = Inr w'" "program_waits 7 code (swap w) w'"
    "has_addr (dir (m_kernel (hw w')) 7) INIT_ESP_VMA (mem (m_kernel (hw w')))"
    by (rule exec_loads [OF w(2) started_inv [OF w(1)], unfolded w(3)]) blast
  have s: "started w'" by (rule started.respond [OF w(1) _ x(1)]) (use w(2,4,5) in \<open>auto simp: interrupts_on_def running_def system_of_def\<close>)
  have p: "7 \<in> set (active (m_kernel (hw w')))" using x(2) by (simp add: program_waits_def Let_def)
  have "ITSELF_END \<le> INIT_ESP_VMA" by simp
  from address_spaces_apart [OF s p this x(3)] s p show ?thesis by (auto simp: Let_def)
qed

subsection \<open>From the file to the first instruction\<close>

lemma waiting_runs:
  assumes "started w" "program_waits p code sector w" "pid_running (tm (m_kernel (hw w))) = p" "length code = 512 * 8"
    "0 < card (low_pages (mem (m_kernel (hw w))))"
  obtains w' where "respond (Fault_At TEMP_CODE_START e) w = Inr w'" "started w'"
    "\<And>i. i < 4096 \<Longrightarrow> has_addr (dir (m_kernel (hw w')) p) (TEMP_CODE_START + of_nat i) (mem (m_kernel (hw w'))) \<and>
      ram (mem (m_kernel (hw w'))) (addr_translate (dir (m_kernel (hw w')) p) (TEMP_CODE_START + of_nat i) (mem (m_kernel (hw w')))) = code ! i"
proof -
  let ?k = "m_kernel (hw w)" and ?c = TEMP_CODE_START
  have inv: "world_inv w" by (rule started_inv [OF assms(1)])
  have p: "p \<in> set (active ?k)" "disk_read (fs_disk (m_fs (hw w))) (unat sector) 8 = code" using assms(2) by (simp_all add: program_waits_def Let_def)
  have al: "aligned ?c" by (simp add: aligned_def)
  have sw: "swapped_out ?c sector w" using assms(2,3) al by (simp add: swapped_out_def program_waits_def Let_def)
  have "unat p < 8192" using active_bounds [OF world_invD(1) [OF inv]] p(1) by (simp add: system_of_def)
  then have r: "pid_running (tm ?k) \<noteq> NOT_FOUND" using NOT_FOUND_range assms(3) by blast
  obtain m f where m: "respond (Fault_At ?c e) w = Inr (w\<lparr>hw := (hw w)\<lparr>m_kernel := ?k\<lparr>mem := m\<rparr>\<rparr>\<rparr>)"
    "space_of (dir ?k p) m = remap ?c f (space_of (dir ?k p) (mem ?k))" "\<And>i. i < 4096 \<Longrightarrow> ram m (f + of_nat i) = code ! i"
    by (rule fault_parts [OF inv r sw assms(5), of e, unfolded assms(3) p(2)]) blast
  define w' where "w' = w\<lparr>hw := (hw w)\<lparr>m_kernel := ?k\<lparr>mem := m\<rparr>\<rparr>\<rparr>"
  have "possible (Fault_At ?c e) w" using r sw assms(5) by auto
  from started.respond [OF assms(1) this m(1)] have st: "started w'" by (simp only: w'_def)
  have d: "dir (m_kernel (hw w')) p = dir ?k p" "mem (m_kernel (hw w')) = m" by (simp_all add: w'_def dir_def)
  have "has_addr (dir ?k p) (?c + of_nat i) m \<and> addr_translate (dir ?k p) (?c + of_nat i) m = f + of_nat i" if "i < 4096" for i
  proof -
    have "space_of (dir ?k p) m (?c + of_nat i) = Some (f + of_nat i)"
      by (simp add: m(2) remap_def page_offset [OF al that])
    then show ?thesis by (simp add: space_of_def split: if_splits)
  qed
  then show thesis using m(1,3) st by (intro that [of w']) (simp_all add: w'_def [symmetric] d)
qed

text \<open>
  Claim C2: a program gets to run as it was stored, for processes that call the kernel with interrupts off: once
  \<open>sys_execve\<close> has loaded a file on the running machine, then after any sequence of possible inputs (interrupts, system calls,
  page faults, starts of other programs, file calls, other contents of the stack), as soon as the new process has the
  processor and fetches its first instruction, with a free page below 256 MiB, the page fault handler
  gives it a code page with the bytes the file had when it was loaded. Excluded are an exit of the process itself, and
  file calls that change the eight sectors of the swap area that the program was put into: the code does not prevent them
  (\<open>swap_area_overwritten\<close>).
\<close>
theorem loaded_program_runs:
  assumes "started w" "possible (Exec path) w" "loadable path w f ss" "respond (Exec path) w = Inr w1"
    and p: "p = get_pid_empty (m_kernel (hw w))"
    and "undisturbed p (swap w) w1 w2" "pid_running (tm (m_kernel (hw w2))) = p" "0 < card (low_pages (mem (m_kernel (hw w2))))"
  shows "\<exists>w3. respond (Fault_At TEMP_CODE_START e) w2 = Inr w3 \<and> started w3 \<and>
    (let k = m_kernel (hw w3) in \<forall>i < nat (file_size (fcb f)). has_addr (dir k p) (TEMP_CODE_START + of_nat i) (mem k) \<and>
      ram (mem k) (addr_translate (dir k p) (TEMP_CODE_START + of_nat i) (mem k)) = file_bytes (fs_disk (m_fs (hw w))) ss ! i)"
proof -
  obtain code where x: "program_waits p code (swap w) w1" "length code = 512 * 8"
    "\<forall>i < nat (file_size (fcb f)). code ! i = file_bytes (fs_disk (m_fs (hw w))) ss ! i"
    by (rule exec_loads [OF assms(3) started_inv [OF assms(1)], folded p]) (use assms(4) in simp)
  have s1: "started w1" by (rule started.respond [OF assms(1,2,4)])
  have s2: "started w2" by (rule undisturbed_started [OF assms(6) s1])
  obtain w3 where w3: "respond (Fault_At TEMP_CODE_START e) w2 = Inr w3" "started w3"
    "\<And>i. i < 4096 \<Longrightarrow> has_addr (dir (m_kernel (hw w3)) p) (TEMP_CODE_START + of_nat i) (mem (m_kernel (hw w3))) \<and>
      ram (mem (m_kernel (hw w3))) (addr_translate (dir (m_kernel (hw w3)) p) (TEMP_CODE_START + of_nat i) (mem (m_kernel (hw w3)))) = code ! i"
    by (rule waiting_runs [OF s2 undisturbed_waits [OF assms(6) s1 x(1)] assms(7) x(2) assms(8)]) blast
  have "file_size (fcb f) \<le> 4092" using assms(3) by (simp add: loadable_def)
  then have "nat (file_size (fcb f)) \<le> 4096" by simp
  then show ?thesis using w3 x(3) by (intro exI [of _ w3]) (auto simp: Let_def)
qed

text \<open>Timer interrupts in a row are the ticks of the scheduler.\<close>

lemma ticks_run:
  "started w \<Longrightarrow> masked w = {} \<Longrightarrow> ticks n (m_kernel (hw w)) = Inr k \<Longrightarrow>
   \<exists>w'. undisturbed p sector w w' \<and> m_kernel (hw w') = k \<and> mem k = mem (m_kernel (hw w)) \<and> masked w' = {}"
proof (induction n arbitrary: k)
  case (Suc n)
  from Suc.prems(3) obtain k1 where k1: "ticks n (m_kernel (hw w)) = Inr k1" "check_task_affairs k1 = Inr k"
    unfolding ticks_last by (auto simp: rbind_eq_Inr)
  from Suc.IH [OF Suc.prems(1,2) k1(1)] obtain w1 where w1: "undisturbed p sector w w1" "m_kernel (hw w1) = k1"
    "mem k1 = mem (m_kernel (hw w))" "masked w1 = {}" by blast
  have "possible Timer w1" using started_inv [OF undisturbed_started [OF w1(1) Suc.prems(1)]] w1(4)
    by (simp add: world_inv_def interrupts_on_def system_of_def)
  moreover obtain w2 where w2: "respond Timer w1 = Inr w2" "m_kernel (hw w2) = k" "masked w2 = {}"
    using k1(2) w1(4) by (simp add: on_timer_def Let_def w1(2))
  ultimately have "undisturbed p sector w w2" by (intro und_step [OF w1(1) _ w2(1)]) (simp_all add: swap_kept_def)
  moreover have "mem k = mem k1" using check_task_affairs_kept [OF k1(2)] by (simp add: kept_part_def)
  ultimately show ?case using w2(2,3) w1(3) by auto
qed (auto intro: und_refl)

theorem loaded_program_runs_witness:
  "\<exists>w w1 w2 w3. started w \<and> respond (Exec [117, 115, 114, 47, 0]) w = Inr w1 \<and> undisturbed 7 (swap w) w1 w2 \<and>
     respond (Fault_At TEMP_CODE_START 0) w2 = Inr w3 \<and>
     ram (mem (m_kernel (hw w3))) (addr_translate (dir (m_kernel (hw w3)) 7) 0x80000003 (mem (m_kernel (hw w3)))) = 1"
proof -
  obtain w f where w: "started w" "loadable [117, 115, 114, 47, 0] w f [1026, 1027, 1028]" "file_size (fcb f) = 508"
    "get_pid_empty (m_kernel (hw w)) = 7" "rq (m_kernel (hw w)) = [5, 6]" "schdule_counter (tm (m_kernel (hw w))) = 100"
    "file_bytes (fs_disk (m_fs (hw w))) [1026, 1027, 1028] ! 3 = 1" "masked w = {NOT_FOUND}"
    "pid_running (tm (m_kernel (hw w))) = NOT_FOUND" by (rule demo_started)
  obtain w1 where w1: "respond (Exec [117, 115, 114, 47, 0]) w = Inr w1"
    "card (low_pages (mem (m_kernel (hw w)))) \<le> card (low_pages (mem (m_kernel (hw w1)))) + 4"
    "rq (m_kernel (hw w1)) = [5, 6] @ 7 # []" "schdule_counter (tm (m_kernel (hw w1))) = 100"
    "masked w1 = masked w" "pid_running (tm (m_kernel (hw w1))) = pid_running (tm (m_kernel (hw w)))"
    by (rule exec_loads [OF w(2) started_inv [OF w(1)], unfolded w(4-6)]) simp
  have p: "possible (Exec [117, 115, 114, 47, 0]) w" using w(2,8,9) by (auto simp: interrupts_on_def running_def system_of_def)
  have s1: "started w1" by (rule started.respond [OF w(1) p w1(1)])
  define v where "v = w1\<lparr>masked := {}\<rparr>"
  have v: "respond (Call Sti) w1 = Inr v" "possible (Call Sti) w1" using w(8,9) w1(5,6) by (simp_all add: v_def system_of_def running_def)
  have sv: "started v" by (rule started.respond [OF s1 v(2,1)])
  have "sched_inv 5 6 (m_kernel (hw v))" using world_invD(1) [OF started_inv [OF sv]] by (simp add: sys_inv_def system_of_def)
  from ready_runs [OF this, of "[5, 6]" 7 "[]"] w1(3,4) obtain k where k: "ticks 300 (m_kernel (hw v)) = Inr k" "pid_running (tm k) = 7"
    by (auto simp: v_def)
  from ticks_run [OF sv _ k(1), of 7 "swap w"] obtain w2 where w2: "undisturbed 7 (swap w) v w2" "m_kernel (hw w2) = k" "mem k = mem (m_kernel (hw v))"
    by (auto simp: v_def)
  have "undisturbed 7 (swap w) w1 v" by (rule und_step [OF und_refl v(2,1)]) (simp_all add: swap_kept_def)
  from undisturbed_trans [OF w2(1) this] have u: "undisturbed 7 (swap w) w1 w2" .
  have "0 < card (low_pages (mem (m_kernel (hw w2))))" using w(2) w1(2) by (simp add: loadable_def w2(2,3) v_def)
  from loaded_program_runs [OF w(1) p w(2) w1(1) w(4) [symmetric] u _ this, of 0] k(2) obtain w3 where
    w3: "respond (Fault_At TEMP_CODE_START 0) w2 = Inr w3"
    "\<forall>i < 508. ram (mem (m_kernel (hw w3))) (addr_translate (dir (m_kernel (hw w3)) 7) (TEMP_CODE_START + of_nat i) (mem (m_kernel (hw w3)))) =
      file_bytes (fs_disk (m_fs (hw w))) [1026, 1027, 1028] ! i" by (auto simp: w2(2) w(3) Let_def)
  from spec [OF w3(2), of 3] w(7) have "ram (mem (m_kernel (hw w3))) (addr_translate (dir (m_kernel (hw w3)) 7) 0x80000003 (mem (m_kernel (hw w3)))) = 1" by simp
  then show ?thesis using w(1) w1(1) u w3(1) by blast
qed

end
