(* ===== verification/Memory_Use.thy ===== *)
theory Memory_Use
  imports Machine
begin

text \<open>
  What the running machine does with physical memory: pages are taken by kernel/proc/task.c,
  kernel/mm/execve.c and kernel/mm/v_memory.c and never given back, and the kernel may use their
  addresses as pointers, because they lie in the part of memory that every page directory maps to itself.
\<close>

section \<open>One input\<close>

text \<open>
  The pages an input takes: the directory of a new process; for a program also a table and the page of its stack with
  another table; the page that a page fault is answered with.
\<close>

fun pages_taken :: "input \<Rightarrow> world \<Rightarrow> nat" where
  "pages_taken (Call e) w = (if is_create e then 1 else 0)"
| "pages_taken (Exec path) w = (case load_file_cached path (fs_cached (m_fs (hw w)) 2) (m_fs (hw w)) of
     Inr (r, f) \<Rightarrow> if r = FILE_RESULT_SUCCESS then 4 else 0 | Inl _ \<Rightarrow> 0)"
| "pages_taken (Fault_At v e) w = 1"
| "pages_taken _ w = 0"

definition memory_step :: "nat \<Rightarrow> mm_state \<Rightarrow> mm_state \<Rightarrow> bool" where
  "memory_step n m m' \<longleftrightarrow> (\<forall>a. page_used m a \<longrightarrow> page_used m' a) \<and> card (free_pages m') + n = card (free_pages m) \<and>
     (\<forall>a. ram m' a \<noteq> ram m a \<longrightarrow> page_used m' a)"

lemma grows_step: "grows A m m' \<Longrightarrow> finite A \<Longrightarrow> memory_step (card A) m m'"
  using grows_changes [of A m m'] grows_count [of A m m'] by (simp add: memory_step_def)

lemma same_step: "m' = m \<Longrightarrow> memory_step 0 m m'"
  by (simp add: memory_step_def)

lemma call_memory:
  assumes "world_inv w" "possible (Call e) w" "respond (Call e) w = Inr w'"
  shows "memory_step (pages_taken (Call e) w) (mem (m_kernel (hw w))) (mem (m_kernel (hw w')))"
proof -
  let ?k = "m_kernel (hw w)"
  note W = world_invD [OF assms(1)]
  obtain s' where s': "perform e (system_of w) = Inr s'" "m_kernel (hw w') = sys_kernel s'" using assms(3) by (auto simp: rbind_eq_Inr)
  show ?thesis
  proof (cases "is_create e")
    case False
    then show ?thesis using perform_kept(1) [OF s'(1) False] by (simp add: s'(2) system_of_def same_step)
  next
    case True
    then obtain flag eip esp d where e: "e = Create flag eip esp d" by (cases e) auto
    have "sched_inv 5 6 ?k" "get_pid_empty ?k \<noteq> NOT_FOUND" using W(1) assms(2) by (simp_all add: sys_inv_def system_of_def e)
    from create_task_ok [of ?k flag eip esp d] this obtain k' where k': "create_task flag eip esp d ?k = Inr (k', get_pid_empty ?k)"
      "created flag eip esp d (get_pid_empty ?k) ?k k'" "get_pid_empty ?k \<notin> set (active ?k)" by (auto simp: sched_inv_def)
    have "sys_kernel s' = k'" using s'(1) k'(1) by (auto simp: e system_of_def)
    moreover have "0 < card (low_pages (mem ?k))" using assms(2) True by simp
    ultimately show ?thesis
      using grows_step [OF created_spaces(1) [OF W(4) k'(2,3)]] True by (simp add: s'(2))
  qed
qed

lemma exec_memory:
  assumes "world_inv w" "possible (Exec path) w" "respond (Exec path) w = Inr w'"
  shows "memory_step (pages_taken (Exec path) w) (mem (m_kernel (hw w))) (mem (m_kernel (hw w')))"
proof (cases "\<exists>f ss. loadable path w f ss")
  case False
  then obtain r f where r: "load_file_cached path (fs_cached (m_fs (hw w)) 2) (m_fs (hw w)) = Inr (r, f)" "r \<noteq> FILE_RESULT_SUCCESS"
    using assms(2) by auto
  then have "respond (Exec path) w = Inr w" by (simp add: sys_execve_def exec_of_def Let_def)
  then show ?thesis using assms(3) r by (simp add: same_step)
next
  case True
  then obtain f ss where L: "loadable path w f ss" by blast
  obtain k1 m A code where
    "respond (Exec path) w = Inr (w\<lparr>hw := (hw w)\<lparr>m_fs := (m_fs (hw w))\<lparr>fs_disk := disk_write (unat (swap w)) code (fs_disk (m_fs (hw w)))\<rparr>,
       m_kernel := k1\<lparr>mem := m\<rparr>\<rparr>, swap := swap w + 8\<rparr>)" and m: "grows A (mem (m_kernel (hw w))) m" "finite A" "card A = 4"
    by (rule exec_parts [OF L assms(1)]) blast
  then have "mem (m_kernel (hw w')) = m" using assms(3) by auto
  moreover have "pages_taken (Exec path) w = card A" using L m(3) by (simp add: loadable_def)
  ultimately show ?thesis using grows_step [OF m(1,2)] by simp
qed

lemma fault_memory:
  assumes "world_inv w" "possible (Fault_At v e) w" "respond (Fault_At v e) w = Inr w'"
  shows "memory_step (pages_taken (Fault_At v e) w) (mem (m_kernel (hw w))) (mem (m_kernel (hw w')))"
proof -
  let ?k = "m_kernel (hw w)"
  obtain x where x: "pid_running (tm ?k) \<noteq> NOT_FOUND" "swapped_out v x w" "0 < card (low_pages (mem ?k))" using assms(2) by auto
  obtain m f t where "respond (Fault_At v e) w = Inr (w\<lparr>hw := (hw w)\<lparr>m_kernel := ?k\<lparr>mem := m\<rparr>\<rparr>\<rparr>)" "frame_written t f (mem ?k) m"
    by (rule fault_parts [OF assms(1) x, of e]) blast
  then show ?thesis using assms(3) written_changes [of t f "mem ?k" m] by (auto simp: memory_step_def)
qed

lemma respond_memory:
  assumes "world_inv w" "possible i w" "respond i w = Inr w'"
  shows "memory_step (pages_taken i w) (mem (m_kernel (hw w))) (mem (m_kernel (hw w')))"
proof (cases i)
  case Timer
  obtain k where k: "check_task_affairs (m_kernel (hw w)) = Inr k" "m_kernel (hw w') = k"
    using assms(3) Timer by (auto simp: on_timer_def Let_def rbind_eq_Inr)
  then show ?thesis using check_task_affairs_kept [OF k(1)] Timer by (simp add: kept_part_def same_step)
next
  case (Call e)
  show ?thesis using call_memory [OF assms(1) assms(2,3) [unfolded Call]] by (simp only: Call)
next
  case (Exec path)
  show ?thesis using exec_memory [OF assms(1) assms(2,3) [unfolded Exec]] by (simp only: Exec)
next
  case (Fault_At v e)
  show ?thesis using fault_memory [OF assms(1) assms(2,3) [unfolded Fault_At]] by (simp only: Fault_At)
qed (use assms(3) in \<open>auto simp: rbind_eq_Inr intro: same_step\<close>)

section \<open>Properties\<close>

text \<open>Inputs in a row, with the number of pages they take.\<close>

inductive takes :: "nat \<Rightarrow> world \<Rightarrow> world \<Rightarrow> bool" where
  takes_none: "takes 0 w w"
| takes_step: "takes n w w1 \<Longrightarrow> possible i w1 \<Longrightarrow> respond i w1 = Inr w2 \<Longrightarrow> takes (n + pages_taken i w1) w w2"

lemma takes_started: "takes n w w' \<Longrightarrow> started w \<Longrightarrow> started w'"
  by (induction rule: takes.induct) (auto intro: started.respond)

text \<open>
  Claim C16: the memory of a process is never given back. Over any sequence of possible inputs of the running machine (calls of the kernel with
  interrupts off) no page that is in use becomes free, whatever processes have exited in between, and the number of free pages
  falls by exactly one for every process created and for every page fault, and by four for every program started:
  so there are at most as many of these as there are free pages after \<open>main\<close>.
\<close>
theorem exited_processes_keep_memory:
  assumes "started w" "takes n w w'"
  shows "(\<forall>a. page_used (mem (m_kernel (hw w))) a \<longrightarrow> page_used (mem (m_kernel (hw w'))) a) \<and>
    card (free_pages (mem (m_kernel (hw w')))) + n = card (free_pages (mem (m_kernel (hw w))))"
  using assms(2,1)
proof (induction rule: takes.induct)
  case (takes_step n w w1 i w2)
  have "world_inv w1" by (rule started_inv [OF takes_started [OF takes_step.hyps(1) takes_step.prems]])
  from respond_memory [OF this takes_step.hyps(2,3)] takes_step.IH [OF takes_step.prems] show ?case
    by (auto simp: memory_step_def)
qed simp

text \<open>Starting a program takes four pages.\<close>

theorem exited_processes_keep_memory_witness:
  "\<exists>w w'. started w \<and> takes 4 w w' \<and> card (free_pages (mem (m_kernel (hw w')))) + 4 = card (free_pages (mem (m_kernel (hw w))))"
proof -
  obtain w f where w: "started w" "loadable [117, 115, 114, 47, 0] w f [1026, 1027, 1028]" "masked w = {NOT_FOUND}"
    "pid_running (tm (m_kernel (hw w))) = NOT_FOUND" by (rule demo_started)
  have p: "possible (Exec [117, 115, 114, 47, 0]) w" using w(2-4) by (auto simp: interrupts_on_def running_def system_of_def)
  from respond_ok [OF started_inv [OF w(1)] p] obtain w' where w': "respond (Exec [117, 115, 114, 47, 0]) w = Inr w'"
    by (auto simp: responds_def)
  have "pages_taken (Exec [117, 115, 114, 47, 0]) w = 4" using w(2) by (simp add: loadable_def)
  with takes_step [OF takes_none p w'] have t: "takes 4 w w'" by simp
  with exited_processes_keep_memory [OF w(1) t] w(1) show ?thesis by blast
qed

text \<open>
  Claim C35: the kernel can use physical addresses as pointers. It runs with paging on, under the directory of whatever process is running, and
  reads and writes page directories, page tables and new pages at their physical addresses. In every state that the
  running machine reaches by possible inputs this is exact: every page that is in use after an input, and every byte that the input
  changes, is below 256 MiB and is mapped to itself, before and after it, by \<open>kernel_pd\<close> and by the directory of every process.
  (With the lower 256 MiB full, which \<open>possible\<close> excludes, the kernel would write to addresses that are not mapped.)
\<close>
theorem flat_memory_exact:
  assumes "started w" "possible i w" "respond i w = Inr w'"
    "page_used (mem (m_kernel (hw w'))) a \<or> ram (mem (m_kernel (hw w'))) a \<noteq> ram (mem (m_kernel (hw w))) a"
  shows "a < ITSELF_END \<and> (\<forall>k \<in> {m_kernel (hw w), m_kernel (hw w')}. \<forall>pd \<in> insert (kernel_pd k) (dir k ` set (active k)).
    has_addr pd a (mem k) \<and> addr_translate pd a (mem k) = a)"
proof -
  have inv: "world_inv w" by (rule started_inv [OF assms(1)])
  have inv': "world_inv w'" by (rule started_inv [OF started.respond [OF assms(1-3)]])
  have u: "page_used (mem (m_kernel (hw w'))) a" using assms(4) respond_memory [OF inv assms(2,3)] by (auto simp: memory_step_def)
  then have a: "a < ITSELF_END" using world_invD(6) [OF inv'] by (simp add: flat_ok_def)
  have "has_addr pd a (mem k) \<and> addr_translate pd a (mem k) = a"
    if v: "world_inv v" and k: "k = m_kernel (hw v)" and pd: "pd \<in> insert (kernel_pd k) (dir k ` set (active k))" for v k pd
  proof -
    note W = world_invD(4,6) [OF v, folded k]
    have "space_of pd (mem k) a = Some a"
      using pd W a flat_process [OF W(2) _ a] by (auto simp: flat_ok_def spaces_ok_def)
    then show ?thesis by (simp add: space_of_def split: if_splits)
  qed
  with inv inv' a show ?thesis by blast
qed

text \<open>Starting a program writes its new page directory, and the kernel finds it at its physical address.\<close>

theorem flat_memory_exact_witness:
  "\<exists>w w' pd. started w \<and> respond (Exec [117, 115, 114, 47, 0]) w = Inr w' \<and> pd = dir (m_kernel (hw w')) 7 \<and> pd < ITSELF_END \<and>
     addr_translate (kernel_pd (m_kernel (hw w))) pd (mem (m_kernel (hw w))) = pd"
proof -
  obtain w f where w: "started w" "loadable [117, 115, 114, 47, 0] w f [1026, 1027, 1028]" "get_pid_empty (m_kernel (hw w)) = 7"
    "masked w = {NOT_FOUND}" "pid_running (tm (m_kernel (hw w))) = NOT_FOUND" by (rule demo_started)
  have p: "possible (Exec [117, 115, 114, 47, 0]) w" using w(2,4,5) by (auto simp: interrupts_on_def running_def system_of_def)
  obtain k1 m pd A code where
    x: "respond (Exec [117, 115, 114, 47, 0]) w = Inr (w\<lparr>hw := (hw w)\<lparr>m_fs := (m_fs (hw w))\<lparr>fs_disk := disk_write (unat (swap w)) code (fs_disk (m_fs (hw w)))\<rparr>,
       m_kernel := k1\<lparr>mem := m\<rparr>\<rparr>, swap := swap w + 8\<rparr>)" "dir k1 7 = pd" "pd_ok m pd"
    by (rule exec_parts [OF w(2) started_inv [OF w(1)], unfolded w(3)]) blast
  define w' where "w' = w\<lparr>hw := (hw w)\<lparr>m_fs := (m_fs (hw w))\<lparr>fs_disk := disk_write (unat (swap w)) code (fs_disk (m_fs (hw w)))\<rparr>,
       m_kernel := k1\<lparr>mem := m\<rparr>\<rparr>, swap := swap w + 8\<rparr>"
  have r: "respond (Exec [117, 115, 114, 47, 0]) w = Inr w'" by (simp only: x(1) w'_def)
  have d: "dir (m_kernel (hw w')) 7 = pd" "mem (m_kernel (hw w')) = m" using x(2) by (simp_all add: w'_def dir_def)
  have "page_used m pd" using x(3) by (simp add: pd_ok_def)
  with flat_memory_exact [OF w(1) p r, of pd] w(1) r d show ?thesis by (auto simp: d(2))
qed

end
