(* ===== verification/Path_Macro.thy ===== *)
theory Path_Macro
  imports Directory
begin

text \<open>
  The macro \<open>PATH_ANALYSE\<close> of include/comm/fs.h: the loop of \<open>load_file_cached\<close> for any handler of the
  names. Nothing uses it. The handler is a function of the buffer \<open>temp\<close> on a state.
\<close>

function analyse_from :: "u8 list \<Rightarrow> nat \<Rightarrow> nat \<Rightarrow> u8 list \<Rightarrow> nat \<Rightarrow> (u8 list \<Rightarrow> 's \<Rightarrow> 's res) \<Rightarrow> 's \<Rightarrow> 's res" where
  "analyse_from path len i temp j handler s =
     (if i < len then
        if path ! i = 47 then
          rbind (buf_write temp j [0]) (\<lambda>temp1. rbind (handler temp1 s) (\<lambda>s1. analyse_from path len (i + 1) temp1 0 handler s1))
        else rbind (buf_write temp j [path ! i]) (\<lambda>temp1. analyse_from path len (i + 1) temp1 (j + 1) handler s)
      else Inr s)"
  by pat_completeness auto
termination
  by (relation "measure (\<lambda>(path, len, i, temp, j, handler, s). len - i)") auto

declare analyse_from.simps [simp del]

definition PATH_ANALYSE :: "u8 list \<Rightarrow> u8 list \<Rightarrow> (u8 list \<Rightarrow> 's \<Rightarrow> 's res) \<Rightarrow> 's \<Rightarrow> 's res" where
  "PATH_ANALYSE path temp handler s = rbind (strlen path) (\<lambda>len. analyse_from path len 0 temp 0 handler s)"

section \<open>The names of a path, one after the other\<close>

fun handle_names :: "(u8 list \<Rightarrow> 's \<Rightarrow> 's res) \<Rightarrow> u8 list list \<Rightarrow> 's \<Rightarrow> 's res" where
  "handle_names h [] s = Inr s"
| "handle_names h (c # cs) s = rbind (h c s) (handle_names h cs)"

lemma analyse_char:
  assumes "path ! i = x" "x \<noteq> 47" "i < len" "j < length temp"
  shows "analyse_from path len i temp j h s = analyse_from path len (i + 1) (overwrite temp j [x]) (j + 1) h s"
  using assms by (subst analyse_from.simps) (simp add: buf_write_def)

lemma analyse_chars:
  assumes "47 \<notin> set c" "j + length c \<le> length temp" "i + length c \<le> len" "\<And>m. m < length c \<Longrightarrow> path ! (i + m) = c ! m"
  shows "analyse_from path len i temp j h s = analyse_from path len (i + length c) (overwrite temp j c) (j + length c) h s"
  using assms
proof (induction c arbitrary: i j temp)
  case Nil
  then show ?case by (simp add: overwrite_def)
next
  case (Cons x c)
  have "analyse_from path len i temp j h s = analyse_from path len (i + 1) (overwrite temp j [x]) (j + 1) h s"
    using Cons.prems(1-3) Cons.prems(4) [of 0] by (intro analyse_char) auto
  also have "\<dots> = analyse_from path len (i + 1 + length c) (overwrite (overwrite temp j [x]) (j + 1) c) (j + 1 + length c) h s"
    using Cons.prems(1-3) Cons.prems(4) [of "Suc _"] by (intro Cons.IH) (simp_all add: length_overwrite)
  also have "overwrite (overwrite temp j [x]) (j + 1) c = overwrite temp j (x # c)"
    using overwrite_overwrite [of j "[x]" c temp] Cons.prems(2) by simp
  finally show ?case by simp
qed

lemma analyse_names:
  assumes "names_ok cs" "path = pre @ path_of cs @ 0 # rest" "len = length pre + length (path_of cs)"
    "length temp = FILE_NAME_MAXLENGTH" "\<forall>b s. 0 \<in> set b \<longrightarrow> h b s = H (c_str b) s"
  shows "analyse_from path len (length pre) temp 0 h s = handle_names H cs s"
  using assms(1-4)
proof (induction cs arbitrary: pre temp s)
  case Nil
  then show ?case by (subst analyse_from.simps) simp
next
  case (Cons c cs)
  have c: "0 \<notin> set c" "47 \<notin> set c" "length c < 64" "names_ok cs" using Cons.prems(1) by (simp_all add: names_ok_def)
  define t1 where "t1 = overwrite (overwrite temp 0 c) (length c) [0]"
  have t1: "length t1 = 64" "t1 = c @ 0 # drop (Suc (length c)) temp"
    using c Cons.prems(4) overwrite_overwrite [of 0 c "[0]" temp] by (simp_all add: t1_def) (simp add: overwrite_def)
  have IH: "analyse_from path len (length (pre @ c @ [47])) t1 0 h s1 = handle_names H cs s1" for s1
    using Cons.prems(2,3) t1(1) c by (intro Cons.IH) simp_all
  have "path ! (length pre + m) = c ! m" if "m < length c" for m
    using that by (simp add: Cons.prems(2) nth_append)
  then have "analyse_from path len (length pre) temp 0 h s = analyse_from path len (length pre + length c) (overwrite temp 0 c) (length c) h s"
    using analyse_chars [of c 0 temp "length pre" len path h s] c Cons.prems(3,4) by simp
  also have "\<dots> = rbind (h t1 s) (analyse_from path len (length (pre @ c @ [47])) t1 0 h)"
  proof -
    have "path ! (length pre + length c) = 47" "length pre + length c < len" by (simp_all add: Cons.prems(2,3) nth_append)
    moreover have "buf_write (overwrite temp 0 c) (length c) [0] = Inr t1" using c Cons.prems(4) by (simp add: t1_def buf_write_def)
    ultimately show ?thesis by (subst analyse_from.simps) (simp add: add.assoc)
  qed
  also have "h t1 s = H c s" using assms(5) c by (simp add: t1(2) c_str_append)
  finally show ?case using IH by (simp cong: rbind_cong)
qed

text \<open>
  For a handler that looks at its argument as a string, the macro handles the names of the path one after the other and
  stops at the first fault; a first name of 64 bytes or more does not fit into \<open>temp\<close>.
\<close>

theorem path_analyse_handles_names:
  assumes "length temp = FILE_NAME_MAXLENGTH" "\<forall>b s. 0 \<in> set b \<longrightarrow> h b s = H (c_str b) s"
  shows "names_ok cs \<Longrightarrow> PATH_ANALYSE (path_of cs @ 0 # rest) temp h s = handle_names H cs s"
    and "64 \<le> length c \<Longrightarrow> 0 \<notin> set c \<Longrightarrow> 47 \<notin> set c \<Longrightarrow> PATH_ANALYSE (c @ 47 # 0 # rest) temp h s = Inl Out_Of_Bounds"
proof -
  show "PATH_ANALYSE (path_of cs @ 0 # rest) temp h s = handle_names H cs s" if "names_ok cs"
    using analyse_names [OF that _ _ assms, of _ "[]" rest "length (path_of cs)" s] path_no_zero [OF that]
    by (simp add: PATH_ANALYSE_def strlen_eq)
  assume c: "64 \<le> length c" "0 \<notin> set c" "47 \<notin> set c"
  let ?path = "c @ 47 # 0 # rest" and ?d = "take 64 c"
  have d: "length ?d = 64" "47 \<notin> set ?d" using c by (auto dest: in_set_takeD)
  have "?path ! (0 + m) = ?d ! m" if "m < length ?d" for m using that c(1) by (simp add: nth_append)
  then have "analyse_from ?path (length c + 1) 0 temp 0 h s = analyse_from ?path (length c + 1) (0 + length ?d) (overwrite temp 0 ?d) (0 + length ?d) h s"
    using d c(1) assms(1) by (intro analyse_chars) simp_all
  also have "\<dots> = analyse_from ?path (length c + 1) 64 (overwrite temp 0 ?d) 64 h s" by (simp only: d(1) add_0)
  also have "\<dots> = Inl Out_Of_Bounds"
    using c assms(1) by (subst analyse_from.simps) (simp add: buf_write_def)
  finally have "analyse_from ?path (length c + 1) 0 temp 0 h s = Inl Out_Of_Bounds" .
  moreover have "strlen ?path = Inr (length c + 1)" using c(2) c_str_append [of "c @ [47]" rest] by (simp add: strlen_eq)
  ultimately show "PATH_ANALYSE ?path temp h s = Inl Out_Of_Bounds" by (simp add: PATH_ANALYSE_def)
qed

end
