(* ===== verification/File_Reopen.thy ===== *)
theory File_Reopen
  imports File_Create
begin

text \<open>
  Writing, opening again and reading together: what a file of the root directory holds after a
  write is found on the disk by anybody who opens it by its path.
\<close>

text \<open>A cached file, and the entry of the root directory it was loaded from.\<close>

definition open_file :: "fs_state \<Rightarrow> file_cached_t \<Rightarrow> u8 list \<Rightarrow> u32 list \<Rightarrow> nat \<Rightarrow> u32 list \<Rightarrow> bool" where
  "open_file s f name ss i ds \<longleftrightarrow> last_sector (fcb f) = last ss \<and> in_root s f i ds \<and> names_ok [name] \<and>
     dir_on (fs_disk s) (root_fcb s) ds \<and> first_entry (fs_disk s) (root_fcb s) ds (name @ [0]) = Some i \<and>
     entry_at (fs_disk s) ds i = fcb f \<and> set ds \<inter> set ss = {} \<and> 1024 \<notin> set (ss @ ds) \<and>
     sectors_used (1024 # ss @ ds) (file_alloc_bitmap s)"

lemma writtenD:
  assumes "written s f ss p xs i ds ns s' f'"
  shows "disk_ok (fs_disk s')" "file_on (fs_disk s') (fcb f') (ss @ ns)"
    "content (fs_disk s') (ss @ ns) (fcb f') = inserted p xs (content (fs_disk s) ss (fcb f))"
    "file_size (fcb f') = file_size (fcb f) + int (length xs)"
proof -
  from assms have W: "disk_ok (fs_disk s')" "file_on (fs_disk s') (fcb f') (ss @ ns)"
    "content (fs_disk s') (ss @ ns) (fcb f') = inserted p xs (content (fs_disk s) ss (fcb f))"
    and E: "fcb f' = (fcb f)\<lparr>last_sector := last (ss @ ns), sector_count := of_nat (length (ss @ ns)),
      file_size := file_size (fcb f) + int (length xs)\<rparr>"
    unfolding written_def by blast+
  then show "disk_ok (fs_disk s')" "file_on (fs_disk s') (fcb f') (ss @ ns)"
    "content (fs_disk s') (ss @ ns) (fcb f') = inserted p xs (content (fs_disk s) ss (fcb f))" by blast+
  show "file_size (fcb f') = file_size (fcb f) + int (length xs)" using arg_cong [OF E, of file_size] by simp
qed

lemma same_names:
  assumes "\<forall>j. file_name (entry_at dk' ds j) = file_name (entry_at dk ds j)" "chain dk' (first_sector d) ds" "dir_on dk d ds"
  shows "dir_on dk' d ds" "first_entry dk' d ds name = first_entry dk d ds name"
  using assms by (simp_all add: dir_on_def file_on_def first_entry_def)

lemma reopened:
  assumes o: "open_file s f name ss i ds" and w: "written s f ss p xs i ds ns s' f'" and t: "fs_disk t = fs_disk s'"
    and c: "length (parent_dir_name (path_state c)) = FILE_PATH_MAXLENGTH"
  shows "\<exists>g. load_file_cached (path_of [name] @ 0 # rest) c t = Inr (FILE_RESULT_SUCCESS, g) \<and> fcb g = fcb f'"
proof -
  have "fcb f = entry_at (fs_disk s) ds i" and dir: "dir_on (fs_disk s) (root_fcb s) ds"
    "first_entry (fs_disk s) (root_fcb s) ds (name @ [0]) = Some i" "names_ok [name]"
    using o by (simp_all add: open_file_def)
  moreover have W: "disk_ok (fs_disk s')" "root_fcb s' = root_fcb s" "chain (fs_disk s') (first_sector (root_fcb s)) ds"
    "\<forall>j. entry_at (fs_disk s') ds j = (if j = i then fcb f' else entry_at (fs_disk s) ds j)"
    "file_name (fcb f') = file_name (fcb f)"
    using w by (simp_all add: written_def)
  ultimately have "\<forall>j. file_name (entry_at (fs_disk s') ds j) = file_name (entry_at (fs_disk s) ds j)" by simp
  note N = same_names [OF this W(3) dir(1)]
  have "root_fcb t = root_fcb s'" by (simp add: root_fcb_def read_block_eq t)
  then have "dir_on (fs_disk t) (root_fcb t) ds" "first_entry (fs_disk t) (root_fcb t) ds (name @ [0]) = Some i"
    using N dir(2) W(2) by (simp_all add: t)
  from open_one [OF W(1) [folded t] this dir(3) c, of rest] W(4) show ?thesis by (auto simp: t)
qed



end
