(* ===== verification/Format.thy ===== *)
theory Format
  imports C_String
begin

text \<open>
  \<open>vsprintf\<close> of kernel/lib/string.c, which is compiled only with \<open>DEPRECATED\<close>. The
  stack frame of the call is the list of its bytes from the address of the parameter \<open>fmt\<close>
  upwards: four bytes of the pointer, then the arguments. The function returns no value.
\<close>

section \<open>The operations\<close>

text \<open>
  \<open>((uint32_t)&fmt) + 1\<close> adds one to a number, not to a pointer: \<open>args\<close> points one byte
  behind the start of \<open>fmt\<close>, not behind its end. \<open>args_index\<close> stays 0.
\<close>

definition first_arg :: "u8 list \<Rightarrow> u32 res" where
  "first_arg frame = rbind (buf_read frame 1 4) (\<lambda>bs. Inr (un_le32 bs))"

text \<open>
  The loop that copies the digits: \<open>src\<close> and \<open>dest\<close> advance, and both are indexed by \<open>i\<close>,
  which advances as well. \<open>d\<close> is the index in \<open>buf\<close> where the number starts.
\<close>

function copy_digits :: "u8 list \<Rightarrow> nat \<Rightarrow> nat \<Rightarrow> u8 list \<Rightarrow> nat \<Rightarrow> (u8 list \<times> nat) res" where
  "copy_digits num_text d i buf buf_index =
     (if i < length num_text then
        if num_text ! i \<noteq> 0 then
          if i + i < length num_text
          then rbind (buf_write buf (d + i + i) [num_text ! (i + i)]) (\<lambda>buf'. copy_digits num_text d (i + 1) buf' (buf_index + 1))
          else Inl Out_Of_Bounds
        else Inr (buf, buf_index)
      else Inl Out_Of_Bounds)"
  by pat_completeness auto
termination
  by (relation "measure (\<lambda>(num_text, d, i, buf, buf_index). length num_text - i)") auto

declare copy_digits.simps [simp del]

fun format_loop :: "u8 list \<Rightarrow> bool \<Rightarrow> u8 list \<Rightarrow> u8 list \<Rightarrow> nat \<Rightarrow> u8 list \<Rightarrow> u8 list res" where
  "format_loop [] fmt_symbol_encountered frame buf buf_index num_text = Inr buf"
| "format_loop (c # cs) fmt_symbol_encountered frame buf buf_index num_text =
     (if c = 37 then format_loop cs True frame buf buf_index num_text
      else if fmt_symbol_encountered then
        if c = 120 then
          rbind (first_arg frame) (\<lambda>w.
          rbind (itoa (sint w) 0x10 num_text) (\<lambda>num_text'.
          rbind (copy_digits num_text' buf_index 0 buf buf_index) (\<lambda>(buf', buf_index').
            format_loop cs False frame buf' buf_index' num_text')))
        else format_loop cs False frame buf buf_index num_text
      else rbind (buf_write buf buf_index [c]) (\<lambda>buf'. format_loop cs False frame buf' (buf_index + 1) num_text))"

text \<open>\<open>num_text\<close> is the uninitialised local array of 32 bytes.\<close>

definition vsprintf :: "u8 list \<Rightarrow> u8 list \<Rightarrow> u8 list \<Rightarrow> u8 list \<Rightarrow> u8 list res" where
  "vsprintf buf fmt frame num_text =
     rbind (strlen fmt) (\<lambda>len. format_loop (take len fmt) False frame buf 0 num_text)"

section \<open>What it does\<close>

lemma format_loop_plain:
  "37 \<notin> set t \<Longrightarrow> i + length t \<le> length buf \<Longrightarrow>
   format_loop t False frame buf i num_text = Inr (overwrite buf i t)"
proof (induction t arbitrary: i buf)
  case Nil
  then show ?case by (simp add: overwrite_def)
next
  case (Cons c t)
  have "length (overwrite buf i [c]) = length buf" using Cons.prems by (simp add: length_overwrite)
  moreover have "overwrite (overwrite buf i [c]) (Suc i) t = overwrite buf i (c # t)"
    using Cons.prems by (simp add: overwrite_def min_def add.commute)
  ultimately show ?case
    using Cons.prems Cons.IH [of "Suc i" "overwrite buf i [c]"] by (simp add: buf_write_def)
qed

text \<open>Text without a percent sign is copied, and no terminator behind it.\<close>

theorem vsprintf_plain:
  assumes "0 \<notin> set t" "37 \<notin> set t" "length t \<le> length buf"
  shows "vsprintf buf (t @ 0 # rest) frame num_text = Inr (t @ drop (length t) buf)"
  using format_loop_plain [OF assms(2), of 0] assms by (simp add: vsprintf_def strlen_eq overwrite_def)

text \<open>
  What is printed for \<open>%x\<close> is made of three bytes of the pointer \<open>fmt\<close> and the lowest byte of the
  first argument; nothing else of the arguments is ever looked at.
\<close>

lemma first_arg_frame: "first_arg (le32 p @ le32 a @ more) = Inr (un_le32 (drop 1 (le32 p) @ [ucast a]))"
  by (simp add: first_arg_def buf_read_def le32_def slice_def)

lemma format_loop_frame:
  "first_arg frame = first_arg frame' \<Longrightarrow>
   format_loop t flag frame buf i nt = format_loop t flag frame' buf i nt"
  by (induction t arbitrary: flag buf i nt) simp_all

theorem vsprintf_ignores_argument:
  assumes "ucast a = (ucast b :: u8)"
  shows "vsprintf buf fmt (le32 p @ le32 a @ more) num_text = vsprintf buf fmt (le32 p @ le32 b @ more') num_text"
proof -
  have "first_arg (le32 p @ le32 a @ more) = first_arg (le32 p @ le32 b @ more')" by (simp add: first_arg_frame assms)
  from format_loop_frame [OF this] show ?thesis by (simp add: vsprintf_def)
qed

text \<open>The number 0x1234 loses every second digit and overtakes the end of its place.\<close>

theorem vsprintf_hex_garbled:
  "vsprintf (replicate 8 0x2E) [37, 120, 33, 0] (0 # le32 0x1234 @ [0, 0, 0]) (replicate 32 0)
   = Inr [0x31, 0x2E, 0x33, 0x2E, 33, 0x2E, 0, 0x2E]"
  by code_simp

end
