(* ===== verification/Spec2Isabelle.thy ===== *)
theory Spec2Isabelle
  imports Vectors Program_Runs Memory_Use Path_Macro File_Types File_Reopen Bit_Allocation C_String Format Console Descriptors Interrupt Timer Keyboard Paging System Disk
begin

text \<open>
  \<^bold>\<open>WegOS, a 32-bit x86 kernel, and what is proved about it.\<close>

  The program. A boot sector loads two loaders; \<open>src/loader/loader_16.c\<close> switches the processor
  to protected mode and \<open>src/loader/loader_32.c\<close> copies the kernel to its place. \<open>main\<close>
  (\<open>src/kernel/init/main.c\<close>) starts the components one after the other: the whole GDT, the
  interrupt controllers, the interval timer, keyboard and screen, paging, the scheduler with two
  idle processes, the file system and a test file. From then on everything happens in interrupts:
  the timer interrupt wakes sleeping processes and ends time slices; the keyboard interrupt echoes
  characters; the page fault handler loads pages from the swap area of the disk; system calls, which are
  plain C functions that the processes call, let a process sleep, exit, wait for semaphores and use files. \<open>sys_execve\<close> joins file system, virtual
  memory and process management: it reads a program file, puts its bytes into the swap area and
  creates a process whose first instruction faults on the page.

  \<^bold>\<open>Theories and sources.\<close>

  \<^item> \<open>Prelude\<close>: the integer types of \<open>include/comm/stdint.h\<close> as words, the faults of the model,
    the result type \<open>'a res\<close> (a fault or a value) with its \<open>rbind\<close>, byte layout of 32-bit
    values, and the collections \<open>byte_layout\<close>, \<open>queue_simps\<close>, \<open>frame_simps\<close>.
  \<^item> \<open>Bit_Ops\<close> (\<open>lib/bit.c\<close>), \<open>Bit_Allocation\<close> (\<open>lib/bit_allocation.c\<close>),
    \<open>Pid_Queue\<close> (\<open>lib/data_struct.c\<close>), \<open>C_String\<close> and \<open>Format\<close>
    (\<open>lib/string.c\<close>): the library.
  \<^item> \<open>Port_IO\<close> (\<open>include/comm/asm.h\<close>), \<open>Console\<close> (\<open>dev/console.c\<close>),
    \<open>Keyboard\<close> (\<open>dev/keyboard.c\<close>), \<open>Timer\<close> (\<open>time/time.c\<close>),
    \<open>Interrupt\<close> (\<open>interrupt/interrupt.c\<close>), \<open>Descriptors\<close> (\<open>include/comm/gdt.h\<close>),
    \<open>Disk\<close> (\<open>include/comm/disk.h\<close>): devices and tables of the processor.
  \<^item> \<open>Memory\<close>, \<open>Paging\<close> and \<open>Address_Space\<close> (\<open>mm/memory.c\<close>), \<open>Swap\<close> (\<open>mm/v_memory.c\<close>),
    \<open>Execve\<close> (\<open>mm/execve.c\<close>): memory.
  \<^item> \<open>Task\<close> (\<open>proc/task.c\<close>), \<open>Sched\<close> and \<open>Sched_Safety\<close> (\<open>proc/sched.c\<close>),
    \<open>Semaphore\<close> (\<open>proc/semaphore.c\<close>), \<open>System\<close> (all of them as one transition
    system): processes.
  \<^item> \<open>File_System\<close> (all functions of \<open>fs/fs.c\<close> and the structures of \<open>include/comm/fs.h\<close>),
    \<open>File_Read\<close>, \<open>File_Write\<close>, \<open>Directory\<close>, \<open>File_Insert\<close>, \<open>File_Grow\<close>, \<open>File_Create\<close>, \<open>File_Reopen\<close>,
    \<open>File_Types\<close> (what they do), \<open>Path_Macro\<close> (the macro \<open>PATH_ANALYSE\<close>): files.
  \<^item> \<open>Boot\<close>: the loaders, \<open>main\<close>, the body of the timer interrupt, the ticket sellers.
  \<^item> \<open>Frames\<close>: which physical pages a process owns (its directory and tables, the pages it has
    mapped), over \<open>mm/memory.c\<close> and \<open>mm/v_memory.c\<close>; specification and lemmas only.
  \<^item> \<open>Machine\<close>: everything after \<open>main\<close> as one machine: its state \<open>world\<close> is the state of \<open>main\<close> with
    the semaphore, the interrupt flags of the processes and the static counter of \<open>swap_alloc\<close>, its inputs are the two interrupts, the
    system calls, \<open>sys_execve\<close>, the file calls, the page fault and a change of what uninitialised stack holds, each answered by
    the modelled C function (\<open>respond\<close>). \<open>Program_Runs\<close> follows a program from its file to its first instruction,
    \<open>Memory_Use\<close> the physical pages of the machine.
  \<^item> \<open>Cpu\<close>: the assembly stubs of the interrupt handlers (\<open>dev/dev_asm.s\<close>, \<open>time/time_asm.s\<close>,
    \<open>mm/mm_asm.s\<close>, \<open>interrupt/interrupt_start.s\<close>) and the macros of \<open>include/comm/asm.h\<close> for flags and
    privilege, as lists of instructions (\<open>timer_stub\<close> and so on) run on registers, segments and a stack.
  \<^item> \<open>Vectors\<close>: the stubs behind the gates of the running machine.

  \<^bold>\<open>How state corresponds.\<close> A C structure is a record with the same fields, an array of the
  kernel a function or a list of its length, a pointer into a buffer the list of the bytes from
  there on, the physical memory a function from addresses to bytes (so that page directories,
  page tables and the frames they map share it, as in the code), the disk a function from sector
  numbers to sectors. Global variables are fields of the state of their component:
  \<open>bitmap_t\<close>, \<open>pid_queue_t\<close>, \<open>cursor_state\<close>, \<open>keyboard\<close>, \<open>interrupt_state\<close>,
  \<open>mm_state\<close> (\<open>memory_alloc_bitmap\<close>, \<open>ram\<close>, the control registers), \<open>vm_state\<close>
  (memory, disk and the number of the next swap sector), \<open>kernel\<close> (\<open>tasks\<close>, \<open>gdt\<close>, \<open>task_manager\<close>, memory), \<open>fs_state\<close>
  (the disk, \<open>file_alloc_bitmap\<close>, the screen), and \<open>machine\<close> in \<open>Boot\<close>. Every
  function that can go wrong returns \<open>Inl\<close> of a fault: an access outside an object
  (\<open>Out_Of_Bounds\<close>), a loop without end (\<open>Hang\<close>: the \<open>while (true)\<close> panics of the
  code, a status register that never becomes ready, or a pointer chase that does not stop), a
  division by zero, a page fault inside the page fault handler. Unsigned integers and the counters of the scheduler keep
  their width; wrap-around is that of the words. The sizes, positions and lengths of the file system, which are \<open>int\<close> in the
  code, are mathematical integers: overflow of \<open>int\<close> is undefined in C, and the theorems bound the sums below 2^31.

  \<^bold>\<open>Interfaces.\<close> \<open>slot_allocator\<close> states what the users of a bitmap rely on and is
  interpreted by the functions of \<open>bit_allocation.c\<close> (\<open>bitmap\<close>); \<open>fifo_queue\<close> states
  what the scheduler relies on and is interpreted by the ring buffer (\<open>pq\<close>), with the list
  of its elements as abstraction; \<open>ata_disk\<close> states what an ATA controller answers on its
  ports (command registers, busy and ready status, data words in order, nothing about commands while it is busy) and is interpreted
  by a controller with one pending command and a counter of polls for which it is busy (\<open>ata\<close>), the driver \<open>disk.h\<close> being the client; \<open>page_map\<close> and its
  extension \<open>page_loader\<close> state what mapping and loading one page do to an address space, with what follows
  for sequences of pages, and are interpreted by \<open>set_mmap\<close>, \<open>p_malloc\<close> and \<open>load_memory\<close> (\<open>tables\<close>).

  \<^bold>\<open>What the groups of lemmas show.\<close>

  \<^item> The machine (C1, C2, C3, C16, C35): from \<open>main\<close> on, every sequence of possible interrupts, system calls, program starts,
    file calls and page faults is handled without fault and refines the abstract system of processes (C1); a program that
    \<open>sys_execve\<close> has loaded starts with the bytes of its file, whatever possible inputs come before it gets to run, as long as no file
    call writes into its part of the swap area (C2); the pages of a process are never page tables and never those of another
    process (C3); pages are never given back (C16); the physical addresses the kernel uses are all mapped to themselves (C35).
  \<^item> The stubs (C4, C37): in every state after \<open>main\<close> an interrupt of code at level 0 reaches its stub and gives back
    every register (C4); what the segments of a new process allow, and what they do not (C37): at level 3
    the kernel provides no stack for an interrupt.
  \<^item> The system (C5, C14, C15, C38): from every state that \<open>sched_init\<close> can start from, every sequence of
    timer ticks, system calls and process creations runs without fault; each process is in one
    place, with the recorded state that belongs to it; the semaphore counts its waiting
    processes. The bounds on events (a free GDT entry and a free page, fewer than seven blocked processes, one semaphore,
    counts in 16 bits, interrupts off during a call) are where the code stops being right: C39 shows it
    for two semaphores, and C38 for a call of \<open>wait\<close> with interrupts on.
  \<^item> Scheduling (C17 to C21, C28): a ready process gets the processor after exactly as many ticks as its place in
    the queue says, time slices rotate the circle of the processes that can run, ticks count down all sleepers
    and wake exactly those that reach 0, a new process disturbs no other, semaphores block and wake in
    the order of arrival.
  \<^item> Memory (C12, C13, C27, C31, C32): sequences of \<open>set_mmap\<close> and \<open>load_memory\<close> against
    the map that a page directory stands for, the identity map of \<open>memory_init\<close>, the page allocator, swap
    sectors in absent entries, and the page fault handler.
  \<^item> Programs (C7): the file is found, read, swapped out and faulted in, byte by byte.
  \<^item> Files (C8 to C11, C22 to C24, C33, C34, C36): a file is a chain of blocks; reading and seeking are those of the list of its
    bytes, and so are overwriting, growing and inserting for writes that cross at most one block border, also
    for whoever opens the file afterwards (C9); a write over a whole block destroys the chain (C34); a path is a search for
    its names; a changed entry replaces the old one in its directory; a created file is
    found, until a stale index overwrites its entry (C36).
  \<^item> Devices and library (C25, C26, C29, C30, C40): the disk driver against every
    controller that keeps to the standard (for writing up to the flush command, which it sends too early), the ring buffer against lists,
    \<open>itoa\<close> against numbers, the keyboard against the characters of a US keyboard.
  \<^item> Starting (C6): \<open>main\<close>.

  \<^bold>\<open>Bounds and fuel.\<close> Loops over the ring buffer have the fuel \<open>ring_fuel\<close> = 8193, one more
  than the ring has indices: it runs out only when the index never meets \<open>tail\<close>. The identity
  map has 2^20 rounds, after which its address wraps (C31 shows when they suffice). Polling the
  disk has its fuel as an argument and the theorems need only as much as the controller says.
  \<open>sell_loop\<close> gets as many rounds as there are tickets. Chains of blocks are walked by
  recursion on the number of blocks the code counts. Panic loops that only print are \<open>Hang\<close>.

  \<^bold>\<open>Parameters.\<close> Addresses the linker assigns and entry points of assembly stubs (record
  \<open>linker\<close>), the answers of the ports (\<open>port_env\<close>, which sees all writes so far), the disk
  controller (\<open>device\<close>), what uninitialised stack buffers hold (a field of \<open>fs_state\<close>: the same within a call, and anything else in the next,
  by the input \<open>Use_Stack\<close> of the machine and in C9 and C10), and in \<open>Cpu\<close> the
  C function that a stub calls, which has to keep what the calling convention says (\<open>obeys_cdecl\<close>).

  \<^bold>\<open>What the machine assumes.\<close> Interrupt handlers run with interrupts off, because their gates are interrupt gates, so that an
  interrupt is one step. System calls are not: they are called by processes that start with interrupts on and do not touch the flag. The machine and
  the system keep the interrupt flag of each process, with \<open>cli\<close> and \<open>sti\<close> as events, and have a call as one step while it is clear, as
  for the calls that \<open>main\<close> makes before its \<open>sti\<close>. The code does not ask this of a process (the ticket sellers of main.c, which are not started,
  call \<open>sys_exit\<close> with interrupts on); the properties are about processes that keep to it, and \<open>preempted_wait_panics\<close> (C38) shows that others
  can break the kernel. \<open>possible\<close> in \<open>Machine\<close> says when an input can happen: creating
  a process needs a free page below 256 MiB, loading a program five and a file of at most 4092 bytes; a page fault is
  at the start of a page whose entry holds a swap sector (C32 shows what happens inside a page). Memory above the
  kernel is free of words that look like present page table entries when \<open>main\<close> starts (\<open>clean_memory\<close>), because
  the code does not clear new tables. The C functions are those of C: that a process created by the kernel cannot
  copy a structure, because of its null es, is a fact about its segments (C37), not about the functions.

  \<^bold>\<open>Not modelled.\<close> The boot sector, the start code in assembly and the jump of the idle process; a task
  switch is the far jump the C code asks for, and what the processor then loads from the TSS is \<open>cpu_of_tss\<close>.
  The table \<open>opened_files\<close> is not used by the code. The size of the stack: it has 4096 bytes (\<open>KERNEL_STACK_SIZE\<close> in main.c), of which
  \<open>dir_search_file\<close> uses 43008 for its local array alone, and \<open>temp\<close> in \<open>sys_write\<close> and \<open>code_buf\<close> in
  \<open>sys_execve\<close> 4096 each, so that the kernel relies on what lies below its stack not being needed; the model keeps local variables apart from
  everything else. Errors of the disk, and what a controller makes of the early flush command: the file system and the swap area are modelled over a disk
  that completes each write. What \<open>Read_File\<close> of \<open>File_Types\<close> has read goes to its caller and is not part of the state. The ticket
  sellers, which print between system calls, are modelled without interruption.
\<close>

end
